(* ===== verification/Prelude.thy ===== *)
theory Prelude
  imports Main "HOL-Library.Word" "HOL-Library.AList" "HOL-Library.Sublist"
    "HOL-Library.Char_ord" "HOL-Library.List_Lexorder"
begin

text \<open>
  Shared vocabulary of the development: the Go types the components use (instants, durations,
  machine words, byte strings), the few functions of Go's standard library they call, and
  generic lemmas on lists, association lists and words.

  Conventions:
  \<^item> \<open>time.Time\<close> is an \<open>instant\<close>: nanoseconds since Go's zero time (1 January of year 1), so the
    zero \<open>Time\<close> is \<open>0\<close> and \<open>IsZero\<close> is \<open>= 0\<close>. Clock readings are those of the monotonic
    clock. \<open>time.Duration\<close> is an \<open>int\<close> number of nanoseconds; \<open>Time.Sub\<close> saturates at the
    64-bit bounds exactly as Go's does.
  \<^item> A Go \<open>string\<close> or \<open>[]byte\<close> is a list of bytes (\<open>string\<close>, one \<open>char\<close> per byte).
  \<^item> A Go map that is iterated is an association list with distinct keys; its order is the
    iteration order Go happens to pick, so a theorem about every such list covers every order.
\<close>

section \<open>Collections of facts\<close>

named_theorems go_defs \<open>definitions of the standard-library functions the code calls\<close>
named_theorems step_defs \<open>definitions of the operations of the components\<close>
named_theorems inv_defs \<open>definitions of the components' invariants\<close>

section \<open>Machine integers\<close>

type_synonym u8 = "8 word"
type_synonym u16 = "16 word"
type_synonym u32 = "32 word"
type_synonym u64 = "64 word"

lemma unat_word_inc:
  fixes w :: "'a::len word"
  assumes "w \<noteq> - 1"
  shows "unat (w + 1) = unat w + 1"
  using assms by (metis Suc_eq_plus1 add.commute add_eq_0_iff unatSuc)

lemma word_less_inc:
  fixes w :: "'a::len word"
  assumes "w \<noteq> - 1"
  shows "w < w + 1"
  using unat_word_inc[OF assms] by (simp add: word_less_nat_alt)

lemma word_le_less_inc:
  fixes v w :: "'a::len word"
  assumes "w \<noteq> - 1" "v \<le> w"
  shows "v < w + 1"
  using word_less_inc[OF assms(1)] assms(2) by (rule order.strict_trans1[rotated])

section \<open>Time\<close>

type_synonym instant = int
type_synonym duration = int

definition max_duration :: duration where "max_duration = 2 ^ 63 - 1"
definition min_duration :: duration where "min_duration = - (2 ^ 63)"

definition millisecond :: duration where "millisecond = 1000000"
definition second :: duration where "second = 1000 * millisecond"
definition minute :: duration where "minute = 60 * second"

text \<open>\<open>time.Time.Sub\<close>: the difference, saturated to the range of a \<open>Duration\<close>.\<close>

definition time_sub :: "instant \<Rightarrow> instant \<Rightarrow> duration" where
  "time_sub t u = max min_duration (min max_duration (t - u))"

definition is_zero :: "instant \<Rightarrow> bool" where
  "is_zero t \<longleftrightarrow> t = 0"

lemmas duration_defs = max_duration_def min_duration_def millisecond_def second_def minute_def

text \<open>Saturation never shows in a comparison with a duration a program can name.\<close>

lemma le_time_sub_iff:
  "min_duration < d \<Longrightarrow> d \<le> max_duration \<Longrightarrow> d \<le> time_sub t u \<longleftrightarrow> d \<le> t - u"
  by (auto simp: time_sub_def duration_defs)

lemma le_time_sub_D: "min_duration < d \<Longrightarrow> d \<le> time_sub t u \<Longrightarrow> d \<le> t - u"
  by (auto simp: time_sub_def duration_defs)

lemma time_sub_small:
  "min_duration \<le> t - u \<Longrightarrow> t - u \<le> max_duration \<Longrightarrow> time_sub t u = t - u"
  by (simp add: time_sub_def)

lemma time_sub_same [simp]: "time_sub t t = 0"
  by (simp add: time_sub_def duration_defs)

text \<open>Go's integer division truncates towards zero.\<close>

definition go_quot :: "int \<Rightarrow> int \<Rightarrow> int" where
  "go_quot a b = sgn a * sgn b * (\<bar>a\<bar> div \<bar>b\<bar>)"

lemma go_quot_nonneg [simp]: "0 \<le> a \<Longrightarrow> 0 < b \<Longrightarrow> go_quot a b = a div b"
  by (cases "a = 0") (simp_all add: go_quot_def)

section \<open>Lists\<close>

lemma find_SomeD: "List.find P xs = Some x \<Longrightarrow> x \<in> set xs \<and> P x"
  by (induction xs) (auto split: if_splits)

text \<open>What was kept of a sequence, one element at a time: kept at the end, or left out.\<close>

lemma subseq_snoc_keep: "subseq xs ys \<Longrightarrow> subseq (xs @ [z]) (ys @ [z])"
  by (rule list_emb_append_mono) auto

lemma subseq_snoc_drop: "subseq xs ys \<Longrightarrow> subseq xs (ys @ [z])"
  using list_emb_append_mono[of "(=)" xs ys "[]" "[z]"] by simp

lemma subseq_length: "subseq xs ys \<Longrightarrow> length xs \<le> length ys"
  by (rule list_emb_length)

end
