(* ===== verification/Notify_Ring.thy ===== *)
theory Notify_Ring
  imports Prelude
begin

text \<open>
  \<open>internal/notify/ring.go\<close> and the entry type of \<open>internal/notify/notify.go\<close>: the notification
  record and the fixed-capacity ring of discrete history. The ring is the record the code has (a
  buffer, the index of the oldest entry, the number of entries), with the modular indexing of the
  code. Its contract is the locale \<open>bounded_history\<close>, interpreted on the ring at the end.
\<close>

section \<open>Notifications\<close>

type_synonym severity = string
type_synonym category = string
type_synonym kind = string

definition SeverityError :: severity where "SeverityError = ''error''"
definition SeverityWarning :: severity where "SeverityWarning = ''warning''"
definition SeverityInfo :: severity where "SeverityInfo = ''info''"

definition CategoryDevice :: category where "CategoryDevice = ''device''"
definition CategoryAudio :: category where "CategoryAudio = ''audio''"
definition CategoryStream :: category where "CategoryStream = ''stream''"
definition CategorySystem :: category where "CategorySystem = ''system''"
definition CategoryConfig :: category where "CategoryConfig = ''config''"

definition KindEvent :: kind where "KindEvent = ''event''"
definition KindOnset :: kind where "KindOnset = ''onset''"
definition KindClear :: kind where "KindClear = ''clear''"

record notification =
  n_ID :: u64
  n_BootID :: string
  n_Time :: instant
  n_UptimeMs :: int
  n_Severity :: severity
  n_Category :: category
  n_Kind :: kind
  n_Key :: string
  n_Source :: string
  n_Title :: string
  n_Message :: string

text \<open>The zero value of the Go struct, which fills a fresh buffer.\<close>

definition zero_notification :: notification where
  "zero_notification = \<lparr>n_ID = 0, n_BootID = '''', n_Time = 0, n_UptimeMs = 0, n_Severity = '''',
     n_Category = '''', n_Kind = '''', n_Key = '''', n_Source = '''', n_Title = '''',
     n_Message = ''''\<rparr>"

section \<open>The ring\<close>

record ring =
  r_buf :: "notification list"
  r_head :: nat
  r_size :: nat

definition newRing :: "int \<Rightarrow> ring" where
  "newRing capacity =
     (let capacity' = (if capacity < 1 then 1 else capacity)
      in \<lparr>r_buf = replicate (nat capacity') zero_notification, r_head = 0, r_size = 0\<rparr>)"

definition ring_push :: "notification \<Rightarrow> ring \<Rightarrow> ring" where
  "ring_push n r =
     (if r_size r < length (r_buf r)
      then r\<lparr>r_buf := (r_buf r)[(r_head r + r_size r) mod length (r_buf r) := n],
             r_size := r_size r + 1\<rparr>
      else r\<lparr>r_buf := (r_buf r)[r_head r := n],
             r_head := (r_head r + 1) mod length (r_buf r)\<rparr>)"

text \<open>The slot of the \<open>i\<close>-th oldest entry.\<close>

definition ring_slot :: "ring \<Rightarrow> nat \<Rightarrow> nat" where
  "ring_slot r i = (r_head r + i) mod length (r_buf r)"

text \<open>The loop over the held entries stops at the first one with the wanted ID.\<close>

definition ring_replace :: "notification \<Rightarrow> ring \<Rightarrow> bool \<times> ring" where
  "ring_replace n r =
     (case find (\<lambda>i. n_ID (r_buf r ! ring_slot r i) = n_ID n) [0..<r_size r] of
        Some i \<Rightarrow> (True, r\<lparr>r_buf := (r_buf r)[ring_slot r i := n]\<rparr>)
      | None \<Rightarrow> (False, r))"

definition ring_all :: "ring \<Rightarrow> notification list" where
  "ring_all r = map (\<lambda>i. r_buf r ! ring_slot r i) [0..<r_size r]"

section \<open>Invariant\<close>

definition ring_inv :: "ring \<Rightarrow> bool" where [inv_defs]:
  "ring_inv r \<longleftrightarrow> 0 < length (r_buf r) \<and> r_head r < length (r_buf r) \<and> r_size r \<le> length (r_buf r)"

definition ring_cap :: "ring \<Rightarrow> nat" where
  "ring_cap r = length (r_buf r)"

lemma ring_inv_new [simp]: "ring_inv (newRing c)"
  by (simp add: ring_inv_def newRing_def Let_def)

lemma ring_inv_push [simp]: "ring_inv r \<Longrightarrow> ring_inv (ring_push n r)"
  by (auto simp: ring_inv_def ring_push_def)

lemma ring_inv_replace [simp]: "ring_inv r \<Longrightarrow> ring_inv (snd (ring_replace n r))"
  by (auto simp: ring_inv_def ring_replace_def split: option.splits)

lemma ring_cap_push [simp]: "ring_cap (ring_push n r) = ring_cap r"
  by (simp add: ring_cap_def ring_push_def)

lemma ring_cap_replace [simp]: "ring_cap (snd (ring_replace n r)) = ring_cap r"
  by (simp add: ring_cap_def ring_replace_def split: option.splits)

lemma ring_all_new [simp]: "ring_all (newRing c) = []"
  by (simp add: ring_all_def newRing_def Let_def)

lemma length_ring_all [simp]: "length (ring_all r) = r_size r"
  by (simp add: ring_all_def)

lemma nth_ring_all: "i < r_size r \<Longrightarrow> ring_all r ! i = r_buf r ! ring_slot r i"
  by (simp add: ring_all_def)

text \<open>Distinct positions of the window occupy distinct slots.\<close>

lemma mod_add_inj:
  fixes h i j n :: nat
  assumes "i < n" "j < n" "(h + i) mod n = (h + j) mod n"
  shows "i = j"
proof -
  have *: "i = j" if "i \<le> j" "j < n" "(h + j) mod n = (h + i) mod n" for i j :: nat
  proof -
    from that have "n dvd (h + j) - (h + i)" by (simp add: mod_eq_dvd_iff_nat)
    then have "n dvd j - i" by simp
    with that show ?thesis by (metis diff_is_0_eq dvd_imp_le le_antisym less_imp_diff_less not_le zero_less_diff)
  qed
  show ?thesis
    using *[of i j] *[of j i] assms by (cases "i \<le> j") auto
qed

lemma ring_slot_inj:
  "ring_inv r \<Longrightarrow> i < length (r_buf r) \<Longrightarrow> j < length (r_buf r) \<Longrightarrow>
     ring_slot r i = ring_slot r j \<Longrightarrow> i = j"
  unfolding ring_slot_def by (rule mod_add_inj)

lemma ring_slot_less [simp]: "ring_inv r \<Longrightarrow> ring_slot r i < length (r_buf r)"
  by (simp add: ring_slot_def ring_inv_def)

text \<open>The abstract push: append, forgetting the oldest entry at capacity.\<close>

definition bounded_push :: "nat \<Rightarrow> 'a list \<Rightarrow> 'a \<Rightarrow> 'a list" where
  "bounded_push cap xs x = (if length xs < cap then xs @ [x] else tl xs @ [x])"

lemma ring_push_room:
  assumes inv: "ring_inv r" and room: "r_size r < length (r_buf r)"
  shows "ring_all (ring_push n r) = ring_all r @ [n]"
proof (rule nth_equalityI)
  show "length (ring_all (ring_push n r)) = length (ring_all r @ [n])"
    using room by (simp add: ring_push_def)
next
  fix i assume "i < length (ring_all (ring_push n r))"
  then have i: "i < r_size r + 1" using room by (simp add: ring_push_def)
  show "ring_all (ring_push n r) ! i = (ring_all r @ [n]) ! i"
  proof (cases "i = r_size r")
    case True
    then show ?thesis
      using inv room by (simp add: nth_ring_all ring_push_def ring_slot_def nth_append ring_inv_def)
  next
    case False
    with i have i': "i < r_size r" by simp
    then have "ring_slot r (r_size r) \<noteq> ring_slot r i"
      using ring_slot_inj[OF inv, of "r_size r" i] room by auto
    with i' room show ?thesis
      by (simp add: nth_ring_all ring_push_def ring_slot_def nth_append)
  qed
qed

lemma ring_push_full:
  assumes inv: "ring_inv r" and full: "r_size r = length (r_buf r)"
  shows "ring_all (ring_push n r) = tl (ring_all r) @ [n]"
proof (rule nth_equalityI)
  from inv full have pos: "0 < r_size r" by (simp add: ring_inv_def)
  have push: "ring_push n r = r\<lparr>r_buf := (r_buf r)[r_head r := n],
      r_head := (r_head r + 1) mod length (r_buf r)\<rparr>"
    using full by (simp add: ring_push_def)
  then show "length (ring_all (ring_push n r)) = length (tl (ring_all r) @ [n])"
    using pos by simp
  fix i assume "i < length (ring_all (ring_push n r))"
  then have i: "i < r_size r" by (simp add: push)
  have slot: "ring_slot (ring_push n r) i = ring_slot r (Suc i)"
    by (simp add: push ring_slot_def mod_add_left_eq)
  have lhs: "ring_all (ring_push n r) ! i = (r_buf r)[r_head r := n] ! ring_slot r (Suc i)"
  proof -
    have "ring_all (ring_push n r) ! i = r_buf (ring_push n r) ! ring_slot (ring_push n r) i"
      using i by (intro nth_ring_all) (simp add: push)
    then show ?thesis by (simp only: slot) (simp add: push)
  qed
  show "ring_all (ring_push n r) ! i = (tl (ring_all r) @ [n]) ! i"
  proof (cases "Suc i = r_size r")
    case True
    then have "ring_slot r (Suc i) = r_head r"
      using full inv by (simp add: ring_slot_def ring_inv_def)
    moreover have "i = length (tl (ring_all r))" using True by simp
    ultimately show ?thesis using inv unfolding lhs by (simp only: nth_append_length) (simp add: ring_inv_def)
  next
    case False
    with i have i': "Suc i < r_size r" by simp
    have "ring_slot r 0 = r_head r" using inv by (simp add: ring_slot_def ring_inv_def)
    then have "r_head r \<noteq> ring_slot r (Suc i)"
      using ring_slot_inj[OF inv, of 0 "Suc i"] i' full inv by (auto simp: ring_inv_def)
    with i' show ?thesis unfolding lhs by (simp add: nth_ring_all nth_append nth_tl)
  qed
qed

lemma ring_all_push:
  assumes "ring_inv r"
  shows "ring_all (ring_push n r) = bounded_push (ring_cap r) (ring_all r) n"
proof (cases "r_size r < length (r_buf r)")
  case True
  with ring_push_room[OF assms True] show ?thesis by (simp add: bounded_push_def ring_cap_def)
next
  case False
  with assms have "r_size r = length (r_buf r)" by (simp add: ring_inv_def)
  with ring_push_full[OF assms this] show ?thesis by (simp add: bounded_push_def ring_cap_def)
qed

text \<open>The whole history: the ring holds the newest entries, as many as fit.\<close>

lemma bounded_push_drop:
  "0 < cap \<Longrightarrow> bounded_push cap (drop (length xs - cap) xs) x = drop (length (xs @ [x]) - cap) (xs @ [x])"
  by (auto simp: bounded_push_def drop_Suc[symmetric] Suc_diff_le tl_drop drop_tl)

lemma fold_push_inv: "ring_inv r \<Longrightarrow> ring_inv (fold ring_push ns r)"
  by (induction ns arbitrary: r) auto

lemma fold_push_cap: "ring_cap (fold ring_push ns r) = ring_cap r"
  by (induction ns arbitrary: r) auto

lemma ring_cap_new: "ring_cap (newRing c) = nat (max 1 c)"
  by (simp add: ring_cap_def newRing_def Let_def max_def)

lemma fold_push_all:
  "ring_all (fold ring_push ns (newRing c)) = drop (length ns - nat (max 1 c)) ns"
proof (induction ns rule: rev_induct)
  case Nil
  show ?case by simp
next
  case (snoc n ns)
  have "ring_all (fold ring_push (ns @ [n]) (newRing c)) =
      bounded_push (nat (max 1 c)) (ring_all (fold ring_push ns (newRing c))) n"
    by (simp add: ring_all_push fold_push_inv fold_push_cap ring_cap_new)
  also have "\<dots> = drop (length (ns @ [n]) - nat (max 1 c)) (ns @ [n])"
    unfolding snoc by (rule bounded_push_drop) simp
  finally show ?case .
qed

text \<open>Replacement rewrites the one entry that carries the ID and nothing else.\<close>

lemma find_upt_None: "find P [0..<k] = None \<longleftrightarrow> (\<forall>i<k. \<not> P i)"
  by (auto simp: find_None_iff)

lemma find_upt_Some: "find P [0..<k] = Some i \<Longrightarrow> i < k \<and> P i \<and> (\<forall>j<i. \<not> P j)"
  by (auto simp: find_Some_iff nth_append)

lemma ring_all_replace_nth:
  assumes "ring_inv r" "i < r_size r"
  shows "ring_all (r\<lparr>r_buf := (r_buf r)[ring_slot r i := n]\<rparr>) = (ring_all r)[i := n]"
proof (rule nth_equalityI)
  fix j assume "j < length (ring_all (r\<lparr>r_buf := (r_buf r)[ring_slot r i := n]\<rparr>))"
  then have j: "j < r_size r" by simp
  have slot: "ring_slot (r\<lparr>r_buf := (r_buf r)[ring_slot r i := n]\<rparr>) j = ring_slot r j"
    by (simp add: ring_slot_def)
  have le: "r_size r \<le> length (r_buf r)" using assms by (simp add: ring_inv_def)
  have "ring_slot r i = ring_slot r j \<longleftrightarrow> i = j"
    using ring_slot_inj[OF assms(1), of i j] assms(2) j le by auto
  then show "ring_all (r\<lparr>r_buf := (r_buf r)[ring_slot r i := n]\<rparr>) ! j = (ring_all r)[i := n] ! j"
    using assms j by (simp add: nth_ring_all slot nth_list_update)
qed simp

lemma ring_replace_found:
  assumes "ring_inv r"
  shows "fst (ring_replace n r) \<longleftrightarrow> n_ID n \<in> n_ID ` set (ring_all r)"
  by (force simp: ring_replace_def ring_all_def find_upt_None image_image split: option.splits
      dest!: find_upt_Some)

lemma ring_all_replace:
  assumes inv: "ring_inv r" and dist: "distinct (map n_ID (ring_all r))"
  shows "ring_all (snd (ring_replace n r)) =
    map (\<lambda>m. if n_ID m = n_ID n then n else m) (ring_all r)"
proof (cases "find (\<lambda>i. n_ID (r_buf r ! ring_slot r i) = n_ID n) [0..<r_size r]")
  case None
  then have "\<forall>m \<in> set (ring_all r). n_ID m \<noteq> n_ID n"
    by (auto simp: find_upt_None ring_all_def)
  then have "map (\<lambda>m. if n_ID m = n_ID n then n else m) (ring_all r) = ring_all r"
    by (intro map_idI) auto
  with None show ?thesis by (simp add: ring_replace_def)
next
  case (Some i)
  note fnd = find_upt_Some[OF Some]
  have "(ring_all r)[i := n] = map (\<lambda>m. if n_ID m = n_ID n then n else m) (ring_all r)"
  proof (rule nth_equalityI)
    fix j assume "j < length ((ring_all r)[i := n])"
    then have j: "j < r_size r" by simp
    have "n_ID (ring_all r ! j) = n_ID n \<longleftrightarrow> j = i"
      using dist fnd j nth_eq_iff_index_eq[OF dist, of j i] by (auto simp: nth_ring_all)
    then show "(ring_all r)[i := n] ! j = map (\<lambda>m. if n_ID m = n_ID n then n else m) (ring_all r) ! j"
      using j by (auto simp: nth_list_update)
  qed simp
  with Some fnd show ?thesis
    by (simp add: ring_replace_def ring_all_replace_nth[OF inv])
qed

section \<open>The contract of the history\<close>

text \<open>
  What the notification center relies on: pushing appends and forgets at most the oldest entries,
  and the held entries stay in ascending ID order as long as the pushed IDs ascend.
\<close>

locale bounded_history =
  fixes push :: "notification \<Rightarrow> 'r \<Rightarrow> 'r"
    and replace :: "notification \<Rightarrow> 'r \<Rightarrow> 'r"
    and entries :: "'r \<Rightarrow> notification list"
    and cap :: "'r \<Rightarrow> nat"
    and inv :: "'r \<Rightarrow> bool"
  assumes inv_push: "inv r \<Longrightarrow> inv (push n r)"
    and inv_replace: "inv r \<Longrightarrow> inv (replace n r)"
    and cap_push: "cap (push n r) = cap r"
    and cap_replace: "cap (replace n r) = cap r"
    and cap_pos: "inv r \<Longrightarrow> 0 < cap r"
    and entries_push: "inv r \<Longrightarrow> entries (push n r) = bounded_push (cap r) (entries r) n"
    and entries_replace: "inv r \<Longrightarrow> distinct (map n_ID (entries r)) \<Longrightarrow>
      entries (replace n r) = map (\<lambda>m. if n_ID m = n_ID n then n else m) (entries r)"
begin

lemma set_entries_push: "inv r \<Longrightarrow> set (entries (push n r)) \<subseteq> insert n (set (entries r))"
  by (cases "entries r") (auto simp: entries_push bounded_push_def split: if_splits)

lemma in_entries_push: "inv r \<Longrightarrow> m \<in> set (entries (push n r)) \<Longrightarrow> m = n \<or> m \<in> set (entries r)"
  using set_entries_push by blast

lemma newest_entry: "inv r \<Longrightarrow> n \<in> set (entries (push n r))"
  by (simp add: entries_push bounded_push_def)

lemma length_entries_push: "inv r \<Longrightarrow> length (entries r) \<le> cap r \<Longrightarrow> length (entries (push n r)) \<le> cap r"
  using cap_pos[of r] by (auto simp: entries_push bounded_push_def)

lemma sorted_push:
  assumes "inv r" "sorted_wrt (<) (map n_ID (entries r))" "\<forall>m \<in> set (entries r). n_ID m < n_ID n"
  shows "sorted_wrt (<) (map n_ID (entries (push n r)))"
  using assms
  by (cases "entries r") (auto simp: entries_push bounded_push_def sorted_wrt_append)

lemma ids_replace:
  assumes "inv r" "distinct (map n_ID (entries r))"
  shows "map n_ID (entries (replace n r)) = map n_ID (entries r)"
  using assms by (simp add: entries_replace)

end

interpretation hist: bounded_history ring_push "\<lambda>n r. snd (ring_replace n r)" ring_all ring_cap ring_inv
  by unfold_locales
    (simp_all add: ring_all_push ring_all_replace, simp add: ring_cap_def ring_inv_def)

end
