(* ===== verification/Notify_Detect.thy ===== *)
theory Notify_Detect
  imports Prelude
begin

text \<open>
  \<open>internal/notify/detect.go\<close>: the two detectors every condition monitor is built from, the
  two-threshold, two-duration \<open>Hysteresis\<close> and the sliding-window burst detector \<open>Flap\<close>. Each is
  proved equivalent to a reference machine that keeps the whole observation history instead of the
  constant-size (or pruned) state of the code.
\<close>

datatype transition = TransitionNone | TransitionOnset | TransitionClear

section \<open>Hysteresis\<close>

record hysteresis =
  h_enterAfter :: duration
  h_clearAfter :: duration
  h_active :: bool
  h_since :: instant
  h_running :: bool

definition NewHysteresis :: "duration \<Rightarrow> duration \<Rightarrow> hysteresis" where
  "NewHysteresis enterAfter clearAfter =
     \<lparr>h_enterAfter = enterAfter, h_clearAfter = clearAfter, h_active = False, h_since = 0,
      h_running = False\<rparr>"

text \<open>The start of a candidate run: kept while it runs, else set to the current reading.\<close>

definition hys_start_run :: "instant \<Rightarrow> hysteresis \<Rightarrow> hysteresis" where
  "hys_start_run now h = (if \<not> h_running h then h\<lparr>h_since := now, h_running := True\<rparr> else h)"

definition hys_Observe :: "instant \<Rightarrow> bool \<Rightarrow> hysteresis \<Rightarrow> transition \<times> hysteresis" where
  "hys_Observe now over h =
     (if h_active h then
        if over then (TransitionNone, h\<lparr>h_running := False\<rparr>)
        else let h = hys_start_run now h in
          if time_sub now (h_since h) \<ge> h_clearAfter h
          then (TransitionClear, h\<lparr>h_active := False, h_running := False\<rparr>)
          else (TransitionNone, h)
      else if \<not> over then (TransitionNone, h\<lparr>h_running := False\<rparr>)
      else let h = hys_start_run now h in
        if time_sub now (h_since h) \<ge> h_enterAfter h
        then (TransitionOnset, h\<lparr>h_active := True, h_running := False\<rparr>)
        else (TransitionNone, h))"

definition hys_ResetRun :: "hysteresis \<Rightarrow> hysteresis" where
  "hys_ResetRun h = h\<lparr>h_running := False, h_since := 0\<rparr>"

definition hys_Reset :: "hysteresis \<Rightarrow> hysteresis" where
  "hys_Reset h = hys_ResetRun (h\<lparr>h_active := False\<rparr>)"

definition hys_SetEnterAfter :: "duration \<Rightarrow> hysteresis \<Rightarrow> hysteresis" where
  "hys_SetEnterAfter d h = h\<lparr>h_enterAfter := d\<rparr>"

lemmas hys_defs [step_defs] =
  hys_Observe_def hys_start_run_def hys_ResetRun_def hys_Reset_def hys_SetEnterAfter_def

lemma hys_active_simps [simp]:
  "h_active (hys_start_run t h) = h_active h"
  "h_active (hys_ResetRun h) = h_active h"
  "\<not> h_active (hys_Reset h)"
  "h_active (hys_SetEnterAfter d h) = h_active h"
  "\<not> h_active (NewHysteresis e c)"
  by (simp_all add: hys_defs NewHysteresis_def)

lemma hys_Observe_active:
  "h_active (snd (hys_Observe now over h)) =
     (case fst (hys_Observe now over h) of
        TransitionNone \<Rightarrow> h_active h | TransitionOnset \<Rightarrow> True | TransitionClear \<Rightarrow> False)"
  by (simp add: hys_defs Let_def)

lemma hys_Observe_onset:
  "fst (hys_Observe now over h) = TransitionOnset \<Longrightarrow> \<not> h_active h \<and> over"
  by (auto simp: hys_defs Let_def split: if_splits)

lemma hys_Observe_clear:
  "fst (hys_Observe now over h) = TransitionClear \<Longrightarrow> h_active h \<and> \<not> over"
  by (auto simp: hys_defs Let_def split: if_splits)

text \<open>A monitor drives the machine by a sequence of these operations.\<close>

datatype hys_op = HObserve instant bool | HSetEnterAfter duration | HResetRun | HReset

fun hys_step :: "hys_op \<Rightarrow> hysteresis \<Rightarrow> transition \<times> hysteresis" where
  "hys_step (HObserve t b) h = hys_Observe t b h"
| "hys_step (HSetEnterAfter d) h = (TransitionNone, hys_SetEnterAfter d h)"
| "hys_step HResetRun h = (TransitionNone, hys_ResetRun h)"
| "hys_step HReset h = (TransitionNone, hys_Reset h)"

fun hys_run :: "hysteresis \<Rightarrow> hys_op list \<Rightarrow> transition list" where
  "hys_run h [] = []"
| "hys_run h (x # xs) = fst (hys_step x h) # hys_run (snd (hys_step x h)) xs"

subsection \<open>Reference machine over the whole history\<close>

text \<open>
  The reference keeps every reading since the last transition or reset (newest first). A reading
  against the current state starts or continues a contiguous run of such readings; the state flips
  when that run has lasted the dwell time.
\<close>

record hys_spec =
  s_enter :: duration
  s_clear :: duration
  s_active :: bool
  s_hist :: "(instant \<times> bool) list"

text \<open>The readings of the unbroken run that the newest reading belongs to, newest first.\<close>

definition current_run :: "bool \<Rightarrow> (instant \<times> bool) list \<Rightarrow> (instant \<times> bool) list" where
  "current_run b hist = takeWhile (\<lambda>(_, over). over = b) hist"

definition hys_spec_observe :: "instant \<Rightarrow> bool \<Rightarrow> hys_spec \<Rightarrow> transition \<times> hys_spec" where
  "hys_spec_observe now over s =
     (let hist = (now, over) # s_hist s;
          run = current_run (\<not> s_active s) hist;
          dwell = (if s_active s then s_clear s else s_enter s)
      in if run \<noteq> [] \<and> dwell \<le> time_sub now (fst (last run))
         then (if s_active s then TransitionClear else TransitionOnset,
               s\<lparr>s_active := \<not> s_active s, s_hist := []\<rparr>)
         else (TransitionNone, s\<lparr>s_hist := hist\<rparr>))"

fun hys_spec_step :: "hys_op \<Rightarrow> hys_spec \<Rightarrow> transition \<times> hys_spec" where
  "hys_spec_step (HObserve t b) s = hys_spec_observe t b s"
| "hys_spec_step (HSetEnterAfter d) s = (TransitionNone, s\<lparr>s_enter := d\<rparr>)"
| "hys_spec_step HResetRun s = (TransitionNone, s\<lparr>s_hist := []\<rparr>)"
| "hys_spec_step HReset s = (TransitionNone, s\<lparr>s_active := False, s_hist := []\<rparr>)"

fun hys_spec_run :: "hys_spec \<Rightarrow> hys_op list \<Rightarrow> transition list" where
  "hys_spec_run s [] = []"
| "hys_spec_run s (x # xs) = fst (hys_spec_step x s) # hys_spec_run (snd (hys_spec_step x s)) xs"

text \<open>The simulation relation: \<open>since\<close> is the first reading of the unbroken run.\<close>

definition hys_sim :: "hysteresis \<Rightarrow> hys_spec \<Rightarrow> bool" where
  "hys_sim h s \<longleftrightarrow> h_enterAfter h = s_enter s \<and> h_clearAfter h = s_clear s \<and>
     h_active h = s_active s \<and>
     h_running h = (current_run (\<not> s_active s) (s_hist s) \<noteq> []) \<and>
     (h_running h \<longrightarrow> h_since h = fst (last (current_run (\<not> s_active s) (s_hist s))))"

lemma hys_sim_observe:
  "hys_sim h s \<Longrightarrow> fst (hys_Observe t b h) = fst (hys_spec_observe t b s) \<and>
     hys_sim (snd (hys_Observe t b h)) (snd (hys_spec_observe t b s))"
  by (cases b; cases "s_active s")
    (auto simp: hys_sim_def hys_defs hys_spec_observe_def Let_def current_run_def)

lemma hys_sim_step:
  "hys_sim h s \<Longrightarrow> fst (hys_step x h) = fst (hys_spec_step x s) \<and>
     hys_sim (snd (hys_step x h)) (snd (hys_spec_step x s))"
  by (cases x) (use hys_sim_observe in \<open>auto simp: hys_sim_def hys_defs current_run_def\<close>)

lemma hys_sim_run: "hys_sim h s \<Longrightarrow> hys_run h xs = hys_spec_run s xs"
  by (induction xs arbitrary: h s) (use hys_sim_step in \<open>fastforce+\<close>)

text \<open>
  C13. Driven by any sequence of observations, threshold changes and resets, the constant-size
  Hysteresis reports exactly the transitions of a reference machine that keeps every reading
  since the last transition and flips when the unbroken run of readings against the current state
  has lasted the dwell time.
\<close>
theorem hysteresis_refines_history:
  "hys_run (NewHysteresis e c) ops =
     hys_spec_run \<lparr>s_enter = e, s_clear = c, s_active = False, s_hist = []\<rparr> ops"
  by (rule hys_sim_run) (simp add: hys_sim_def NewHysteresis_def current_run_def)

text \<open>Between resets a condition never onsets twice without a clear, nor clears twice.\<close>

fun alternating :: "bool \<Rightarrow> transition list \<Rightarrow> bool" where
  "alternating active [] = True"
| "alternating active (TransitionNone # ts) = alternating active ts"
| "alternating active (TransitionOnset # ts) = (\<not> active \<and> alternating True ts)"
| "alternating active (TransitionClear # ts) = (active \<and> alternating False ts)"

lemma hys_run_alternating:
  "HReset \<notin> set ops \<Longrightarrow> alternating (h_active h) (hys_run h ops)"
proof (induction ops arbitrary: h)
  case Nil
  show ?case by simp
next
  case (Cons x xs)
  then have IH: "alternating (h_active (snd (hys_step x h))) (hys_run (snd (hys_step x h)) xs)"
    by simp
  show ?case
  proof (cases x)
    case (HObserve t b)
    with IH hys_Observe_active[of t b h] hys_Observe_onset[of t b h] hys_Observe_clear[of t b h]
    show ?thesis by (cases "fst (hys_Observe t b h)") auto
  qed (use IH Cons.prems in \<open>auto simp: hys_defs\<close>)
qed

section \<open>Flap\<close>

record flap =
  f_maxEvents :: int
  f_window :: duration
  f_quiet :: duration
  f_events :: "instant list"
  f_last :: instant
  f_active :: bool

definition NewFlap :: "int \<Rightarrow> duration \<Rightarrow> duration \<Rightarrow> flap" where
  "NewFlap maxEvents window quiet =
     \<lparr>f_maxEvents = maxEvents, f_window = window, f_quiet = quiet, f_events = [], f_last = 0,
      f_active = False\<rparr>"

definition quietGapElapsed :: "instant \<Rightarrow> flap \<Rightarrow> bool" where
  "quietGapElapsed now f \<longleftrightarrow>
     f_active f \<and> \<not> is_zero (f_last f) \<and> time_sub now (f_last f) \<ge> f_quiet f"

definition flap_Event :: "instant \<Rightarrow> flap \<Rightarrow> transition \<times> flap" where
  "flap_Event now f =
     (if quietGapElapsed now f
      then (TransitionClear, f\<lparr>f_active := False, f_events := [now], f_last := now\<rparr>)
      else let f = f\<lparr>f_last := now\<rparr> in
        if f_active f then (TransitionNone, f)
        else let cutoff = now - f_window f;
                 f = f\<lparr>f_events := filter (\<lambda>t. \<not> t < cutoff) (f_events f) @ [now]\<rparr>
          in if int (length (f_events f)) > f_maxEvents f
             then (TransitionOnset, f\<lparr>f_active := True\<rparr>)
             else (TransitionNone, f))"

definition flap_Reset :: "flap \<Rightarrow> flap" where
  "flap_Reset f = f\<lparr>f_active := False, f_events := [], f_last := 0\<rparr>"

definition flap_Sweep :: "instant \<Rightarrow> flap \<Rightarrow> transition \<times> flap" where
  "flap_Sweep now f =
     (if quietGapElapsed now f then (TransitionClear, flap_Reset f) else (TransitionNone, f))"

definition flap_Idle :: "instant \<Rightarrow> flap \<Rightarrow> bool" where
  "flap_Idle now f \<longleftrightarrow>
     (if f_active f then False
      else let cutoff = now - f_window f in \<not> list_ex (\<lambda>t. \<not> t < cutoff) (f_events f))"

lemmas flap_defs [step_defs] =
  flap_Event_def flap_Reset_def flap_Sweep_def flap_Idle_def quietGapElapsed_def is_zero_def

datatype flap_op = FEvent instant | FSweep instant | FReset

fun flap_step :: "flap_op \<Rightarrow> flap \<Rightarrow> transition \<times> flap" where
  "flap_step (FEvent t) f = flap_Event t f"
| "flap_step (FSweep t) f = flap_Sweep t f"
| "flap_step FReset f = (TransitionNone, flap_Reset f)"

fun flap_run :: "flap \<Rightarrow> flap_op list \<Rightarrow> transition list" where
  "flap_run f [] = []"
| "flap_run f (x # xs) = fst (flap_step x f) # flap_run (snd (flap_step x f)) xs"

fun flap_final :: "flap \<Rightarrow> flap_op list \<Rightarrow> flap" where
  "flap_final f [] = f"
| "flap_final f (x # xs) = flap_final (snd (flap_step x f)) xs"

fun op_time :: "flap_op \<Rightarrow> instant list" where
  "op_time (FEvent t) = [t]"
| "op_time (FSweep t) = [t]"
| "op_time FReset = []"

subsection \<open>Bounded memory\<close>

lemma flap_Event_active:
  "f_active (snd (flap_Event now f)) =
     (case fst (flap_Event now f) of
        TransitionNone \<Rightarrow> f_active f | TransitionOnset \<Rightarrow> True | TransitionClear \<Rightarrow> False)"
  by (simp add: flap_defs Let_def)

lemma flap_Event_clear_iff:
  "fst (flap_Event now f) = TransitionClear \<longleftrightarrow> quietGapElapsed now f"
  by (simp add: flap_Event_def Let_def)

lemma flap_Sweep_no_onset: "fst (flap_Sweep now f) \<noteq> TransitionOnset"
  by (simp add: flap_Sweep_def)

lemma flap_max_const [simp]: "f_maxEvents (snd (flap_step x f)) = f_maxEvents f"
  by (cases x) (auto simp: flap_defs Let_def)

definition flap_bounded :: "flap \<Rightarrow> bool" where [inv_defs]:
  "flap_bounded f \<longleftrightarrow> 1 \<le> f_maxEvents f \<and>
     int (length (f_events f)) \<le> f_maxEvents f + (if f_active f then 1 else 0)"

lemma flap_bounded_step:
  assumes "flap_bounded f"
  shows "flap_bounded (snd (flap_step x f))"
proof (cases x)
  case (FEvent t)
  have "int (length (filter (\<lambda>u. \<not> u < t - f_window f) (f_events f))) \<le> k"
    if "int (length (f_events f)) \<le> k" for k
    using that length_filter_le[of "\<lambda>u. \<not> u < t - f_window f" "f_events f"] by linarith
  with assms FEvent show ?thesis
    by (auto simp: flap_bounded_def flap_defs Let_def split: if_splits)
qed (use assms in \<open>auto simp: flap_bounded_def flap_defs split: if_splits\<close>)

lemma flap_bounded_final: "flap_bounded f \<Longrightarrow> flap_bounded (flap_final f ops)"
  by (induction ops arbitrary: f) (use flap_bounded_step in auto)

subsection \<open>Reference machine over the whole history\<close>

text \<open>
  The reference forgets nothing until the burst ends: it counts how many of all the events since
  the last clear or reset lie inside the window.
\<close>

record flap_spec =
  p_active :: bool
  p_hist :: "instant list"
  p_last :: instant

definition in_window :: "duration \<Rightarrow> instant \<Rightarrow> instant list \<Rightarrow> instant list" where
  "in_window w now ts = filter (\<lambda>t. now - w \<le> t) ts"

definition flap_spec_quiet :: "duration \<Rightarrow> instant \<Rightarrow> flap_spec \<Rightarrow> bool" where
  "flap_spec_quiet q now s \<longleftrightarrow> p_active s \<and> p_last s \<noteq> 0 \<and> q \<le> time_sub now (p_last s)"

fun flap_spec_step :: "int \<Rightarrow> duration \<Rightarrow> duration \<Rightarrow> flap_op \<Rightarrow> flap_spec \<Rightarrow> transition \<times> flap_spec"
where
  "flap_spec_step m w q (FEvent t) s =
     (if flap_spec_quiet q t s
      then (TransitionClear, \<lparr>p_active = False, p_hist = [t], p_last = t\<rparr>)
      else let hist = p_hist s @ [t];
               onset = (\<not> p_active s \<and> int (length (in_window w t hist)) > m)
        in (if onset then TransitionOnset else TransitionNone,
            \<lparr>p_active = p_active s \<or> onset, p_hist = hist, p_last = t\<rparr>))"
| "flap_spec_step m w q (FSweep t) s =
     (if flap_spec_quiet q t s
      then (TransitionClear, \<lparr>p_active = False, p_hist = [], p_last = 0\<rparr>)
      else (TransitionNone, s))"
| "flap_spec_step m w q FReset s =
     (TransitionNone, \<lparr>p_active = False, p_hist = [], p_last = 0\<rparr>)"

fun flap_spec_run :: "int \<Rightarrow> duration \<Rightarrow> duration \<Rightarrow> flap_spec \<Rightarrow> flap_op list \<Rightarrow> transition list"
where
  "flap_spec_run m w q s [] = []"
| "flap_spec_run m w q s (x # xs) =
     fst (flap_spec_step m w q x s) # flap_spec_run m w q (snd (flap_spec_step m w q x s)) xs"

text \<open>
  The pruned list agrees with the full history inside every window that ends now or later, which
  is all that a clock running forward can ask for.
\<close>

definition flap_sim :: "int \<Rightarrow> duration \<Rightarrow> duration \<Rightarrow> instant \<Rightarrow> flap \<Rightarrow> flap_spec \<Rightarrow> bool" where
  "flap_sim m w q t0 f s \<longleftrightarrow> f_maxEvents f = m \<and> f_window f = w \<and> f_quiet f = q \<and>
     f_active f = p_active s \<and> f_last f = p_last s \<and>
     (\<not> f_active f \<longrightarrow> (\<forall>t\<ge>t0. in_window w t (f_events f) = in_window w t (p_hist s)))"

lemma filter_window_again:
  "t \<le> u \<Longrightarrow> in_window w u (filter (\<lambda>x. \<not> x < t - w) xs) = in_window w u xs"
  by (auto simp: in_window_def intro: filter_cong)

lemma flap_sim_step:
  assumes sim: "flap_sim m w q t0 f s" and mono: "\<forall>t \<in> set (op_time x). t0 \<le> t"
    and w: "0 \<le> w"
  shows "fst (flap_step x f) = fst (flap_spec_step m w q x s) \<and>
    flap_sim m w q (case op_time x of [] \<Rightarrow> t0 | t # _ \<Rightarrow> t) (snd (flap_step x f))
      (snd (flap_spec_step m w q x s))"
proof (cases x)
  case (FEvent t)
  have kept: "filter (\<lambda>x. \<not> x < t - w) (f_events f) = in_window w t (f_events f)"
    by (auto simp: in_window_def intro: filter_cong)
  have "in_window w t (p_hist s @ [t]) = in_window w t (p_hist s) @ [t]"
    using w by (simp add: in_window_def)
  then show ?thesis
    using sim mono FEvent w
    by (auto simp: flap_sim_def flap_defs flap_spec_quiet_def Let_def kept filter_append
        in_window_def[of w _ "_ @ _"])
      (auto simp: in_window_def intro!: filter_cong)
next
  case (FSweep t)
  then show ?thesis using sim mono
    by (auto simp: flap_sim_def flap_defs flap_spec_quiet_def)
next
  case FReset
  then show ?thesis using sim by (auto simp: flap_sim_def flap_defs)
qed

text \<open>The clock the caller reads runs forward.\<close>

fun times_from :: "instant \<Rightarrow> flap_op list \<Rightarrow> bool" where
  "times_from t0 [] = True"
| "times_from t0 (x # xs) =
     ((\<forall>t \<in> set (op_time x). t0 \<le> t) \<and> times_from (case op_time x of [] \<Rightarrow> t0 | t # _ \<Rightarrow> t) xs)"

lemma flap_sim_run:
  "flap_sim m w q t0 f s \<Longrightarrow> times_from t0 ops \<Longrightarrow> 0 \<le> w \<Longrightarrow>
     flap_run f ops = flap_spec_run m w q s ops"
proof (induction ops arbitrary: t0 f s)
  case Nil
  show ?case by simp
next
  case (Cons x xs)
  from Cons.prems have "flap_sim m w q t0 f s" "\<forall>t \<in> set (op_time x). t0 \<le> t" "0 \<le> w" by auto
  note step = flap_sim_step[OF this]
  with Cons show ?case by auto
qed

text \<open>
  With a clock that runs forward, the pruning Flap detector reports exactly the transitions
  of a reference detector that counts, over all events since the last clear, those inside the
  sliding window.
\<close>
theorem flap_refines_history:
  assumes "0 \<le> w" "times_from t0 ops"
  shows "flap_run (NewFlap m w q) ops =
    flap_spec_run m w q \<lparr>p_active = False, p_hist = [], p_last = 0\<rparr> ops"
  using assms
  by (intro flap_sim_run[of m w q t0]) (auto simp: flap_sim_def NewFlap_def)

theorem flap_refines_history_witness:
  "flap_run (NewFlap 1 60 300) [FEvent 100, FEvent 110, FSweep 200, FSweep 410] =
    [TransitionNone, TransitionOnset, TransitionNone, TransitionClear]"
proof -
  have "flap_run (NewFlap 1 60 300) [FEvent 100, FEvent 110, FSweep 200, FSweep 410] =
    flap_spec_run 1 60 300 \<lparr>p_active = False, p_hist = [], p_last = 0\<rparr>
      [FEvent 100, FEvent 110, FSweep 200, FSweep 410]"
    by (rule flap_refines_history[where ?t0.0 = 0]) simp_all
  then show ?thesis
    by (simp add: flap_spec_quiet_def in_window_def time_sub_def duration_defs)
qed

text \<open>
  A Flap with threshold max never holds more than max + 1 event times, however long and
  dense the burst is.
\<close>
theorem flap_memory_bounded:
  assumes "1 \<le> m"
  shows "int (length (f_events (flap_final (NewFlap m w q) ops))) \<le> m + 1"
proof -
  have "flap_bounded (NewFlap m w q)" using assms by (simp add: flap_bounded_def NewFlap_def)
  then have "flap_bounded (flap_final (NewFlap m w q) ops)" by (rule flap_bounded_final)
  moreover have "f_maxEvents (flap_final f ops) = f_maxEvents f" for f
    by (induction ops arbitrary: f) simp_all
  ultimately show ?thesis by (auto simp: flap_bounded_def NewFlap_def split: if_splits)
qed

theorem flap_memory_bounded_witness:
  "int (length (f_events (flap_final (NewFlap 1 60 300) [FEvent 100, FEvent 110, FEvent 120]))) \<le> 2"
  using flap_memory_bounded[of 1 60 300 "[FEvent 100, FEvent 110, FEvent 120]"] by simp

end
