(* ===== verification/Go_Strings.thy ===== *)
theory Go_Strings
  imports Prelude
begin

text \<open>
  The functions of Go's \<open>strings\<close>, \<open>strconv\<close> and \<open>cmp\<close> packages that the components call, on byte
  strings, with the facts about them that the proofs share.
\<close>

section \<open>Character classes\<close>

definition char_between :: "char \<Rightarrow> char \<Rightarrow> char \<Rightarrow> bool" where
  "char_between lo hi c \<longleftrightarrow> lo \<le> c \<and> c \<le> hi"

definition is_digit :: "char \<Rightarrow> bool" where
  "is_digit = char_between (CHR ''0'') (CHR ''9'')"

definition is_letter :: "char \<Rightarrow> bool" where
  "is_letter c \<longleftrightarrow> char_between (CHR ''a'') (CHR ''z'') c \<or> char_between (CHR ''A'') (CHR ''Z'') c"

section \<open>Prefixes, suffixes, searching\<close>

definition HasPrefix :: "string \<Rightarrow> string \<Rightarrow> bool" where [go_defs]:
  "HasPrefix s p \<longleftrightarrow> take (length p) s = p"

definition HasSuffix :: "string \<Rightarrow> string \<Rightarrow> bool" where [go_defs]:
  "HasSuffix s p \<longleftrightarrow> length p \<le> length s \<and> drop (length s - length p) s = p"

definition CutSuffix :: "string \<Rightarrow> string \<Rightarrow> string option" where
  "CutSuffix s p = (if HasSuffix s p then Some (take (length s - length p) s) else None)"

definition ContainsAny :: "string \<Rightarrow> string \<Rightarrow> bool" where [go_defs]:
  "ContainsAny s chars \<longleftrightarrow> list_ex (\<lambda>c. List.member chars c) s"

text \<open>\<open>strings.Cut\<close> at a one-byte separator: the parts around its first occurrence.\<close>

fun Cut :: "string \<Rightarrow> char \<Rightarrow> string \<times> string \<times> bool" where
  "Cut [] c = ([], [], False)"
| "Cut (x # xs) c =
     (if x = c then ([], xs, True)
      else case Cut xs c of (b, a, ok) \<Rightarrow> (x # b, a, ok))"

text \<open>\<open>strings.Split\<close> at a one-byte separator; always at least one part.\<close>

fun Split :: "string \<Rightarrow> char \<Rightarrow> string list" where
  "Split [] c = [[]]"
| "Split (x # xs) c =
     (if x = c then [] # Split xs c
      else case Split xs c of p # ps \<Rightarrow> (x # p) # ps | [] \<Rightarrow> [[x]])"

text \<open>\<open>strings.TrimLeft\<close> and \<open>strings.Trim\<close> for a cutset of ASCII characters.\<close>

definition TrimLeft :: "string \<Rightarrow> string \<Rightarrow> string" where
  "TrimLeft s cutset = dropWhile (\<lambda>c. List.member cutset c) s"

definition TrimRight :: "string \<Rightarrow> string \<Rightarrow> string" where
  "TrimRight s cutset = rev (dropWhile (\<lambda>c. List.member cutset c) (rev s))"

definition Trim :: "string \<Rightarrow> string \<Rightarrow> string" where
  "Trim s cutset = TrimRight (TrimLeft s cutset) cutset"

definition TrimSuffix :: "string \<Rightarrow> string \<Rightarrow> string" where
  "TrimSuffix s p = (if HasSuffix s p then take (length s - length p) s else s)"

section \<open>White space\<close>

text \<open>
  The UTF-8 encodings of the white-space runes of \<open>unicode.IsSpace\<close>: the ASCII ones, U+0085,
  U+00A0, U+1680, U+2000 to U+200A, U+2028, U+2029, U+202F, U+205F and U+3000.
\<close>

definition space_runes :: "string list" where
  "space_runes =
     [[CHR 0x09], [CHR 0x0A], [CHR 0x0B], [CHR 0x0C], [CHR 0x0D], [CHR 0x20],
      [CHR 0xC2, CHR 0x85], [CHR 0xC2, CHR 0xA0], [CHR 0xE1, CHR 0x9A, CHR 0x80]] @
     map (\<lambda>b. [CHR 0xE2, CHR 0x80, b])
       [CHR 0x80, CHR 0x81, CHR 0x82, CHR 0x83, CHR 0x84, CHR 0x85, CHR 0x86, CHR 0x87,
        CHR 0x88, CHR 0x89, CHR 0x8A, CHR 0xA8, CHR 0xA9, CHR 0xAF] @
     [[CHR 0xE2, CHR 0x81, CHR 0x9F], [CHR 0xE3, CHR 0x80, CHR 0x80]]"

lemma space_runes_nonempty: "r \<in> set space_runes \<Longrightarrow> r \<noteq> []"
  by (auto simp: space_runes_def)

text \<open>Strip a run of the given (non-empty) blocks from the front.\<close>

function strip_blocks :: "string list \<Rightarrow> string \<Rightarrow> string" where
  "strip_blocks rs s =
     (case find (\<lambda>r. r \<noteq> [] \<and> HasPrefix s r) rs of
        None \<Rightarrow> s
      | Some r \<Rightarrow> strip_blocks rs (drop (length r) s))"
  by pat_completeness auto
termination
proof (relation "measure (\<lambda>(rs, s). length s)")
  fix rs s r assume "find (\<lambda>r. r \<noteq> [] \<and> HasPrefix s r) rs = Some r"
  then have "r \<noteq> []" "take (length r) s = r" by (auto simp: find_Some_iff HasPrefix_def)
  then have "length r > 0" "s \<noteq> []" by auto
  then show "((rs, drop (length r) s), (rs, s)) \<in> measure (\<lambda>(rs, s). length s)" by simp
qed simp

declare strip_blocks.simps [simp del]

definition TrimSpace :: "string \<Rightarrow> string" where
  "TrimSpace s =
     rev (strip_blocks (map rev space_runes) (rev (strip_blocks space_runes s)))"

lemma strip_blocks_Nil [simp]: "strip_blocks rs [] = []"
proof -
  have "find (\<lambda>r. r \<noteq> [] \<and> HasPrefix [] r) rs = None"
    by (auto simp: find_None_iff HasPrefix_def)
  then show ?thesis by (subst strip_blocks.simps) simp
qed

lemma TrimSpace_Nil [simp]: "TrimSpace [] = []"
  by (simp add: TrimSpace_def)

lemma strip_blocks_id:
  "(\<And>r. r \<in> set rs \<Longrightarrow> r = [] \<or> \<not> HasPrefix s r) \<Longrightarrow> strip_blocks rs s = s"
proof -
  assume "\<And>r. r \<in> set rs \<Longrightarrow> r = [] \<or> \<not> HasPrefix s r"
  then have "find (\<lambda>r. r \<noteq> [] \<and> HasPrefix s r) rs = None" by (auto simp: find_None_iff)
  then show ?thesis by (subst strip_blocks.simps) simp
qed

section \<open>Case folding\<close>

text \<open>
  \<open>strings.ToLower\<close> and \<open>strings.EqualFold\<close> on ASCII letters. Every string the code compares with
  is one on which the Unicode foldings of non-ASCII runes cannot match (none contains k or s).
\<close>

definition lower_char :: "char \<Rightarrow> char" where
  "lower_char c = (if CHR ''A'' \<le> c \<and> c \<le> CHR ''Z'' then char_of (of_char c + 32 :: nat) else c)"

definition ToLower :: "string \<Rightarrow> string" where
  "ToLower s = map lower_char s"

definition EqualFold :: "string \<Rightarrow> string \<Rightarrow> bool" where
  "EqualFold s t \<longleftrightarrow> ToLower s = ToLower t"

section \<open>Comparison\<close>

definition cmp_Compare :: "'a::linorder \<Rightarrow> 'a \<Rightarrow> int" where
  "cmp_Compare a b = (if a < b then - 1 else if a = b then 0 else 1)"

lemma cmp_Compare_eq_0 [simp]: "cmp_Compare a b = 0 \<longleftrightarrow> a = b"
  by (simp add: cmp_Compare_def)

lemma cmp_Compare_less [simp]: "cmp_Compare a b < 0 \<longleftrightarrow> a < b"
  by (auto simp: cmp_Compare_def)

lemma cmp_Compare_greater [simp]: "0 < cmp_Compare a b \<longleftrightarrow> b < a"
  by (auto simp: cmp_Compare_def)

lemma cmp_Compare_swap: "cmp_Compare b a = - cmp_Compare a b"
  by (auto simp: cmp_Compare_def)

lemma cmp_Compare_cases: "cmp_Compare a b \<in> {- 1, 0, 1}"
  by (simp add: cmp_Compare_def)

section \<open>Decimal numbers\<close>

text \<open>\<open>strconv.Itoa\<close> and the \<open>%d\<close> verb.\<close>

definition digit_char :: "nat \<Rightarrow> char" where
  "digit_char d = char_of (48 + d)"

fun nat_digits :: "nat \<Rightarrow> string" where
  "nat_digits n = (if n < 10 then [digit_char n] else nat_digits (n div 10) @ [digit_char (n mod 10)])"

declare nat_digits.simps [simp del]

definition Itoa :: "int \<Rightarrow> string" where
  "Itoa i = (if i < 0 then ''-'' @ nat_digits (nat (- i)) else nat_digits (nat i))"

lemma all_digits: "list_all P [0..<10] \<Longrightarrow> d < (10::nat) \<Longrightarrow> P d"
  unfolding list_all_iff set_upt by auto

lemma digit_char_val:
  assumes "d < 10"
  shows "(of_char (digit_char d) :: nat) = 48 + d"
proof -
  have "list_all (\<lambda>d. (of_char (digit_char d) :: nat) = 48 + d) [0..<10]" by code_simp
  from all_digits[OF this assms] show ?thesis .
qed

lemma digit_char_inj: "d < 10 \<Longrightarrow> e < 10 \<Longrightarrow> digit_char d = digit_char e \<Longrightarrow> d = e"
  by (metis digit_char_val add_left_cancel)

lemma lower_digit:
  assumes "d < 10"
  shows "lower_char (digit_char d) = digit_char d"
proof -
  have "list_all (\<lambda>d. lower_char (digit_char d) = digit_char d) [0..<10]" by code_simp
  from all_digits[OF this assms] show ?thesis .
qed

lemma lower_nat_digits: "map lower_char (nat_digits n) = nat_digits n"
proof (induction n rule: nat_digits.induct)
  case (1 n)
  then show ?case by (cases "n < 10") (simp_all add: nat_digits.simps[of n] lower_digit)
qed

lemma nat_digits_inj: "nat_digits m = nat_digits n \<Longrightarrow> m = n"
proof (induction m arbitrary: n rule: less_induct)
  case (less m)
  have ne: "nat_digits k \<noteq> []" "[] \<noteq> nat_digits k" for k
    by (subst nat_digits.simps, simp)+
  consider "m < 10" "n < 10" | "m < 10" "10 \<le> n" | "10 \<le> m" "n < 10" | "10 \<le> m" "10 \<le> n" by linarith
  then show ?case
  proof cases
    case 4
    then have "nat_digits (m div 10) = nat_digits (n div 10)" "digit_char (m mod 10) = digit_char (n mod 10)"
      using less.prems by (simp_all add: nat_digits.simps[of m] nat_digits.simps[of n])
    then have "m div 10 = n div 10" "m mod 10 = n mod 10"
      using less.IH[of "m div 10" "n div 10"] 4 digit_char_inj[of "m mod 10" "n mod 10"] by auto
    then show ?thesis by (metis div_mult_mod_eq)
  qed (use less.prems ne in \<open>auto simp: nat_digits.simps[of m] nat_digits.simps[of n] digit_char_inj\<close>)
qed

lemma nat_digits_length: "n < 10 ^ Suc k \<Longrightarrow> length (nat_digits n) \<le> Suc k"
proof (induction k arbitrary: n)
  case 0
  then show ?case by (simp add: nat_digits.simps[of n])
next
  case (Suc k)
  then have "n div 10 < 10 ^ Suc k" by (simp add: div_less_iff_less_mult)
  from Suc.IH[OF this] show ?case by (simp add: nat_digits.simps[of n])
qed

section \<open>Facts about splitting and cutting\<close>

lemma Split_nonempty [simp]: "Split s c \<noteq> []"
  by (induction s) (auto split: list.splits)

lemma Cut_None: "c \<notin> set s \<Longrightarrow> Cut s c = (s, [], False)"
  by (induction s) auto

lemma Cut_Some: "c \<notin> set b \<Longrightarrow> Cut (b @ c # a) c = (b, a, True)"
  by (induction b) auto

lemma Split_single: "c \<notin> set s \<Longrightarrow> Split s c = [s]"
  by (induction s) auto

lemma Split_append: "c \<notin> set s \<Longrightarrow> Split (s @ c # t) c = s # Split t c"
  by (induction s) auto

lemma Split_no_sep: "p \<in> set (Split s c) \<Longrightarrow> c \<notin> set p"
  by (induction s arbitrary: p) (fastforce split: list.splits if_splits)+

text \<open>\<open>strings.Join\<close> with a one-byte separator.\<close>

fun Join :: "string list \<Rightarrow> char \<Rightarrow> string" where
  "Join [] c = []"
| "Join [p] c = p"
| "Join (p # q # ps) c = p @ c # Join (q # ps) c"

lemma Join_Cons: "ps \<noteq> [] \<Longrightarrow> Join (p # ps) c = p @ c # Join ps c"
  by (cases ps) auto

lemma Join_Split: "Join (Split s c) c = s"
proof (induction s)
  case Nil
  show ?case by simp
next
  case (Cons x xs)
  obtain p ps where "Split xs c = p # ps" by (cases "Split xs c") auto
  with Cons show ?case by (cases ps) auto
qed

lemma Split_Join:
  "ps \<noteq> [] \<Longrightarrow> \<forall>p \<in> set ps. c \<notin> set p \<Longrightarrow> Split (Join ps c) c = ps"
proof (induction ps c rule: Join.induct)
  case (3 p q ps c)
  then show ?case by (simp add: Split_append)
qed (auto simp: Split_single)

lemma HasPrefix_append [simp]: "HasPrefix (p @ s) p"
  by (simp add: HasPrefix_def)

lemma HasSuffix_append [simp]: "HasSuffix (s @ p) p"
  by (simp add: HasSuffix_def)

lemma HasPrefixD: "HasPrefix s p \<Longrightarrow> \<exists>r. s = p @ r"
  by (metis HasPrefix_def append_take_drop_id)

lemma HasSuffixD: "HasSuffix s p \<Longrightarrow> \<exists>r. s = r @ p"
  by (metis HasSuffix_def append_take_drop_id)

lemma CutSuffix_append [simp]: "CutSuffix (s @ p) p = Some s"
  by (simp add: CutSuffix_def)

lemma CutSuffix_SomeD: "CutSuffix s p = Some r \<Longrightarrow> s = r @ p"
  by (auto simp: CutSuffix_def dest!: HasSuffixD split: if_splits)

section \<open>Hexadecimal\<close>

text \<open>\<open>hex.EncodeToString\<close>.\<close>

definition hex_digit :: "nat \<Rightarrow> char" where
  "hex_digit d = (if d < 10 then char_of (48 + d) else char_of (87 + d))"

definition hex_encode :: "u8 list \<Rightarrow> string" where
  "hex_encode bs = concat (map (\<lambda>b. [hex_digit (unat b div 16), hex_digit (unat b mod 16)]) bs)"

lemma nibbles: "unat (b :: u8) div 16 < 16" "unat b mod 16 < 16"
proof -
  have "unat b < 256" using unsigned_less[of b, where ?'a = nat] by simp
  then show "unat b div 16 < 16" by simp
qed simp

lemma hex_digit_cases:
  "d < 16 \<Longrightarrow> of_char (hex_digit d) = (if d < 10 then 48 + d else 87 + d :: nat)"
  by (simp add: hex_digit_def)

lemma hex_digit_lower: "d < 16 \<Longrightarrow> lower_char (hex_digit d) = hex_digit d"
  by (simp add: lower_char_def less_eq_char_def hex_digit_cases)

lemma hex_digit_colon: "d < 16 \<Longrightarrow> hex_digit d \<noteq> CHR '':''"
  using hex_digit_cases[of d] by (auto split: if_splits)

lemma ToLower_hex [simp]: "ToLower (hex_encode bs) = hex_encode bs"
  using nibbles by (induction bs) (auto simp: hex_encode_def ToLower_def hex_digit_lower)

lemma hex_no_colon: "CHR '':'' \<notin> set (hex_encode bs)"
  using nibbles by (auto simp: hex_encode_def hex_digit_colon[symmetric])

lemma hex_before_colon:
  "hex_encode as @ CHR '':'' # r = hex_encode bs @ CHR '':'' # s \<Longrightarrow> hex_encode as = hex_encode bs \<and> r = s"
  by (metis Cut_Some fst_conv hex_no_colon snd_conv)

section \<open>Quoting\<close>

text \<open>
  \<open>strconv.Quote\<close> and the \<open>%q\<close> verb: ASCII as Go escapes it; every rune beyond ASCII is taken to
  be printable and kept.
\<close>

definition quote_char :: "char \<Rightarrow> string" where
  "quote_char c =
     (let n = (of_char c :: nat) in
      if c = CHR 0x22 \<or> c = CHR 0x5C then [CHR 0x5C, c]
      else if n = 7 then [CHR 0x5C, CHR ''a''] else if n = 8 then [CHR 0x5C, CHR ''b'']
      else if n = 9 then [CHR 0x5C, CHR ''t''] else if n = 10 then [CHR 0x5C, CHR ''n'']
      else if n = 11 then [CHR 0x5C, CHR ''v''] else if n = 12 then [CHR 0x5C, CHR ''f'']
      else if n = 13 then [CHR 0x5C, CHR ''r'']
      else if n < 32 \<or> n = 127 then [CHR 0x5C, CHR ''x'', hex_digit (n div 16), hex_digit (n mod 16)]
      else [c])"

definition quote :: "string \<Rightarrow> string" where
  "quote s = CHR 0x22 # concat (map quote_char s) @ [CHR 0x22]"

section \<open>Runes\<close>

text \<open>
  \<open>utf8.DecodeRune\<close> as far as the length goes: how many bytes the first rune of a non-empty string
  has; a byte that starts no valid encoding is a rune of its own.
\<close>

definition byte_in :: "string \<Rightarrow> nat \<Rightarrow> nat \<Rightarrow> nat \<Rightarrow> bool" where
  "byte_in s i lo hi \<longleftrightarrow> i < length s \<and> lo \<le> of_char (s ! i) \<and> of_char (s ! i) \<le> hi"

definition rune_size :: "string \<Rightarrow> nat" where
  "rune_size s =
     (if byte_in s 0 0xC2 0xDF \<and> byte_in s 1 0x80 0xBF then 2
      else if (byte_in s 0 0xE0 0xE0 \<and> byte_in s 1 0xA0 0xBF \<or> byte_in s 0 0xED 0xED \<and> byte_in s 1 0x80 0x9F \<or>
               (byte_in s 0 0xE1 0xEC \<or> byte_in s 0 0xEE 0xEF) \<and> byte_in s 1 0x80 0xBF) \<and>
              byte_in s 2 0x80 0xBF then 3
      else if (byte_in s 0 0xF0 0xF0 \<and> byte_in s 1 0x90 0xBF \<or> byte_in s 0 0xF1 0xF3 \<and> byte_in s 1 0x80 0xBF \<or>
               byte_in s 0 0xF4 0xF4 \<and> byte_in s 1 0x80 0x8F) \<and>
              byte_in s 2 0x80 0xBF \<and> byte_in s 3 0x80 0xBF then 4
      else 1)"

lemma rune_size_pos: "0 < rune_size s"
  by (simp add: rune_size_def)

text \<open>\<open>utf8.RuneCountInString\<close>.\<close>

function RuneCount :: "string \<Rightarrow> nat" where
  "RuneCount s = (if s = [] then 0 else Suc (RuneCount (drop (rune_size s) s)))"
  by pat_completeness auto
termination
  by (relation "measure length") (auto simp: rune_size_pos)

declare RuneCount.simps [simp del]

lemma RuneCount_le: "RuneCount s \<le> length s"
proof (induction s rule: RuneCount.induct)
  case (1 s)
  show ?case
  proof (cases "s = []")
    case False
    then have "length (drop (rune_size s) s) < length s" by (simp add: rune_size_pos)
    with 1 False show ?thesis by (subst RuneCount.simps) simp
  qed (simp add: RuneCount.simps)
qed

section \<open>Addresses\<close>

text \<open>Whether \<open>net.SplitHostPort\<close> accepts a string; the host and the port it returns are not used.\<close>

fun last_index :: "char \<Rightarrow> string \<Rightarrow> nat option" where
  "last_index c [] = None"
| "last_index c (x # xs) =
     (case last_index c xs of Some i \<Rightarrow> Some (Suc i) | None \<Rightarrow> if x = c then Some 0 else None)"

fun first_index :: "char \<Rightarrow> string \<Rightarrow> nat option" where
  "first_index c [] = None"
| "first_index c (x # xs) = (if x = c then Some 0 else map_option Suc (first_index c xs))"

definition SplitHostPort_ok :: "string \<Rightarrow> bool" where
  "SplitHostPort_ok s =
     (case last_index (CHR '':'') s of
        None \<Rightarrow> False
      | Some i \<Rightarrow>
          if HasPrefix s ''['' then
            (case first_index (CHR '']'') s of
               None \<Rightarrow> False
             | Some e \<Rightarrow>
                 e + 1 = i \<and> CHR ''['' \<notin> set (drop 1 s) \<and> CHR '']'' \<notin> set (drop (e + 1) s))
          else CHR '':'' \<notin> set (take i s) \<and> CHR ''['' \<notin> set s \<and> CHR '']'' \<notin> set s)"

end
