(* ===== verification/Sse.thy ===== *)
theory Sse
  imports Go_Strings
begin

text \<open>
  \<open>internal/sse\<close>: the broadcaster (\<open>broadcast.go\<close>), a set of subscriber channels with drop-on-full
  delivery, and the handler of one connection (\<open>sse.go\<close>): the event filter, the wire format of an
  event and the streaming loop. A channel is the list of events buffered in it; a subscriber is a
  handle, and its channel outlives its registration as in the code (it is never closed).
\<close>

record event =
  ev_Name :: string
  ev_Data :: string

section \<open>Broadcaster\<close>

definition defaultMergeBuffer :: int where "defaultMergeBuffer = 32"
definition defaultBroadcastBuffer :: int where "defaultBroadcastBuffer = defaultMergeBuffer"

record broadcaster =
  bc_buffer :: nat
  bc_subs :: "nat list"
  bc_chans :: "nat \<Rightarrow> event list"
  bc_next :: nat

definition NewBroadcaster :: "int \<Rightarrow> broadcaster" where
  "NewBroadcaster buffer =
     (let buffer = (if buffer \<le> 0 then defaultBroadcastBuffer else buffer)
      in \<lparr>bc_buffer = nat buffer, bc_subs = [], bc_chans = (\<lambda>_. []), bc_next = 0\<rparr>)"

definition bc_Subscribe :: "broadcaster \<Rightarrow> nat \<times> broadcaster" where
  "bc_Subscribe b =
     (let s = bc_next b
      in (s, b\<lparr>bc_subs := s # bc_subs b, bc_chans := (bc_chans b)(s := []), bc_next := s + 1\<rparr>))"

text \<open>The cancel function: handles are never reused, so a second call removes nothing.\<close>

definition bc_cancel :: "nat \<Rightarrow> broadcaster \<Rightarrow> broadcaster" where
  "bc_cancel s b = b\<lparr>bc_subs := removeAll s (bc_subs b)\<rparr>"

definition bc_offer :: "event \<Rightarrow> nat \<Rightarrow> broadcaster \<Rightarrow> broadcaster" where
  "bc_offer ev s b =
     (if length (bc_chans b s) < bc_buffer b
      then b\<lparr>bc_chans := (bc_chans b)(s := bc_chans b s @ [ev])\<rparr>
      else b)"

definition bc_Broadcast :: "event \<Rightarrow> broadcaster \<Rightarrow> broadcaster" where
  "bc_Broadcast ev b = fold (bc_offer ev) (bc_subs b) b"

text \<open>A consumer receives from its channel.\<close>

definition bc_recv :: "nat \<Rightarrow> broadcaster \<Rightarrow> event option \<times> broadcaster" where
  "bc_recv s b =
     (case bc_chans b s of
        [] \<Rightarrow> (None, b)
      | ev # evs \<Rightarrow> (Some ev, b\<lparr>bc_chans := (bc_chans b)(s := evs)\<rparr>))"

definition bc_Len :: "broadcaster \<Rightarrow> nat" where
  "bc_Len b = length (bc_subs b)"

definition bc_inv :: "broadcaster \<Rightarrow> bool" where [inv_defs]:
  "bc_inv b \<longleftrightarrow> 0 < bc_buffer b \<and> distinct (bc_subs b) \<and> (\<forall>s \<in> set (bc_subs b). s < bc_next b) \<and>
     (\<forall>s. length (bc_chans b s) \<le> bc_buffer b)"

lemma bc_inv_new [simp]: "bc_inv (NewBroadcaster n)"
  by (simp add: bc_inv_def NewBroadcaster_def defaultBroadcastBuffer_def defaultMergeBuffer_def Let_def)

lemma fold_offer:
  "distinct ss \<Longrightarrow> fold (bc_offer ev) ss b =
     b\<lparr>bc_chans := (\<lambda>s. if s \<in> set ss \<and> length (bc_chans b s) < bc_buffer b
                         then bc_chans b s @ [ev] else bc_chans b s)\<rparr>"
proof (induction ss arbitrary: b)
  case Nil
  show ?case by simp
next
  case (Cons s ss)
  define b' where "b' = bc_offer ev s b"
  have b': "bc_buffer b' = bc_buffer b" "bc_chans b' t =
      (if t = s \<and> length (bc_chans b s) < bc_buffer b then bc_chans b s @ [ev] else bc_chans b t)"
    "b'\<lparr>bc_chans := c\<rparr> = b\<lparr>bc_chans := c\<rparr>" for t c
    by (auto simp: b'_def bc_offer_def)
  have "fold (bc_offer ev) (s # ss) b = fold (bc_offer ev) ss b'" by (simp add: b'_def)
  also have "\<dots> = b\<lparr>bc_chans := (\<lambda>t. if t \<in> set ss \<and> length (bc_chans b' t) < bc_buffer b
      then bc_chans b' t @ [ev] else bc_chans b' t)\<rparr>"
    using Cons by (simp add: b')
  also have "(\<lambda>t. if t \<in> set ss \<and> length (bc_chans b' t) < bc_buffer b
      then bc_chans b' t @ [ev] else bc_chans b' t) =
    (\<lambda>t. if t \<in> set (s # ss) \<and> length (bc_chans b t) < bc_buffer b
      then bc_chans b t @ [ev] else bc_chans b t)"
    using Cons.prems by (auto simp: b' fun_eq_iff)
  finally show ?case .
qed

lemma bc_Broadcast_chans:
  "bc_inv b \<Longrightarrow> bc_Broadcast ev b =
     b\<lparr>bc_chans := (\<lambda>s. if s \<in> set (bc_subs b) \<and> length (bc_chans b s) < bc_buffer b
                         then bc_chans b s @ [ev] else bc_chans b s)\<rparr>"
  by (simp add: bc_Broadcast_def fold_offer bc_inv_def)

lemma bc_inv_Broadcast: "bc_inv b \<Longrightarrow> bc_inv (bc_Broadcast ev b)"
  by (auto simp: bc_Broadcast_chans bc_inv_def)

lemma bc_inv_Subscribe: "bc_inv b \<Longrightarrow> bc_inv (snd (bc_Subscribe b))"
  by (auto simp: bc_inv_def bc_Subscribe_def Let_def less_Suc_eq)

lemma bc_inv_cancel: "bc_inv b \<Longrightarrow> bc_inv (bc_cancel s b)"
  by (auto simp: bc_inv_def bc_cancel_def distinct_removeAll)

lemma bc_inv_recv: "bc_inv b \<Longrightarrow> bc_inv (snd (bc_recv s b))"
  by (auto simp: bc_inv_def bc_recv_def split: list.splits)
    (metis Suc_leD length_Cons)

lemmas bc_inv_ops = bc_inv_Broadcast bc_inv_Subscribe bc_inv_cancel bc_inv_recv

subsection \<open>What a subscriber sees\<close>

text \<open>
  A history of a broadcaster: everything broadcast, what each consumer has received, how much had
  been broadcast when it subscribed, and how many events its full buffer dropped.
\<close>

datatype bc_op = BSubscribe | BCancel nat | BBroadcast event | BRecv nat

record bc_hist =
  bh_bc :: broadcaster
  bh_sent :: "event list"
  bh_got :: "nat \<Rightarrow> event list"
  bh_from :: "nat \<Rightarrow> nat"
  bh_dropped :: "nat \<Rightarrow> nat"

definition bh_init :: "int \<Rightarrow> bc_hist" where
  "bh_init n = \<lparr>bh_bc = NewBroadcaster n, bh_sent = [], bh_got = (\<lambda>_. []), bh_from = (\<lambda>_. 0),
     bh_dropped = (\<lambda>_. 0)\<rparr>"

fun bh_step :: "bc_op \<Rightarrow> bc_hist \<Rightarrow> bc_hist" where
  "bh_step BSubscribe h =
     (case bc_Subscribe (bh_bc h) of (s, b) \<Rightarrow>
        h\<lparr>bh_bc := b, bh_got := (bh_got h)(s := []), bh_from := (bh_from h)(s := length (bh_sent h)),
          bh_dropped := (bh_dropped h)(s := 0)\<rparr>)"
| "bh_step (BCancel s) h = h\<lparr>bh_bc := bc_cancel s (bh_bc h)\<rparr>"
| "bh_step (BBroadcast ev) h =
     h\<lparr>bh_bc := bc_Broadcast ev (bh_bc h), bh_sent := bh_sent h @ [ev],
       bh_dropped := (\<lambda>s. if s \<in> set (bc_subs (bh_bc h)) \<and>
           \<not> length (bc_chans (bh_bc h) s) < bc_buffer (bh_bc h)
         then bh_dropped h s + 1 else bh_dropped h s)\<rparr>"
| "bh_step (BRecv s) h =
     (case bc_recv s (bh_bc h) of
        (None, b) \<Rightarrow> h\<lparr>bh_bc := b\<rparr>
      | (Some ev, b) \<Rightarrow> h\<lparr>bh_bc := b, bh_got := (bh_got h)(s := bh_got h s @ [ev])\<rparr>)"

definition bh_seen :: "bc_hist \<Rightarrow> nat \<Rightarrow> event list" where
  "bh_seen h s = bh_got h s @ bc_chans (bh_bc h) s"

definition bh_inv :: "bc_hist \<Rightarrow> bool" where [inv_defs]:
  "bh_inv h \<longleftrightarrow> bc_inv (bh_bc h) \<and> (\<forall>s. bh_from h s \<le> length (bh_sent h)) \<and>
     (\<forall>s. subseq (bh_seen h s) (drop (bh_from h s) (bh_sent h))) \<and>
     (\<forall>s \<in> set (bc_subs (bh_bc h)).
        length (bh_seen h s) + bh_dropped h s = length (bh_sent h) - bh_from h s)"

lemma bh_seen_Broadcast:
  assumes "bc_inv (bh_bc h)"
  shows "bh_seen (bh_step (BBroadcast ev) h) s =
    (if s \<in> set (bc_subs (bh_bc h)) \<and> length (bc_chans (bh_bc h) s) < bc_buffer (bh_bc h)
     then bh_seen h s @ [ev] else bh_seen h s)"
  using assms by (simp add: bh_seen_def bc_Broadcast_chans)

lemma bh_seen_Recv: "bh_seen (bh_step (BRecv s) h) t = bh_seen h t"
  by (auto simp: bh_seen_def bc_recv_def split: list.splits)

lemma bh_inv_Recv:
  assumes inv: "bh_inv h"
  shows "bh_inv (bh_step (BRecv s) h)"
proof -
  have "bh_bc (bh_step (BRecv s) h) = snd (bc_recv s (bh_bc h))"
    "bh_from (bh_step (BRecv s) h) = bh_from h" "bh_sent (bh_step (BRecv s) h) = bh_sent h"
    "bh_dropped (bh_step (BRecv s) h) = bh_dropped h"
    "bc_subs (snd (bc_recv s (bh_bc h))) = bc_subs (bh_bc h)"
    by (auto simp: bc_recv_def split: list.splits option.splits)
  with inv show ?thesis
    unfolding bh_inv_def bh_seen_Recv by (simp add: bc_inv_recv)
qed

lemma bh_inv_Broadcast:
  assumes inv: "bh_inv h"
  shows "bh_inv (bh_step (BBroadcast ev) h)"
proof -
  from inv have b: "bc_inv (bh_bc h)" by (simp add: bh_inv_def)
  have "bc_subs (bc_Broadcast ev (bh_bc h)) = bc_subs (bh_bc h)"
    using b by (simp add: bc_Broadcast_chans)
  with inv show ?thesis
    unfolding bh_inv_def bh_seen_Broadcast[OF b]
    by (auto simp: bc_inv_Broadcast Suc_diff_le le_SucI list_emb_append_mono subseq_append_iff
        intro: list_emb_append2)
qed

lemma bh_inv_step: "bh_inv h \<Longrightarrow> bh_inv (bh_step x h)"
proof (cases x)
  case BSubscribe
  assume inv: "bh_inv h"
  then have "bc_next (bh_bc h) \<notin> set (bc_subs (bh_bc h))" by (auto simp: bh_inv_def bc_inv_def)
  with inv BSubscribe show ?thesis
    using bc_inv_Subscribe[of "bh_bc h"]
    by (auto simp: bh_inv_def bc_Subscribe_def Let_def bh_seen_def)
next
  case (BCancel s)
  assume "bh_inv h"
  with BCancel show ?thesis
    using bc_inv_cancel[of "bh_bc h" s]
    by (auto simp: bh_inv_def bc_cancel_def bh_seen_def)
next
  case (BBroadcast ev)
  assume "bh_inv h"
  with BBroadcast show ?thesis using bh_inv_Broadcast by simp
next
  case (BRecv s)
  assume "bh_inv h"
  with BRecv show ?thesis using bh_inv_Recv by simp
qed

lemma bh_inv_run: "bh_inv h \<Longrightarrow> bh_inv (fold bh_step ops h)"
  by (induction ops arbitrary: h) (auto simp: bh_inv_step)

lemma bh_inv_init: "bh_inv (bh_init n)"
  by (simp add: bh_inv_def bh_init_def bh_seen_def) (simp add: NewBroadcaster_def Let_def)

text \<open>
  C33. What a subscriber has received or still has buffered is always a subsequence, in order, of
  the events broadcast since it subscribed; its buffer never exceeds its bound; and if nothing
  was dropped for a full buffer it is exactly those events.
\<close>
theorem broadcast_in_order_drop_counted:
  assumes "h = fold bh_step ops (bh_init n)"
  shows "subseq (bh_seen h s) (drop (bh_from h s) (bh_sent h)) \<and>
    length (bc_chans (bh_bc h) s) \<le> bc_buffer (bh_bc h) \<and>
    (s \<in> set (bc_subs (bh_bc h)) \<and> bh_dropped h s = 0 \<longrightarrow>
       bh_seen h s = drop (bh_from h s) (bh_sent h))"
proof -
  have "bh_inv h" unfolding assms by (rule bh_inv_run[OF bh_inv_init])
  then show ?thesis
    by (auto simp: bh_inv_def bc_inv_def intro!: subseq_same_length)
qed

theorem broadcast_in_order_drop_counted_witness:
  "\<exists>h. h = fold bh_step [BSubscribe, BBroadcast \<lparr>ev_Name = ''a'', ev_Data = ''1''\<rparr>,
       BBroadcast \<lparr>ev_Name = ''a'', ev_Data = ''2''\<rparr>, BRecv 0] (bh_init 1) \<and>
     bh_seen h 0 = [\<lparr>ev_Name = ''a'', ev_Data = ''1''\<rparr>] \<and> bh_dropped h 0 = 1 \<and>
     subseq (bh_seen h 0) (drop (bh_from h 0) (bh_sent h))"
proof -
  let ?h = "fold bh_step [BSubscribe, BBroadcast \<lparr>ev_Name = ''a'', ev_Data = ''1''\<rparr>,
       BBroadcast \<lparr>ev_Name = ''a'', ev_Data = ''2''\<rparr>, BRecv 0] (bh_init 1)"
  have "subseq (bh_seen ?h 0) (drop (bh_from ?h 0) (bh_sent ?h))"
    using broadcast_in_order_drop_counted[OF refl] by blast
  moreover have "bh_seen ?h 0 = [\<lparr>ev_Name = ''a'', ev_Data = ''1''\<rparr>]" "bh_dropped ?h 0 = 1"
    by (simp_all add: bh_init_def NewBroadcaster_def bc_Subscribe_def bc_Broadcast_def bc_offer_def
        bc_recv_def bh_seen_def Let_def)
  ultimately show ?thesis by blast
qed

section \<open>The event filter\<close>

definition heartbeatName :: string where "heartbeatName = ''heartbeat''"

record eventFilter =
  ef_all :: bool
  ef_names :: "string list"

definition parseEventFilter :: "string \<Rightarrow> eventFilter" where
  "parseEventFilter q =
     (if TrimSpace q = '''' then \<lparr>ef_all = True, ef_names = []\<rparr>
      else let names = filter (\<lambda>p. p \<noteq> '''') (map TrimSpace (Split q (CHR '','')))
        in if names = [] then \<lparr>ef_all = True, ef_names = []\<rparr>
           else \<lparr>ef_all = False, ef_names = names\<rparr>)"

definition ef_allows :: "eventFilter \<Rightarrow> string \<Rightarrow> bool" where
  "ef_allows f name \<longleftrightarrow>
     (if name = heartbeatName then True else ef_all f \<or> List.member (ef_names f) name)"

definition ef_allowsAny :: "eventFilter \<Rightarrow> string list \<Rightarrow> bool" where
  "ef_allowsAny f names \<longleftrightarrow> ef_all f \<or> list_ex (ef_allows f) names"

section \<open>The wire format\<close>

definition openComment :: string where
  "openComment = '': open'' @ [CHR 0x0A, CHR 0x0A]"

definition writeEvent :: "event \<Rightarrow> string" where
  "writeEvent ev = ''event: '' @ ev_Name ev @ [CHR 0x0A] @ ''data: '' @ ev_Data ev @ [CHR 0x0A, CHR 0x0A]"

text \<open>The reference reader of a stream: one event per block of an event and a data line.\<close>

definition readEvent :: "string \<Rightarrow> (event \<times> string) option" where
  "readEvent s =
     (if \<not> HasPrefix s ''event: '' then None
      else case Cut (drop 7 s) (CHR 0x0A) of
        (name, rest, ok) \<Rightarrow>
          if \<not> ok \<or> \<not> HasPrefix rest ''data: '' then None
          else case Cut (drop 6 rest) (CHR 0x0A) of
            (payload, rest, ok) \<Rightarrow>
              if \<not> ok \<or> \<not> HasPrefix rest [CHR 0x0A] then None
              else Some (\<lparr>ev_Name = name, ev_Data = payload\<rparr>, drop 1 rest))"

definition single_line :: "event \<Rightarrow> bool" where
  "single_line ev \<longleftrightarrow> CHR 0x0A \<notin> set (ev_Name ev) \<and> CHR 0x0A \<notin> set (ev_Data ev)"

lemma readEvent_writeEvent:
  assumes "single_line ev"
  shows "readEvent (writeEvent ev @ rest) = Some (ev, rest)"
proof -
  have "Cut (ev_Name ev @ CHR 0x0A # ''data: '' @ ev_Data ev @ [CHR 0x0A, CHR 0x0A] @ rest) (CHR 0x0A) =
      (ev_Name ev, ''data: '' @ ev_Data ev @ [CHR 0x0A, CHR 0x0A] @ rest, True)"
    using assms by (intro Cut_Some) (simp add: single_line_def)
  moreover have "Cut (ev_Data ev @ CHR 0x0A # CHR 0x0A # rest) (CHR 0x0A) =
      (ev_Data ev, CHR 0x0A # rest, True)"
    using assms by (intro Cut_Some) (simp add: single_line_def)
  ultimately show ?thesis
    by (simp add: readEvent_def writeEvent_def HasPrefix_def)
qed

fun readAll :: "nat \<Rightarrow> string \<Rightarrow> event list" where
  "readAll 0 s = []"
| "readAll (Suc k) s =
     (case readEvent s of None \<Rightarrow> [] | Some (ev, rest) \<Rightarrow> ev # readAll k rest)"

lemma readEvent_Nil: "readEvent [] = None"
  by (simp add: readEvent_def HasPrefix_def)

lemma readAll_concat:
  "\<forall>ev \<in> set evs. single_line ev \<Longrightarrow> length evs \<le> k \<Longrightarrow> readAll k (concat (map writeEvent evs)) = evs"
proof (induction evs arbitrary: k)
  case Nil
  then show ?case by (cases k) (simp_all add: readEvent_Nil)
next
  case (Cons ev evs)
  then obtain k' where "k = Suc k'" by (cases k) auto
  with Cons show ?case by (simp add: readEvent_writeEvent)
qed

section \<open>The streaming loop\<close>

text \<open>
  What the select of the loop receives, each with whether the write it causes (if any) succeeds: the
  end of the request, an event forwarded by a source, or a tick of the heartbeat.
\<close>

datatype loop_in = LDone | LEvent event | LTick

definition heartbeat :: event where
  "heartbeat = \<lparr>ev_Name = heartbeatName, ev_Data = ''{}''\<rparr>"

fun stream_loop :: "eventFilter \<Rightarrow> (loop_in \<times> bool) list \<Rightarrow> event list" where
  "stream_loop f [] = []"
| "stream_loop f ((LDone, ok) # ins) = []"
| "stream_loop f ((LEvent ev, ok) # ins) =
     (if \<not> ef_allows f (ev_Name ev) then stream_loop f ins
      else ev # (if ok then stream_loop f ins else []))"
| "stream_loop f ((LTick, ok) # ins) = heartbeat # (if ok then stream_loop f ins else [])"

text \<open>
  One request: a writer that cannot flush is answered with a problem document; otherwise the
  headers are flushed, the sources the filter lets through are subscribed (a source that is not
  \<open>Named\<close> always), the opening comment is written, and the loop runs.
\<close>

record response =
  rs_Status :: nat
  rs_Headers :: "(string \<times> string) list"
  rs_Subscribed :: "nat list"
  rs_Body :: string

definition problem_headers :: "(string \<times> string) list" where
  "problem_headers = [(''Content-Type'', ''application/problem+json'')]"

definition stream_headers :: "(string \<times> string) list" where
  "stream_headers = [(''Content-Type'', ''text/event-stream''), (''Cache-Control'', ''no-cache''),
     (''Connection'', ''keep-alive''), (''X-Accel-Buffering'', ''no'')]"

definition subscribed_sources :: "eventFilter \<Rightarrow> string list option list \<Rightarrow> nat list" where
  "subscribed_sources f sources =
     filter (\<lambda>i. case sources ! i of Some names \<Rightarrow> ef_allowsAny f names | None \<Rightarrow> True)
       [0..<length sources]"

definition ServeHTTP ::
  "(nat \<Rightarrow> string) \<Rightarrow> bool \<Rightarrow> bool \<Rightarrow> bool \<Rightarrow> string list option list \<Rightarrow> string \<Rightarrow>
     (loop_in \<times> bool) list \<Rightarrow> response" where
  "ServeHTTP problem flusher flushOk openOk sources query ins =
     (if \<not> flusher
      then \<lparr>rs_Status = 500, rs_Headers = problem_headers, rs_Subscribed = [], rs_Body = problem 500\<rparr>
      else let f = parseEventFilter query;
               r = \<lparr>rs_Status = 200, rs_Headers = stream_headers, rs_Subscribed = [], rs_Body = ''''\<rparr>
        in if \<not> flushOk then r
           else let r = r\<lparr>rs_Subscribed := subscribed_sources f sources, rs_Body := openComment\<rparr>
             in if \<not> openOk then r
                else r\<lparr>rs_Body := openComment @ concat (map writeEvent (stream_loop f ins))\<rparr>)"

subsection \<open>What a client reads\<close>

lemma stream_loop_allowed: "ev \<in> set (stream_loop f ins) \<Longrightarrow> ef_allows f (ev_Name ev)"
  by (induction f ins rule: stream_loop.induct)
    (auto simp: heartbeat_def ef_allows_def split: if_splits)

fun loop_events :: "(loop_in \<times> bool) list \<Rightarrow> event list" where
  "loop_events [] = []"
| "loop_events ((LDone, _) # ins) = loop_events ins"
| "loop_events ((LEvent ev, _) # ins) = ev # loop_events ins"
| "loop_events ((LTick, _) # ins) = heartbeat # loop_events ins"

lemma stream_loop_all:
  "\<forall>(x, ok) \<in> set ins. ok \<and> x \<noteq> LDone \<Longrightarrow>
     stream_loop f ins = filter (\<lambda>ev. ef_allows f (ev_Name ev)) (loop_events ins)"
  by (induction f ins rule: stream_loop.induct)
    (auto simp: heartbeat_def ef_allows_def)

text \<open>A source that is skipped could not have delivered anything the filter lets through.\<close>

lemma skipped_source_silent:
  assumes "\<not> ef_allowsAny f names" "name \<in> set names"
  shows "\<not> ef_allows f name"
  using assms by (auto simp: ef_allowsAny_def list_ex_iff)

text \<open>
  A client reading the event stream of a request recovers exactly the forwarded events that
  its filter allows plus the heartbeats, in order, as long as the producers keep their one-line
  payload contract.
\<close>
theorem stream_roundtrip:
  assumes "\<forall>(x, ok) \<in> set ins. ok \<and> x \<noteq> LDone"
    and "\<forall>ev \<in> set (loop_events ins). single_line ev"
  shows "rs_Body (ServeHTTP problem True True True sources query ins) =
      openComment @ concat (map writeEvent (filter (\<lambda>ev. ef_allows (parseEventFilter query) (ev_Name ev)) (loop_events ins)))
    \<and> readAll (length (loop_events ins)) (drop (length openComment)
        (rs_Body (ServeHTTP problem True True True sources query ins))) =
      filter (\<lambda>ev. ef_allows (parseEventFilter query) (ev_Name ev)) (loop_events ins)"
  using assms
  by (simp add: ServeHTTP_def Let_def stream_loop_all readAll_concat)

definition demo_event :: event where
  "demo_event = \<lparr>ev_Name = ''notification'', ev_Data = ''x''\<rparr>"

theorem stream_roundtrip_witness:
  "readAll (Suc (Suc 0)) (drop (length openComment)
     (rs_Body (ServeHTTP (\<lambda>_. '''') True True True [] '''' [(LEvent demo_event, True), (LTick, True)])))
   = [demo_event, heartbeat]"
proof -
  have *: "\<forall>(x, ok) \<in> set [(LEvent demo_event, True), (LTick, True)]. ok \<and> x \<noteq> LDone"
    "\<forall>ev \<in> set (loop_events [(LEvent demo_event, True), (LTick, True)]). single_line ev"
    by (simp_all add: single_line_def demo_event_def heartbeat_def heartbeatName_def)
  show ?thesis
    using stream_roundtrip[OF *, THEN conjunct2, of "\<lambda>_. ''''" "[]" "''''"]
    by (simp add: parseEventFilter_def ef_allows_def del: readAll.simps)
qed

end
