(* ===== verification/Notify_Center.thy ===== *)
theory Notify_Center
  imports Notify_Ring Notify_Detect Sse
begin

text \<open>
  \<open>internal/notify/notify.go\<close>: the notification center, a ring of history plus a pinned map of
  active conditions and the broadcaster of the stream. The center's mutex makes every method one
  atomic step, so a method is a function of the state. The clock reading a method takes is its
  argument \<open>now\<close>; \<open>enc\<close> stands for \<open>json.Marshal\<close> of an entry (\<open>None\<close> where it fails). A nil
  \<open>*Center\<close> is \<open>None\<close>.
\<close>

section \<open>State and operations\<close>

type_synonym encoder = "notification \<Rightarrow> string option"

definition notificationEvent :: string where "notificationEvent = ''notification''"
definition defaultCapacity :: int where "defaultCapacity = 500"
definition subscriberBuffer :: int where "subscriberBuffer = 32"

record center =
  c_capacity :: int
  c_start :: instant
  c_bootID :: string
  c_nextID :: u64
  c_ring :: ring
  c_active :: "(string \<times> notification) list"
  c_bc :: broadcaster

text \<open>\<open>WithCapacity\<close> options in order; a value below one is ignored.\<close>

definition WithCapacity :: "int \<Rightarrow> center \<Rightarrow> center" where
  "WithCapacity n c = (if n > 0 then c\<lparr>c_capacity := n\<rparr> else c)"

definition NewCenter :: "int list \<Rightarrow> string \<Rightarrow> instant \<Rightarrow> center" where
  "NewCenter capacities bootID now =
     (let c = \<lparr>c_capacity = defaultCapacity, c_start = 0, c_bootID = '''', c_nextID = 0,
               c_ring = newRing 1, c_active = [], c_bc = NewBroadcaster subscriberBuffer\<rparr>;
          c = fold WithCapacity capacities c
      in c\<lparr>c_ring := newRing (c_capacity c), c_bootID := bootID, c_start := now\<rparr>)"

definition uptimeMs :: "center \<Rightarrow> instant \<Rightarrow> int" where
  "uptimeMs c now = go_quot (time_sub now (c_start c)) millisecond"

definition stream_entry :: "encoder \<Rightarrow> notification \<Rightarrow> center \<Rightarrow> center" where
  "stream_entry enc n c =
     (case enc n of
        None \<Rightarrow> c
      | Some payload \<Rightarrow>
          c\<lparr>c_bc := bc_Broadcast \<lparr>ev_Name = notificationEvent, ev_Data = payload\<rparr> (c_bc c)\<rparr>)"

definition publishLocked ::
  "encoder \<Rightarrow> instant \<Rightarrow> notification \<Rightarrow> center \<Rightarrow> notification \<times> center" where
  "publishLocked enc now n c =
     (let c = c\<lparr>c_nextID := c_nextID c + 1\<rparr>;
          n = n\<lparr>n_ID := c_nextID c, n_BootID := c_bootID c, n_Time := now, n_UptimeMs := uptimeMs c now\<rparr>;
          c = c\<lparr>c_ring := ring_push n (c_ring c)\<rparr>
      in (n, stream_entry enc n c))"

definition center_Publish :: "encoder \<Rightarrow> instant \<Rightarrow> notification \<Rightarrow> center \<Rightarrow> center" where
  "center_Publish enc now n c = snd (publishLocked enc now n c)"

definition center_Onset :: "encoder \<Rightarrow> instant \<Rightarrow> notification \<Rightarrow> center \<Rightarrow> bool \<times> center" where
  "center_Onset enc now n c =
     (if n_Key n = '''' then (False, c)
      else case map_of (c_active c) (n_Key n) of
        Some _ \<Rightarrow> (False, c)
      | None \<Rightarrow>
          (case publishLocked enc now (n\<lparr>n_Kind := KindOnset\<rparr>) c of
             (n, c) \<Rightarrow> (True, c\<lparr>c_active := AList.update (n_Key n) n (c_active c)\<rparr>)))"

definition center_Clear ::
  "encoder \<Rightarrow> instant \<Rightarrow> string \<Rightarrow> notification \<Rightarrow> center \<Rightarrow> bool \<times> center" where
  "center_Clear enc now key n c =
     (case map_of (c_active c) key of
        None \<Rightarrow> (False, c)
      | Some onset \<Rightarrow>
          let c = c\<lparr>c_active := AList.delete key (c_active c)\<rparr>;
              n = n\<lparr>n_Key := key, n_Kind := KindClear, n_Category := n_Category onset,
                    n_Source := n_Source onset\<rparr>
          in (True, snd (publishLocked enc now n c)))"

definition center_Resolve ::
  "encoder \<Rightarrow> instant \<Rightarrow> string \<Rightarrow> string \<Rightarrow> center \<Rightarrow> bool \<times> center" where
  "center_Resolve enc now key reason c =
     (case map_of (c_active c) key of
        None \<Rightarrow> (False, c)
      | Some onset \<Rightarrow>
          let c = c\<lparr>c_active := AList.delete key (c_active c)\<rparr>;
              n = zero_notification\<lparr>n_Severity := SeverityInfo, n_Category := n_Category onset,
                    n_Kind := KindClear, n_Key := key, n_Source := n_Source onset,
                    n_Title := ''Cleared'', n_Message := reason\<rparr>
          in (True, snd (publishLocked enc now n c)))"

definition center_Update ::
  "encoder \<Rightarrow> string \<Rightarrow> string \<Rightarrow> string \<Rightarrow> center \<Rightarrow> bool \<times> center" where
  "center_Update enc key title message c =
     (case map_of (c_active c) key of
        None \<Rightarrow> (False, c)
      | Some n \<Rightarrow>
          if n_Title n = title \<and> n_Message n = message then (False, c)
          else let n = n\<lparr>n_Title := title, n_Message := message\<rparr>;
                   c = c\<lparr>c_active := AList.update key n (c_active c)\<rparr>;
                   c = c\<lparr>c_ring := snd (ring_replace n (c_ring c))\<rparr>
            in (True, stream_entry enc n c))"

record snapshot =
  sn_BootID :: string
  sn_ServerTime :: instant
  sn_UptimeMs :: int
  sn_Capacity :: int
  sn_NextID :: u64
  sn_Notifications :: "notification list"

definition center_Snapshot :: "instant \<Rightarrow> center \<Rightarrow> snapshot" where
  "center_Snapshot now c =
     (let entries = ring_all (c_ring c);
          present = map n_ID entries;
          pinned = filter (\<lambda>onset. \<not> List.member present (n_ID onset)) (map snd (c_active c))
      in \<lparr>sn_BootID = c_bootID c, sn_ServerTime = now, sn_UptimeMs = uptimeMs c now,
          sn_Capacity = c_capacity c, sn_NextID = c_nextID c + 1,
          sn_Notifications = sort_key n_ID (entries @ pinned)\<rparr>)"

definition center_Active :: "center \<Rightarrow> notification list" where
  "center_Active c = sort_key n_ID (map snd (c_active c))"

definition Started :: "string \<Rightarrow> notification" where
  "Started version = zero_notification\<lparr>n_Severity := SeverityInfo, n_Category := CategorySystem,
     n_Kind := KindEvent, n_Title := ''Appliance started'',
     n_Message := ''Appliance started, version '' @ version\<rparr>"

lemmas center_defs [step_defs] =
  center_Publish_def center_Onset_def center_Clear_def center_Resolve_def center_Update_def

text \<open>
  The publisher interface as data: one call of a \<open>Publisher\<close> or \<open>Updater\<close> method. Emitters
  produce lists of calls; a nil center ignores them all.
\<close>

datatype pub_call =
    PPublish notification
  | POnset notification
  | PClear string notification
  | PResolve string string
  | PUpdate string string string

fun center_call :: "encoder \<Rightarrow> instant \<Rightarrow> pub_call \<Rightarrow> center \<Rightarrow> bool \<times> center" where
  "center_call enc now (PPublish n) c = (True, center_Publish enc now n c)"
| "center_call enc now (POnset n) c = center_Onset enc now n c"
| "center_call enc now (PClear k n) c = center_Clear enc now k n c"
| "center_call enc now (PResolve k r) c = center_Resolve enc now k r c"
| "center_call enc now (PUpdate k t m) c = center_Update enc k t m c"

definition nil_call :: "encoder \<Rightarrow> instant \<Rightarrow> pub_call \<Rightarrow> center option \<Rightarrow> bool \<times> center option" where
  "nil_call enc now call c =
     (case c of
        None \<Rightarrow> (False, None)
      | Some c \<Rightarrow> (case center_call enc now call c of (ok, c) \<Rightarrow> (ok, Some c)))"

section \<open>The active set\<close>

definition active_keys :: "center \<Rightarrow> string set" where
  "active_keys c = fst ` set (c_active c)"

lemma map_of_active: "k \<in> active_keys c \<longleftrightarrow> map_of (c_active c) k \<noteq> None"
  by (auto simp: active_keys_def map_of_eq_None_iff)

lemma stream_entry_simps [simp]:
  "c_active (stream_entry enc n c) = c_active c"
  "c_ring (stream_entry enc n c) = c_ring c"
  "c_nextID (stream_entry enc n c) = c_nextID c"
  "c_start (stream_entry enc n c) = c_start c"
  "c_bootID (stream_entry enc n c) = c_bootID c"
  "c_capacity (stream_entry enc n c) = c_capacity c"
  by (simp_all add: stream_entry_def split: option.splits)

definition stamped :: "instant \<Rightarrow> notification \<Rightarrow> center \<Rightarrow> notification" where
  "stamped now n c = n\<lparr>n_ID := c_nextID c + 1, n_BootID := c_bootID c, n_Time := now,
     n_UptimeMs := uptimeMs c now\<rparr>"

lemma publishLocked_simps [simp]:
  "fst (publishLocked enc now n c) = stamped now n c"
  "c_active (snd (publishLocked enc now n c)) = c_active c"
  "c_nextID (snd (publishLocked enc now n c)) = c_nextID c + 1"
  "c_ring (snd (publishLocked enc now n c)) = ring_push (stamped now n c) (c_ring c)"
  "c_bootID (snd (publishLocked enc now n c)) = c_bootID c"
  "c_capacity (snd (publishLocked enc now n c)) = c_capacity c"
  by (simp_all add: publishLocked_def stamped_def uptimeMs_def Let_def)

lemma stamped_simps [simp]:
  "n_ID (stamped now n c) = c_nextID c + 1"
  "n_Key (stamped now n c) = n_Key n"
  "n_Kind (stamped now n c) = n_Kind n"
  by (simp_all add: stamped_def)

lemma Onset_simps:
  "center_Onset enc now n c =
     (if n_Key n = '''' \<or> n_Key n \<in> active_keys c then (False, c)
      else (True, (snd (publishLocked enc now (n\<lparr>n_Kind := KindOnset\<rparr>) c))
        \<lparr>c_active := AList.update (n_Key n) (stamped now (n\<lparr>n_Kind := KindOnset\<rparr>) c) (c_active c)\<rparr>))"
proof -
  obtain m c' where p: "publishLocked enc now (n\<lparr>n_Kind := KindOnset\<rparr>) c = (m, c')"
    by (cases "publishLocked enc now (n\<lparr>n_Kind := KindOnset\<rparr>) c")
  then have "m = stamped now (n\<lparr>n_Kind := KindOnset\<rparr>) c" "c_active c' = c_active c"
    using publishLocked_simps(1,2)[of enc now "n\<lparr>n_Kind := KindOnset\<rparr>" c] by simp_all
  with p show ?thesis
    by (auto simp: center_Onset_def map_of_active split: option.splits)
qed

lemma keys_update [simp]: "fst ` set (AList.update k v al) = insert k (fst ` set al)"
proof -
  have "set (map fst (AList.update k v al)) = insert k (set (map fst al))"
    by (simp add: update_keys insert_absorb)
  then show ?thesis by simp
qed

lemma keys_delete [simp]: "fst ` set (AList.delete k al) = fst ` set al - {k}"
proof -
  have "set (map fst (AList.delete k al)) = set (map fst al) - {k}"
    by (simp only: delete_keys set_removeAll)
  then show ?thesis by simp
qed

lemma active_keys_Publish: "active_keys (center_Publish enc now n c) = active_keys c"
  by (simp add: center_Publish_def active_keys_def)

lemma active_keys_Onset:
  "active_keys (snd (center_Onset enc now n c)) =
     (if n_Key n = '''' then active_keys c else insert (n_Key n) (active_keys c))"
  by (auto simp: Onset_simps active_keys_def)

lemma active_keys_Clear: "active_keys (snd (center_Clear enc now k n c)) = active_keys c - {k}"
  by (auto simp: center_Clear_def active_keys_def Let_def map_of_eq_None_iff split: option.splits)

lemma active_keys_Resolve: "active_keys (snd (center_Resolve enc now k r c)) = active_keys c - {k}"
  by (auto simp: center_Resolve_def active_keys_def Let_def map_of_eq_None_iff split: option.splits)

lemma active_keys_Update: "active_keys (snd (center_Update enc k t m c)) = active_keys c"
proof (cases "map_of (c_active c) k")
  case (Some n)
  then have "k \<in> fst ` set (c_active c)" by (force dest: map_of_SomeD)
  with Some show ?thesis
    by (auto simp: center_Update_def active_keys_def Let_def insert_absorb)
qed (simp add: center_Update_def)

lemmas active_keys_ops =
  active_keys_Publish active_keys_Onset active_keys_Clear active_keys_Resolve active_keys_Update

lemma active_keys_call:
  "active_keys (snd (center_call enc now call c)) =
     (case call of
        PPublish n \<Rightarrow> active_keys c
      | POnset n \<Rightarrow> (if n_Key n = '''' then active_keys c else insert (n_Key n) (active_keys c))
      | PClear k n \<Rightarrow> active_keys c - {k}
      | PResolve k r \<Rightarrow> active_keys c - {k}
      | PUpdate k t m \<Rightarrow> active_keys c)"
  by (cases call) (simp_all add: active_keys_ops)

section \<open>Invariant\<close>

definition ids_ascend :: "ring \<Rightarrow> u64 \<Rightarrow> bool" where
  "ids_ascend r hi \<longleftrightarrow> ring_inv r \<and> sorted_wrt (<) (map n_ID (ring_all r)) \<and>
     (\<forall>m \<in> set (ring_all r). n_ID m \<le> hi)"

definition pinned_ok :: "(string \<rightharpoonup> notification) \<Rightarrow> u64 \<Rightarrow> bool" where
  "pinned_ok act hi \<longleftrightarrow>
     (\<forall>k n. act k = Some n \<longrightarrow> n_Key n = k \<and> k \<noteq> '''' \<and> n_Kind n = KindOnset \<and> n_ID n \<le> hi) \<and>
     (\<forall>k k' n n'. act k = Some n \<longrightarrow> act k' = Some n' \<longrightarrow> n_ID n = n_ID n' \<longrightarrow> k = k')"

definition ring_agrees :: "ring \<Rightarrow> (string \<rightharpoonup> notification) \<Rightarrow> bool" where
  "ring_agrees r act \<longleftrightarrow>
     (\<forall>m \<in> set (ring_all r). \<forall>k n. act k = Some n \<longrightarrow> n_ID m = n_ID n \<longrightarrow> m = n)"

definition center_inv :: "center \<Rightarrow> bool" where [inv_defs]:
  "center_inv c \<longleftrightarrow> ids_ascend (c_ring c) (c_nextID c) \<and> distinct (map fst (c_active c)) \<and>
     pinned_ok (map_of (c_active c)) (c_nextID c) \<and>
     ring_agrees (c_ring c) (map_of (c_active c)) \<and> bc_inv (c_bc c)"

lemma sorted_ids_distinct:
  "sorted_wrt (<) (map n_ID xs) \<Longrightarrow> distinct (map n_ID xs)"
  by (auto simp: strict_sorted_iff)

lemma ids_ascend_push:
  assumes "ids_ascend r hi" "hi \<noteq> - 1" "n_ID n = hi + 1"
  shows "ids_ascend (ring_push n r) (hi + 1)"
proof -
  have lt: "\<forall>m \<in> set (ring_all r). n_ID m < n_ID n"
    using assms by (auto simp: ids_ascend_def intro: word_le_less_inc)
  have "n_ID m \<le> hi + 1" if "m \<in> set (ring_all (ring_push n r))" for m
    using hist.in_entries_push[OF _ that] lt assms by (auto simp: ids_ascend_def)
  then show ?thesis
    using lt assms by (simp add: ids_ascend_def hist.sorted_push)
qed

lemma ring_agrees_push:
  assumes "ring_inv r" "ring_agrees r act" "pinned_ok act hi" "hi \<noteq> - 1" "n_ID n = hi + 1"
  shows "ring_agrees (ring_push n r) act"
  unfolding ring_agrees_def
proof (intro ballI allI impI)
  fix m k x assume m: "m \<in> set (ring_all (ring_push n r))" and x: "act k = Some x" "n_ID m = n_ID x"
  have "n_ID x < hi + 1" using assms x word_le_less_inc[OF assms(4), of "n_ID x"]
    by (auto simp: pinned_ok_def)
  with hist.in_entries_push[OF assms(1) m] assms x show "m = x"
    by (auto simp: ring_agrees_def)
qed

lemma pinned_ok_mono:
  assumes "pinned_ok act hi" "hi \<noteq> - 1"
  shows "pinned_ok act (hi + 1)"
proof -
  have "v \<le> hi + 1" if "v \<le> hi" for v
    using word_le_less_inc[OF assms(2) that] by simp
  with assms(1) show ?thesis unfolding pinned_ok_def by blast
qed

lemma pinned_ok_delete: "pinned_ok act hi \<Longrightarrow> pinned_ok (act(k := None)) hi"
  by (auto simp: pinned_ok_def)

lemma ring_agrees_delete: "ring_agrees r act \<Longrightarrow> ring_agrees r (act(k := None))"
  by (auto simp: ring_agrees_def)

lemma bc_inv_stream: "bc_inv (c_bc c) \<Longrightarrow> bc_inv (c_bc (stream_entry enc n c))"
  by (auto simp: stream_entry_def bc_inv_Broadcast split: option.splits)

lemma bc_inv_publish: "bc_inv (c_bc c) \<Longrightarrow> bc_inv (c_bc (snd (publishLocked enc now n c)))"
  by (auto simp: publishLocked_def Let_def intro!: bc_inv_stream)

lemma center_inv_publishLocked:
  assumes "center_inv c" "c_nextID c \<noteq> - 1"
  shows "center_inv (snd (publishLocked enc now n c))"
  using assms
  by (simp add: center_inv_def bc_inv_publish ids_ascend_push pinned_ok_mono)
    (rule ring_agrees_push[where hi = "c_nextID c"], auto simp: ids_ascend_def)

lemma center_inv_forget:
  "center_inv c \<Longrightarrow> center_inv (c\<lparr>c_active := AList.delete k (c_active c)\<rparr>)"
  by (auto simp: center_inv_def delete_conv' distinct_delete pinned_ok_delete ring_agrees_delete)

lemma center_inv_Onset:
  assumes inv: "center_inv c" and room: "c_nextID c \<noteq> - 1"
  shows "center_inv (snd (center_Onset enc now n c))"
proof (cases "n_Key n = '''' \<or> n_Key n \<in> active_keys c")
  case True
  with inv show ?thesis by (simp add: Onset_simps)
next
  case False
  let ?n = "n\<lparr>n_Kind := KindOnset\<rparr>"
  let ?c = "snd (publishLocked enc now ?n c)"
  let ?m = "stamped now ?n c"
  have inv': "center_inv ?c" using inv room by (rule center_inv_publishLocked)
  have below: "n_ID x \<noteq> c_nextID c + 1" if "map_of (c_active c) k = Some x" for k x
    using inv that word_le_less_inc[OF room, of "n_ID x"]
    by (auto simp: center_inv_def pinned_ok_def)
  have fresh: "x = ?m" if "x \<in> set (ring_all (c_ring ?c))" "n_ID x = c_nextID c + 1" for x
  proof -
    from that(1) have "x = ?m \<or> x \<in> set (ring_all (c_ring c))"
      using hist.in_entries_push[of "c_ring c" x ?m] inv by (auto simp: center_inv_def ids_ascend_def)
    with that(2) word_le_less_inc[OF room, of "n_ID x"] inv show ?thesis
      by (auto simp: center_inv_def ids_ascend_def)
  qed
  have "pinned_ok ((map_of (c_active c))(n_Key n \<mapsto> ?m)) (c_nextID c + 1)"
    using inv' False below by (auto simp: center_inv_def pinned_ok_def dest: sym)
  moreover have "ring_agrees (c_ring ?c) ((map_of (c_active c))(n_Key n \<mapsto> ?m))"
    using inv' fresh by (auto simp: center_inv_def ring_agrees_def)
  ultimately show ?thesis
    using inv' False by (simp add: Onset_simps center_inv_def update_conv' distinct_update)
qed

lemma center_inv_Clear:
  "center_inv c \<Longrightarrow> c_nextID c \<noteq> - 1 \<Longrightarrow> center_inv (snd (center_Clear enc now k n c))"
  by (auto simp: center_Clear_def Let_def split: option.splits
      intro!: center_inv_publishLocked center_inv_forget)

lemma center_inv_Resolve:
  "center_inv c \<Longrightarrow> c_nextID c \<noteq> - 1 \<Longrightarrow> center_inv (snd (center_Resolve enc now k r c))"
  by (auto simp: center_Resolve_def Let_def split: option.splits
      intro!: center_inv_publishLocked center_inv_forget)

text \<open>The rewritten entry replaces its old self both in the ring and among the pinned onsets.\<close>

lemma ring_all_rewrite:
  "ids_ascend r hi \<Longrightarrow> ring_all (snd (ring_replace n r)) =
     map (\<lambda>m. if n_ID m = n_ID n then n else m) (ring_all r)"
  by (simp add: ids_ascend_def ring_all_replace sorted_ids_distinct)

lemma ids_ascend_replace: "ids_ascend r hi \<Longrightarrow> ids_ascend (snd (ring_replace n r)) hi"
proof -
  assume a: "ids_ascend r hi"
  then have ids: "map n_ID (ring_all (snd (ring_replace n r))) = map n_ID (ring_all r)"
    by (intro hist.ids_replace) (auto simp: ids_ascend_def sorted_ids_distinct)
  moreover from ids have "n_ID ` set (ring_all (snd (ring_replace n r))) = n_ID ` set (ring_all r)"
    by (metis list.set_map)
  ultimately show ?thesis using a
    unfolding ids_ascend_def by (metis (no_types, lifting) image_iff ring_inv_replace)
qed

lemma center_inv_Update:
  assumes inv: "center_inv c"
  shows "center_inv (snd (center_Update enc k t m c))"
proof (cases "map_of (c_active c) k")
  case None
  with inv show ?thesis by (simp add: center_Update_def)
next
  case (Some x)
  let ?x = "x\<lparr>n_Title := t, n_Message := m\<rparr>"
  have pin: "pinned_ok ((map_of (c_active c))(k \<mapsto> ?x)) (c_nextID c)"
    using inv Some by (auto simp: center_inv_def pinned_ok_def)
  have "ids_ascend (c_ring c) (c_nextID c)" using inv by (simp add: center_inv_def)
  note rewrite = ring_all_rewrite[OF this, of ?x]
  have agree: "ring_agrees (snd (ring_replace ?x (c_ring c))) ((map_of (c_active c))(k \<mapsto> ?x))"
    unfolding ring_agrees_def
  proof (intro ballI allI impI)
    fix y k' x' assume "y \<in> set (ring_all (snd (ring_replace ?x (c_ring c))))"
      and x': "((map_of (c_active c))(k \<mapsto> ?x)) k' = Some x'" and id: "n_ID y = n_ID x'"
    then obtain y0 where y0: "y0 \<in> set (ring_all (c_ring c))"
      "y = (if n_ID y0 = n_ID x then ?x else y0)"
      unfolding rewrite by auto
    then have same: "n_ID y = n_ID y0" by simp
    show "y = x'"
    proof (cases "k' = k")
      case True
      with x' id y0 same show ?thesis by auto
    next
      case False
      with x' have act: "map_of (c_active c) k' = Some x'" by simp
      then have "n_ID x' \<noteq> n_ID x"
        using inv Some False by (auto simp: center_inv_def pinned_ok_def)
      with act y0 id same inv show ?thesis by (auto simp: center_inv_def ring_agrees_def)
    qed
  qed
  show ?thesis
    using inv Some pin agree
    by (auto simp: center_Update_def Let_def center_inv_def update_conv' distinct_update
        ids_ascend_replace intro!: bc_inv_stream)
qed

lemma center_inv_call:
  "center_inv c \<Longrightarrow> c_nextID c \<noteq> - 1 \<Longrightarrow> center_inv (snd (center_call enc now call c))"
  by (cases call)
    (auto simp: center_Publish_def intro!: center_inv_publishLocked center_inv_Onset
      center_inv_Clear center_inv_Resolve center_inv_Update)

section \<open>Runs of the center\<close>

text \<open>Everything that can happen to a center: a method call at a clock reading, or a client's.\<close>

datatype center_op = CCall instant pub_call | CSubscribe | CCancel nat | CRecv nat

fun center_step :: "encoder \<Rightarrow> center_op \<Rightarrow> center \<Rightarrow> center" where
  "center_step enc (CCall now call) c = snd (center_call enc now call c)"
| "center_step enc CSubscribe c = c\<lparr>c_bc := snd (bc_Subscribe (c_bc c))\<rparr>"
| "center_step enc (CCancel s) c = c\<lparr>c_bc := bc_cancel s (c_bc c)\<rparr>"
| "center_step enc (CRecv s) c = c\<lparr>c_bc := snd (bc_recv s (c_bc c))\<rparr>"

abbreviation center_run :: "encoder \<Rightarrow> center_op list \<Rightarrow> center \<Rightarrow> center" where
  "center_run enc ops c \<equiv> fold (center_step enc) ops c"

lemma nextID_call:
  "c_nextID (snd (center_call enc now call c)) \<in> {c_nextID c, c_nextID c + 1}"
  by (cases call) (auto simp: center_Publish_def Onset_simps center_Clear_def center_Resolve_def
      center_Update_def Let_def split: option.splits)

lemma nextID_step: "c_nextID (center_step enc x c) \<in> {c_nextID c, c_nextID c + 1}"
  using nextID_call by (cases x) auto

lemma center_inv_step:
  "center_inv c \<Longrightarrow> c_nextID c \<noteq> - 1 \<Longrightarrow> center_inv (center_step enc x c)"
proof (cases x)
  case (CCall now call)
  moreover assume "center_inv c" "c_nextID c \<noteq> - 1"
  ultimately show ?thesis using center_inv_call by simp
qed (auto simp: center_inv_def bc_inv_ops)

lemma room_for_ids:
  fixes w :: u64
  assumes "unat w + Suc k < 2 ^ 64"
  shows "w \<noteq> - 1"
proof
  assume "w = - 1"
  then have "unat w = 2 ^ 64 - 1" by (simp add: unsigned_minus_1_eq_mask mask_eq_exp_minus_1)
  with assms show False by simp
qed

lemma center_inv_run:
  "center_inv c \<Longrightarrow> unat (c_nextID c) + length ops < 2 ^ 64 \<Longrightarrow> center_inv (center_run enc ops c)"
proof (induction ops arbitrary: c)
  case Nil
  then show ?case by simp
next
  case (Cons x xs)
  then have room: "c_nextID c \<noteq> - 1" by (intro room_for_ids[of _ "length xs"]) simp
  have "unat (c_nextID (center_step enc x c)) \<le> unat (c_nextID c) + 1"
    using nextID_step[of enc x c] unat_word_inc[OF room] by auto
  with Cons room show ?case by (simp add: center_inv_step)
qed

lemma center_inv_new: "center_inv (NewCenter caps boot now)"
  by (simp add: NewCenter_def Let_def center_inv_def ids_ascend_def pinned_ok_def ring_agrees_def)
    (induction caps rule: rev_induct, simp_all add: WithCapacity_def)

lemma NewCenter_simps [simp]:
  "c_nextID (NewCenter caps boot now) = 0"
  "c_active (NewCenter caps boot now) = []"
proof -
  have "c_nextID (fold WithCapacity caps c) = c_nextID c \<and>
      c_active (fold WithCapacity caps c) = c_active c" for c
    by (induction caps arbitrary: c) (simp_all add: WithCapacity_def)
  then show "c_nextID (NewCenter caps boot now) = 0" "c_active (NewCenter caps boot now) = []"
    by (simp_all add: NewCenter_def Let_def)
qed

lemma center_inv_reachable:
  "length ops < 2 ^ 64 \<Longrightarrow> center_inv (center_run enc ops (NewCenter caps boot now))"
  by (rule center_inv_run) (simp_all add: center_inv_new)

section \<open>Snapshots\<close>

definition pinned_entries :: "center \<Rightarrow> notification list" where
  "pinned_entries c =
     filter (\<lambda>onset. n_ID onset \<notin> n_ID ` set (ring_all (c_ring c))) (map snd (c_active c))"

lemma Snapshot_entries:
  "sn_Notifications (center_Snapshot now c) = sort_key n_ID (ring_all (c_ring c) @ pinned_entries c)"
  by (simp add: center_Snapshot_def Let_def pinned_entries_def)

lemma pinned_entries_distinct:
  assumes "center_inv c"
  shows "distinct (map n_ID (map snd (c_active c)))"
proof -
  have "map_of (c_active c) (fst p) = Some (snd p)" if "p \<in> set (c_active c)" for p
    using assms that by (cases p) (auto simp: center_inv_def)
  then have "inj_on (n_ID \<circ> snd) (set (c_active c))"
    using assms unfolding inj_on_def center_inv_def pinned_ok_def
    by (metis comp_apply option.inject prod.expand)
  moreover have "distinct (c_active c)"
    using assms by (auto simp: center_inv_def distinct_map)
  ultimately show ?thesis by (simp add: distinct_map)
qed

lemma sort_key_strict:
  assumes "distinct (map n_ID xs)"
  shows "sorted_wrt (<) (map n_ID (sort_key n_ID xs))"
proof -
  from assms have "distinct (map n_ID (sort_key n_ID xs))"
    by (simp add: distinct_map)
  then show ?thesis by (simp add: strict_sorted_iff)
qed

lemma set_Snapshot:
  assumes "center_inv c"
  shows "set (sn_Notifications (center_Snapshot now c)) =
    set (ring_all (c_ring c)) \<union> snd ` set (c_active c)"
proof -
  have "x \<in> set (ring_all (c_ring c))"
    if "x \<in> snd ` set (c_active c)" "n_ID x \<in> n_ID ` set (ring_all (c_ring c))" for x
  proof -
    from that(1) obtain k where "(k, x) \<in> set (c_active c)" by auto
    then have act: "map_of (c_active c) k = Some x" using assms by (simp add: center_inv_def)
    from that(2) obtain m where m: "m \<in> set (ring_all (c_ring c))" "n_ID m = n_ID x" by auto
    with act assms have "m = x" by (auto simp: center_inv_def ring_agrees_def)
    with m show ?thesis by simp
  qed
  then show ?thesis by (auto simp: Snapshot_entries pinned_entries_def)
qed

lemma sorted_Snapshot:
  assumes "center_inv c"
  shows "sorted_wrt (<) (map n_ID (sn_Notifications (center_Snapshot now c)))"
  unfolding Snapshot_entries
proof (rule sort_key_strict)
  have "distinct (map n_ID (pinned_entries c))"
    using pinned_entries_distinct[OF assms] by (simp add: pinned_entries_def distinct_map_filter)
  moreover have "distinct (map n_ID (ring_all (c_ring c)))"
    using assms by (auto simp: center_inv_def ids_ascend_def sorted_ids_distinct)
  ultimately show "distinct (map n_ID (ring_all (c_ring c) @ pinned_entries c))"
    by (auto simp: pinned_entries_def) (metis imageI)
qed

text \<open>
  C12. In every state a center can reach, a snapshot lists each ring entry and each active onset
  exactly once, in strictly ascending ID order, and the ring never exceeds its buffer.
\<close>
theorem snapshot_complete_and_ordered:
  assumes "length ops < 2 ^ 64" "c = center_run enc ops (NewCenter caps boot start)"
  shows "sorted_wrt (<) (map n_ID (sn_Notifications (center_Snapshot now c))) \<and>
    set (sn_Notifications (center_Snapshot now c)) =
      set (ring_all (c_ring c)) \<union> snd ` set (c_active c) \<and>
    length (ring_all (c_ring c)) \<le> length (r_buf (c_ring c))"
proof -
  have "center_inv c" unfolding assms(2) by (rule center_inv_reachable[OF assms(1)])
  then show ?thesis
    using set_Snapshot sorted_Snapshot by (auto simp: center_inv_def ids_ascend_def ring_inv_def)
qed

definition demo_onset :: notification where
  "demo_onset = zero_notification\<lparr>n_Key := ''k'', n_Title := ''t''\<rparr>"

theorem snapshot_complete_and_ordered_witness:
  "\<exists>c. c = center_run (\<lambda>_. None) [CCall 5 (POnset demo_onset), CCall 6 (PPublish demo_onset)]
       (NewCenter [1] ''b'' 1) \<and>
     active_keys c = {''k''} \<and>
     sorted_wrt (<) (map n_ID (sn_Notifications (center_Snapshot 7 c))) \<and>
     snd ` set (c_active c) \<subseteq> set (sn_Notifications (center_Snapshot 7 c))"
proof -
  let ?c = "center_run (\<lambda>_. None) [CCall 5 (POnset demo_onset), CCall 6 (PPublish demo_onset)]
       (NewCenter [1] ''b'' 1)"
  have "length [CCall 5 (POnset demo_onset), CCall 6 (PPublish demo_onset)] < 2 ^ 64" by simp
  note * = snapshot_complete_and_ordered[OF this refl, where now = 7]
  have "active_keys (NewCenter [1] ''b'' 1) = {}" by (simp add: active_keys_def)
  then have "active_keys ?c = {''k''}"
    by (simp add: active_keys_ops demo_onset_def)
  with * show ?thesis by blast
qed

section \<open>Conditions alternate\<close>

text \<open>
  What one call did to the condition keyed by \<open>key\<close>: it raised it, cleared it, or neither. The
  answer the method returns decides.
\<close>

fun condition_effect :: "string \<Rightarrow> pub_call \<Rightarrow> bool \<Rightarrow> transition" where
  "condition_effect key (POnset n) ok = (if ok \<and> n_Key n = key then TransitionOnset else TransitionNone)"
| "condition_effect key (PClear k n) ok = (if ok \<and> k = key then TransitionClear else TransitionNone)"
| "condition_effect key (PResolve k r) ok = (if ok \<and> k = key then TransitionClear else TransitionNone)"
| "condition_effect key _ ok = TransitionNone"

fun condition_trace :: "encoder \<Rightarrow> string \<Rightarrow> center_op list \<Rightarrow> center \<Rightarrow> transition list" where
  "condition_trace enc key [] c = []"
| "condition_trace enc key (CCall now call # ops) c =
     (case center_call enc now call c of
        (ok, c') \<Rightarrow> condition_effect key call ok # condition_trace enc key ops c')"
| "condition_trace enc key (x # ops) c = condition_trace enc key ops (center_step enc x c)"

lemma condition_effect_active:
  assumes "center_call enc now call c = (ok, c')"
  shows "(case condition_effect key call ok of
      TransitionNone \<Rightarrow> (key \<in> active_keys c') = (key \<in> active_keys c)
    | TransitionOnset \<Rightarrow> key \<notin> active_keys c \<and> key \<in> active_keys c'
    | TransitionClear \<Rightarrow> key \<in> active_keys c \<and> key \<notin> active_keys c')"
proof -
  have c': "c' = snd (center_call enc now call c)" and ok: "ok = fst (center_call enc now call c)"
    using assms by simp_all
  show ?thesis unfolding c' ok
    by (cases call)
      (auto simp: active_keys_ops Onset_simps center_Clear_def center_Resolve_def map_of_active
        Let_def update_conv' delete_conv' split: option.splits if_splits)
qed

lemma active_keys_client: "active_keys (c\<lparr>c_bc := b\<rparr>) = active_keys c"
  by (simp add: active_keys_def)

lemma alternating_Cons:
  "alternating a (t # ts) \<longleftrightarrow>
     (case t of TransitionNone \<Rightarrow> alternating a ts
      | TransitionOnset \<Rightarrow> \<not> a \<and> alternating True ts
      | TransitionClear \<Rightarrow> a \<and> alternating False ts)"
  by (cases t) auto

lemma condition_trace_alternating:
  "alternating (key \<in> active_keys c) (condition_trace enc key ops c)"
proof (induction enc key ops c rule: condition_trace.induct)
  case (2 enc key now call ops c)
  obtain ok c' where call: "center_call enc now call c = (ok, c')"
    by (cases "center_call enc now call c")
  from 2[OF call[symmetric]] condition_effect_active[OF call, of key] call
  show ?case by (auto simp: alternating_Cons split: transition.splits)
qed (simp_all add: active_keys_client)

text \<open>
  C17. Whatever sequence of calls a center receives, the onsets and clears that it accepts for
  one condition key strictly alternate, starting with an onset: no duplicate onset, no clear of
  an inactive condition.
\<close>
theorem conditions_alternate:
  "alternating False (condition_trace enc key ops (NewCenter caps boot start))"
  using condition_trace_alternating[of key "NewCenter caps boot start" enc ops]
  by (simp add: active_keys_def)

section \<open>Rewriting an active condition\<close>

text \<open>
  What a client sees of an update: the one entry with the condition's ID carries the new text;
  IDs, order and every other entry are as before.
\<close>

definition retext :: "u64 \<Rightarrow> string \<Rightarrow> string \<Rightarrow> notification \<Rightarrow> notification" where
  "retext i t m n = (if n_ID n = i then n\<lparr>n_Title := t, n_Message := m\<rparr> else n)"

lemma retext_ID [simp]: "n_ID (retext i t m n) = n_ID n"
  by (simp add: retext_def)

lemma strict_sorted_same_set:
  assumes "sorted_wrt (<) (map n_ID xs)" "sorted_wrt (<) (map n_ID ys)" "set xs = set ys"
  shows "xs = ys"
proof -
  have ids: "map n_ID xs = map n_ID ys"
    using assms by (intro strict_sorted_equal) (simp_all add: image_set[symmetric])
  have inj: "inj_on n_ID (set xs)"
    using assms(1) by (simp add: strict_sorted_iff distinct_map)
  show ?thesis
    using map_inj_on[OF ids] inj assms(3) by simp
qed

lemma Update_success:
  assumes inv: "center_inv c" and act: "map_of (c_active c) key = Some n"
    and upd: "fst (center_Update enc key t m c)"
  shows "sn_Notifications (center_Snapshot now (snd (center_Update enc key t m c))) =
    map (retext (n_ID n) t m) (sn_Notifications (center_Snapshot now c))"
proof (rule strict_sorted_same_set)
  let ?c' = "snd (center_Update enc key t m c)"
  let ?n = "n\<lparr>n_Title := t, n_Message := m\<rparr>"
  have inv': "center_inv ?c'" using inv by (rule center_inv_Update)
  then show "sorted_wrt (<) (map n_ID (sn_Notifications (center_Snapshot now ?c')))"
    by (rule sorted_Snapshot)
  show "sorted_wrt (<) (map n_ID (map (retext (n_ID n) t m) (sn_Notifications (center_Snapshot now c))))"
    using sorted_Snapshot[OF inv] by (simp add: comp_def)
  have ring: "set (ring_all (c_ring ?c')) = retext (n_ID n) t m ` set (ring_all (c_ring c))"
    and active: "c_active ?c' = AList.update key ?n (c_active c)"
  proof -
    have same: "(if n_ID x = n_ID n then ?n else x) = retext (n_ID n) t m x"
      if "x \<in> set (ring_all (c_ring c))" for x
      using that inv act by (auto simp: retext_def center_inv_def ring_agrees_def)
    have "ids_ascend (c_ring c) (c_nextID c)" using inv by (simp add: center_inv_def)
    note ring_all_rewrite[OF this, of ?n]
    then show "set (ring_all (c_ring ?c')) = retext (n_ID n) t m ` set (ring_all (c_ring c))"
      using act upd same by (auto simp: center_Update_def Let_def split: if_splits)
    show "c_active ?c' = AList.update key ?n (c_active c)"
      using act upd by (auto simp: center_Update_def Let_def split: if_splits)
  qed
  have vals: "snd ` set al = {x. \<exists>k. map_of al k = Some x}" if "distinct (map fst al)"
    for al :: "(string \<times> notification) list"
    using that by (force simp: map_of_eq_Some_iff)
  have "snd ` set (c_active ?c') = {x. \<exists>k. map_of (c_active ?c') k = Some x}"
    using inv' by (intro vals) (simp add: center_inv_def)
  also have "\<dots> = {x. \<exists>k. ((map_of (c_active c))(key \<mapsto> ?n)) k = Some x}"
    unfolding active by (simp add: update_conv')
  also have "\<dots> = retext (n_ID n) t m ` {x. \<exists>k. map_of (c_active c) k = Some x}"
  proof -
    have other: "retext (n_ID n) t m x = x" if "map_of (c_active c) k = Some x" "k \<noteq> key" for k x
      using that inv act by (auto simp: retext_def center_inv_def pinned_ok_def)
    have self: "retext (n_ID n) t m n = ?n" by (simp add: retext_def)
    have "(\<exists>k. ((map_of (c_active c))(key \<mapsto> ?n)) k = Some y) \<longleftrightarrow>
        y \<in> retext (n_ID n) t m ` {x. \<exists>k. map_of (c_active c) k = Some x}" for y
    proof
      assume "\<exists>k. ((map_of (c_active c))(key \<mapsto> ?n)) k = Some y"
      then obtain k where k: "((map_of (c_active c))(key \<mapsto> ?n)) k = Some y" by blast
      show "y \<in> retext (n_ID n) t m ` {x. \<exists>k. map_of (c_active c) k = Some x}"
        using k other[of k y] self act by (cases "k = key") (auto simp: image_iff intro: exI[of _ n] sym)
    next
      assume "y \<in> retext (n_ID n) t m ` {x. \<exists>k. map_of (c_active c) k = Some x}"
      then obtain k x where k: "map_of (c_active c) k = Some x" "y = retext (n_ID n) t m x" by blast
      show "\<exists>k. ((map_of (c_active c))(key \<mapsto> ?n)) k = Some y"
        using k other[of k x] self act by (intro exI[of _ k]) (cases "k = key", auto)
    qed
    then show ?thesis by blast
  qed
  also have "{x. \<exists>k. map_of (c_active c) k = Some x} = snd ` set (c_active c)"
    using inv by (intro vals[symmetric]) (simp add: center_inv_def)
  finally have "snd ` set (c_active ?c') = retext (n_ID n) t m ` snd ` set (c_active c)" .
  with ring show "set (sn_Notifications (center_Snapshot now ?c')) =
      set (map (retext (n_ID n) t m) (sn_Notifications (center_Snapshot now c)))"
    by (simp add: set_Snapshot[OF inv] set_Snapshot[OF inv'] image_Un)
qed

text \<open>
  Updating an active condition to a new text succeeds, and the snapshot afterwards is the
  snapshot before with the text of the one entry carrying the condition ID replaced (IDs, order
  and every other entry unchanged).
\<close>
theorem update_rewrites_one_entry:
  assumes "length ops < 2 ^ 64" "c = center_run enc ops (NewCenter caps boot start)"
    and "map_of (c_active c) key = Some n" "\<not> (n_Title n = t \<and> n_Message n = m)"
  shows "fst (center_Update enc key t m c) \<and>
    sn_Notifications (center_Snapshot now (snd (center_Update enc key t m c))) =
      map (retext (n_ID n) t m) (sn_Notifications (center_Snapshot now c)) \<and>
    n_ID n \<in> n_ID ` set (sn_Notifications (center_Snapshot now c))"
proof -
  have inv: "center_inv c" unfolding assms(2) by (rule center_inv_reachable[OF assms(1)])
  have upd: "fst (center_Update enc key t m c)"
    using assms(3,4) by (auto simp: center_Update_def Let_def)
  have "n \<in> snd ` set (c_active c)" using map_of_SomeD[OF assms(3)] by force
  then have "n_ID n \<in> n_ID ` set (sn_Notifications (center_Snapshot now c))"
    by (simp add: set_Snapshot[OF inv])
  with upd Update_success[OF inv assms(3) upd] show ?thesis by simp
qed

theorem update_rewrites_one_entry_witness:
  "\<exists>c n. c = center_run (\<lambda>_. None) [CCall 5 (POnset demo_onset)] (NewCenter [] ''b'' 1) \<and>
     map_of (c_active c) ''k'' = Some n \<and> fst (center_Update (\<lambda>_. None) ''k'' ''new'' ''x'' c)"
proof -
  let ?c = "center_run (\<lambda>_. None) [CCall 5 (POnset demo_onset)] (NewCenter [] ''b'' 1)"
  have act: "map_of (c_active ?c) ''k'' = Some (stamped 5 (demo_onset\<lparr>n_Kind := KindOnset\<rparr>) (NewCenter [] ''b'' 1))"
    by (simp add: Onset_simps active_keys_def demo_onset_def zero_notification_def)
  have "\<not> (n_Title (stamped 5 (demo_onset\<lparr>n_Kind := KindOnset\<rparr>) (NewCenter [] ''b'' 1)) = ''new'' \<and>
      n_Message (stamped 5 (demo_onset\<lparr>n_Kind := KindOnset\<rparr>) (NewCenter [] ''b'' 1)) = ''x'')"
    by (simp add: stamped_def demo_onset_def zero_notification_def)
  from update_rewrites_one_entry[OF _ refl act this, where now = 6] act show ?thesis by simp
qed

section \<open>The order of the stream\<close>

text \<open>
  Entries are broadcast while the center's lock is held, so every subscriber's channel holds new
  entries in ascending ID order, and a later entry is newer than anything ever buffered. \<open>dec\<close>
  reads the ID back from the encoded entry, which any JSON reader of the stream does.
\<close>

definition encodes :: "encoder \<Rightarrow> (string \<Rightarrow> u64) \<Rightarrow> bool" where
  "encodes enc dec \<longleftrightarrow> (\<forall>n payload. enc n = Some payload \<longrightarrow> dec payload = n_ID n)"

definition stream_ids :: "(string \<Rightarrow> u64) \<Rightarrow> event list \<Rightarrow> u64 list" where
  "stream_ids dec evs = map (\<lambda>ev. dec (ev_Data ev)) evs"

definition stream_inv :: "(string \<Rightarrow> u64) \<Rightarrow> center \<Rightarrow> bool" where [inv_defs]:
  "stream_inv dec c \<longleftrightarrow> bc_inv (c_bc c) \<and>
     (\<forall>s. sorted_wrt (<) (stream_ids dec (bc_chans (c_bc c) s)) \<and>
          (\<forall>i \<in> set (stream_ids dec (bc_chans (c_bc c) s)). i \<le> c_nextID c))"

lemma stream_inv_publishLocked:
  assumes inv: "stream_inv dec c" and room: "c_nextID c \<noteq> - 1" and enc: "encodes enc dec"
  shows "stream_inv dec (snd (publishLocked enc now n c))"
proof -
  have le: "i \<le> c_nextID c + 1" if "i \<le> c_nextID c" for i
    using word_le_less_inc[OF room that] by simp
  have lt: "i < c_nextID c + 1" if "i \<le> c_nextID c" for i
    using word_le_less_inc[OF room that] .
  show ?thesis
  proof (cases "enc (stamped now n c)")
    case None
    then have "c_bc (snd (publishLocked enc now n c)) = c_bc c"
      by (simp add: publishLocked_def Let_def stream_entry_def stamped_def uptimeMs_def)
    with inv le show ?thesis by (simp add: stream_inv_def)
  next
    case (Some payload)
    then have "c_bc (snd (publishLocked enc now n c)) =
        bc_Broadcast \<lparr>ev_Name = notificationEvent, ev_Data = payload\<rparr> (c_bc c)"
      by (simp add: publishLocked_def Let_def stream_entry_def stamped_def uptimeMs_def)
    moreover have "dec payload = c_nextID c + 1"
      using enc Some by (auto simp: encodes_def)
    ultimately show ?thesis
      using inv le lt bc_inv_Broadcast[of "c_bc c" "\<lparr>ev_Name = notificationEvent, ev_Data = payload\<rparr>"]
      by (auto simp: stream_inv_def bc_Broadcast_chans stream_ids_def sorted_wrt_append)
  qed
qed

fun no_update :: "center_op \<Rightarrow> bool" where
  "no_update (CCall now (PUpdate k t m)) = False"
| "no_update _ = True"

lemma stream_inv_active [simp]:
  "stream_inv dec (c\<lparr>c_active := a\<rparr>) = stream_inv dec c"
  by (simp add: stream_inv_def)

lemma stream_inv_step:
  assumes inv: "stream_inv dec c" and room: "c_nextID c \<noteq> - 1" and enc: "encodes enc dec"
    and upd: "no_update x"
  shows "stream_inv dec (center_step enc x c)"
proof (cases x)
  case (CCall now call)
  then show ?thesis
    using upd inv room enc
    by (cases call)
      (auto simp: center_Publish_def Onset_simps center_Clear_def center_Resolve_def Let_def
        stream_inv_publishLocked split: option.splits)
next
  case CSubscribe
  then show ?thesis using inv bc_inv_Subscribe[of "c_bc c"]
    by (auto simp: stream_inv_def bc_Subscribe_def Let_def stream_ids_def)
next
  case (CCancel s)
  then show ?thesis using inv bc_inv_cancel[of "c_bc c" s]
    by (auto simp: stream_inv_def bc_cancel_def)
next
  case (CRecv s)
  have "stream_inv dec (c\<lparr>c_bc := snd (bc_recv s (c_bc c))\<rparr>)"
  proof (cases "bc_chans (c_bc c) s")
    case Nil
    then show ?thesis using inv by (simp add: bc_recv_def)
  next
    case (Cons e es)
    have "sorted_wrt (<) (stream_ids dec (e # es)) \<and> (\<forall>i \<in> set (stream_ids dec (e # es)). i \<le> c_nextID c)"
      using inv unfolding stream_inv_def Cons[symmetric] by blast
    with Cons inv bc_inv_recv[of "c_bc c" s] show ?thesis
      by (auto simp: stream_inv_def bc_recv_def stream_ids_def)
  qed
  with CRecv show ?thesis by simp
qed

lemma stream_inv_run:
  "stream_inv dec c \<Longrightarrow> encodes enc dec \<Longrightarrow> \<forall>x \<in> set ops. no_update x \<Longrightarrow>
     unat (c_nextID c) + length ops < 2 ^ 64 \<Longrightarrow> stream_inv dec (center_run enc ops c)"
proof (induction ops arbitrary: c)
  case Nil
  then show ?case by simp
next
  case (Cons x xs)
  then have room: "c_nextID c \<noteq> - 1" by (intro room_for_ids[of _ "length xs"]) simp
  have "unat (c_nextID (center_step enc x c)) \<le> unat (c_nextID c) + 1"
    using nextID_step[of enc x c] unat_word_inc[OF room] by auto
  with Cons room show ?case by (simp add: stream_inv_step)
qed

text \<open>
  While no condition text is rewritten, every subscriber channel holds entries in strictly
  ascending ID order and none newer than the last ID assigned.
\<close>
theorem stream_in_id_order:
  assumes "encodes enc dec" "\<forall>x \<in> set ops. no_update x" "length ops < 2 ^ 64"
    and "c = center_run enc ops (NewCenter caps boot start)"
  shows "sorted_wrt (<) (stream_ids dec (bc_chans (c_bc c) s)) \<and>
    (\<forall>i \<in> set (stream_ids dec (bc_chans (c_bc c) s)). i \<le> c_nextID c)"
proof -
  have "c_bc (NewCenter caps boot start) = NewBroadcaster subscriberBuffer"
  proof -
    have "c_bc (fold WithCapacity caps c) = c_bc c" for c
      by (induction caps arbitrary: c) (simp_all add: WithCapacity_def)
    then show ?thesis by (simp add: NewCenter_def Let_def)
  qed
  then have "stream_inv dec (NewCenter caps boot start)"
    by (simp add: stream_inv_def) (simp add: NewBroadcaster_def Let_def stream_ids_def)
  then have "stream_inv dec c"
    unfolding assms(4) using assms by (intro stream_inv_run) simp_all
  then show ?thesis by (simp add: stream_inv_def)
qed

theorem stream_in_id_order_witness:
  "\<exists>c. c = center_run (\<lambda>n. Some (replicate (unat (n_ID n)) CHR ''x''))
        [CSubscribe, CCall 5 (POnset demo_onset), CCall 6 (PPublish demo_onset)]
        (NewCenter [] ''b'' 1) \<and>
     sorted_wrt (<) (stream_ids (\<lambda>d. word_of_nat (length d)) (bc_chans (c_bc c) 0))"
proof -
  have "encodes (\<lambda>n. Some (replicate (unat (n_ID n)) CHR ''x'')) (\<lambda>d. word_of_nat (length d))"
    by (simp add: encodes_def)
  from stream_in_id_order[OF this _ _ refl,
      of "[CSubscribe, CCall 5 (POnset demo_onset), CCall 6 (PPublish demo_onset)]" "[]" "''b''" 1 0]
  show ?thesis by auto
qed

section \<open>The publisher interface\<close>

text \<open>
  What an emitter relies on (\<open>Publisher\<close> and \<open>Updater\<close>): how each call changes the set of active
  condition keys. The monitors' lemmas are proved from these laws alone.
\<close>

fun call_effect :: "pub_call \<Rightarrow> string set \<Rightarrow> string set" where
  "call_effect (PPublish n) A = A"
| "call_effect (POnset n) A = (if n_Key n = '''' then A else insert (n_Key n) A)"
| "call_effect (PClear k n) A = A - {k}"
| "call_effect (PResolve k r) A = A - {k}"
| "call_effect (PUpdate k t m) A = A"

abbreviation calls_effect :: "pub_call list \<Rightarrow> string set \<Rightarrow> string set" where
  "calls_effect cs A \<equiv> fold call_effect cs A"

fun call_keys :: "pub_call \<Rightarrow> string set" where
  "call_keys (PPublish n) = {}"
| "call_keys (POnset n) = {n_Key n}"
| "call_keys (PClear k n) = {k}"
| "call_keys (PResolve k r) = {k}"
| "call_keys (PUpdate k t m) = {}"

lemma call_effect_other: "k \<notin> call_keys call \<Longrightarrow> k \<in> call_effect call A \<longleftrightarrow> k \<in> A"
  by (cases call) auto

lemma calls_effect_other:
  "\<forall>call \<in> set cs. k \<notin> call_keys call \<Longrightarrow> k \<in> calls_effect cs A \<longleftrightarrow> k \<in> A"
  by (induction cs arbitrary: A) (auto simp: call_effect_other)

locale publisher =
  fixes call :: "instant \<Rightarrow> pub_call \<Rightarrow> 's \<Rightarrow> 's"
    and active :: "'s \<Rightarrow> string set"
  assumes active_call: "active (call now x s) = call_effect x (active s)"
begin

definition run :: "(instant \<times> pub_call list) list \<Rightarrow> 's \<Rightarrow> 's" where
  "run batches s = fold (\<lambda>(now, cs). fold (call now) cs) batches s"

lemma active_calls: "active (fold (call now) cs s) = calls_effect cs (active s)"
  by (induction cs arbitrary: s) (simp_all add: active_call)

lemma run_Nil [simp]: "run [] s = s"
  by (simp add: run_def)

lemma run_Cons [simp]: "run ((now, cs) # bs) s = run bs (fold (call now) cs s)"
  by (simp add: run_def)

lemma active_run: "active (run batches s) = calls_effect (concat (map snd batches)) (active s)"
  by (induction batches arbitrary: s) (auto simp: active_calls)

end

interpretation center_pub: publisher "\<lambda>now x c. snd (center_call enc now x c)" active_keys for enc
  by unfold_locales (simp add: active_keys_call split: pub_call.splits)

end
