(* ===== verification/Release_Version.thy ===== *)
theory Release_Version
  imports Go_Strings "HOL-Library.Product_Lexorder"
begin

text \<open>
  The version part of \<open>internal/releasemanifest/manifest.go\<close>: the accepted syntax, the parsed form and
  SemVer precedence, with the order they implement stated on numbers and identifiers.
\<close>

section \<open>Syntax\<close>

text \<open>The groups of \<open>versionPattern\<close>: \<open>0|[1-9][0-9]*\<close>, and one prerelease identifier.\<close>

definition numeric_ident :: "string \<Rightarrow> bool" where
  "numeric_ident s \<longleftrightarrow>
     s = ''0'' \<or> (case s of [] \<Rightarrow> False | c # cs \<Rightarrow> is_digit c \<and> c \<noteq> CHR ''0'' \<and> list_all is_digit cs)"

definition prereleaseIdent :: "string \<Rightarrow> bool" where
  "prereleaseIdent s \<longleftrightarrow>
     numeric_ident s \<or>
     list_all (\<lambda>c. is_digit c \<or> is_letter c \<or> c = CHR ''-'') s \<and> list_ex (\<lambda>c. \<not> is_digit c) s"

text \<open>The sentinel errors of the package; their messages are not modelled.\<close>

datatype manifest_error =
  ErrUnsupportedSchema | ErrUntrustedKey | ErrBadSignature | ErrInvalid | ErrUnsupportedRequirement

record version =
  core :: "string \<times> string \<times> string"
  pre :: "string list"

text \<open>
  \<open>versionPattern.FindStringSubmatch\<close>: a core part has no hyphen, so the first hyphen ends the core;
  an identifier has no dot, so dots separate the parts.
\<close>

definition version_match :: "string \<Rightarrow> (string \<times> string \<times> string \<times> string) option" where
  "version_match v =
     (case v of
        [] \<Rightarrow> None
      | x # rest \<Rightarrow>
          if x \<noteq> CHR ''v'' then None
          else (case Cut rest (CHR ''-'') of (c, p, dash) \<Rightarrow>
             (case Split c (CHR ''.'') of
                [m1, m2, m3] \<Rightarrow>
                  if numeric_ident m1 \<and> numeric_ident m2 \<and> numeric_ident m3 \<and>
                     (dash \<longrightarrow> list_all prereleaseIdent (Split p (CHR ''.'')))
                  then Some (m1, m2, m3, p) else None
              | _ \<Rightarrow> None)))"

definition ValidVersion :: "string \<Rightarrow> bool" where
  "ValidVersion v \<longleftrightarrow> version_match v \<noteq> None"

definition parseVersion :: "string \<Rightarrow> manifest_error + version" where
  "parseVersion v =
     (case version_match v of
        None \<Rightarrow> Inl ErrInvalid
      | Some (m1, m2, m3, m4) \<Rightarrow>
          Inr \<lparr>core = (m1, m2, m3), pre = (if m4 \<noteq> '''' then Split m4 (CHR ''.'') else [])\<rparr>)"

section \<open>Precedence\<close>

definition compareNumeric :: "string \<Rightarrow> string \<Rightarrow> int" where
  "compareNumeric a b =
     (let c = cmp_Compare (length a) (length b) in if c \<noteq> 0 then c else cmp_Compare a b)"

definition isNumeric :: "string \<Rightarrow> bool" where
  "isNumeric s \<longleftrightarrow> s \<noteq> '''' \<and> Trim s ''0123456789'' = ''''"

definition comparePrerelease :: "string \<Rightarrow> string \<Rightarrow> int" where
  "comparePrerelease a b =
     (if isNumeric a \<and> isNumeric b then compareNumeric a b
      else if isNumeric a then - 1
      else if isNumeric b then 1
      else cmp_Compare a b)"

text \<open>The loop over the identifiers both versions have.\<close>

fun first_difference :: "('a \<Rightarrow> 'a \<Rightarrow> int) \<Rightarrow> 'a list \<Rightarrow> 'a list \<Rightarrow> int" where
  "first_difference f (a # as) (b # bs) =
     (let c = f a b in if c \<noteq> 0 then c else first_difference f as bs)"
| "first_difference f _ _ = 0"

definition core_list :: "version \<Rightarrow> string list" where
  "core_list p = (case core p of (a, b, c) \<Rightarrow> [a, b, c])"

definition CompareVersions :: "string \<Rightarrow> string \<Rightarrow> manifest_error + int" where
  "CompareVersions a b =
     (case parseVersion a of
        Inl err \<Rightarrow> Inl err
      | Inr pa \<Rightarrow> (case parseVersion b of
          Inl err \<Rightarrow> Inl err
        | Inr pb \<Rightarrow>
            (let c = first_difference compareNumeric (core_list pa) (core_list pb) in
             if c \<noteq> 0 then Inr c
             else if pre pa = [] \<and> pre pb = [] then Inr 0
             else if pre pa = [] then Inr 1
             else if pre pb = [] then Inr (- 1)
             else let c = first_difference comparePrerelease (pre pa) (pre pb) in
             if c \<noteq> 0 then Inr c
             else Inr (cmp_Compare (length (pre pa)) (length (pre pb))))))"

section \<open>What a version is\<close>

text \<open>The identifiers as SemVer orders them: numbers by value, below all others.\<close>

datatype ident = Num nat | Alpha string

instantiation ident :: linorder
begin

fun less_eq_ident :: "ident \<Rightarrow> ident \<Rightarrow> bool" where
  "less_eq_ident (Num m) (Num n) \<longleftrightarrow> m \<le> n"
| "less_eq_ident (Num m) (Alpha t) \<longleftrightarrow> True"
| "less_eq_ident (Alpha s) (Num n) \<longleftrightarrow> False"
| "less_eq_ident (Alpha s) (Alpha t) \<longleftrightarrow> s \<le> t"

definition less_ident :: "ident \<Rightarrow> ident \<Rightarrow> bool" where
  "less_ident x y \<longleftrightarrow> x \<le> y \<and> \<not> y \<le> x"

instance
proof
  fix x y z :: ident
  show "x < y \<longleftrightarrow> x \<le> y \<and> \<not> y \<le> x" by (rule less_ident_def)
  show "x \<le> x" by (cases x) auto
  show "x \<le> y \<Longrightarrow> y \<le> z \<Longrightarrow> x \<le> z" by (cases x; cases y; cases z) auto
  show "x \<le> y \<Longrightarrow> y \<le> x \<Longrightarrow> x = y" by (cases x; cases y) auto
  show "x \<le> y \<or> y \<le> x" by (cases x; cases y) auto
qed

end

definition digit_val :: "char \<Rightarrow> nat" where
  "digit_val c = of_char c - 48"

fun num_val :: "string \<Rightarrow> nat" where
  "num_val [] = 0"
| "num_val (c # cs) = digit_val c * 10 ^ length cs + num_val cs"

definition ident_of :: "string \<Rightarrow> ident" where
  "ident_of s = (if list_all is_digit s then Num (num_val s) else Alpha s)"

text \<open>Major, minor, patch; a release above its prereleases; then the identifiers.\<close>

type_synonym precedence = "nat \<times> nat \<times> nat \<times> bool \<times> ident list"

definition precedence_of :: "version \<Rightarrow> precedence" where
  "precedence_of p =
     (case core p of (a, b, c) \<Rightarrow> (num_val a, num_val b, num_val c, pre p = [], map ident_of (pre p)))"

definition render :: "version \<Rightarrow> string" where
  "render p =
     (case core p of (a, b, c) \<Rightarrow>
        ''v'' @ a @ ''.'' @ b @ ''.'' @ c @ (if pre p = [] then '''' else ''-'' @ Join (pre p) (CHR ''.'')))"

definition wf_version :: "version \<Rightarrow> bool" where
  "wf_version p \<longleftrightarrow>
     (case core p of (a, b, c) \<Rightarrow> numeric_ident a \<and> numeric_ident b \<and> numeric_ident c) \<and>
     list_all prereleaseIdent (pre p)"

section \<open>Parsing and printing\<close>

lemma is_digit_iff: "is_digit c \<longleftrightarrow> 48 \<le> (of_char c :: nat) \<and> (of_char c :: nat) \<le> 57"
  by (simp add: is_digit_def char_between_def less_eq_char_def)

lemma not_digit [simp]: "\<not> is_digit (CHR ''-'')" "\<not> is_digit (CHR ''.'')"
  by (simp_all add: is_digit_iff)

lemma not_letter [simp]: "\<not> is_letter (CHR ''.'')"
  by (simp add: is_letter_def char_between_def less_eq_char_def)

lemma numeric_ident_digits: "numeric_ident s \<Longrightarrow> s \<noteq> [] \<and> list_all is_digit s"
  by (auto simp: numeric_ident_def is_digit_iff split: list.splits)

lemma no_digit_no_sep:
  "list_all is_digit s \<Longrightarrow> CHR ''-'' \<notin> set s \<and> CHR ''.'' \<notin> set s"
  by (auto simp: list_all_iff)

lemma prereleaseIdent_facts:
  assumes "prereleaseIdent s"
  shows "s \<noteq> []" "CHR ''.'' \<notin> set s"
    "list_all is_digit s \<Longrightarrow> numeric_ident s"
proof -
  have chars: "list_all (\<lambda>c. is_digit c \<or> is_letter c \<or> c = CHR ''-'') s \<and> s \<noteq> []"
    using assms numeric_ident_digits[of s] by (auto simp: prereleaseIdent_def list_all_iff)
  then show "s \<noteq> []" by simp
  show "CHR ''.'' \<notin> set s" using chars by (auto simp: list_all_iff)
  show "list_all is_digit s \<Longrightarrow> numeric_ident s"
    using assms by (auto simp: prereleaseIdent_def list_all_iff list_ex_iff)
qed

lemma Cut_FalseD: "Cut s c = (b, a, False) \<Longrightarrow> b = s \<and> a = [] \<and> c \<notin> set s"
  by (induction s arbitrary: b) (auto split: prod.splits if_splits)

lemma Cut_TrueD: "Cut s c = (b, a, True) \<Longrightarrow> s = b @ c # a \<and> c \<notin> set b"
  by (induction s arbitrary: b) (auto split: prod.splits if_splits)

lemma parse_render:
  assumes "wf_version p"
  shows "parseVersion (render p) = Inr p"
proof -
  obtain a b c ps where p: "p = \<lparr>core = (a, b, c), pre = ps\<rparr>" by (cases p) auto
  have n: "numeric_ident a" "numeric_ident b" "numeric_ident c" and ps: "list_all prereleaseIdent ps"
    using assms by (auto simp: wf_version_def p)
  note sep = no_digit_no_sep[OF numeric_ident_digits[THEN conjunct2]]
  let ?core = "a @ CHR ''.'' # b @ CHR ''.'' # c"
  have split: "Split ?core (CHR ''.'') = [a, b, c]"
    using sep[OF n(1)] sep[OF n(2)] sep[OF n(3)] by (simp add: Split_append Split_single)
  have dash: "CHR ''-'' \<notin> set ?core" using sep[OF n(1)] sep[OF n(2)] sep[OF n(3)] by auto
  show ?thesis
  proof (cases "ps = []")
    case True
    then have "render p = CHR ''v'' # ?core" by (simp add: render_def p)
    moreover have "version_match (CHR ''v'' # ?core) = Some (a, b, c, '''')"
      using n by (simp add: version_match_def Cut_None[OF dash] split)
    ultimately show ?thesis using True by (simp add: parseVersion_def p)
  next
    case False
    let ?p = "Join ps (CHR ''.'')"
    have "render p = CHR ''v'' # ?core @ CHR ''-'' # ?p" using False by (simp add: render_def p)
    moreover have sp: "Split ?p (CHR ''.'') = ps"
      using ps False by (intro Split_Join) (auto simp: list_all_iff prereleaseIdent_facts)
    moreover have "Cut (?core @ CHR ''-'' # ?p) (CHR ''-'') = (?core, ?p, True)"
      by (rule Cut_Some[OF dash])
    moreover have "?p \<noteq> ''''" using sp ps by (cases "?p") (auto dest: prereleaseIdent_facts(1))
    ultimately show ?thesis using n ps by (simp add: parseVersion_def version_match_def split p)
  qed
qed

lemma triple_case:
  "(case xs of [a, b, c] \<Rightarrow> f a b c | _ \<Rightarrow> None) = Some r \<Longrightarrow> \<exists>a b c. xs = [a, b, c]"
  by (auto split: list.splits)

lemma parse_sound:
  assumes "parseVersion v = Inr p"
  shows "wf_version p \<and> v = render p"
proof -
  obtain m1 m2 m3 m4 where m: "version_match v = Some (m1, m2, m3, m4)"
    and p: "p = \<lparr>core = (m1, m2, m3), pre = (if m4 \<noteq> '''' then Split m4 (CHR ''.'') else [])\<rparr>"
    using assms by (auto simp: parseVersion_def split: option.splits)
  obtain rest where v: "v = CHR ''v'' # rest"
    using m by (cases v) (auto simp: version_match_def split: if_splits)
  obtain c m4' dash where cut': "Cut rest (CHR ''-'') = (c, m4', dash)" by (metis prod_cases3)
  have m': "(case Split c (CHR ''.'') of [a, b, d] \<Rightarrow>
      if numeric_ident a \<and> numeric_ident b \<and> numeric_ident d \<and>
         (dash \<longrightarrow> list_all prereleaseIdent (Split m4' (CHR ''.'')))
      then Some (a, b, d, m4') else None | _ \<Rightarrow> None) = Some (m1, m2, m3, m4)"
    using m unfolding version_match_def v list.case cut' prod.case by (simp only: simp_thms if_False)
  obtain n1 n2 n3 where split': "Split c (CHR ''.'') = [n1, n2, n3]" using triple_case[OF m'] by blast
  have "n1 = m1 \<and> n2 = m2 \<and> n3 = m3 \<and> m4' = m4 \<and> numeric_ident n1 \<and> numeric_ident n2 \<and> numeric_ident n3
      \<and> (dash \<longrightarrow> list_all prereleaseIdent (Split m4' (CHR ''.'')))"
    using m' unfolding split' list.case by (simp split: if_splits)
  then have cut: "Cut rest (CHR ''-'') = (c, m4, dash)" and split: "Split c (CHR ''.'') = [m1, m2, m3]"
    and n: "numeric_ident m1" "numeric_ident m2" "numeric_ident m3"
    and pre: "dash \<Longrightarrow> list_all prereleaseIdent (Split m4 (CHR ''.''))"
    using cut' split' by auto
  have c: "c = m1 @ CHR ''.'' # m2 @ CHR ''.'' # m3" using Join_Split[of c "CHR ''.''"] split by simp
  show ?thesis
  proof (cases dash)
    case True
    then have "m4 \<noteq> ''''" using pre prereleaseIdent_facts(1)[of "''''"] by auto
    then have p': "p = \<lparr>core = (m1, m2, m3), pre = Split m4 (CHR ''.'')\<rparr>" using p by simp
    have "rest = c @ CHR ''-'' # m4" using Cut_TrueD[of rest] cut True by simp
    then have "v = render p" by (simp add: render_def p' v c Join_Split)
    moreover have "wf_version p" using n pre[OF True] by (simp add: wf_version_def p')
    ultimately show ?thesis by blast
  next
    case False
    then have r: "rest = c" "m4 = []" using Cut_FalseD[of rest] cut by auto
    then have p': "p = \<lparr>core = (m1, m2, m3), pre = []\<rparr>" using p by simp
    then show ?thesis using n by (simp add: wf_version_def render_def v c r)
  qed
qed

lemma ValidVersion_iff: "ValidVersion v \<longleftrightarrow> (\<exists>p. wf_version p \<and> v = render p)"
proof
  assume "ValidVersion v"
  then obtain p where "parseVersion v = Inr p"
    by (auto simp: ValidVersion_def parseVersion_def)
  then show "\<exists>p. wf_version p \<and> v = render p" using parse_sound by blast
next
  assume "\<exists>p. wf_version p \<and> v = render p"
  then obtain p where "parseVersion v = Inr p" using parse_render by blast
  then show "ValidVersion v" by (auto simp: ValidVersion_def parseVersion_def split: option.splits)
qed

section \<open>Comparison is numeric precedence\<close>

lemma num_val_less: "list_all is_digit s \<Longrightarrow> num_val s < 10 ^ length s"
proof (induction s)
  case (Cons c cs)
  have "digit_val c \<le> 9" using Cons.prems by (auto simp: is_digit_iff digit_val_def)
  then have "digit_val c * 10 ^ length cs \<le> 9 * 10 ^ length cs" by (rule mult_right_mono) simp
  moreover have "num_val cs < 10 ^ length cs" using Cons by simp
  moreover have "10 ^ length (c # cs) = 10 * (10 ^ length cs :: nat)" by simp
  ultimately show ?case unfolding num_val.simps by linarith
qed simp

lemma num_val_lead:
  assumes "numeric_ident s" "1 < length s"
  shows "10 ^ (length s - 1) \<le> num_val s"
proof -
  obtain c cs where s: "s = c # cs" "is_digit c" "c \<noteq> CHR ''0''"
    using assms by (auto simp: numeric_ident_def split: list.splits)
  have "of_char (CHR ''0'') = (48 :: nat)" by simp
  then have "of_char c \<noteq> (48 :: nat)" using s(3) by (metis of_char_eq_iff)
  then have "1 \<le> digit_val c" using s(2) unfolding is_digit_iff digit_val_def by linarith
  then show ?thesis by (simp add: s(1) trans_le_add1)
qed

lemma digit_val_order:
  assumes "is_digit x" "is_digit y"
  shows "(x < y \<longleftrightarrow> digit_val x < digit_val y) \<and> (x = y \<longleftrightarrow> digit_val x = digit_val y)"
proof -
  have "x = y \<longleftrightarrow> of_char x = (of_char y :: nat)" by (metis of_char_eq_iff)
  then show ?thesis using assms unfolding is_digit_iff digit_val_def less_char_def by linarith
qed

lemma num_val_lex:
  "length a = length b \<Longrightarrow> list_all is_digit a \<Longrightarrow> list_all is_digit b \<Longrightarrow>
     (num_val a < num_val b \<longleftrightarrow> a < b) \<and> (num_val a = num_val b \<longleftrightarrow> a = b)"
proof (induction a b rule: list_induct2)
  case (Cons x xs y ys)
  have IH: "num_val xs < num_val ys \<longleftrightarrow> xs < ys" "num_val xs = num_val ys \<longleftrightarrow> xs = ys"
    using Cons by simp_all
  have bound: "num_val xs < 10 ^ length xs" "num_val ys < 10 ^ length xs"
    using Cons num_val_less[of xs] num_val_less[of ys] by simp_all
  have d: "x < y \<longleftrightarrow> digit_val x < digit_val y" "x = y \<longleftrightarrow> digit_val x = digit_val y"
    using Cons.prems digit_val_order[of x y] by simp_all
  let ?n = "10 ^ length xs :: nat"
  have gap: "i * ?n + num_val xs < j * ?n + num_val ys" if "i < j" for i j
  proof -
    have "(i + 1) * ?n \<le> j * ?n" using that by (intro mult_right_mono) simp_all
    then show ?thesis using bound by simp
  qed
  have gap': "j * ?n + num_val ys < i * ?n + num_val xs" if "j < i" for i j
  proof -
    have "(j + 1) * ?n \<le> i * ?n" using that by (intro mult_right_mono) simp_all
    then show ?thesis using bound by simp
  qed
  consider "digit_val x < digit_val y" | "digit_val x = digit_val y" | "digit_val y < digit_val x" by linarith
  then show ?case
  proof cases
    case 1
    then show ?thesis using gap[OF 1] d Cons.hyps by auto
  next
    case 2
    then show ?thesis using IH d Cons.hyps by auto
  next
    case 3
    then show ?thesis using gap'[OF 3] d Cons.hyps by auto
  qed
qed simp

lemma compareNumeric_value:
  assumes "numeric_ident a" "numeric_ident b"
  shows "compareNumeric a b = cmp_Compare (num_val a) (num_val b)"
proof -
  note dig = numeric_ident_digits[OF assms(1)] numeric_ident_digits[OF assms(2)]
  have longer: "num_val x < num_val y"
    if "length x < length y" "numeric_ident x" "numeric_ident y" for x y
  proof -
    have x: "num_val x < 10 ^ length x" using that(2) num_val_less numeric_ident_digits by blast
    have "0 < length x" using that(2) numeric_ident_digits by auto
    then have "10 ^ (length y - 1) \<le> num_val y" using that(1,3) by (intro num_val_lead) linarith+
    moreover have "(10::nat) ^ length x \<le> 10 ^ (length y - 1)" using that(1) by (intro power_increasing) auto
    ultimately show ?thesis using x by linarith
  qed
  show ?thesis
  proof (cases "length a" "length b" rule: linorder_cases)
    case equal
    then show ?thesis using num_val_lex[OF equal] dig by (simp add: compareNumeric_def cmp_Compare_def)
  next
    case less
    then show ?thesis using longer[OF less assms] by (simp add: compareNumeric_def cmp_Compare_def)
  next
    case greater
    then show ?thesis using longer[OF greater assms(2,1)] by (simp add: compareNumeric_def cmp_Compare_def)
  qed
qed

lemma digit_chars: "List.member ''0123456789'' c \<longleftrightarrow> is_digit c"
proof
  assume "is_digit c"
  then have "of_char c \<in> set [48..<58::nat]" unfolding is_digit_iff set_upt atLeastLessThan_iff by linarith
  then have "c \<in> set (map char_of [48..<58::nat])" by (metis char_of_char image_eqI list.set_map)
  moreover have "map char_of [48..<58::nat] = ''0123456789''" by code_simp
  ultimately show "List.member ''0123456789'' c" unfolding List.member_iff by metis
qed (auto simp: is_digit_iff)

lemma Trim_all: "Trim s cs = [] \<longleftrightarrow> (\<forall>c \<in> set s. List.member cs c)"
proof -
  have "dropWhile P (dropWhile P s) = dropWhile P s" for P :: "char \<Rightarrow> bool" by (induction s) auto
  have "(\<forall>c \<in> set (dropWhile P s). P c) \<longleftrightarrow> (\<forall>c \<in> set s. P c)" for P :: "char \<Rightarrow> bool"
    by (induction s) auto
  then show ?thesis by (simp add: Trim_def TrimRight_def TrimLeft_def)
qed

lemma isNumeric_iff: "isNumeric s \<longleftrightarrow> s \<noteq> [] \<and> list_all is_digit s"
  unfolding isNumeric_def Trim_all digit_chars list_all_iff ..

lemma comparePrerelease_ident:
  assumes "prereleaseIdent a" "prereleaseIdent b"
  shows "comparePrerelease a b = cmp_Compare (ident_of a) (ident_of b)"
  using prereleaseIdent_facts[OF assms(1)] prereleaseIdent_facts[OF assms(2)] compareNumeric_value[of a b]
  by (auto simp: comparePrerelease_def isNumeric_iff ident_of_def cmp_Compare_def less_ident_def)

lemma first_difference_lex:
  assumes "\<And>x y. x \<in> set as \<Longrightarrow> y \<in> set bs \<Longrightarrow> f x y = cmp_Compare (k x) (k y)"
  shows "(let c = first_difference f as bs in if c \<noteq> 0 then c else cmp_Compare (length as) (length bs))
    = cmp_Compare (map k as) (map k bs)"
  using assms
proof (induction as arbitrary: bs)
  case Nil
  then show ?case by (cases bs) (auto simp: cmp_Compare_def)
next
  case (Cons a as)
  show ?case
  proof (cases bs)
    case Nil
    then show ?thesis by (simp add: cmp_Compare_def)
  next
    case (Cons b bs')
    have "f a b = cmp_Compare (k a) (k b)" using Cons.prems Cons by simp
    then show ?thesis using Cons.IH[of bs'] Cons.prems Cons by (auto simp: Let_def cmp_Compare_def split: if_splits)
  qed
qed

lemma first_difference_core:
  assumes "numeric_ident a1" "numeric_ident a2" "numeric_ident a3"
    "numeric_ident b1" "numeric_ident b2" "numeric_ident b3"
  shows "first_difference compareNumeric [a1, a2, a3] [b1, b2, b3]
    = cmp_Compare (num_val a1, num_val a2, num_val a3) (num_val b1, num_val b2, num_val b3)"
  using assms by (simp add: compareNumeric_value Let_def cmp_Compare_def)

lemma cmp_pair:
  "cmp_Compare (x, y) (x', y') = (if cmp_Compare x x' \<noteq> 0 then cmp_Compare x x' else cmp_Compare y y')"
  by (auto simp: cmp_Compare_def)

lemma cmp_quad:
  "cmp_Compare (a, b, c, r) (a', b', c', r') =
     (if (a, b, c) = (a', b', c') then cmp_Compare r r' else cmp_Compare (a, b, c) (a', b', c'))"
  unfolding cmp_pair cmp_Compare_eq_0 by auto

lemma CompareVersions_parsed:
  assumes "parseVersion a = Inr p" "parseVersion b = Inr q"
  shows "CompareVersions a b = Inr (cmp_Compare (precedence_of p) (precedence_of q))"
proof -
  have wf: "wf_version p" "wf_version q" using assms parse_sound by blast+
  obtain a1 a2 a3 ps where p: "p = \<lparr>core = (a1, a2, a3), pre = ps\<rparr>" by (cases p) auto
  obtain b1 b2 b3 qs where q: "q = \<lparr>core = (b1, b2, b3), pre = qs\<rparr>" by (cases q) auto
  have core: "first_difference compareNumeric (core_list p) (core_list q)
    = cmp_Compare (num_val a1, num_val a2, num_val a3) (num_val b1, num_val b2, num_val b3)"
    using wf unfolding p q core_list_def by (simp add: wf_version_def first_difference_core del: first_difference.simps)
  have ids: "(let c = first_difference comparePrerelease ps qs
      in if c \<noteq> 0 then c else cmp_Compare (length ps) (length qs)) = cmp_Compare (map ident_of ps) (map ident_of qs)"
    using wf by (intro first_difference_lex) (auto simp: wf_version_def p q list_all_iff comparePrerelease_ident)
  have rest: "cmp_Compare (precedence_of p) (precedence_of q) =
     (if (num_val a1, num_val a2, num_val a3) = (num_val b1, num_val b2, num_val b3)
      then cmp_Compare (ps = [], map ident_of ps) (qs = [], map ident_of qs)
      else cmp_Compare (num_val a1, num_val a2, num_val a3) (num_val b1, num_val b2, num_val b3))"
    unfolding precedence_of_def p q version.simps prod.case by (rule cmp_quad)
  show ?thesis
  proof (cases "(num_val a1, num_val a2, num_val a3) = (num_val b1, num_val b2, num_val b3)")
    case True
    then have c0: "cmp_Compare (num_val a1, num_val a2, num_val a3) (num_val b1, num_val b2, num_val b3) = 0"
      by simp
    have pre: "pre p = ps" "pre q = qs" by (simp_all add: p q)
    have b: "cmp_Compare (ps = [], map ident_of ps) (qs = [], map ident_of qs) =
        (if ps = [] \<and> qs = [] then 0 else if ps = [] then 1 else if qs = [] then - 1
         else cmp_Compare (map ident_of ps) (map ident_of qs))"
      by (simp add: cmp_Compare_def)
    show ?thesis
      unfolding rest if_P[OF True] b ids[symmetric]
      by (simp add: CompareVersions_def assms core c0 pre Let_def del: cmp_Compare_eq_0)
  next
    case False
    then show ?thesis unfolding rest by (simp add: CompareVersions_def assms core Let_def del: prod.inject)
  qed
qed

text \<open>No two versions share a precedence: numbers have no leading zeros and metadata is refused.\<close>

lemma num_val_inj: "numeric_ident a \<Longrightarrow> numeric_ident b \<Longrightarrow> num_val a = num_val b \<longleftrightarrow> a = b"
proof -
  assume a: "numeric_ident a" "numeric_ident b"
  show ?thesis using compareNumeric_value[OF a] 
    by (auto simp: compareNumeric_def Let_def cmp_Compare_def split: if_splits)
qed

lemma ident_of_inj: "prereleaseIdent a \<Longrightarrow> prereleaseIdent b \<Longrightarrow> ident_of a = ident_of b \<longleftrightarrow> a = b"
  by (auto simp: ident_of_def num_val_inj prereleaseIdent_facts)

lemma precedence_inj:
  assumes "wf_version p" "wf_version q" "precedence_of p = precedence_of q"
  shows "p = q"
proof -
  have "map ident_of (pre p) = map ident_of (pre q)"
    using assms(3) by (simp add: precedence_of_def split: prod.splits)
  then have "pre p = pre q"
    by (rule map_inj_on) (use assms ident_of_inj in \<open>auto simp: inj_on_def wf_version_def list_all_iff\<close>)
  then show ?thesis using assms
    by (cases p; cases q) (auto simp: precedence_of_def wf_version_def num_val_inj)
qed

text \<open>
  CompareVersions orders versions by SemVer precedence on numbers and identifiers, is 0 only
  for equal versions, and refuses anything that is not a version.
\<close>
theorem comparison_is_semver_precedence:
  assumes "wf_version p" "wf_version q"
  shows "CompareVersions (render p) (render q) = Inr (cmp_Compare (precedence_of p) (precedence_of q))
    \<and> (CompareVersions (render p) (render q) = Inr 0 \<longleftrightarrow> render p = render q)
    \<and> (\<not> ValidVersion v \<longrightarrow> CompareVersions v (render q) = Inl ErrInvalid
         \<and> CompareVersions (render p) v = Inl ErrInvalid)"
proof -
  have c: "CompareVersions (render p) (render q) = Inr (cmp_Compare (precedence_of p) (precedence_of q))"
    using assms by (intro CompareVersions_parsed parse_render)
  have "render p = render q \<Longrightarrow> p = q" using assms parse_render by (metis sum.inject(2))
  then have "CompareVersions (render p) (render q) = Inr 0 \<longleftrightarrow> render p = render q"
    using c precedence_inj[OF assms] by auto
  moreover have "CompareVersions v (render q) = Inl ErrInvalid \<and> CompareVersions (render p) v = Inl ErrInvalid"
    if "\<not> ValidVersion v"
  proof -
    have "version_match v = None" using that by (cases "version_match v") (auto simp: ValidVersion_def)
    then have "parseVersion v = Inl ErrInvalid" by (simp add: parseVersion_def)
    then show ?thesis using assms by (simp add: CompareVersions_def parse_render)
  qed
  ultimately show ?thesis using c by blast
qed

definition demo_rc :: version where "demo_rc = \<lparr>core = (''1'', ''10'', ''0''), pre = [''rc'', ''2'']\<rparr>"
definition demo_release :: version where "demo_release = \<lparr>core = (''1'', ''9'', ''0''), pre = []\<rparr>"

lemma comparison_is_semver_precedence_witness:
  "CompareVersions ''v1.10.0-rc.2'' ''v1.9.0'' = Inr 1"
proof -
  have wf: "wf_version demo_rc" "wf_version demo_release" by code_simp+
  have r: "render demo_rc = ''v1.10.0-rc.2''" "render demo_release = ''v1.9.0''" by code_simp+
  have "cmp_Compare (precedence_of demo_rc) (precedence_of demo_release) = 1" by code_simp
  then show ?thesis using comparison_is_semver_precedence[OF wf] unfolding r by simp
qed

end
