(* ===== verification/Update_Version.thy ===== *)
theory Update_Version
  imports Release_Version
begin

text \<open>
  \<open>internal/update/version.go\<close>: which release a running build derives from, whether a release is an
  update for it, and the quoting of a path for a shell command.
\<close>

section \<open>The release a build derives from\<close>

definition is_hex_lower :: "char \<Rightarrow> bool" where
  "is_hex_lower c \<longleftrightarrow> is_digit c \<or> CHR ''a'' \<le> c \<and> c \<le> CHR ''f''"

text \<open>
  \<open>describeSuffix\<close> at one position: \<open>(?:-\d+-g[0-9a-f]+)?(?:-dirty)?$\<close>. A hash has no hyphen, so
  the only \<open>-dirty\<close> it can leave is the one at the end.
\<close>

definition describe_commits :: "string \<Rightarrow> bool" where
  "describe_commits s \<longleftrightarrow>
     (case s of
        [] \<Rightarrow> False
      | x # rest \<Rightarrow> x = CHR ''-'' \<and>
         (case Cut rest (CHR ''-'') of (n, h, dash) \<Rightarrow>
            dash \<and> n \<noteq> [] \<and> list_all is_digit n \<and>
            (case h of [] \<Rightarrow> False | g # hex \<Rightarrow> g = CHR ''g'' \<and> hex \<noteq> [] \<and> list_all is_hex_lower hex)))"

definition describe_suffix :: "string \<Rightarrow> bool" where
  "describe_suffix s \<longleftrightarrow> (let r = TrimSuffix s ''-dirty'' in r = '''' \<or> describe_commits r)"

text \<open>\<open>ReplaceAllString\<close> with the empty string: drop the leftmost match.\<close>

fun strip_describe :: "string \<Rightarrow> string" where
  "strip_describe s =
     (if describe_suffix s then [] else case s of [] \<Rightarrow> [] | c # cs \<Rightarrow> c # strip_describe cs)"

declare strip_describe.simps [simp del]

definition BaseVersion :: "string \<Rightarrow> string option" where
  "BaseVersion running =
     (let base = strip_describe running in if \<not> ValidVersion base then None else Some base)"

datatype update_error = ErrNotRelease | Manifest manifest_error

definition Newer :: "string \<Rightarrow> string \<Rightarrow> update_error + bool" where
  "Newer latest running =
     (case BaseVersion running of
        None \<Rightarrow> Inl ErrNotRelease
      | Some base \<Rightarrow>
          if \<not> ValidVersion latest then Inl (Manifest ErrInvalid)
          else if CHR ''-'' \<in> set latest then Inr False
          else (case CompareVersions latest base of
                  Inl err \<Rightarrow> Inl (Manifest err)
                | Inr c \<Rightarrow> Inr (0 < c)))"

definition Ahead :: "string \<Rightarrow> string \<Rightarrow> update_error + bool" where
  "Ahead installed running =
     (case BaseVersion installed of
        None \<Rightarrow> Inl ErrNotRelease
      | Some ib \<Rightarrow>
          (case BaseVersion running of
             None \<Rightarrow> Inl ErrNotRelease
           | Some rb \<Rightarrow>
               (case CompareVersions ib rb of
                  Inl err \<Rightarrow> Inl (Manifest err)
                | Inr c \<Rightarrow> Inr (0 < c))))"

section \<open>Quoting for a shell\<close>

text \<open>\<open>strings.ReplaceAll\<close> of a one-byte pattern.\<close>

definition ReplaceAll :: "string \<Rightarrow> char \<Rightarrow> string \<Rightarrow> string" where
  "ReplaceAll s old new = concat (map (\<lambda>c. if c = old then new else [c]) s)"

definition plain_chars :: string where
  "plain_chars = ''abcdefghijklmnopqrstuvwxyzABCDEFGHIJKLMNOPQRSTUVWXYZ0123456789/._-+=:,@%''"

definition ShellQuote :: "string \<Rightarrow> string" where
  "ShellQuote s =
     (if s \<noteq> '''' \<and> Trim s plain_chars = '''' then s
      else [CHR 0x27] @ ReplaceAll s (CHR 0x27) [CHR 0x27, CHR 0x5C, CHR 0x27, CHR 0x27]
             @ [CHR 0x27])"

text \<open>
  What a POSIX shell makes of one word: single quotes keep everything between them, a backslash
  outside quotes keeps the next character, and a character outside quotes that is not known to be
  plain is not a word of its own any more (\<open>None\<close>).
\<close>

fun sh_word :: "bool \<Rightarrow> string \<Rightarrow> string option" where
  "sh_word q [] = (if q then None else Some [])"
| "sh_word True (c # cs) =
     (if c = CHR 0x27 then sh_word False cs else map_option ((#) c) (sh_word True cs))"
| "sh_word False [c] =
     (if c = CHR 0x5C \<or> c = CHR 0x27 then None else if List.member plain_chars c then Some [c] else None)"
| "sh_word False (c # d # cs) =
     (if c = CHR 0x27 then sh_word True (d # cs)
      else if c = CHR 0x5C then map_option ((#) d) (sh_word False cs)
      else if List.member plain_chars c then map_option ((#) c) (sh_word False (d # cs)) else None)"

section \<open>Which releases are offered\<close>

lemma TrimSuffix_prefix: "\<exists>t. s = TrimSuffix s p @ t"
  by (metis TrimSuffix_def append_Nil2 append_take_drop_id)

lemma describe_suffix_hd: "describe_suffix (c # s) \<Longrightarrow> c = CHR ''-''"
proof -
  assume d: "describe_suffix (c # s)"
  show ?thesis
  proof (cases "TrimSuffix (c # s) ''-dirty''")
    case Nil
    then have "HasSuffix (c # s) ''-dirty''" by (auto simp: TrimSuffix_def split: if_splits)
    then obtain r where "c # s = r @ ''-dirty''" using HasSuffixD by blast
    moreover from this have "r = []" using Nil by (simp add: TrimSuffix_def)
    ultimately show ?thesis by simp
  next
    case (Cons x xs)
    then have "x = CHR ''-''" using d by (auto simp: describe_suffix_def describe_commits_def)
    moreover have "x = c" using TrimSuffix_prefix[of "c # s" "''-dirty''"] Cons by auto
    ultimately show ?thesis by simp
  qed
qed

lemma strip_describe_append:
  "CHR ''-'' \<notin> set t \<Longrightarrow> describe_suffix suf \<Longrightarrow> strip_describe (t @ suf) = t"
proof (induction t)
  case Nil
  then show ?case by (subst strip_describe.simps) simp
next
  case (Cons c t)
  then have "\<not> describe_suffix (c # t @ suf)" using describe_suffix_hd by fastforce
  then show ?case using Cons by (subst strip_describe.simps) simp
qed

lemma render_dash: "wf_version p \<Longrightarrow> CHR ''-'' \<in> set (render p) \<longleftrightarrow> pre p \<noteq> []"
  using no_digit_no_sep[OF numeric_ident_digits[THEN conjunct2]]
  by (auto simp: render_def wf_version_def split: prod.splits)

lemma BaseVersion_describe:
  assumes "wf_version r" "pre r = []" "describe_suffix suf"
  shows "BaseVersion (render r @ suf) = Some (render r)"
proof -
  have "strip_describe (render r @ suf) = render r"
    using assms render_dash by (intro strip_describe_append) auto
  then show ?thesis using assms(1) by (auto simp: BaseVersion_def ValidVersion_iff Let_def)
qed

lemma BaseVersion_valid: "BaseVersion s = Some base \<Longrightarrow> \<exists>q. wf_version q \<and> base = render q"
  by (auto simp: BaseVersion_def Let_def ValidVersion_iff split: if_splits)

lemma Compare_render:
  "wf_version p \<Longrightarrow> wf_version q \<Longrightarrow>
     CompareVersions (render p) (render q) = Inr (cmp_Compare (precedence_of p) (precedence_of q))"
  by (intro CompareVersions_parsed parse_render)

lemma Newer_iff:
  assumes "BaseVersion running = Some (render q)" "wf_version q"
  shows "Newer latest running = Inr True \<longleftrightarrow>
     (\<exists>p. wf_version p \<and> latest = render p \<and> pre p = [] \<and> precedence_of q < precedence_of p)"
proof (cases "\<exists>p. wf_version p \<and> latest = render p")
  case True
  then obtain p where p: "wf_version p" "latest = render p" by blast
  have inj: "wf_version p' \<Longrightarrow> render p = render p' \<Longrightarrow> p' = p" for p'
    using p(1) parse_render by (metis sum.inject(2))
  have "ValidVersion latest" using True by (simp add: ValidVersion_iff)
  then show ?thesis
    using assms p inj by (auto simp: Newer_def render_dash Compare_render)
next
  case False
  then show ?thesis using assms by (auto simp: Newer_def ValidVersion_iff)
qed

text \<open>
  For a build of a release (or made after it, or dirty), an update is offered exactly when
  it is a stable release of higher precedence; never the release it was built from, never one the
  installed build is ahead of, and nothing for a build that names no release.
\<close>
theorem only_newer_stable_releases_are_offered:
  assumes "wf_version r" "pre r = []" "describe_suffix suf"
  shows "(Newer latest (render r @ suf) = Inr True \<longleftrightarrow>
       (\<exists>p. wf_version p \<and> latest = render p \<and> pre p = [] \<and> precedence_of r < precedence_of p))
    \<and> Newer (render r) (render r @ suf) = Inr False
    \<and> (wf_version p \<longrightarrow> Ahead (render r @ suf) (render p) = Inr True \<longrightarrow>
         Newer (render p) (render r @ suf) \<noteq> Inr True)
    \<and> Newer latest ''dev'' = Inl ErrNotRelease"
proof -
  have base: "BaseVersion (render r @ suf) = Some (render r)" by (rule BaseVersion_describe[OF assms])
  note newer = Newer_iff[OF base assms(1)]
  have same: "Newer (render r) (render r @ suf) = Inr False"
    using assms base by (auto simp: Newer_def ValidVersion_iff render_dash Compare_render)
  have ahead: "Newer (render p) (render r @ suf) \<noteq> Inr True"
    if p: "wf_version p" "Ahead (render r @ suf) (render p) = Inr True"
  proof
    assume n: "Newer (render p) (render r @ suf) = Inr True"
    obtain p' where p': "wf_version p'" "render p = render p'" "pre p' = []" "precedence_of r < precedence_of p'"
      using n newer by blast
    have "p' = p" using p(1) p'(1,2) parse_render by (metis sum.inject(2))
    moreover have "BaseVersion (render p) = Some (render p)"
      using BaseVersion_describe[OF p'(1,3), of "''''"] p'(2)
      by (simp add: describe_suffix_def TrimSuffix_def HasSuffix_def)
    ultimately have "precedence_of p < precedence_of r"
      using p base assms(1) by (auto simp: Ahead_def Compare_render)
    then show False using p'(4) \<open>p' = p\<close> by simp
  qed
  have "BaseVersion ''dev'' = None" by code_simp
  then have "Newer latest ''dev'' = Inl ErrNotRelease" by (simp add: Newer_def)
  with newer same ahead show ?thesis by blast
qed

lemma only_newer_stable_releases_are_offered_witness:
  "Newer ''v1.9.0'' ''v1.9.0-41-gf26d800-dirty'' = Inr False"
proof -
  have h: "wf_version demo_release" "pre demo_release = []" "describe_suffix ''-41-gf26d800-dirty''"
    by code_simp+
  have r: "render demo_release = ''v1.9.0''" by code_simp
  show ?thesis using only_newer_stable_releases_are_offered[OF h] unfolding r by simp
qed

section \<open>Quoting is undone by the shell\<close>

lemma plain_not_special: "List.member plain_chars c \<Longrightarrow> c \<noteq> CHR 0x27 \<and> c \<noteq> CHR 0x5C"
  by (auto simp: plain_chars_def)

lemma sh_word_plain: "\<forall>c \<in> set s. List.member plain_chars c \<Longrightarrow> sh_word False s = Some s"
proof (induction s rule: induct_list012)
  case (2 x)
  then show ?case using plain_not_special[of x] by simp
next
  case (3 x y zs)
  then show ?case using plain_not_special[of x] by simp
qed simp

lemma sh_word_quoted:
  "sh_word True (ReplaceAll s (CHR 0x27) [CHR 0x27, CHR 0x5C, CHR 0x27, CHR 0x27] @ [CHR 0x27]) = Some s"
    (is "sh_word True (?esc s @ _) = _")
proof (induction s)
  case (Cons c s)
  obtain d r where "?esc s @ [CHR 0x27] = d # r" by (cases "?esc s @ [CHR 0x27]") auto
  with Cons show ?case by (auto simp: ReplaceAll_def)
qed (simp add: ReplaceAll_def)

text \<open>A POSIX shell reads the quoted form of any string back as one word, that string.\<close>
theorem shell_quoting_roundtrip: "sh_word False (ShellQuote s) = Some s"
proof (cases "s \<noteq> '''' \<and> Trim s plain_chars = ''''")
  case True
  then show ?thesis by (simp add: ShellQuote_def sh_word_plain Trim_all)
next
  case False
  let ?e = "ReplaceAll s (CHR 0x27) [CHR 0x27, CHR 0x5C, CHR 0x27, CHR 0x27] @ [CHR 0x27]"
  obtain d r where "?e = d # r" by (cases ?e) auto
  then show ?thesis using False sh_word_quoted[of s] by (auto simp: ShellQuote_def)
qed

end
