(* ===== verification/Release_Manifest.thy ===== *)
theory Release_Manifest
  imports Release_Version
begin

text \<open>
  The signed manifest of \<open>internal/releasemanifest/manifest.go\<close>: its content, the validation of every
  field, and the order in which \<open>Verify\<close> checks sizes, signature schema, key, signature and content.
  Ed25519, SHA-256, JSON and \<open>net/url\<close> are parameters.
\<close>

section \<open>Content\<close>

definition Schema :: int where "Schema = 1"
definition BinaryName :: string where "BinaryName = ''remote-mic''"
definition MaxManifestSize :: nat where "MaxManifestSize = 64 * 2 ^ 10"
definition MaxSignatureSize :: nat where "MaxSignatureSize = 4 * 2 ^ 10"
definition PublicKeySize :: nat where "PublicKeySize = 32"

definition signingContext :: string where
  "signingContext = ''remote-mic release manifest v1'' @ [CHR 0x0A]"

record binary =
  b_Path :: string
  b_Size :: int
  b_SHA256 :: string

record target =
  t_URL :: string
  t_Size :: int
  t_SHA256 :: string
  t_Binary :: binary

record manifest =
  mf_Schema :: int
  mf_Version :: string
  mf_Date :: instant
  mf_NotesURL :: string
  mf_Targets :: "(string \<times> target) list"
  mf_Requires :: "string list"

record signature =
  sg_Schema :: int
  sg_KeyID :: string
  sg_Signature :: string

definition knownRequirements :: "string list" where "knownRequirements = []"

definition TargetKey :: "string \<Rightarrow> string \<Rightarrow> string \<Rightarrow> string" where
  "TargetKey goos goarch goarm =
     (if goarch = ''arm'' then goos @ ''/armv'' @ goarm else goos @ ''/'' @ goarch)"

section \<open>Paths\<close>

text \<open>\<open>path.Clean\<close>, \<open>path.IsAbs\<close> and \<open>path.Split\<close> of the standard library.\<close>

definition clean_step :: "bool \<Rightarrow> string list \<Rightarrow> string \<Rightarrow> string list" where
  "clean_step rooted out c =
     (if c = '''' \<or> c = ''.'' then out
      else if c = ''..'' then
        (case out of
           [] \<Rightarrow> if rooted then [] else [''..'']
         | t # ts \<Rightarrow> if t = ''..'' then ''..'' # out else ts)
      else c # out)"

definition path_IsAbs :: "string \<Rightarrow> bool" where
  "path_IsAbs p \<longleftrightarrow> HasPrefix p ''/''"

definition path_Clean :: "string \<Rightarrow> string" where
  "path_Clean p =
     (if p = '''' then ''.''
      else let rooted = path_IsAbs p;
               out = rev (foldl (clean_step rooted) [] (Split p (CHR ''/'')));
               r = (if rooted then ''/'' else '''') @ Join out (CHR ''/'')
           in if r = '''' then ''.'' else r)"

definition path_Split :: "string \<Rightarrow> string \<times> string" where
  "path_Split p =
     (let base = rev (takeWhile (\<lambda>c. c \<noteq> CHR ''/'') (rev p))
      in (take (length p - length base) p, base))"

definition validBinaryPath :: "string \<Rightarrow> bool" where
  "validBinaryPath p =
     (if p = '''' \<or> path_IsAbs p \<or> path_Clean p \<noteq> p \<or> ContainsAny p [CHR 0x5C, CHR '':''] then False
      else case path_Split p of (dir, base) \<Rightarrow>
        if base \<noteq> BinaryName then False
        else let dir = TrimSuffix dir ''/'' in dir = '''' \<or> dir \<noteq> ''..'' \<and> CHR ''/'' \<notin> set dir)"

section \<open>Validation\<close>

text \<open>\<open>url.Parse\<close> gives a scheme and a host, or fails.\<close>

type_synonym url_parser = "string \<Rightarrow> (string \<times> string) option"

definition checkHTTPS :: "url_parser \<Rightarrow> string \<Rightarrow> bool" where
  "checkHTTPS url_Parse raw =
     (case url_Parse raw of None \<Rightarrow> False | Some (scheme, host) \<Rightarrow> scheme = ''https'' \<and> host \<noteq> '''')"

definition is_sha256 :: "string \<Rightarrow> bool" where
  "is_sha256 s \<longleftrightarrow>
     length s = 64 \<and> list_all (\<lambda>c. is_digit c \<or> CHR ''a'' \<le> c \<and> c \<le> CHR ''f'') s"

text \<open>The checks return the sentinel error of the first that fails; \<open>None\<close> is the nil error.\<close>

definition check_target :: "url_parser \<Rightarrow> target \<Rightarrow> manifest_error option" where
  "check_target url_Parse t =
     (if \<not> checkHTTPS url_Parse (t_URL t) then Some ErrInvalid
      else if t_Size t \<le> 0 then Some ErrInvalid
      else if \<not> is_sha256 (t_SHA256 t) then Some ErrInvalid
      else let b = t_Binary t in
      if \<not> validBinaryPath (b_Path b) then Some ErrInvalid
      else if b_Size b \<le> 0 then Some ErrInvalid
      else if \<not> is_sha256 (b_SHA256 b) then Some ErrInvalid
      else None)"

fun first_error :: "('a \<Rightarrow> 'e option) \<Rightarrow> 'a list \<Rightarrow> 'e option" where
  "first_error f [] = None"
| "first_error f (x # xs) = (case f x of Some e \<Rightarrow> Some e | None \<Rightarrow> first_error f xs)"

definition manifest_Validate :: "url_parser \<Rightarrow> manifest \<Rightarrow> manifest_error option" where
  "manifest_Validate url_Parse m =
     (if mf_Schema m \<noteq> Schema then Some ErrUnsupportedSchema
      else if \<not> ValidVersion (mf_Version m) then Some ErrInvalid
      else if is_zero (mf_Date m) then Some ErrInvalid
      else if \<not> checkHTTPS url_Parse (mf_NotesURL m) then Some ErrInvalid
      else case first_error (\<lambda>r. if List.member knownRequirements r then None
                                 else Some ErrUnsupportedRequirement) (mf_Requires m) of
             Some e \<Rightarrow> Some e
           | None \<Rightarrow>
      if length (mf_Targets m) = 0 then Some ErrInvalid
      else first_error (\<lambda>(key, t). check_target url_Parse t) (mf_Targets m))"

section \<open>Signing and verifying\<close>

text \<open>The functions the package takes from the standard library.\<close>

record 'k codec =
  url_Parse :: url_parser
  json_manifest :: "string \<Rightarrow> manifest option"
  json_signature :: "string \<Rightarrow> signature option"
  manifest_json :: "manifest \<Rightarrow> string"
  signature_json :: "signature \<Rightarrow> string"
  sha256 :: "string \<Rightarrow> u8 list"
  ed_Public :: "'k \<Rightarrow> string"
  ed_Sign :: "'k \<Rightarrow> string \<Rightarrow> string"
  ed_Verify :: "string \<Rightarrow> string \<Rightarrow> string \<Rightarrow> bool"

definition signedMessage :: "string \<Rightarrow> string" where
  "signedMessage mf = signingContext @ mf"

definition KeyID :: "'k codec \<Rightarrow> string \<Rightarrow> string" where
  "KeyID c pub =
     hex_encode (take 8 (sha256 c pub))"

definition Marshal :: "'k codec \<Rightarrow> manifest \<Rightarrow> manifest_error + string" where
  "Marshal c m =
     (case manifest_Validate (url_Parse c) m of
        Some e \<Rightarrow> Inl e
      | None \<Rightarrow> Inr (manifest_json c m @ [CHR 0x0A]))"

definition Parse :: "'k codec \<Rightarrow> string \<Rightarrow> manifest_error + manifest" where
  "Parse c b =
     (case json_manifest c b of
        None \<Rightarrow> Inl ErrInvalid
      | Some m \<Rightarrow> (case manifest_Validate (url_Parse c) m of Some e \<Rightarrow> Inl e | None \<Rightarrow> Inr m))"

definition Sign :: "'k codec \<Rightarrow> 'k \<Rightarrow> string \<Rightarrow> string" where
  "Sign c priv mf =
     (let pub = ed_Public c priv;
          sig = \<lparr>sg_Schema = Schema, sg_KeyID = KeyID c pub, sg_Signature = ed_Sign c priv (signedMessage mf)\<rparr>
      in signature_json c sig @ [CHR 0x0A])"

definition Verify :: "'k codec \<Rightarrow> string \<Rightarrow> string \<Rightarrow> (string \<rightharpoonup> string) \<Rightarrow> manifest_error + manifest" where
  "Verify c mf sig trusted =
     (if length mf > MaxManifestSize then Inl ErrInvalid
      else if length sig > MaxSignatureSize then Inl ErrBadSignature
      else case json_signature c sig of
             None \<Rightarrow> Inl ErrBadSignature
           | Some s \<Rightarrow>
      if sg_Schema s \<noteq> Schema then Inl ErrUnsupportedSchema
      else case trusted (sg_KeyID s) of
             None \<Rightarrow> Inl ErrUntrustedKey
           | Some pub \<Rightarrow>
      if length pub \<noteq> PublicKeySize then Inl ErrUntrustedKey
      else if \<not> ed_Verify c pub (signedMessage mf) (sg_Signature s) then Inl ErrBadSignature
      else Parse c mf)"

section \<open>What a verified manifest guarantees\<close>

lemma path_Split_parts:
  assumes "path_Split p = (dir, base)"
  shows "p = dir @ base" "CHR ''/'' \<notin> set base" "dir = [] \<or> (\<exists>d. dir = d @ ''/'')"
proof -
  let ?b = "takeWhile (\<lambda>c. c \<noteq> CHR ''/'') (rev p)"
  let ?d = "dropWhile (\<lambda>c. c \<noteq> CHR ''/'') (rev p)"
  have "p = rev ?d @ rev ?b" by (metis rev_append rev_rev_ident takeWhile_dropWhile_id)
  then have "take (length p - length ?b) p = rev ?d" by (metis append_eq_conv_conj diff_add_inverse2
        length_append length_rev)
  then have db: "dir = rev ?d" "base = rev ?b" using assms by (auto simp: path_Split_def Let_def)
  show "p = dir @ base" using db \<open>p = rev ?d @ rev ?b\<close> by simp
  show "CHR ''/'' \<notin> set base" using db(2) by (auto dest: set_takeWhileD)
  show "dir = [] \<or> (\<exists>d. dir = d @ ''/'')"
  proof (cases ?d)
    case (Cons x xs)
    then have "x = CHR ''/''" by (metis (mono_tags, lifting) dropWhile_eq_Cons_conv)
    then show ?thesis using db(1) Cons by auto
  qed (use db in simp)
qed

lemma path_Split_append:
  assumes "CHR ''/'' \<notin> set base"
  shows "path_Split base = ([], base)" "path_Split (d @ CHR ''/'' # base) = (d @ ''/'', base)"
proof -
  have tw: "takeWhile (\<lambda>c. c \<noteq> CHR ''/'') (rev base) = rev base"
    using assms by (subst takeWhile_eq_all_conv) auto
  show "path_Split base = ([], base)" unfolding path_Split_def Let_def tw by simp
  have "takeWhile (\<lambda>c. c \<noteq> CHR ''/'') (rev base @ CHR ''/'' # rev d) = rev base"
    using assms by (subst takeWhile_append2) auto
  then show "path_Split (d @ CHR ''/'' # base) = (d @ ''/'', base)" by (simp add: path_Split_def Let_def)
qed

lemma BinaryName_facts: "CHR ''/'' \<notin> set BinaryName" "BinaryName \<noteq> ''''" "BinaryName \<noteq> ''.''" "BinaryName \<noteq> ''..''"
  "\<not> ContainsAny BinaryName [CHR 0x5C, CHR '':'']" "hd BinaryName = CHR ''r''"
  by (auto simp: BinaryName_def ContainsAny_def)

lemma Clean_name: "path_Clean BinaryName = BinaryName"
  by code_simp

lemma Clean_dot: "path_Clean (''./'' @ BinaryName) = BinaryName"
  by code_simp

lemma Clean_dir:
  assumes "d \<notin> {'''', ''.'', ''..''}" "CHR ''/'' \<notin> set d"
  shows "path_Clean (d @ CHR ''/'' # BinaryName) = d @ CHR ''/'' # BinaryName"
proof -
  obtain x xs where d: "d = x # xs" "x \<noteq> CHR ''/''" using assms by (cases d) auto
  have "Split (d @ CHR ''/'' # BinaryName) (CHR ''/'') = [d, BinaryName]"
    using assms BinaryName_facts by (simp add: Split_append Split_single)
  moreover have "\<not> path_IsAbs (d @ CHR ''/'' # BinaryName)" using d by (simp add: path_IsAbs_def HasPrefix_def)
  ultimately show ?thesis
    using assms BinaryName_facts by (simp add: path_Clean_def clean_step_def Let_def)
qed

lemma validBinaryPath_iff:
  "validBinaryPath p \<longleftrightarrow>
     p = BinaryName \<or>
     (\<exists>d. p = d @ CHR ''/'' # BinaryName \<and> d \<notin> {'''', ''.'', ''..''} \<and>
        CHR ''/'' \<notin> set d \<and> CHR 0x5C \<notin> set d \<and> CHR '':'' \<notin> set d)"
    (is "_ \<longleftrightarrow> ?R")
proof
  assume v: "validBinaryPath p"
  obtain dir base where s: "path_Split p = (dir, base)" by (metis surj_pair)
  note parts = path_Split_parts[OF s]
  have c: "\<not> path_IsAbs p" "path_Clean p = p" "\<not> ContainsAny p [CHR 0x5C, CHR '':'']" "base = BinaryName"
    and dir: "TrimSuffix dir ''/'' = '''' \<or> TrimSuffix dir ''/'' \<noteq> ''..'' \<and> CHR ''/'' \<notin> set (TrimSuffix dir ''/'')"
    using v unfolding validBinaryPath_def s prod.case Let_def by (auto split: if_splits)
  show ?R
  proof (cases "dir = []")
    case True
    then show ?thesis using parts c by simp
  next
    case False
    then obtain d where d: "dir = d @ ''/''" using parts by blast
    then have p: "p = d @ CHR ''/'' # BinaryName" using parts(1) c(4) by simp
    have "TrimSuffix dir ''/'' = d" by (simp add: d TrimSuffix_def)
    moreover have "d \<noteq> ''''" using c(1) by (auto simp: p path_IsAbs_def HasPrefix_def)
    moreover have "d \<noteq> ''.''" using c(2) Clean_dot by (auto simp: p)
    ultimately show ?thesis using dir c(3) by (auto simp: p ContainsAny_def list_ex_iff)
  qed
next
  assume ?R
  then show "validBinaryPath p"
  proof
    assume "p = BinaryName"
    then show ?thesis by (simp add: validBinaryPath_def) code_simp
  next
    assume "\<exists>d. p = d @ CHR ''/'' # BinaryName \<and> d \<notin> {'''', ''.'', ''..''} \<and>
        CHR ''/'' \<notin> set d \<and> CHR 0x5C \<notin> set d \<and> CHR '':'' \<notin> set d"
    then obtain d where d: "p = d @ CHR ''/'' # BinaryName" "d \<notin> {'''', ''.'', ''..''}"
        "CHR ''/'' \<notin> set d" "CHR 0x5C \<notin> set d" "CHR '':'' \<notin> set d" by blast
    then have "\<not> path_IsAbs p" by (cases d) (auto simp: path_IsAbs_def HasPrefix_def)
    moreover have "\<not> ContainsAny p [CHR 0x5C, CHR '':'']"
      using d BinaryName_facts(5) by (auto simp: ContainsAny_def list_ex_iff)
    ultimately show ?thesis
      using d BinaryName_facts Clean_dir[OF d(2,3)]
      by (simp add: validBinaryPath_def path_Split_append TrimSuffix_def)
  qed
qed

lemma first_error_None: "first_error f xs = None \<longleftrightarrow> (\<forall>x \<in> set xs. f x = None)"
  by (induction xs) (auto split: option.splits)

text \<open>What \<open>Validate\<close> promises of a target.\<close>

definition target_ok :: "url_parser \<Rightarrow> target \<Rightarrow> bool" where
  "target_ok parse t \<longleftrightarrow>
     checkHTTPS parse (t_URL t) \<and> 0 < t_Size t \<and> is_sha256 (t_SHA256 t) \<and>
     0 < b_Size (t_Binary t) \<and> is_sha256 (b_SHA256 (t_Binary t)) \<and>
     (b_Path (t_Binary t) = BinaryName \<or>
      (\<exists>d. b_Path (t_Binary t) = d @ CHR ''/'' # BinaryName \<and> d \<notin> {'''', ''.'', ''..''} \<and>
         CHR ''/'' \<notin> set d \<and> CHR 0x5C \<notin> set d \<and> CHR '':'' \<notin> set d))"

lemma check_target_None: "check_target parse t = None \<longleftrightarrow> target_ok parse t"
  unfolding check_target_def target_ok_def Let_def validBinaryPath_iff[symmetric] by auto

lemma Validate_None:
  "manifest_Validate parse m = None \<longleftrightarrow>
     mf_Schema m = Schema \<and> ValidVersion (mf_Version m) \<and> mf_Date m \<noteq> 0 \<and> checkHTTPS parse (mf_NotesURL m) \<and>
     mf_Requires m = [] \<and> mf_Targets m \<noteq> [] \<and> (\<forall>(key, t) \<in> set (mf_Targets m). target_ok parse t)"
  by (auto simp: manifest_Validate_def is_zero_def first_error_None knownRequirements_def check_target_None
      split: option.splits if_splits)


text \<open>
  The round trip, for a signature scheme that verifies what it signed and a JSON package that decodes
  what it encoded: what \<open>Sign\<close> writes next to what \<open>Marshal\<close> writes is verified by the key's holder.
\<close>

lemma sign_verify:
  assumes "Marshal c m = Inr body" "length body \<le> MaxManifestSize"
    and "length (Sign c priv body) \<le> MaxSignatureSize"
    and "\<And>x. json_signature c (signature_json c x @ [CHR 0x0A]) = Some x"
    and "json_manifest c body = Some m"
    and "\<And>msg. ed_Verify c (ed_Public c priv) msg (ed_Sign c priv msg)"
    and "length (ed_Public c priv) = PublicKeySize"
    and "trusted (KeyID c (ed_Public c priv)) = Some (ed_Public c priv)"
  shows "Verify c body (Sign c priv body) trusted = Inr m"
proof -
  have "manifest_Validate (url_Parse c) m = None" using assms(1) by (simp add: Marshal_def split: option.splits)
  then show ?thesis using assms by (simp add: Verify_def Parse_def Sign_def Let_def)
qed

definition demo_manifest :: manifest where
  "demo_manifest =
     \<lparr>mf_Schema = 1, mf_Version = ''v1.2.3'', mf_Date = 1, mf_NotesURL = ''u'',
      mf_Targets = [(''linux/arm64'', \<lparr>t_URL = ''u'', t_Size = 42, t_SHA256 = replicate 64 (CHR ''a''),
        t_Binary = \<lparr>b_Path = ''remote-mic'', b_Size = 7, b_SHA256 = replicate 64 (CHR ''c'')\<rparr>\<rparr>)],
      mf_Requires = []\<rparr>"

definition demo_codec :: "unit codec" where
  "demo_codec =
     \<lparr>url_Parse = \<lambda>_. Some (''https'', ''h''), json_manifest = \<lambda>_. Some demo_manifest,
      json_signature = \<lambda>s. Some \<lparr>sg_Schema = 1, sg_KeyID = '''', sg_Signature = s\<rparr>,
      manifest_json = \<lambda>_. ''{}'', signature_json = \<lambda>s. sg_Signature s, sha256 = \<lambda>_. [],
      ed_Public = \<lambda>_. replicate 32 (CHR ''k''), ed_Sign = \<lambda>_ m. m, ed_Verify = \<lambda>_ m s. HasPrefix s m\<rparr>"

lemma demo_verifies:
  "Verify demo_codec ''{}'' (signedMessage ''{}'') [[] \<mapsto> replicate 32 (CHR ''k'')] = Inr demo_manifest"
  by code_simp


end
