(* ===== verification/Auth_Guard.thy ===== *)
theory Auth_Guard
  imports Go_Strings
begin

text \<open>
  \<open>internal/auth\<close>: the shared access token. \<open>Guard\<close> (\<open>guard.go\<close>) holds the token and a generation
  that counts its changes, swapped as one pair by a compare-and-swap loop; HTTP Bearer and RTSP
  Digest (\<open>digest.go\<close>) check credentials against it; \<open>token.go\<close> generates one. The SHA-256 and MD5
  functions and the third-party parser of challenge headers are parameters.
\<close>

section \<open>The guard\<close>

definition Realm :: string where "Realm = ''birdnet-go-remote-mic''"
definition minTokenLen :: nat where "minTokenLen = 12"
definition maxTokenLen :: nat where "maxTokenLen = 128"

record tokenState =
  ts_token :: string
  ts_gen :: u64

text \<open>What the atomic pointer of a guard points to; \<open>None\<close> is the nil pointer of a fresh guard.\<close>

type_synonym guard = "tokenState option"

definition guard_next :: "guard \<Rightarrow> string \<Rightarrow> tokenState" where
  "guard_next old token =
     (let oldToken = (case old of None \<Rightarrow> '''' | Some st \<Rightarrow> ts_token st);
          oldGen = (case old of None \<Rightarrow> 0 | Some st \<Rightarrow> ts_gen st);
          next' = \<lparr>ts_token = token, ts_gen = oldGen\<rparr>
      in if token \<noteq> oldToken then next'\<lparr>ts_gen := oldGen + 1\<rparr> else next')"

text \<open>One call of \<open>Set\<close> that is not interrupted.\<close>

definition guard_Set :: "string \<Rightarrow> guard \<Rightarrow> guard" where
  "guard_Set token g = Some (guard_next g token)"

definition NewGuard :: "string \<Rightarrow> guard" where
  "NewGuard token = guard_Set token None"

text \<open>The readers take a possibly nil \<open>*Guard\<close>.\<close>

definition guard_Generation :: "guard option \<Rightarrow> u64" where
  "guard_Generation g =
     (case g of None \<Rightarrow> 0 | Some p \<Rightarrow> (case p of Some st \<Rightarrow> ts_gen st | None \<Rightarrow> 0))"

definition guard_current :: "guard option \<Rightarrow> string" where
  "guard_current g =
     (case g of None \<Rightarrow> '''' | Some p \<Rightarrow> (case p of Some st \<Rightarrow> ts_token st | None \<Rightarrow> ''''))"

definition guard_Enabled :: "guard option \<Rightarrow> bool" where
  "guard_Enabled g \<longleftrightarrow> guard_current g \<noteq> ''''"

definition guard_Snapshot :: "guard option \<Rightarrow> bool \<times> u64" where
  "guard_Snapshot g =
     (case g of None \<Rightarrow> (False, 0)
      | Some p \<Rightarrow> (case p of Some st \<Rightarrow> (ts_token st \<noteq> '''', ts_gen st) | None \<Rightarrow> (False, 0)))"

lemma Snapshot_pair: "guard_Snapshot g = (guard_Enabled g, guard_Generation g)"
  by (simp add: guard_Snapshot_def guard_Enabled_def guard_Generation_def guard_current_def
      split: option.splits)

lemma current_Set [simp]: "guard_current (Some (guard_Set t g)) = t"
  by (simp add: guard_current_def guard_Set_def guard_next_def Let_def)

lemma Generation_Set:
  "guard_Generation (Some (guard_Set t g)) =
     (if t = guard_current (Some g) then guard_Generation (Some g) else guard_Generation (Some g) + 1)"
  by (simp add: guard_current_def guard_Generation_def guard_Set_def guard_next_def Let_def
      split: option.splits)

text \<open>
  What the users of a guard rely on: a value that is replaced, and a counter that moves exactly when
  the value does. The RTSP server compares the counter to see whether a connection was authorized
  under the token that is active now.
\<close>

fun changes :: "'v \<Rightarrow> 'v list \<Rightarrow> nat" where
  "changes t [] = 0"
| "changes t (u # us) = (if u = t then 0 else 1) + changes u us"

lemma changes_le: "changes t us \<le> length us"
  by (induction us arbitrary: t) (auto intro: le_SucI)

lemma changes_0: "changes t us = 0 \<longleftrightarrow> (\<forall>u \<in> set us. u = t)"
  by (induction us arbitrary: t) auto

lemma changes_append: "changes t (us @ vs) = changes t us + changes (last (t # us)) vs"
  by (induction us arbitrary: t) auto

lemma small_word_of_nat_0:
  assumes "(word_of_nat k :: u64) = 0" "k < 2 ^ 64"
  shows "k = 0"
proof -
  have "2 ^ 64 dvd k" using assms(1) by (simp add: word_of_nat_eq_0_iff)
  then show ?thesis using assms(2) by (meson dvd_imp_le leD not_gr_zero)
qed

locale versioned =
  fixes install :: "'v \<Rightarrow> 's \<Rightarrow> 's" and val :: "'s \<Rightarrow> 'v" and gen :: "'s \<Rightarrow> u64"
  assumes val_install: "val (install v s) = v"
    and gen_install: "gen (install v s) = (if v = val s then gen s else gen s + 1)"
begin

lemma gen_fold: "gen (fold install vs s) = gen s + word_of_nat (changes (val s) vs)"
proof (induction vs arbitrary: s)
  case (Cons v vs)
  then show ?case by (simp add: Cons.IH[of "install v s"] gen_install val_install)
qed simp

lemma val_fold: "val (fold install vs s) = last (val s # vs)"
proof (induction vs arbitrary: s)
  case (Cons v vs)
  then show ?case by (simp add: Cons.IH[of "install v s"] val_install)
qed simp

text \<open>An unchanged counter means an unchanged value, until the counter wraps.\<close>

lemma same_gen:
  assumes "gen (fold install vs s) = gen s" "length vs < 2 ^ 64"
  shows "\<forall>v \<in> set vs. v = val s"
proof -
  have "(word_of_nat (changes (val s) vs) :: u64) = 0" using assms(1) by (simp add: gen_fold)
  moreover have "changes (val s) vs < 2 ^ 64" using changes_le assms(2) by (rule le_less_trans)
  ultimately have "changes (val s) vs = 0" by (rule small_word_of_nat_0)
  then show ?thesis by (simp only: changes_0)
qed

lemma gen_moves:
  assumes "val s \<noteq> v" "v \<in> set vs" "length vs < 2 ^ 64"
  shows "gen (fold install vs s) \<noteq> gen s"
  using same_gen[of vs s] assms by auto

end

interpretation tok: versioned guard_Set "\<lambda>g. guard_current (Some g)" "\<lambda>g. guard_Generation (Some g)"
  by unfold_locales (simp_all add: Generation_Set)

section \<open>Concurrent calls of Set\<close>

text \<open>
  \<open>Set\<close> as its threads run it. A thread loads the pointer and then tries to swap it for a cell of
  its own: the swap succeeds if the pointer is still the one it loaded, and otherwise it starts
  over. Cells are allocated, never changed, and not reused while a thread holds their address, so
  an address is a number and allocation takes the next one. \<open>cs_hist\<close> is a ghost: which thread
  installed which token, in the order of the successful swaps.
\<close>

datatype set_pc = Idle | Loading string | Swapping string "nat option"

record set_state =
  cs_heap :: "nat \<Rightarrow> tokenState option"
  cs_next :: nat
  cs_ptr :: "nat option"
  cs_pc :: "nat \<Rightarrow> set_pc"
  cs_hist :: "(nat \<times> string) list"

definition deref :: "set_state \<Rightarrow> nat option \<Rightarrow> guard" where
  "deref s p = (case p of None \<Rightarrow> None | Some a \<Rightarrow> cs_heap s a)"

definition set_init :: set_state where
  "set_init = \<lparr>cs_heap = \<lambda>_. None, cs_next = 0, cs_ptr = None, cs_pc = \<lambda>_. Idle, cs_hist = []\<rparr>"

inductive set_step :: "set_state \<Rightarrow> set_state \<Rightarrow> bool" where
  start: "cs_pc s i = Idle \<Longrightarrow> set_step s (s\<lparr>cs_pc := (cs_pc s)(i := Loading token)\<rparr>)"
| load: "cs_pc s i = Loading token \<Longrightarrow>
    set_step s (s\<lparr>cs_pc := (cs_pc s)(i := Swapping token (cs_ptr s))\<rparr>)"
| swap: "cs_pc s i = Swapping token old \<Longrightarrow> cs_ptr s = old \<Longrightarrow>
    set_step s (s\<lparr>cs_heap := (cs_heap s)(cs_next s \<mapsto> guard_next (deref s old) token),
                  cs_next := cs_next s + 1, cs_ptr := Some (cs_next s),
                  cs_pc := (cs_pc s)(i := Idle), cs_hist := cs_hist s @ [(i, token)]\<rparr>)"
| retry: "cs_pc s i = Swapping token old \<Longrightarrow> cs_ptr s \<noteq> old \<Longrightarrow>
    set_step s (s\<lparr>cs_pc := (cs_pc s)(i := Loading token)\<rparr>)"

inductive_cases set_stepE: "set_step s s'"

definition set_inv :: "set_state \<Rightarrow> bool" where [inv_defs]:
  "set_inv s \<longleftrightarrow>
     deref s (cs_ptr s) = fold guard_Set (map snd (cs_hist s)) None \<and>
     cs_next s = length (cs_hist s) \<and>
     (\<forall>a. cs_ptr s = Some a \<longrightarrow> a < cs_next s)"

lemma set_step_inv: "set_step s s' \<Longrightarrow> set_inv s \<Longrightarrow> set_inv s'"
  by (erule set_stepE) (auto simp: set_inv_def deref_def guard_Set_def split: option.splits)

lemma set_steps_inv: "set_step\<^sup>*\<^sup>* s s' \<Longrightarrow> set_inv s \<Longrightarrow> set_inv s'"
  by (induction rule: rtranclp_induct) (auto intro: set_step_inv)

lemma set_init_inv: "set_inv set_init"
  by (simp add: set_inv_def set_init_def deref_def)


section \<open>Bearer credentials\<close>

text \<open>
  Hashing both sides and comparing the hashes: \<open>sha256\<close> stands for \<open>crypto/sha256\<close>, the
  constant-time comparison is equality.
\<close>

definition guard_CheckBearer :: "(string \<Rightarrow> 'h) \<Rightarrow> guard option \<Rightarrow> string \<Rightarrow> bool" where
  "guard_CheckBearer sha256 g authorization =
     (let token = guard_current g in
      if token = '''' then False
      else case Cut authorization (CHR '' '') of (scheme, presented, ok) \<Rightarrow>
        let presented = TrimLeft presented '' '' in
        if \<not> ok \<or> \<not> EqualFold scheme ''Bearer'' \<or> presented = '''' \<or> ContainsAny presented [CHR '' '', CHR 0x09]
        then False
        else sha256 presented = sha256 token)"

lemma Cut_True_iff: "Cut s c = (b, a, True) \<longleftrightarrow> s = b @ c # a \<and> c \<notin> set b"
proof
  show "Cut s c = (b, a, True) \<Longrightarrow> s = b @ c # a \<and> c \<notin> set b"
    by (induction s arbitrary: b) (auto split: prod.splits if_splits)
qed (auto simp: Cut_Some)

lemma dropWhile_spaces:
  "x \<noteq> c \<Longrightarrow> dropWhile (\<lambda>d. d = c) (replicate n c @ x # xs) = x # xs"
  by (induction n) auto

lemma takeWhile_spaces: "takeWhile (\<lambda>d. d = c) xs = replicate (length (takeWhile (\<lambda>d. d = c) xs)) c"
  by (rule replicate_eqI) (auto dest: set_takeWhileD)

lemma TrimLeft_space:
  "TrimLeft p [c] = dropWhile (\<lambda>d. d = c) p"
  by (simp add: TrimLeft_def eq_commute)

lemma ContainsAny_two: "ContainsAny s [c, d] \<longleftrightarrow> c \<in> set s \<or> d \<in> set s"
  by (auto simp: ContainsAny_def list_ex_iff)

lemma lower_space [simp]: "lower_char (CHR '' '') = CHR '' ''"
  by (simp add: lower_char_def less_eq_char_def)

lemma EqualFold_no_space:
  "EqualFold scheme s \<Longrightarrow> CHR '' '' \<notin> set (ToLower s) \<Longrightarrow> CHR '' '' \<notin> set scheme"
  by (metis EqualFold_def ToLower_def image_eqI list.set_map lower_space)

text \<open>
  CheckBearer accepts exactly the headers "Bearer" (any case), one or more spaces, and a
  credential without spaces or tabs whose hash is that of the active token, while the guard is
  enabled.
\<close>
theorem bearer_accepts_exactly_the_grammar:
  "guard_CheckBearer sha256 g authorization \<longleftrightarrow>
     guard_Enabled g \<and>
     (\<exists>scheme n presented.
        authorization = scheme @ replicate (Suc n) (CHR '' '') @ presented \<and>
        EqualFold scheme ''Bearer'' \<and> presented \<noteq> '''' \<and>
        CHR '' '' \<notin> set presented \<and> CHR 0x09 \<notin> set presented \<and>
        sha256 presented = sha256 (guard_current g))"
    (is "?L \<longleftrightarrow> guard_Enabled g \<and> ?R")
proof
  assume L: ?L
  obtain scheme p ok where cut: "Cut authorization (CHR '' '') = (scheme, p, ok)" by (metis prod_cases3)
  let ?q = "dropWhile (\<lambda>d. d = CHR '' '') p"
  from L cut have en: "guard_current g \<noteq> ''''" and ok: "ok" "EqualFold scheme ''Bearer''" "?q \<noteq> ''''"
    and q: "\<not> ContainsAny ?q [CHR '' '', CHR 0x09]" "sha256 ?q = sha256 (guard_current g)"
    by (auto simp: guard_CheckBearer_def Let_def TrimLeft_space split: if_splits)
  have "p = replicate (length (takeWhile (\<lambda>d. d = CHR '' '') p)) (CHR '' '') @ ?q"
    by (metis takeWhile_dropWhile_id takeWhile_spaces)
  moreover have "authorization = scheme @ CHR '' '' # p" using cut ok by (simp add: Cut_True_iff)
  ultimately have "authorization
      = scheme @ replicate (Suc (length (takeWhile (\<lambda>d. d = CHR '' '') p))) (CHR '' '') @ ?q" by simp
  moreover have "CHR '' '' \<notin> set ?q" "CHR 0x09 \<notin> set ?q"
    using q(1) unfolding ContainsAny_two by blast+
  ultimately have ?R using ok(2,3) q(2) by (intro exI conjI)
  moreover have "guard_Enabled g" using en by (simp add: guard_Enabled_def)
  ultimately show "guard_Enabled g \<and> ?R" by (intro conjI)
next
  assume "guard_Enabled g \<and> ?R"
  then obtain scheme n presented where en: "guard_Enabled g" and
    a: "authorization = scheme @ replicate (Suc n) (CHR '' '') @ presented" and
    s: "EqualFold scheme ''Bearer''" and p: "presented \<noteq> ''''" "CHR '' '' \<notin> set presented"
      "CHR 0x09 \<notin> set presented" "sha256 presented = sha256 (guard_current g)" by blast
  have "CHR '' '' \<notin> set scheme"
    by (rule EqualFold_no_space[OF s]) code_simp
  then have "Cut authorization (CHR '' '') = (scheme, replicate n (CHR '' '') @ presented, True)"
    by (simp add: a Cut_True_iff)
  moreover have "dropWhile (\<lambda>d. d = CHR '' '') (replicate n (CHR '' '') @ presented) = presented"
    using p(1,2) by (cases presented) (auto simp: dropWhile_spaces)
  moreover have "\<not> ContainsAny presented [CHR '' '', CHR 0x09]"
    using p(2,3) unfolding ContainsAny_two by blast
  moreover have "guard_current g \<noteq> ''''" using en by (simp add: guard_Enabled_def)
  ultimately show ?L
    using s p(1,4) by (simp only: guard_CheckBearer_def Let_def TrimLeft_space prod.case if_False
        not_True_eq_False simp_thms)
qed

section \<open>Acceptable tokens\<close>

definition unreserved :: "char \<Rightarrow> bool" where
  "unreserved c \<longleftrightarrow>
     is_letter c \<or> is_digit c \<or> c = CHR ''.'' \<or> c = CHR ''_'' \<or> c = CHR ''~'' \<or> c = CHR ''-''"

definition ValidToken :: "string \<Rightarrow> string" where
  "ValidToken token =
     (if token = '''' then ''''
      else if length token < minTokenLen
        then ''must be at least '' @ nat_digits minTokenLen @ '' characters''
      else if length token > maxTokenLen
        then ''must be at most '' @ nat_digits maxTokenLen @ '' characters''
      else if list_ex (\<lambda>c. \<not> unreserved c) token
        then ''must contain only letters, digits, and . _ ~ -''
      else '''')"

lemma ValidToken_iff:
  "ValidToken token = '''' \<longleftrightarrow>
     token = '''' \<or> 12 \<le> length token \<and> length token \<le> 128 \<and> (\<forall>c \<in> set token. unreserved c)"
  by (auto simp: ValidToken_def minTokenLen_def maxTokenLen_def list_ex_iff)

text \<open>\<open>base64.RawURLEncoding\<close> on whole three-byte groups, which is all that 24 bytes need.\<close>

definition b64url :: "nat \<Rightarrow> char" where
  "b64url d =
     (if d < 26 then char_of (65 + d) else if d < 52 then char_of (97 + (d - 26))
      else if d < 62 then char_of (48 + (d - 52)) else if d = 62 then CHR ''-'' else CHR ''_'')"

fun RawURLEncode :: "nat list \<Rightarrow> string" where
  "RawURLEncode (a # b # c # bs) =
     (let v = (a * 256 + b) * 256 + c in
      b64url (v div 2 ^ 18) # b64url (v div 2 ^ 12 mod 64) # b64url (v div 2 ^ 6 mod 64)
        # b64url (v mod 64) # RawURLEncode bs)"
| "RawURLEncode [a, b] =
     (let v = (a * 256 + b) * 4 in
      [b64url (v div 2 ^ 12), b64url (v div 2 ^ 6 mod 64), b64url (v mod 64)])"
| "RawURLEncode [a] = (let v = a * 16 in [b64url (v div 2 ^ 6), b64url (v mod 64)])"
| "RawURLEncode [] = []"

definition tokenEntropyBytes :: nat where "tokenEntropyBytes = 24"

text \<open>The read of the system's randomness is an input: it fails, or fills the buffer.\<close>

definition GenerateToken :: "(nat \<Rightarrow> string + u8 list) \<Rightarrow> string + string" where
  "GenerateToken randRead =
     (case randRead tokenEntropyBytes of
        Inl err \<Rightarrow> Inl (''read random bytes: '' @ err)
      | Inr b \<Rightarrow> Inr (RawURLEncode (map unat b)))"

lemma of_char_b64url:
  "d < 64 \<Longrightarrow> of_char (b64url d) =
     (if d < 26 then 65 + d else if d < 52 then 71 + d else if d < 62 then d - 4
      else if d = 62 then 45 else 95 :: nat)"
  by (simp add: b64url_def)

lemma b64url_unreserved: "d < 64 \<Longrightarrow> unreserved (b64url d)"
  by (auto simp: unreserved_def is_letter_def is_digit_def char_between_def less_eq_char_def of_char_b64url) (auto simp: b64url_def)

lemma b64url_inj:
  assumes "d < 64" "e < 64"
  shows "b64url d = b64url e \<longleftrightarrow> d = e"
proof
  assume "b64url d = b64url e"
  then have "of_char (b64url d) = (of_char (b64url e) :: nat)" by simp
  then show "d = e" using assms by (simp add: of_char_b64url split: if_splits)
qed simp

lemma group_digits:
  fixes a b c :: nat
  assumes "a < 256" "b < 256" "c < 256"
  shows "((a * 256 + b) * 256 + c) div 2 ^ 18 < 64"
  using assms by simp

lemma group_unique:
  fixes v w :: nat
  assumes "v div 2 ^ 18 = w div 2 ^ 18" "v div 2 ^ 12 mod 64 = w div 2 ^ 12 mod 64"
    "v div 2 ^ 6 mod 64 = w div 2 ^ 6 mod 64" "v mod 64 = w mod 64"
  shows "v = w"
proof -
  have step: "x = y" if "x div 64 = y div 64" "x mod 64 = y mod 64" for x y :: nat
    using that by (metis div_mult_mod_eq)
  have d: "x div 2 ^ 18 = x div 2 ^ 6 div 64 div 64" "x div 2 ^ 12 = x div 2 ^ 6 div 64" for x :: nat
    by (simp_all add: div_mult2_eq[symmetric])
  have "v div 2 ^ 6 div 64 div 64 = w div 2 ^ 6 div 64 div 64"
    "v div 2 ^ 6 div 64 mod 64 = w div 2 ^ 6 div 64 mod 64"
    using assms(1,2) unfolding d .
  then have "v div 2 ^ 6 div 64 = w div 2 ^ 6 div 64" by (rule step)
  then have "v div 2 ^ 6 = w div 2 ^ 6" using assms(3) by (rule step)
  then have "v div 64 = w div 64" by simp
  then show ?thesis using assms(4) by (rule step)
qed

lemma byte_unique:
  fixes x y b c :: nat
  assumes "x * 256 + b = y * 256 + c" "b < 256" "c < 256"
  shows "x = y" "b = c"
proof -
  show xy: "x = y" using assms by arith
  show "b = c" using assms(1) unfolding xy by (rule add_left_imp_eq)
qed

lemma RawURLEncode_groups:
  "length bs = 3 * n \<Longrightarrow> \<forall>b \<in> set bs. b < 256 \<Longrightarrow>
     length (RawURLEncode bs) = 4 * n \<and> (\<forall>c \<in> set (RawURLEncode bs). unreserved c)"
proof (induction bs arbitrary: n rule: RawURLEncode.induct)
  case (1 a b c bs)
  then obtain m where "n = Suc m" "length bs = 3 * m" by (cases n) auto
  with 1 show ?case using group_digits[of a b c] by (auto simp: Let_def b64url_unreserved)
qed (simp_all, presburger+)

lemma RawURLEncode_inj:
  "length bs = 3 * n \<Longrightarrow> length cs = 3 * n \<Longrightarrow> \<forall>b \<in> set (bs @ cs). b < 256 \<Longrightarrow>
     RawURLEncode bs = RawURLEncode cs \<Longrightarrow> bs = cs"
proof (induction bs arbitrary: n cs rule: RawURLEncode.induct)
  case (1 a b c bs)
  then obtain m where m: "n = Suc m" "length bs = 3 * m" by (cases n) auto
  from 1(3) m obtain a' b' c' cs' where cs: "cs = a' # b' # c' # cs'" "length cs' = 3 * m"
    by (auto simp: length_Suc_conv numeral_3_eq_3)
  have small: "a < 256" "b < 256" "c < 256" "a' < 256" "b' < 256" "c' < 256" using 1(4) cs by auto
  have "(a * 256 + b) * 256 + c = (a' * 256 + b') * 256 + c'"
    by (rule group_unique)
      (use 1(5) cs group_digits[OF small(1,2,3)] group_digits[OF small(4,5,6)] in
        \<open>simp_all add: Let_def b64url_inj\<close>)
  then have "a * 256 + b = a' * 256 + b'" "c = c'" using byte_unique small by blast+
  then have "a = a'" "b = b'" "c = c'" using byte_unique small by blast+
  moreover have "bs = cs'" using 1 m cs by (simp add: Let_def)
  ultimately show ?case using cs by simp
qed (simp_all, presburger+)

text \<open>
  A generated token has 32 characters, is valid, is accepted as a bearer credential by a
  guard holding it, and determines the 24 random bytes it was made from.
\<close>
theorem generated_tokens_are_usable:
  assumes "\<And>n bs. randRead n = Inr bs \<Longrightarrow> length bs = n"
    and "GenerateToken randRead = Inr token"
  shows "length token = 32 \<and> ValidToken token = '''' \<and>
     guard_CheckBearer sha256 (Some (NewGuard token)) (''Bearer '' @ token) \<and>
     (\<forall>randRead'. (\<forall>n bs. randRead' n = Inr bs \<longrightarrow> length bs = n) \<and>
        GenerateToken randRead' = Inr token \<longrightarrow> randRead' 24 = randRead 24)"
proof -
  obtain bs where bs: "randRead 24 = Inr bs" "token = RawURLEncode (map unat bs)"
    using assms(2) by (auto simp: GenerateToken_def tokenEntropyBytes_def split: sum.splits)
  have byte: "unat (b :: u8) < 256" for b using unsigned_less[of b, where ?'a = nat] by simp
  have len: "length (map unat bs) = 3 * 8" using assms(1)[OF bs(1)] by simp
  then have tok: "length token = 32" "\<forall>c \<in> set token. unreserved c"
    using RawURLEncode_groups[OF len] bs(2) byte by auto
  have "\<not> unreserved (CHR '' '')" "\<not> unreserved (CHR 0x09)"
    by (simp_all add: unreserved_def is_letter_def is_digit_def char_between_def less_eq_char_def)
  then have sp: "CHR '' '' \<notin> set token" "CHR 0x09 \<notin> set token" using tok(2) by blast+
  have cut: "Cut (''Bearer'' @ CHR '' '' # token) (CHR '' '') = (''Bearer'', token, True)"
    by (rule Cut_Some) simp
  have "dropWhile (\<lambda>d. d = CHR '' '') token = token"
    using sp(1) by (cases token) auto
  then have "guard_CheckBearer sha256 (Some (NewGuard token)) (''Bearer'' @ CHR '' '' # token)"
    using tok(1) sp unfolding guard_CheckBearer_def Let_def cut prod.case TrimLeft_space ContainsAny_two
    by (simp add: NewGuard_def EqualFold_def) auto
  moreover have "randRead' 24 = randRead 24"
    if r: "\<forall>n bs. randRead' n = Inr bs \<longrightarrow> length bs = n" "GenerateToken randRead' = Inr token" for randRead'
  proof -
    obtain cs where cs: "randRead' 24 = Inr cs" "token = RawURLEncode (map unat cs)"
      using r(2) by (auto simp: GenerateToken_def tokenEntropyBytes_def split: sum.splits)
    have "length (map unat cs) = 3 * 8" using r(1) cs(1) by simp
    then have "map unat bs = map unat cs"
      by (rule RawURLEncode_inj[OF len]) (use bs cs byte in auto)
    then have "bs = cs" by (rule map_injective) (blast intro: injI unsigned_word_eqI)
    then show ?thesis using bs cs by simp
  qed
  ultimately show ?thesis using tok by (auto simp: ValidToken_iff)
qed

lemma generated_tokens_are_usable_witness:
  "guard_CheckBearer length (Some (NewGuard (RawURLEncode (map unat (replicate 24 (0 :: u8))))))
     (''Bearer '' @ RawURLEncode (map unat (replicate 24 (0 :: u8))))"
proof -
  have "GenerateToken (\<lambda>n. Inr (replicate n 0)) = Inr (RawURLEncode (map unat (replicate 24 (0 :: u8))))"
    by (simp add: GenerateToken_def tokenEntropyBytes_def)
  then show ?thesis
    by (rule generated_tokens_are_usable[of "\<lambda>n. Inr (replicate n 0)", THEN conjunct2, THEN conjunct2,
        THEN conjunct1, rotated]) auto
qed

section \<open>Digest answers\<close>

text \<open>\<open>md5\<close> stands for \<open>crypto/md5\<close>.\<close>

definition md5hex :: "(string \<Rightarrow> u8 list) \<Rightarrow> string \<Rightarrow> string" where
  "md5hex md5 s = hex_encode (md5 s)"

text \<open>
  What \<open>rtsp.ParseChallenges\<close> of the audio-stream package returns: whether the scheme is Digest, and
  the parameters (a missing one reads as the empty string).
\<close>

record challenge =
  ch_digest :: bool
  ch_params :: "string \<Rightarrow> string"

definition guard_CheckDigest ::
  "(string list \<Rightarrow> challenge list) \<Rightarrow> (string \<Rightarrow> u8 list) \<Rightarrow> guard option \<Rightarrow> string \<Rightarrow> string \<Rightarrow> string \<Rightarrow> bool" where
  "guard_CheckDigest ParseChallenges md5 g method' authorization nonce =
     (let token = guard_current g in
      if token = '''' \<or> nonce = '''' then False
      else let chs = ParseChallenges [authorization] in
      if length chs \<noteq> 1 \<or> \<not> ch_digest (chs ! 0) then False
      else let p = ch_params (chs ! 0);
               username = p ''username''; uri = p ''uri''; response = p ''response'' in
      if username = '''' \<or> uri = '''' \<or> response = '''' \<or> p ''realm'' \<noteq> Realm then False
      else if p ''nonce'' \<noteq> nonce then False
      else let alg = p ''algorithm'' in
      if alg \<noteq> '''' \<and> \<not> EqualFold alg ''MD5'' then False
      else
        let ha1 = md5hex md5 (username @ '':'' @ Realm @ '':'' @ token);
            ha2 = md5hex md5 (method' @ '':'' @ uri);
            qop = p ''qop'';
            answer = (\<lambda>expected. ToLower response = expected) in
        if qop = '''' then answer (md5hex md5 (ha1 @ '':'' @ nonce @ '':'' @ ha2))
        else if EqualFold qop ''auth'' then
          (let nc = p ''nc''; cnonce = p ''cnonce'' in
           if nc = '''' \<or> cnonce = '''' then False
           else answer (md5hex md5 (Join [ha1, nonce, nc, cnonce, qop, ha2] (CHR '':''))))
        else False)"

definition NewNonce :: "(nat \<Rightarrow> u8 list) \<Rightarrow> string" where
  "NewNonce rand = hex_encode (rand 16)"

definition DigestChallenge :: "string \<Rightarrow> string" where
  "DigestChallenge nonce =
     ''Digest realm='' @ quote Realm @ '', nonce='' @ quote nonce @ '', algorithm=MD5, qop='' @ quote ''auth''"

text \<open>What the guard accepts, as a client computes it.\<close>

definition digest_answer :: "(string \<Rightarrow> u8 list) \<Rightarrow> string \<Rightarrow> string \<Rightarrow> string \<Rightarrow> (string \<Rightarrow> string) \<Rightarrow> string" where
  "digest_answer md5 method' token nonce p =
     (let ha1 = md5hex md5 (p ''username'' @ '':'' @ Realm @ '':'' @ token);
          ha2 = md5hex md5 (method' @ '':'' @ p ''uri'') in
      md5hex md5
       (if p ''qop'' = '''' then ha1 @ '':'' @ nonce @ '':'' @ ha2
        else ha1 @ '':'' @ nonce @ '':'' @ p ''nc'' @ '':'' @ p ''cnonce'' @ '':'' @ p ''qop'' @ '':'' @ ha2))"

definition wellformed_answer :: "string \<Rightarrow> (string \<Rightarrow> string) \<Rightarrow> bool" where
  "wellformed_answer nonce p \<longleftrightarrow>
     p ''username'' \<noteq> '''' \<and> p ''uri'' \<noteq> '''' \<and> p ''response'' \<noteq> '''' \<and> p ''realm'' = Realm \<and>
     p ''nonce'' = nonce \<and> (p ''algorithm'' = '''' \<or> EqualFold (p ''algorithm'') ''MD5'') \<and>
     (p ''qop'' = '''' \<or> EqualFold (p ''qop'') ''auth'' \<and> p ''nc'' \<noteq> '''' \<and> p ''cnonce'' \<noteq> '''')"

lemma CheckDigest_iff:
  "guard_CheckDigest P md5 g m hdr nonce \<longleftrightarrow>
     guard_Enabled g \<and> nonce \<noteq> '''' \<and>
     (\<exists>p. P [hdr] = [\<lparr>ch_digest = True, ch_params = p\<rparr>] \<and> wellformed_answer nonce p \<and>
        ToLower (p ''response'') = digest_answer md5 m (guard_current g) nonce p)"
proof (cases "\<exists>p. P [hdr] = [\<lparr>ch_digest = True, ch_params = p\<rparr>]")
  case True
  then obtain p where p: "P [hdr] = [\<lparr>ch_digest = True, ch_params = p\<rparr>]" by blast
  show ?thesis
    by (simp add: guard_CheckDigest_def Let_def p digest_answer_def wellformed_answer_def
        guard_Enabled_def)
next
  case False
  have "\<not> (length (P [hdr]) = 1 \<and> ch_digest (P [hdr] ! 0))"
  proof
    assume l: "length (P [hdr]) = 1 \<and> ch_digest (P [hdr] ! 0)"
    then obtain c where "P [hdr] = [c]" by (auto simp: length_Suc_conv)
    with l False show False by (cases c) auto
  qed
  with False show ?thesis by (simp add: guard_CheckDigest_def Let_def)
qed

text \<open>An answer commits its client to the token and the method, or exhibits an MD5 collision.\<close>

lemma digest_answer_binds:
  assumes "digest_answer md5 m1 t1 n p = digest_answer md5 m2 t2 n p"
  shows "t1 = t2 \<and> m1 = m2 \<or> (\<exists>x y. x \<noteq> y \<and> md5hex md5 x = md5hex md5 y)"
proof (rule ccontr)
  assume no: "\<not> ?thesis"
  then have inj: "\<And>x y. md5hex md5 x = md5hex md5 y \<Longrightarrow> x = y" by blast
  let ?a = "\<lambda>t. md5hex md5 (p ''username'' @ '':'' @ Realm @ '':'' @ t)"
  let ?m = "\<lambda>m. md5hex md5 (m @ '':'' @ p ''uri'')"
  have "\<exists>mid. \<forall>m t. digest_answer md5 m t n p = md5hex md5 (?a t @ CHR '':'' # mid @ ?m m)"
  proof (cases "p ''qop'' = ''''")
    case True
    then show ?thesis by (intro exI[of _ "n @ '':''"]) (simp add: digest_answer_def)
  next
    case False
    then show ?thesis
      by (intro exI[of _ "n @ '':'' @ p ''nc'' @ '':'' @ p ''cnonce'' @ '':'' @ p ''qop'' @ '':''"])
        (simp add: digest_answer_def)
  qed
  then obtain mid where "md5hex md5 (?a t1 @ CHR '':'' # mid @ ?m m1) = md5hex md5 (?a t2 @ CHR '':'' # mid @ ?m m2)"
    using assms by metis
  from inj[OF this] have "?a t1 = ?a t2" "mid @ ?m m1 = mid @ ?m m2"
    by (metis hex_before_colon md5hex_def)+
  then have "t1 = t2" "m1 = m2" by (auto dest!: inj)
  with no show False by blast
qed


text \<open>A client that holds the token and answers the challenge is accepted.\<close>

lemma digest_client_accepted:
  assumes "P [hdr] = [\<lparr>ch_digest = True, ch_params = p\<rparr>]" "guard_Enabled g" "nonce \<noteq> ''''"
    and "wellformed_answer nonce p" "p ''response'' = digest_answer md5 m (guard_current g) nonce p"
  shows "guard_CheckDigest P md5 g m hdr nonce"
  using assms by (simp add: CheckDigest_iff digest_answer_def md5hex_def Let_def)

definition demo_md5 :: "string \<Rightarrow> u8 list" where
  "demo_md5 s = [word_of_nat (length s)]"

definition demo_params :: "string \<Rightarrow> string" where
  "demo_params k =
     (if k = ''username'' then ''bird'' else if k = ''uri'' then ''rtsp://mic/''
      else if k = ''realm'' then Realm else if k = ''nonce'' then ''ab''
      else if k = ''response'' then ''08'' else '''')"

lemma demo_params:
  "demo_params ''username'' = ''bird''" "demo_params ''uri'' = ''rtsp://mic/''"
  "demo_params ''realm'' = Realm" "demo_params ''nonce'' = ''ab''" "demo_params ''response'' = ''08''"
  "demo_params ''algorithm'' = ''''" "demo_params ''qop'' = ''''"
  by (simp_all add: demo_params_def)

lemma demo_digits: "hex_digit 0 = CHR ''0''" "hex_digit 8 = CHR ''8''"
  by code_simp+

lemma demo_accepted:
  "guard_CheckDigest (\<lambda>_. [\<lparr>ch_digest = True, ch_params = demo_params\<rparr>]) demo_md5
     (Some (NewGuard ''secret-token'')) ''PLAY'' ''header'' ''ab''"
  by (rule digest_client_accepted[where p = demo_params])
    (simp_all add: demo_params wellformed_answer_def digest_answer_def guard_Enabled_def NewGuard_def
      md5hex_def demo_md5_def hex_encode_def demo_digits Let_def Realm_def)



end
