(* ===== verification/Config.thy ===== *)
theory Config
  imports Auth_Guard
begin

text \<open>
  \<open>internal/config/config.go\<close>: the configuration surface, its defaults, the migration of a device in
  the legacy flat form, and loading. Pointers that mark a field as present or absent are options; a
  pointer's sharing is not modelled. YAML decoding and the file system are parameters.
\<close>

section \<open>The configuration\<close>

definition maxDevices :: nat where "maxDevices = 32"
definition MaxChannels :: int where "MaxChannels = 8"
definition MaxNameLen :: nat where "MaxNameLen = 128"
definition MaxDeviceIDLen :: nat where "MaxDeviceIDLen = 2048"
definition MaxPathLen :: nat where "MaxPathLen = 128"

definition ModePCM :: string where "ModePCM = ''pcm''"
definition ModeOpus :: string where "ModeOpus = ''opus''"

definition OpusBitratePerChannel :: int where "OpusBitratePerChannel = 128000"
definition OpusMaxBitrate :: int where "OpusMaxBitrate = 510000"

record stream =
  s_Path :: string
  s_Mode :: string
  s_Channels :: "int list"
  s_Bitrate :: int

record device =
  d_Name :: string
  d_Device :: string
  d_Rate :: int
  d_Format :: string
  d_Streams :: "stream list"
  d_Enabled :: "bool option"
  d_QuietAlert :: "bool option"

record audioAlerts =
  aa_QuietDbfs :: "int option"
  aa_QuietSeconds :: "int option"
  aa_ZeroSeconds :: "int option"
  aa_ClipPercent :: "int option"
  aa_ClipWindowSeconds :: "int option"

record hostAlerts =
  ha_CPUPercent :: "int option"
  ha_CPUClearPercent :: "int option"
  ha_TempCelsius :: "int option"
  ha_TempClearCelsius :: "int option"
  ha_DiskPercent :: "int option"
  ha_DiskClearPercent :: "int option"
  ha_MemFreePercent :: "int option"
  ha_MemFreeMiB :: "int option"

record notifications =
  nt_Enabled :: "bool option"
  nt_Audio :: audioAlerts
  nt_Host :: hostAlerts

record management =
  mg_Enabled :: "bool option"
  mg_Listen :: string
  mg_CertDir :: string

record config =
  c_Listen :: string
  c_Discovery :: "bool option"
  c_Management :: management
  c_Token :: string
  c_Notifications :: notifications
  c_UpdatesCheck :: "bool option"
  c_Devices :: "device list"

definition NormalizeChannels :: "int list \<Rightarrow> int list" where
  "NormalizeChannels sel = remdups_adj (sort sel)"

definition intOr :: "int option \<Rightarrow> int \<Rightarrow> int" where
  "intOr p def = (case p of None \<Rightarrow> def | Some v \<Rightarrow> v)"

text \<open>An absent flag reads as on.\<close>

definition AuthRequired :: "config \<Rightarrow> bool" where
  "AuthRequired c \<longleftrightarrow> c_Token c \<noteq> ''''"

definition NotificationsEnabled :: "config \<Rightarrow> bool" where
  "NotificationsEnabled c \<longleftrightarrow> nt_Enabled (c_Notifications c) = None \<or> nt_Enabled (c_Notifications c) = Some True"

definition UpdateCheckEnabled :: "config \<Rightarrow> bool" where
  "UpdateCheckEnabled c \<longleftrightarrow> c_UpdatesCheck c = None \<or> c_UpdatesCheck c = Some True"

definition ManagementEnabled :: "config \<Rightarrow> bool" where
  "ManagementEnabled c \<longleftrightarrow> mg_Enabled (c_Management c) = None \<or> mg_Enabled (c_Management c) = Some True"

definition DiscoveryEnabled :: "config \<Rightarrow> bool" where
  "DiscoveryEnabled c \<longleftrightarrow> c_Discovery c = None \<or> c_Discovery c = Some True"

definition IsEnabled :: "device \<Rightarrow> bool" where
  "IsEnabled d \<longleftrightarrow> d_Enabled d = None \<or> d_Enabled d = Some True"

definition QuietAlertEnabled :: "device \<Rightarrow> bool" where
  "QuietAlertEnabled d \<longleftrightarrow> d_QuietAlert d = None \<or> d_QuietAlert d = Some True"

definition IsCardIndexID :: "string \<Rightarrow> bool" where
  "IsCardIndexID s =
     (let devid = TrimSpace s in
      if HasPrefix devid ''usb:'' then False
      else \<not> HasPrefix devid ''hw:'' \<or> CHR ''='' \<notin> set devid)"

definition StreamChannelUnion :: "device \<Rightarrow> int list" where
  "StreamChannelUnion d = NormalizeChannels (concat (map s_Channels (d_Streams d)))"

definition OpusDefaultBitrate :: "int \<Rightarrow> int" where
  "OpusDefaultBitrate channels = min (OpusBitratePerChannel * max 1 channels) OpusMaxBitrate"

definition EffectiveBitrate :: "int \<Rightarrow> int \<Rightarrow> int" where
  "EffectiveBitrate bitrate channels = (if bitrate > 0 then bitrate else OpusDefaultBitrate channels)"

section \<open>The legacy flat form\<close>

text \<open>A device as YAML decodes it: a list of streams when the key is present, and the flat fields.\<close>

record raw_device =
  r_Name :: string
  r_Device :: string
  r_Rate :: int
  r_Format :: string
  r_Streams :: "stream list option"
  r_Enabled :: "bool option"
  r_QuietAlert :: "bool option"
  r_Path :: string
  r_Mode :: string
  r_Channels :: "int list"
  r_Bitrate :: int

definition UnmarshalYAML :: "raw_device \<Rightarrow> string + device" where
  "UnmarshalYAML raw =
     (let d = \<lparr>d_Name = r_Name raw, d_Device = r_Device raw, d_Rate = r_Rate raw, d_Format = r_Format raw,
               d_Streams = [], d_Enabled = r_Enabled raw, d_QuietAlert = r_QuietAlert raw\<rparr>;
          flatUsed = (r_Path raw \<noteq> '''' \<or> r_Mode raw \<noteq> '''' \<or> length (r_Channels raw) > 0 \<or> r_Bitrate raw \<noteq> 0)
      in case r_Streams raw of
           Some ss \<Rightarrow>
             if flatUsed then Inl (''device '' @ quote (r_Name raw) @
               '' sets both the legacy flat stream fields (path/mode/channels/opus) and streams:; use streams: only'')
             else Inr (d\<lparr>d_Streams := ss\<rparr>)
         | None \<Rightarrow>
             Inr (d\<lparr>d_Streams := [\<lparr>s_Path = r_Path raw, s_Mode = r_Mode raw, s_Channels = r_Channels raw,
                                  s_Bitrate = r_Bitrate raw\<rparr>]\<rparr>))"

section \<open>Defaults\<close>

definition defAudioQuietDbfs :: int where "defAudioQuietDbfs = - 60"
definition defAudioQuietSeconds :: int where "defAudioQuietSeconds = 600"
definition defAudioZeroSeconds :: int where "defAudioZeroSeconds = 30"
definition defAudioClipPercent :: int where "defAudioClipPercent = 20"
definition defAudioClipWindowSeconds :: int where "defAudioClipWindowSeconds = 10"
definition defHostCPUPercent :: int where "defHostCPUPercent = 90"
definition defHostCPUClearPercent :: int where "defHostCPUClearPercent = 75"
definition defHostTempCelsius :: int where "defHostTempCelsius = 80"
definition defHostTempClearCelsius :: int where "defHostTempClearCelsius = 75"
definition defHostDiskPercent :: int where "defHostDiskPercent = 90"
definition defHostDiskClearPercent :: int where "defHostDiskClearPercent = 85"
definition defHostMemFreePercent :: int where "defHostMemFreePercent = 10"
definition defHostMemFreeMiB :: int where "defHostMemFreeMiB = 64"

lemmas def_thresholds = defAudioQuietDbfs_def defAudioQuietSeconds_def defAudioZeroSeconds_def
  defAudioClipPercent_def defAudioClipWindowSeconds_def defHostCPUPercent_def defHostCPUClearPercent_def
  defHostTempCelsius_def defHostTempClearCelsius_def defHostDiskPercent_def defHostDiskClearPercent_def
  defHostMemFreePercent_def defHostMemFreeMiB_def

definition fill :: "int option \<Rightarrow> int \<Rightarrow> int option" where
  "fill p def = (if p = None then Some def else p)"

definition default_stream :: "bool \<Rightarrow> stream \<Rightarrow> stream" where
  "default_stream singleStream s =
     (let s = (if s_Mode s = '''' then s\<lparr>s_Mode := ModePCM\<rparr> else s);
          s = (if length (s_Channels s) = 0 then s\<lparr>s_Channels := [1]\<rparr>
               else s\<lparr>s_Channels := NormalizeChannels (s_Channels s)\<rparr>)
      in if s_Path s = '''' \<and> singleStream then s\<lparr>s_Path := ''/stream''\<rparr> else s)"

definition default_device :: "device \<Rightarrow> device" where
  "default_device d =
     (let d = (if d_Format d = '''' then d\<lparr>d_Format := ''s16''\<rparr> else d);
          singleStream = (length (d_Streams d) = 1)
      in d\<lparr>d_Streams := map (default_stream singleStream) (d_Streams d)\<rparr>)"

definition default_notifications :: "notifications \<Rightarrow> notifications" where
  "default_notifications n =
     n\<lparr>nt_Audio := (nt_Audio n)
        \<lparr>aa_QuietDbfs := fill (aa_QuietDbfs (nt_Audio n)) defAudioQuietDbfs,
         aa_QuietSeconds := fill (aa_QuietSeconds (nt_Audio n)) defAudioQuietSeconds,
         aa_ZeroSeconds := fill (aa_ZeroSeconds (nt_Audio n)) defAudioZeroSeconds,
         aa_ClipPercent := fill (aa_ClipPercent (nt_Audio n)) defAudioClipPercent,
         aa_ClipWindowSeconds := fill (aa_ClipWindowSeconds (nt_Audio n)) defAudioClipWindowSeconds\<rparr>,
       nt_Host := (nt_Host n)
        \<lparr>ha_CPUPercent := fill (ha_CPUPercent (nt_Host n)) defHostCPUPercent,
         ha_CPUClearPercent := fill (ha_CPUClearPercent (nt_Host n)) defHostCPUClearPercent,
         ha_TempCelsius := fill (ha_TempCelsius (nt_Host n)) defHostTempCelsius,
         ha_TempClearCelsius := fill (ha_TempClearCelsius (nt_Host n)) defHostTempClearCelsius,
         ha_DiskPercent := fill (ha_DiskPercent (nt_Host n)) defHostDiskPercent,
         ha_DiskClearPercent := fill (ha_DiskClearPercent (nt_Host n)) defHostDiskClearPercent,
         ha_MemFreePercent := fill (ha_MemFreePercent (nt_Host n)) defHostMemFreePercent,
         ha_MemFreeMiB := fill (ha_MemFreeMiB (nt_Host n)) defHostMemFreeMiB\<rparr>\<rparr>"

definition ApplyDefaults :: "config \<Rightarrow> config" where
  "ApplyDefaults c =
     (let c = (if c_Listen c = '''' then c\<lparr>c_Listen := '':8554''\<rparr> else c);
          c = (if mg_Listen (c_Management c) = ''''
               then c\<lparr>c_Management := (c_Management c)\<lparr>mg_Listen := '':8443''\<rparr>\<rparr> else c);
          c = c\<lparr>c_Devices := map default_device (c_Devices c)\<rparr>
      in c\<lparr>c_Notifications := default_notifications (c_Notifications c)\<rparr>)"

definition zero_config :: config where
  "zero_config =
     \<lparr>c_Listen = '''', c_Discovery = None,
      c_Management = \<lparr>mg_Enabled = None, mg_Listen = '''', mg_CertDir = ''''\<rparr>, c_Token = '''',
      c_Notifications = \<lparr>nt_Enabled = None,
         nt_Audio = \<lparr>aa_QuietDbfs = None, aa_QuietSeconds = None, aa_ZeroSeconds = None,
                     aa_ClipPercent = None, aa_ClipWindowSeconds = None\<rparr>,
         nt_Host = \<lparr>ha_CPUPercent = None, ha_CPUClearPercent = None, ha_TempCelsius = None,
                    ha_TempClearCelsius = None, ha_DiskPercent = None, ha_DiskClearPercent = None,
                    ha_MemFreePercent = None, ha_MemFreeMiB = None\<rparr>\<rparr>,
      c_UpdatesCheck = None, c_Devices = []\<rparr>"

definition Default :: config where
  "Default = ApplyDefaults zero_config"

end
