(* ===== verification/Config_Validate.thy ===== *)
theory Config_Validate
  imports Config
begin

text \<open>
  The validation of \<open>internal/config/config.go\<close>: every check in the order of the code, returning the
  first invalid field with its reason, and the configurations it accepts stated as one predicate.
  Loading composes decoding, defaults and validation.
\<close>

section \<open>Checks\<close>

record validationError =
  ve_Field :: string
  ve_Reason :: string

abbreviation invalid :: "string \<Rightarrow> string \<Rightarrow> validationError option" where
  "invalid field reason \<equiv> Some \<lparr>ve_Field = field, ve_Reason = reason\<rparr>"

definition ValidationError_Error :: "validationError \<Rightarrow> string" where
  "ValidationError_Error e = ''config: '' @ ve_Field e @ '': '' @ ve_Reason e"

definition validatePath :: "string \<Rightarrow> string" where
  "validatePath p =
     (if \<not> HasPrefix p ''/'' then ''must start with /''
      else if p = ''/'' then ''must not be bare /''
      else if HasSuffix p ''/'' then ''must not end with /''
      else if ContainsAny p [CHR '' '', CHR 0x09, CHR 0x0D, CHR 0x0A] then ''must not contain whitespace''
      else if HasSuffix p ''/trackID=0''
        then ''must not end with /trackID=0 (reserved for the per-track SETUP URL)''
      else '''')"

text \<open>The loop over the channels: the reason of the first bad one; \<open>prev\<close> is the channel before.\<close>

fun channels_reason :: "int option \<Rightarrow> int list \<Rightarrow> string option" where
  "channels_reason prev [] = None"
| "channels_reason prev (ch # chs) =
     (if ch < 1 \<or> ch > MaxChannels then Some (''channel numbers must be between 1 and '' @ Itoa MaxChannels)
      else case prev of
             Some p \<Rightarrow> if ch \<le> p then Some ''must be ascending with no duplicates''
                       else channels_reason (Some ch) chs
           | None \<Rightarrow> channels_reason (Some ch) chs)"

text \<open>One stream; \<open>paths\<close> are the paths of the streams before it, on any device.\<close>

definition stream_error ::
  "int \<Rightarrow> string list \<Rightarrow> (string \<Rightarrow> string) \<Rightarrow> (string \<Rightarrow> string) \<Rightarrow> stream \<Rightarrow> validationError option" where
  "stream_error rate paths field sfield s =
     (let reason = validatePath (s_Path s) in
      if reason \<noteq> '''' then invalid (sfield ''path'') reason
      else if s_Mode s \<noteq> ModePCM \<and> s_Mode s \<noteq> ModeOpus then invalid (sfield ''mode'') ''must be pcm or opus''
      else if length (s_Channels s) = 0 then invalid (sfield ''channels'') ''must select at least one channel''
      else case channels_reason None (s_Channels s) of
             Some r \<Rightarrow> invalid (sfield ''channels'') r
           | None \<Rightarrow>
      if s_Mode s = ModeOpus \<and> rate \<noteq> 48000
        then invalid (field ''rate'') ''opus mode requires the device rate to be 48000 Hz''
      else if s_Mode s = ModeOpus \<and> length (s_Channels s) > 2
        then invalid (sfield ''channels'') ''opus mode requires one or two channels''
      else if s_Bitrate s < 0 then invalid (sfield ''opus.bitrate'') ''must not be negative''
      else if s_Bitrate s > OpusMaxBitrate
        then invalid (sfield ''opus.bitrate'') (''must be at most '' @ Itoa OpusMaxBitrate)
      else if List.member paths (s_Path s)
        then invalid (sfield ''path'')
          (''duplicate path '' @ quote (s_Path s) @ '' (paths are unique across every device's streams)'')
      else None)"

text \<open>The loop of \<open>validateStreams\<close>: the first error, or the paths with this device's added.\<close>

fun validateStreams ::
  "int \<Rightarrow> (string \<Rightarrow> string) \<Rightarrow> nat \<Rightarrow> string list \<Rightarrow> stream list \<Rightarrow> validationError + string list" where
  "validateStreams rate field j paths [] = Inr paths"
| "validateStreams rate field j paths (s # ss) =
     (let sfield = (\<lambda>f. field (''streams['' @ nat_digits j @ ''].'' @ f)) in
      case stream_error rate paths field sfield s of
        Some e \<Rightarrow> Inl e
      | None \<Rightarrow> validateStreams rate field (Suc j) (s_Path s # paths) ss)"

definition device_error ::
  "string list \<Rightarrow> string list \<Rightarrow> (string \<Rightarrow> string) \<Rightarrow> device \<Rightarrow> validationError option" where
  "device_error names ids field d =
     (if TrimSpace (d_Name d) = '''' then invalid (field ''name'') ''must not be empty''
      else if ContainsAny (d_Name d) [CHR 0x0D, CHR 0x0A]
        then invalid (field ''name'') ''must not contain CR or LF''
      else if d_Device d = '''' then invalid (field ''device'') ''must not be empty''
      else if d_Format d \<noteq> ''s16'' then invalid (field ''format'') ''must be s16''
      else if d_Rate d < 8000 \<or> d_Rate d > 384000
        then invalid (field ''rate'') ''must be between 8000 and 384000 Hz''
      else if length (d_Streams d) = 0 then invalid (field ''streams'') ''must define at least one stream''
      else if int (length (d_Streams d)) > MaxChannels
        then invalid (field ''streams'') (''must not define more than '' @ Itoa MaxChannels @ '' streams'')
      else if List.member names (d_Name d)
        then invalid (field ''name'') (''duplicate name '' @ quote (d_Name d))
      else if List.member ids (d_Device d)
        then invalid (field ''device'')
          (''duplicate device '' @ quote (d_Device d) @ '' (ALSA hw devices are single-client)'')
      else None)"

fun validateDevices_loop ::
  "nat \<Rightarrow> string list \<Rightarrow> string list \<Rightarrow> string list \<Rightarrow> device list \<Rightarrow> validationError option" where
  "validateDevices_loop i names ids paths [] = None"
| "validateDevices_loop i names ids paths (d # ds) =
     (let field = (\<lambda>f. ''devices['' @ nat_digits i @ ''].'' @ f) in
      case device_error names ids field d of
        Some e \<Rightarrow> Some e
      | None \<Rightarrow>
          (case validateStreams (d_Rate d) field 0 paths (d_Streams d) of
             Inl e \<Rightarrow> Some e
           | Inr paths \<Rightarrow>
               validateDevices_loop (Suc i) (d_Name d # names) (d_Device d # ids) paths ds))"

definition validateDevices :: "config \<Rightarrow> validationError option" where
  "validateDevices c =
     (if length (c_Devices c) > maxDevices
      then invalid ''devices'' (''must not list more than '' @ nat_digits maxDevices @ '' devices'')
      else validateDevices_loop 0 [] [] [] (c_Devices c))"

definition reasonPercent1To100 :: string where
  "reasonPercent1To100 = ''must be between 1 and 100''"

definition notifications_validate :: "notifications \<Rightarrow> validationError option" where
  "notifications_validate n =
     (let a = nt_Audio n; h = nt_Host n;
          out = (\<lambda>v lo hi. v < lo \<or> v > (hi :: int)) in
      if out (intOr (aa_QuietDbfs a) defAudioQuietDbfs) (- 99) (- 1)
        then invalid ''notifications.audio.quiet_dbfs'' ''must be between -99 and -1''
      else if out (intOr (aa_QuietSeconds a) defAudioQuietSeconds) 10 86400
        then invalid ''notifications.audio.quiet_seconds'' ''must be between 10 and 86400''
      else if out (intOr (aa_ZeroSeconds a) defAudioZeroSeconds) 5 3600
        then invalid ''notifications.audio.zero_seconds'' ''must be between 5 and 3600''
      else if out (intOr (aa_ClipPercent a) defAudioClipPercent) 1 100
        then invalid ''notifications.audio.clip_percent'' reasonPercent1To100
      else if out (intOr (aa_ClipWindowSeconds a) defAudioClipWindowSeconds) 1 600
        then invalid ''notifications.audio.clip_window_seconds'' ''must be between 1 and 600''
      else let cpu = intOr (ha_CPUPercent h) defHostCPUPercent in
      if out cpu 1 100 then invalid ''notifications.host.cpu_percent'' reasonPercent1To100
      else let cpuClear = intOr (ha_CPUClearPercent h) defHostCPUClearPercent in
      if out cpuClear 1 99 then invalid ''notifications.host.cpu_clear_percent'' ''must be between 1 and 99''
      else if cpuClear \<ge> cpu then invalid ''notifications.host.cpu_clear_percent'' ''must be below cpu_percent''
      else let temp = intOr (ha_TempCelsius h) defHostTempCelsius in
      if out temp 30 120 then invalid ''notifications.host.temp_celsius'' ''must be between 30 and 120''
      else let tempClear = intOr (ha_TempClearCelsius h) defHostTempClearCelsius in
      if out tempClear 1 119 then invalid ''notifications.host.temp_clear_celsius'' ''must be between 1 and 119''
      else if tempClear \<ge> temp then invalid ''notifications.host.temp_clear_celsius'' ''must be below temp_celsius''
      else let disk = intOr (ha_DiskPercent h) defHostDiskPercent in
      if out disk 1 100 then invalid ''notifications.host.disk_percent'' reasonPercent1To100
      else let diskClear = intOr (ha_DiskClearPercent h) defHostDiskClearPercent in
      if out diskClear 1 99 then invalid ''notifications.host.disk_clear_percent'' ''must be between 1 and 99''
      else if diskClear \<ge> disk then invalid ''notifications.host.disk_clear_percent'' ''must be below disk_percent''
      else if out (intOr (ha_MemFreePercent h) defHostMemFreePercent) 1 90
        then invalid ''notifications.host.mem_free_percent'' ''must be between 1 and 90''
      else if out (intOr (ha_MemFreeMiB h) defHostMemFreeMiB) 1 65536
        then invalid ''notifications.host.mem_free_mib'' ''must be between 1 and 65536''
      else None)"

definition Validate :: "config \<Rightarrow> validationError option" where
  "Validate c =
     (if \<not> SplitHostPort_ok (c_Listen c) then invalid ''listen'' ''must be host:port''
      else if ManagementEnabled c \<and> \<not> SplitHostPort_ok (mg_Listen (c_Management c))
        then invalid ''management.listen'' ''must be host:port''
      else let reason = ValidToken (c_Token c) in
      if reason \<noteq> '''' then invalid ''auth.token'' reason
      else case validateDevices c of
             Some e \<Rightarrow> Some e
           | None \<Rightarrow> notifications_validate (c_Notifications c))"

section \<open>The length caps on writes\<close>

text \<open>\<open>prev\<close> is the stored configuration; without one every string is checked.\<close>

definition lengths_error ::
  "string list \<Rightarrow> string list \<Rightarrow> string list \<Rightarrow> nat \<Rightarrow> device \<Rightarrow> validationError option" where
  "lengths_error names ids paths i d =
     (let field = (\<lambda>f. ''devices['' @ nat_digits i @ ''].'' @ f);
          atmost = (\<lambda>n. ''must be at most '' @ nat_digits n @ '' characters'') in
      if \<not> List.member names (d_Name d) \<and> RuneCount (d_Name d) > MaxNameLen
        then invalid (field ''name'') (atmost MaxNameLen)
      else if \<not> List.member ids (d_Device d) \<and> RuneCount (d_Device d) > MaxDeviceIDLen
        then invalid (field ''device'') (atmost MaxDeviceIDLen)
      else case List.find (\<lambda>(j, s). \<not> List.member paths (s_Path s) \<and> RuneCount (s_Path s) > MaxPathLen)
                  (enumerate 0 (d_Streams d)) of
             Some (j, s) \<Rightarrow> invalid (field (''streams['' @ nat_digits j @ ''].path'')) (atmost MaxPathLen)
           | None \<Rightarrow> None)"

fun lengths_loop ::
  "string list \<Rightarrow> string list \<Rightarrow> string list \<Rightarrow> nat \<Rightarrow> device list \<Rightarrow> validationError option" where
  "lengths_loop names ids paths i [] = None"
| "lengths_loop names ids paths i (d # ds) =
     (case lengths_error names ids paths i d of
        Some e \<Rightarrow> Some e
      | None \<Rightarrow> lengths_loop names ids paths (Suc i) ds)"

definition config_names :: "config \<Rightarrow> string list" where
  "config_names c = map d_Name (c_Devices c)"

definition config_ids :: "config \<Rightarrow> string list" where
  "config_ids c = map d_Device (c_Devices c)"

definition config_paths :: "config \<Rightarrow> string list" where
  "config_paths c = concat (map (\<lambda>d. map s_Path (d_Streams d)) (c_Devices c))"

definition ValidateLengths :: "config \<Rightarrow> config option \<Rightarrow> validationError option" where
  "ValidateLengths c prev =
     (case prev of
        None \<Rightarrow> lengths_loop [] [] [] 0 (c_Devices c)
      | Some p \<Rightarrow> lengths_loop (config_names p) (config_ids p) (config_paths p) 0 (c_Devices c))"

section \<open>Loading\<close>

text \<open>
  What YAML makes of a file: the top level with its devices still in raw form, and whether it has a
  non-empty top-level \<open>audio\<close> map.
\<close>

datatype load_error =
  NotExist | ReadError string | ParseError string | OldFormat | InvalidConfig validationError

fun unmarshal_devices :: "raw_device list \<Rightarrow> string + device list" where
  "unmarshal_devices [] = Inr []"
| "unmarshal_devices (r # rs) =
     (case UnmarshalYAML r of
        Inl e \<Rightarrow> Inl e
      | Inr d \<Rightarrow> (case unmarshal_devices rs of Inl e \<Rightarrow> Inl e | Inr ds \<Rightarrow> Inr (d # ds)))"

definition LoadQuiet ::
  "(string \<Rightarrow> load_error + 'data) \<Rightarrow> ('data \<Rightarrow> string + config \<times> raw_device list) \<Rightarrow> ('data \<Rightarrow> bool) \<Rightarrow>
     string \<Rightarrow> load_error + config" where
  "LoadQuiet ReadFile yaml has_audio path =
     (case ReadFile path of
        Inl e \<Rightarrow> Inl e
      | Inr data \<Rightarrow>
          (case yaml data of
             Inl e \<Rightarrow> Inl (ParseError e)
           | Inr (base, raws) \<Rightarrow>
               (case unmarshal_devices raws of
                  Inl e \<Rightarrow> Inl (ParseError e)
                | Inr ds \<Rightarrow>
                    if length ds = 0 \<and> has_audio data then Inl OldFormat
                    else let c = ApplyDefaults (base\<lparr>c_Devices := ds\<rparr>) in
                      (case Validate c of Some e \<Rightarrow> Inl (InvalidConfig e) | None \<Rightarrow> Inr c))))"

text \<open>\<open>Load\<close> adds only a log line about the permissions of the file.\<close>

definition LoadOrDefault ::
  "(string \<Rightarrow> load_error + 'data) \<Rightarrow> ('data \<Rightarrow> string + config \<times> raw_device list) \<Rightarrow> ('data \<Rightarrow> bool) \<Rightarrow>
     string \<Rightarrow> load_error + config" where
  "LoadOrDefault ReadFile yaml has_audio path =
     (case LoadQuiet ReadFile yaml has_audio path of
        Inl NotExist \<Rightarrow> Inr Default
      | r \<Rightarrow> r)"

section \<open>What validation accepts\<close>

definition path_ok :: "string \<Rightarrow> bool" where
  "path_ok p \<longleftrightarrow>
     HasPrefix p ''/'' \<and> p \<noteq> ''/'' \<and> \<not> HasSuffix p ''/'' \<and> \<not> HasSuffix p ''/trackID=0'' \<and>
     set p \<inter> {CHR '' '', CHR 0x09, CHR 0x0D, CHR 0x0A} = {}"

definition stream_ok :: "int \<Rightarrow> stream \<Rightarrow> bool" where
  "stream_ok rate s \<longleftrightarrow>
     path_ok (s_Path s) \<and> s_Mode s \<in> {ModePCM, ModeOpus} \<and>
     s_Channels s \<noteq> [] \<and> set (s_Channels s) \<subseteq> {1..8} \<and> sorted_wrt (<) (s_Channels s) \<and>
     (s_Mode s = ModeOpus \<longrightarrow> rate = 48000 \<and> length (s_Channels s) \<le> 2) \<and>
     0 \<le> s_Bitrate s \<and> s_Bitrate s \<le> 510000"

definition device_ok :: "device \<Rightarrow> bool" where
  "device_ok d \<longleftrightarrow>
     TrimSpace (d_Name d) \<noteq> '''' \<and> set (d_Name d) \<inter> {CHR 0x0D, CHR 0x0A} = {} \<and> d_Device d \<noteq> '''' \<and>
     d_Format d = ''s16'' \<and> 8000 \<le> d_Rate d \<and> d_Rate d \<le> 384000 \<and>
     d_Streams d \<noteq> [] \<and> length (d_Streams d) \<le> 8 \<and> (\<forall>s \<in> set (d_Streams d). stream_ok (d_Rate d) s)"

text \<open>Effective thresholds lie in their ranges, and every clear threshold below its onset.\<close>

definition notifications_ok :: "notifications \<Rightarrow> bool" where
  "notifications_ok n \<longleftrightarrow>
     intOr (aa_QuietDbfs (nt_Audio n)) (- 60) \<in> {- 99..- 1} \<and>
     intOr (aa_QuietSeconds (nt_Audio n)) 600 \<in> {10..86400} \<and>
     intOr (aa_ZeroSeconds (nt_Audio n)) 30 \<in> {5..3600} \<and>
     intOr (aa_ClipPercent (nt_Audio n)) 20 \<in> {1..100} \<and>
     intOr (aa_ClipWindowSeconds (nt_Audio n)) 10 \<in> {1..600} \<and>
     intOr (ha_CPUPercent (nt_Host n)) 90 \<le> 100 \<and>
     intOr (ha_CPUClearPercent (nt_Host n)) 75 \<in> {1..<intOr (ha_CPUPercent (nt_Host n)) 90} \<and>
     intOr (ha_TempCelsius (nt_Host n)) 80 \<in> {30..120} \<and>
     intOr (ha_TempClearCelsius (nt_Host n)) 75 \<in> {1..<intOr (ha_TempCelsius (nt_Host n)) 80} \<and>
     intOr (ha_DiskPercent (nt_Host n)) 90 \<le> 100 \<and>
     intOr (ha_DiskClearPercent (nt_Host n)) 85 \<in> {1..<intOr (ha_DiskPercent (nt_Host n)) 90} \<and>
     intOr (ha_MemFreePercent (nt_Host n)) 10 \<in> {1..90} \<and>
     intOr (ha_MemFreeMiB (nt_Host n)) 64 \<in> {1..65536}"

definition config_ok :: "config \<Rightarrow> bool" where
  "config_ok c \<longleftrightarrow>
     SplitHostPort_ok (c_Listen c) \<and>
     (ManagementEnabled c \<longrightarrow> SplitHostPort_ok (mg_Listen (c_Management c))) \<and>
     (c_Token c = '''' \<or> 12 \<le> length (c_Token c) \<and> length (c_Token c) \<le> 128 \<and> (\<forall>x \<in> set (c_Token c). unreserved x)) \<and>
     length (c_Devices c) \<le> 32 \<and> (\<forall>d \<in> set (c_Devices c). device_ok d) \<and>
     distinct (config_names c) \<and> distinct (config_ids c) \<and> distinct (config_paths c) \<and>
     notifications_ok (c_Notifications c)"

lemma validatePath_iff: "validatePath p = '''' \<longleftrightarrow> path_ok p"
  by (auto simp: validatePath_def path_ok_def ContainsAny_def list_ex_iff)

lemma channels_reason_iff:
  "channels_reason prev chs = None \<longleftrightarrow>
     set chs \<subseteq> {1..8} \<and> sorted_wrt (<) ((case prev of None \<Rightarrow> [] | Some p \<Rightarrow> [p]) @ chs)"
proof (induction prev chs rule: channels_reason.induct)
  case (2 prev ch chs)
  have two: "sorted_wrt (<) (p # ch # chs) \<longleftrightarrow> p < ch \<and> sorted_wrt (<) (ch # chs)" for p :: int
    by (rule sorted_wrt2) (simp add: transp_def)
  show ?case
  proof (cases prev)
    case None
    then show ?thesis using 2 by (auto simp: MaxChannels_def)
  next
    case (Some p)
    then show ?thesis using 2 two[of p] by (auto simp: MaxChannels_def simp del: sorted_wrt.simps)
  qed
qed (auto split: option.splits)

lemma stream_error_None:
  "stream_error rate paths field sfield s = None \<longleftrightarrow> stream_ok rate s \<and> s_Path s \<notin> set paths"
proof -
  have m: "ModePCM \<noteq> ModeOpus" by (simp add: ModePCM_def ModeOpus_def)
  have "channels_reason None (s_Channels s) = None \<longleftrightarrow> set (s_Channels s) \<subseteq> {1..8} \<and> sorted_wrt (<) (s_Channels s)"
    by (simp add: channels_reason_iff)
  then show ?thesis
    using m unfolding stream_error_def stream_ok_def Let_def validatePath_iff
    by (auto simp: OpusMaxBitrate_def split: option.splits)
qed

lemma validateStreams_Inr:
  "validateStreams rate field j paths ss = Inr ps \<longleftrightarrow>
     (\<forall>s \<in> set ss. stream_ok rate s) \<and> distinct (map s_Path ss) \<and> set (map s_Path ss) \<inter> set paths = {} \<and>
     ps = rev (map s_Path ss) @ paths"
proof (induction rate field j paths ss rule: validateStreams.induct)
  case (2 rate field j paths s ss)
  show ?case
  proof (cases "stream_error rate paths field (\<lambda>f. field (''streams['' @ nat_digits j @ ''].'' @ f)) s")
    case None
    then show ?thesis using 2[OF refl None] stream_error_None[of rate paths field _ s]
      by (auto simp: Let_def)
  next
    case (Some e)
    then show ?thesis using stream_error_None[of rate paths field
        "\<lambda>f. field (''streams['' @ nat_digits j @ ''].'' @ f)" s] by (auto simp: Let_def)
  qed
qed auto

lemma device_error_None:
  "device_error names ids field d = None \<longleftrightarrow>
     TrimSpace (d_Name d) \<noteq> '''' \<and> set (d_Name d) \<inter> {CHR 0x0D, CHR 0x0A} = {} \<and> d_Device d \<noteq> '''' \<and>
     d_Format d = ''s16'' \<and> 8000 \<le> d_Rate d \<and> d_Rate d \<le> 384000 \<and>
     d_Streams d \<noteq> [] \<and> length (d_Streams d) \<le> 8 \<and> d_Name d \<notin> set names \<and> d_Device d \<notin> set ids"
  by (auto simp: device_error_def ContainsAny_two MaxChannels_def)

lemma validateDevices_loop_None:
  "validateDevices_loop i names ids paths ds = None \<longleftrightarrow>
     (\<forall>d \<in> set ds. device_ok d) \<and>
     distinct (map d_Name ds) \<and> set (map d_Name ds) \<inter> set names = {} \<and>
     distinct (map d_Device ds) \<and> set (map d_Device ds) \<inter> set ids = {} \<and>
     distinct (concat (map (\<lambda>d. map s_Path (d_Streams d)) ds)) \<and>
     set (concat (map (\<lambda>d. map s_Path (d_Streams d)) ds)) \<inter> set paths = {}"
proof (induction ds arbitrary: i names ids paths)
  case (Cons d ds)
  let ?field = "\<lambda>f. ''devices['' @ nat_digits i @ ''].'' @ f"
  show ?case
  proof (cases "device_error names ids ?field d")
    case None
    note dev = None[unfolded device_error_None]
    show ?thesis
    proof (cases "validateStreams (d_Rate d) ?field 0 paths (d_Streams d)")
      case (Inl e)
      then have "\<nexists>ps. validateStreams (d_Rate d) ?field 0 paths (d_Streams d) = Inr ps" by simp
      then show ?thesis using Inl None unfolding validateStreams_Inr by (auto simp: device_ok_def)
    next
      case (Inr ps)
      have str: "\<forall>s \<in> set (d_Streams d). stream_ok (d_Rate d) s" "distinct (map s_Path (d_Streams d))"
        "set (map s_Path (d_Streams d)) \<inter> set paths = {}" "ps = rev (map s_Path (d_Streams d)) @ paths"
        using Inr[unfolded validateStreams_Inr] by blast+
      have ok: "device_ok d" using dev str(1) by (simp add: device_ok_def)
      have step: "validateDevices_loop i names ids paths (d # ds) =
          validateDevices_loop (Suc i) (d_Name d # names) (d_Device d # ids) ps ds"
        using None Inr by simp
      obtain P Q N D where abbr: "P = map s_Path (d_Streams d)" "N = map d_Name ds" "D = map d_Device ds"
        "Q = concat (map (\<lambda>d. map s_Path (d_Streams d)) ds)" by blast
      have "d_Name d \<notin> set names" "d_Device d \<notin> set ids" using dev by blast+
      then show ?thesis
        unfolding step Cons.IH list.map concat.simps using str(2,3) ok
        unfolding str(4) abbr[symmetric] by auto
    qed
  next
    case (Some e)
    then have "device_error names ids ?field d \<noteq> None" by simp
    then show ?thesis using Some unfolding device_error_None by (auto simp: device_ok_def)
  qed
qed simp

lemma or_else_None: "(case x of None \<Rightarrow> y | Some e \<Rightarrow> Some e) = None \<longleftrightarrow> x = None \<and> y = None"
  by (cases x) auto

lemma notifications_validate_None: "notifications_validate n = None \<longleftrightarrow> notifications_ok n"
  unfolding notifications_validate_def notifications_ok_def def_thresholds Let_def
  by (auto split: if_splits)

lemma validation_iff: "Validate c = None \<longleftrightarrow> config_ok c"
  unfolding Validate_def config_ok_def Let_def validateDevices_def ValidToken_iff
  by (auto simp: or_else_None validateDevices_loop_None notifications_validate_None maxDevices_def
      config_names_def config_ids_def config_paths_def ValidToken_iff)

section \<open>What loading returns\<close>

lemma remdups_adj_strict: "sorted (xs :: int list) \<Longrightarrow> sorted_wrt (<) (remdups_adj xs)"
proof (induction xs rule: remdups_adj.induct)
  case (3 x y xs)
  then show ?case by (auto simp: order.strict_iff_order)
qed auto

lemma NormalizeChannels_facts:
  "set (NormalizeChannels sel) = set sel" "sorted_wrt (<) (NormalizeChannels sel)"
  "NormalizeChannels sel = [] \<longleftrightarrow> sel = []"
proof -
  show "set (NormalizeChannels sel) = set sel" by (simp add: NormalizeChannels_def)
  then show "NormalizeChannels sel = [] \<longleftrightarrow> sel = []" by (metis set_empty)
  show "sorted_wrt (<) (NormalizeChannels sel)"
    by (simp add: NormalizeChannels_def remdups_adj_strict)
qed

lemma NormalizeChannels_id: "sorted_wrt (<) sel \<Longrightarrow> NormalizeChannels sel = sel"
  using NormalizeChannels_facts[of sel] by (metis strict_sorted_equal)

lemma NormalizeChannels_idem [simp]: "NormalizeChannels (NormalizeChannels sel) = NormalizeChannels sel"
  by (rule NormalizeChannels_id[OF NormalizeChannels_facts(2)])

lemma fill_idem [simp]: "fill (fill p def) def = fill p def"
  by (simp add: fill_def)

lemma default_stream_fields:
  "s_Path (default_stream b s) = (if s_Path s = '''' \<and> b then ''/stream'' else s_Path s)"
  "s_Mode (default_stream b s) = (if s_Mode s = '''' then ModePCM else s_Mode s)"
  "s_Channels (default_stream b s) = (if s_Channels s = [] then [1] else NormalizeChannels (s_Channels s))"
  "s_Bitrate (default_stream b s) = s_Bitrate s" "stream.more (default_stream b s) = stream.more s"
  unfolding default_stream_def Let_def by simp_all

lemma default_stream_idem: "default_stream b (default_stream b s) = default_stream b s"
proof -
  have "NormalizeChannels [1] = [1]" by (simp add: NormalizeChannels_id)
  then show ?thesis
    by (intro stream.equality)
      (auto simp: default_stream_fields ModePCM_def NormalizeChannels_facts(3))
qed

lemma default_device_idem: "default_device (default_device d) = default_device d"
  by (simp add: default_device_def Let_def default_stream_idem)

lemma ApplyDefaults_fields:
  "c_Listen (ApplyDefaults c) = (if c_Listen c = '''' then '':8554'' else c_Listen c)"
  "c_Discovery (ApplyDefaults c) = c_Discovery c"
  "mg_Listen (c_Management (ApplyDefaults c)) =
     (if mg_Listen (c_Management c) = '''' then '':8443'' else mg_Listen (c_Management c))"
  "mg_Enabled (c_Management (ApplyDefaults c)) = mg_Enabled (c_Management c)"
  "mg_CertDir (c_Management (ApplyDefaults c)) = mg_CertDir (c_Management c)"
  "management.more (c_Management (ApplyDefaults c)) = management.more (c_Management c)"
  "c_Token (ApplyDefaults c) = c_Token c"
  "c_Notifications (ApplyDefaults c) = default_notifications (c_Notifications c)"
  "c_UpdatesCheck (ApplyDefaults c) = c_UpdatesCheck c"
  "c_Devices (ApplyDefaults c) = map default_device (c_Devices c)"
  "config.more (ApplyDefaults c) = config.more c"
  by (simp_all add: ApplyDefaults_def Let_def)

lemma default_notifications_idem: "default_notifications (default_notifications n) = default_notifications n"
  by (simp add: default_notifications_def)

lemma ApplyDefaults_idem: "ApplyDefaults (ApplyDefaults c) = ApplyDefaults c"
proof (rule config.equality)
  show "c_Management (ApplyDefaults (ApplyDefaults c)) = c_Management (ApplyDefaults c)"
    by (rule management.equality) (simp_all add: ApplyDefaults_fields)
qed (simp_all add: ApplyDefaults_fields default_device_idem default_notifications_idem)

lemma Default_valid: "Validate Default = None"
  by code_simp

text \<open>A device in the legacy flat form loads as the same device written with one stream.\<close>

lemma flat_device_migrates:
  assumes "r_Streams raw = None"
  shows "UnmarshalYAML raw =
    UnmarshalYAML (raw\<lparr>r_Streams := Some [\<lparr>s_Path = r_Path raw, s_Mode = r_Mode raw, s_Channels = r_Channels raw,
                                          s_Bitrate = r_Bitrate raw\<rparr>],
                       r_Path := '''', r_Mode := '''', r_Channels := [], r_Bitrate := 0\<rparr>)"
  using assms by (simp add: UnmarshalYAML_def)

lemma union_ok:
  assumes "device_ok d"
  shows "StreamChannelUnion d \<noteq> []" "sorted_wrt (<) (StreamChannelUnion d)" "set (StreamChannelUnion d) \<subseteq> {1..8}"
    "s \<in> set (d_Streams d) \<Longrightarrow> set (s_Channels s) \<subseteq> set (StreamChannelUnion d)"
proof -
  have s: "d_Streams d \<noteq> []" "\<forall>s \<in> set (d_Streams d). s_Channels s \<noteq> [] \<and> set (s_Channels s) \<subseteq> {1..8}"
    using assms by (auto simp: device_ok_def stream_ok_def)
  then obtain t ts where "d_Streams d = t # ts" by (cases "d_Streams d") auto
  then show "StreamChannelUnion d \<noteq> []" using s by (simp add: StreamChannelUnion_def NormalizeChannels_facts(3))
  show "sorted_wrt (<) (StreamChannelUnion d)" by (simp add: StreamChannelUnion_def NormalizeChannels_facts)
  show "set (StreamChannelUnion d) \<subseteq> {1..8}" using s by (auto simp: StreamChannelUnion_def NormalizeChannels_facts)
  show "s \<in> set (d_Streams d) \<Longrightarrow> set (s_Channels s) \<subseteq> set (StreamChannelUnion d)"
    by (auto simp: StreamChannelUnion_def NormalizeChannels_facts)
qed

lemma bitrate_ok:
  "0 \<le> b \<Longrightarrow> b \<le> 510000 \<Longrightarrow> 0 < EffectiveBitrate b n \<and> EffectiveBitrate b n \<le> 510000"
  by (auto simp: EffectiveBitrate_def OpusDefaultBitrate_def OpusBitratePerChannel_def OpusMaxBitrate_def)

text \<open>
  C39. A configuration that LoadOrDefault returns is valid and has every default applied
  (applying them again changes nothing); each device opens a non-empty ascending set of channels
  1..8 that covers every stream, and every effective Opus bitrate is positive and at most 510
  kbit/s.
\<close>
theorem loaded_config_is_sound:
  assumes "LoadOrDefault ReadFile yaml has_audio path = Inr c"
  shows "Validate c = None \<and> ApplyDefaults c = c \<and>
    (\<forall>d \<in> set (c_Devices c).
       StreamChannelUnion d \<noteq> [] \<and> sorted_wrt (<) (StreamChannelUnion d) \<and> set (StreamChannelUnion d) \<subseteq> {1..8} \<and>
       (\<forall>s \<in> set (d_Streams d). set (s_Channels s) \<subseteq> set (StreamChannelUnion d) \<and>
          0 < EffectiveBitrate (s_Bitrate s) (int (length (s_Channels s))) \<and>
          EffectiveBitrate (s_Bitrate s) (int (length (s_Channels s))) \<le> 510000))"
proof -
  have "Validate c = None \<and> (\<exists>c0. c = ApplyDefaults c0)"
  proof (cases "LoadQuiet ReadFile yaml has_audio path = Inl NotExist")
    case True
    then have "c = Default" using assms by (simp add: LoadOrDefault_def)
    then show ?thesis using Default_valid Default_def by blast
  next
    case False
    then have "LoadQuiet ReadFile yaml has_audio path = Inr c"
      using assms by (auto simp: LoadOrDefault_def split: sum.splits load_error.splits)
    then show ?thesis by (auto simp: LoadQuiet_def Let_def split: sum.splits prod.splits if_splits option.splits)
  qed
  then have v: "config_ok c" "Validate c = None" and a: "ApplyDefaults c = c"
    using ApplyDefaults_idem by (auto simp: validation_iff)
  have "device_ok d" if "d \<in> set (c_Devices c)" for d using v(1) that by (simp add: config_ok_def)
  then show ?thesis using union_ok bitrate_ok v(2) a by (auto simp: device_ok_def stream_ok_def)
qed

definition demo_load :: "load_error + config" where
  "demo_load = LoadOrDefault (\<lambda>_. Inr ()) (\<lambda>_. Inr (zero_config,
     [\<lparr>r_Name = ''Garden'', r_Device = ''usb:1235:8218:s=S1:if=0,0'', r_Rate = 48000, r_Format = '''', r_Streams = None,
       r_Enabled = None, r_QuietAlert = None, r_Path = '''', r_Mode = ''opus'', r_Channels = [2, 1], r_Bitrate = 0\<rparr>]))
     (\<lambda>_. False) ''config.yaml''"

lemma demo_loads: "\<exists>c. demo_load = Inr c \<and> map StreamChannelUnion (c_Devices c) = [[1, 2]]"
proof -
  have "case demo_load of Inl _ \<Rightarrow> False | Inr c \<Rightarrow> map StreamChannelUnion (c_Devices c) = [[1, 2]]"
    by code_simp
  then show ?thesis by (auto split: sum.splits)
qed

lemma loaded_config_is_sound_witness:
  "\<exists>c. demo_load = Inr c \<and> c_Devices c \<noteq> [] \<and> Validate c = None"
  using demo_loads loaded_config_is_sound unfolding demo_load_def by (metis list.distinct(1) list.simps(8))

section \<open>The length caps, for the strings a write introduces\<close>

lemma find_None_enumerate:
  "List.find (\<lambda>(j, s). P s) (enumerate n xs) = None \<longleftrightarrow> (\<forall>s \<in> set xs. \<not> P s)"
  by (induction xs arbitrary: n) auto

lemma lengths_error_None:
  "lengths_error names ids paths i d = None \<longleftrightarrow>
     (RuneCount (d_Name d) \<le> 128 \<or> d_Name d \<in> set names) \<and>
     (RuneCount (d_Device d) \<le> 2048 \<or> d_Device d \<in> set ids) \<and>
     (\<forall>s \<in> set (d_Streams d). RuneCount (s_Path s) \<le> 128 \<or> s_Path s \<in> set paths)"
proof -
  have "List.find (\<lambda>(j, s). \<not> List.member paths (s_Path s) \<and> RuneCount (s_Path s) > MaxPathLen)
      (enumerate 0 (d_Streams d)) = None \<longleftrightarrow>
    (\<forall>s \<in> set (d_Streams d). RuneCount (s_Path s) \<le> 128 \<or> s_Path s \<in> set paths)"
    unfolding find_None_enumerate by (auto simp: MaxPathLen_def)
  then show ?thesis
    by (auto simp: lengths_error_def Let_def MaxNameLen_def MaxDeviceIDLen_def split: option.splits)
qed

lemma lengths_loop_None:
  "lengths_loop names ids paths i ds = None \<longleftrightarrow> (\<forall>d \<in> set ds. \<forall>i. lengths_error names ids paths i d = None)"
  by (induction names ids paths i ds rule: lengths_loop.induct)
    (auto simp: or_else_None lengths_error_None)

lemma ball_new:
  "(\<forall>x \<in> set (map f xs) - S. P x) \<longleftrightarrow> (\<forall>x \<in> set xs. P (f x) \<or> f x \<in> S)"
  by auto

lemma ball_new_nested:
  "(\<forall>x \<in> set (concat (map (\<lambda>d. map f (g d)) xs)) - S. P x) \<longleftrightarrow> (\<forall>d \<in> set xs. \<forall>x \<in> set (g d). P (f x) \<or> f x \<in> S)"
  by auto

text \<open>
  The length caps reject a write exactly when it introduces a name, id or path over the cap;
  a stored configuration written back unchanged always passes, and what passes without a stored
  configuration passes with one.
\<close>
theorem lengths_cap_only_what_a_write_introduces:
  "(ValidateLengths c (Some stored) = None \<longleftrightarrow>
      (\<forall>s \<in> set (config_names c) - set (config_names stored). RuneCount s \<le> 128) \<and>
      (\<forall>s \<in> set (config_ids c) - set (config_ids stored). RuneCount s \<le> 2048) \<and>
      (\<forall>s \<in> set (config_paths c) - set (config_paths stored). RuneCount s \<le> 128))
   \<and> ValidateLengths stored (Some stored) = None
   \<and> (ValidateLengths c None = None \<longrightarrow> ValidateLengths c (Some stored) = None)"
proof -
  have iff: "ValidateLengths c (Some p) = None \<longleftrightarrow>
      (\<forall>s \<in> set (config_names c) - set (config_names p). RuneCount s \<le> 128) \<and>
      (\<forall>s \<in> set (config_ids c) - set (config_ids p). RuneCount s \<le> 2048) \<and>
      (\<forall>s \<in> set (config_paths c) - set (config_paths p). RuneCount s \<le> 128)" for c p
    unfolding ValidateLengths_def option.case lengths_loop_None lengths_error_None
      config_names_def[of c] config_ids_def[of c] config_paths_def[of c]
    unfolding ball_new ball_new_nested by blast
  have none: "ValidateLengths c None = None \<Longrightarrow>
      (\<forall>s \<in> set (config_names c). RuneCount s \<le> 128) \<and> (\<forall>s \<in> set (config_ids c). RuneCount s \<le> 2048) \<and>
      (\<forall>s \<in> set (config_paths c). RuneCount s \<le> 128)"
    unfolding ValidateLengths_def option.case lengths_loop_None lengths_error_None
      config_names_def config_ids_def config_paths_def by auto
  show ?thesis using iff[of c stored] iff[of stored stored] none by simp
qed

text \<open>A stored name of 129 characters may be written back and its device changed; writing it afresh is refused.\<close>

definition long_named :: "string \<Rightarrow> config" where
  "long_named devid = zero_config\<lparr>c_Devices := [\<lparr>d_Name = replicate 129 CHR ''x'', d_Device = devid, d_Rate = 48000,
     d_Format = ''s16'', d_Streams = [], d_Enabled = None, d_QuietAlert = None\<rparr>]\<rparr>"

lemma lengths_cap_only_what_a_write_introduces_witness:
  "ValidateLengths (long_named ''hw:1'') (Some (long_named ''hw:0'')) = None
   \<and> ValidateLengths (long_named ''hw:1'') (Some Default) \<noteq> None"
proof -
  have lists: "config_names (long_named d) = [replicate 129 CHR ''x'']" "config_ids (long_named d) = [d]"
    "config_paths (long_named d) = []" for d
    by (simp_all add: config_names_def config_ids_def config_paths_def long_named_def)
  have dflt: "config_names Default = []" by code_simp
  have "RuneCount ''hw:1'' \<le> 2048" by code_simp
  moreover have "\<not> RuneCount (replicate 129 CHR ''x'') \<le> 128" by code_simp
  ultimately show ?thesis
    using lengths_cap_only_what_a_write_introduces[of "long_named ''hw:1''" "long_named ''hw:0''"]
      lengths_cap_only_what_a_write_introduces[of "long_named ''hw:1''" Default]
    unfolding lists dflt by simp
qed

section \<open>Acceptance\<close>

text \<open>
  C31. Validate accepts exactly the configurations with valid addresses and token, at most 32
  devices with unique names and ids, 1 to 8 streams each with globally unique well-formed paths
  and ascending channels 1..8, Opus only at 48 kHz with one or two channels, and thresholds in
  range with every clear below its onset; the default configuration is accepted.
\<close>
theorem validation_accepts_exactly:
  "(Validate c = None \<longleftrightarrow> config_ok c) \<and> Validate Default = None"
  using validation_iff Default_valid by blast

end
