(* ===== verification/Reload_Plan.thy ===== *)
theory Reload_Plan
  imports Config
begin

text \<open>
  \<open>internal/reload/plan.go\<close>: the plan that takes the running devices to a new configuration. What is
  running is an association list from names to the parameters a device runs with (a Go map, in any
  order); executing a plan is stated here as what its lists mean for that map.
\<close>

section \<open>Planning\<close>

record plan =
  p_Start :: "device list"
  p_Restart :: "device list"
  p_Stop :: "string list"

definition plan_Empty :: "plan \<Rightarrow> bool" where
  "plan_Empty p \<longleftrightarrow> length (p_Start p) = 0 \<and> length (p_Restart p) = 0 \<and> length (p_Stop p) = 0"

definition streamEqual :: "stream \<Rightarrow> stream \<Rightarrow> bool" where
  "streamEqual a b =
     (if s_Path a \<noteq> s_Path b \<or> s_Mode a \<noteq> s_Mode b \<or> s_Channels a \<noteq> s_Channels b then False
      else s_Mode a \<noteq> ModeOpus \<or>
        EffectiveBitrate (s_Bitrate a) (int (length (s_Channels a))) =
        EffectiveBitrate (s_Bitrate b) (int (length (s_Channels b))))"

definition CaptureParamsEqual :: "device \<Rightarrow> device \<Rightarrow> bool" where
  "CaptureParamsEqual a b \<longleftrightarrow>
     d_Device a = d_Device b \<and> d_Rate a = d_Rate b \<and> d_Format a = d_Format b \<and>
     list_all2 streamEqual (d_Streams a) (d_Streams b)"

text \<open>The enabled devices of a configuration, keyed by name.\<close>

definition add_enabled :: "(string \<times> device) list \<Rightarrow> device \<Rightarrow> (string \<times> device) list" where
  "add_enabled m d = (if IsEnabled d then AList.update (d_Name d) d m else m)"

definition desiredEnabled :: "config \<Rightarrow> (string \<times> device) list" where
  "desiredEnabled c = foldl add_enabled [] (c_Devices c)"

definition Reconcile :: "(string \<times> device) list \<Rightarrow> config \<Rightarrow> plan" where
  "Reconcile running desired =
     (let de = desiredEnabled desired;
          stop = map fst (filter (\<lambda>(name, _). map_of de name = None) running);
          start = map snd (filter (\<lambda>(name, _). map_of running name = None) de);
          restart = map snd (filter (\<lambda>(name, want).
            case map_of running name of None \<Rightarrow> False | Some cur \<Rightarrow> \<not> CaptureParamsEqual cur want) de)
      in \<lparr>p_Start = sort_key d_Name start, p_Restart = sort_key d_Name restart, p_Stop = sort stop\<rparr>)"

section \<open>Executing a plan\<close>

definition plan_run :: "plan \<Rightarrow> (string \<times> device) list \<Rightarrow> (string \<times> device) list" where
  "plan_run p running =
     fold (\<lambda>d. AList.update (d_Name d) d) (p_Restart p @ p_Start p)
       (fold AList.delete (p_Stop p) running)"

section \<open>The plan converges\<close>

text \<open>What a stream's pipeline is built from.\<close>

definition stream_params :: "stream \<Rightarrow> string \<times> string \<times> int list \<times> int" where
  "stream_params s =
     (s_Path s, s_Mode s, s_Channels s,
      if s_Mode s = ModeOpus then EffectiveBitrate (s_Bitrate s) (int (length (s_Channels s))) else 0)"

lemma streamEqual_iff: "streamEqual a b \<longleftrightarrow> stream_params a = stream_params b"
  by (cases "s_Mode a = ModeOpus"; cases "s_Path a = s_Path b"; cases "s_Mode a = s_Mode b";
      cases "s_Channels a = s_Channels b")
    (simp_all add: streamEqual_def stream_params_def)

lemma streamEqual_equiv: "streamEqual a a" "streamEqual a b \<Longrightarrow> streamEqual b a"
  by (simp_all add: streamEqual_iff)

lemma CaptureParamsEqual_refl [simp]: "CaptureParamsEqual d d"
  by (simp add: CaptureParamsEqual_def list.rel_refl streamEqual_equiv)

lemma CaptureParamsEqual_sym: "CaptureParamsEqual a b \<Longrightarrow> CaptureParamsEqual b a"
  by (auto simp: CaptureParamsEqual_def list_all2_conv_all_nth streamEqual_equiv)

lemma map_of_add_enabled:
  "map_of (add_enabled m d) n = (if IsEnabled d \<and> n = d_Name d then Some d else map_of m n)"
  by (simp add: add_enabled_def update_conv')

lemma distinct_add_enabled: "distinct (map fst m) \<Longrightarrow> distinct (map fst (add_enabled m d))"
  by (simp add: add_enabled_def distinct_update)

lemma desiredEnabled_distinct: "distinct (map fst (desiredEnabled c))"
proof -
  have "distinct (map fst m) \<Longrightarrow> distinct (map fst (foldl add_enabled m ds))" for m ds
    by (induction ds arbitrary: m) (simp_all add: distinct_add_enabled)
  then show ?thesis by (simp add: desiredEnabled_def)
qed

lemma desiredEnabled_name:
  "map_of (desiredEnabled c) n = Some d \<Longrightarrow> d_Name d = n \<and> IsEnabled d \<and> d \<in> set (c_Devices c)"
proof -
  have "map_of (foldl add_enabled m ds) n = Some d \<Longrightarrow>
      map_of m n = Some d \<or> d_Name d = n \<and> IsEnabled d \<and> d \<in> set ds" for m ds
    by (induction ds arbitrary: m) (fastforce simp: map_of_add_enabled split: if_splits)+
  from this[of "[]" "c_Devices c"] show "map_of (desiredEnabled c) n = Some d \<Longrightarrow> ?thesis"
    by (simp add: desiredEnabled_def)
qed

text \<open>Without duplicate names the desired devices are the enabled ones.\<close>

lemma desiredEnabled_map:
  assumes "distinct (map d_Name (c_Devices c))"
  shows "map_of (desiredEnabled c) n = Some d \<longleftrightarrow> d \<in> set (c_Devices c) \<and> IsEnabled d \<and> d_Name d = n"
proof
  have keep: "d_Name d \<notin> d_Name ` set ds \<Longrightarrow> map_of m (d_Name d) = Some d \<Longrightarrow>
      map_of (foldl add_enabled m ds) (d_Name d) = Some d" for m ds
    by (induction ds arbitrary: m) (simp_all add: map_of_add_enabled)
  have "distinct (map d_Name ds) \<Longrightarrow> d \<in> set ds \<Longrightarrow> IsEnabled d \<Longrightarrow>
      map_of (foldl add_enabled m ds) (d_Name d) = Some d" for m ds
    by (induction ds arbitrary: m) (auto simp: keep map_of_add_enabled)
  then show "d \<in> set (c_Devices c) \<and> IsEnabled d \<and> d_Name d = n \<Longrightarrow> map_of (desiredEnabled c) n = Some d"
    using assms by (auto simp: desiredEnabled_def)
qed (use desiredEnabled_name in blast)



lemma map_of_fold_delete:
  "map_of (fold AList.delete ks m) n = (if n \<in> set ks then None else map_of m n)"
  by (induction ks arbitrary: m) (auto simp: delete_conv')

lemma map_of_fold_update:
  assumes "distinct (map d_Name ds)"
  shows "map_of (fold (\<lambda>d. AList.update (d_Name d) d) ds m) n =
    (case List.find (\<lambda>d. d_Name d = n) ds of Some d \<Rightarrow> Some d | None \<Rightarrow> map_of m n)"
  using assms
proof (induction ds arbitrary: m)
  case (Cons d ds)
  have "List.find (\<lambda>e. d_Name e = d_Name d) ds = None"
    using Cons.prems by (auto simp: find_None_iff rev_image_eqI)
  then show ?case using Cons by (auto simp: update_conv' split: option.splits)
qed simp

lemma set_Start:
  assumes "distinct (map fst running)"
  shows "d \<in> set (p_Start (Reconcile running c)) \<longleftrightarrow>
    map_of (desiredEnabled c) (d_Name d) = Some d \<and> map_of running (d_Name d) = None"
proof -
  have "d \<in> set (p_Start (Reconcile running c)) \<longleftrightarrow>
      (\<exists>n. (n, d) \<in> set (desiredEnabled c) \<and> map_of running n = None)"
    by (force simp: Reconcile_def Let_def)
  also have "\<dots> \<longleftrightarrow> (\<exists>n. map_of (desiredEnabled c) n = Some d \<and> map_of running n = None)"
    by (simp add: desiredEnabled_distinct)
  finally show ?thesis using desiredEnabled_name by blast
qed

lemma set_Restart:
  assumes "distinct (map fst running)"
  shows "d \<in> set (p_Restart (Reconcile running c)) \<longleftrightarrow>
    map_of (desiredEnabled c) (d_Name d) = Some d \<and>
    (\<exists>cur. map_of running (d_Name d) = Some cur \<and> \<not> CaptureParamsEqual cur d)"
proof -
  have "d \<in> set (p_Restart (Reconcile running c)) \<longleftrightarrow>
      (\<exists>n. (n, d) \<in> set (desiredEnabled c) \<and> (\<exists>cur. map_of running n = Some cur \<and> \<not> CaptureParamsEqual cur d))"
    by (force simp: Reconcile_def Let_def split: option.splits)
  also have "\<dots> \<longleftrightarrow> (\<exists>n. map_of (desiredEnabled c) n = Some d \<and>
      (\<exists>cur. map_of running n = Some cur \<and> \<not> CaptureParamsEqual cur d))"
    by (simp add: desiredEnabled_distinct)
  finally show ?thesis using desiredEnabled_name by blast
qed

lemma set_Stop:
  "n \<in> set (p_Stop (Reconcile running c)) \<longleftrightarrow> n \<in> fst ` set running \<and> map_of (desiredEnabled c) n = None"
  by (force simp: Reconcile_def Let_def)

text \<open>The lists are sorted by name without repetition.\<close>

lemma strictly_sorted:
  "distinct (xs :: string list) \<Longrightarrow> sorted xs \<Longrightarrow> sorted_wrt (<) xs"
  by (simp add: strict_sorted_iff)

lemma map_fst_filter_distinct: "distinct (map fst m) \<Longrightarrow> distinct (map fst (filter P m))"
  by (induction m) auto

lemma map_snd_names:
  assumes "distinct (map fst m)" "\<forall>(n, d) \<in> set m. d_Name d = n"
  shows "map d_Name (map snd (filter P m)) = map fst (filter P m)"
  using assms(2) by (induction m) auto

lemma desired_pairs: "\<forall>(n, d) \<in> set (desiredEnabled c). d_Name d = n"
  using desiredEnabled_name desiredEnabled_distinct by (auto dest: map_of_is_SomeI)

lemma plan_sorted:
  assumes "distinct (map fst running)"
  shows "sorted_wrt (<) (p_Stop (Reconcile running c))"
    "sorted_wrt (<) (map d_Name (p_Start (Reconcile running c)))"
    "sorted_wrt (<) (map d_Name (p_Restart (Reconcile running c)))"
proof -
  note names = map_snd_names[OF desiredEnabled_distinct desired_pairs]
  have d: "distinct (map d_Name (map snd (filter P (desiredEnabled c))))" for P
    unfolding names by (rule map_fst_filter_distinct[OF desiredEnabled_distinct])
  have s: "sorted_wrt (<) (map d_Name (sort_key d_Name ds))" if "distinct (map d_Name ds)" for ds
  proof (rule strictly_sorted)
    show "distinct (map d_Name (sort_key d_Name ds))" using that by (simp add: distinct_map)
  qed (rule sorted_sort_key)
  show "sorted_wrt (<) (p_Stop (Reconcile running c))"
    using map_fst_filter_distinct[OF assms] by (intro strictly_sorted) (simp_all add: Reconcile_def Let_def)
  show "sorted_wrt (<) (map d_Name (p_Start (Reconcile running c)))"
    "sorted_wrt (<) (map d_Name (p_Restart (Reconcile running c)))"
    by (simp_all only: Reconcile_def Let_def plan.simps s[OF d])
qed

lemma sorted_wrt_less_distinct: "sorted_wrt (<) (xs :: string list) \<Longrightarrow> distinct xs"
  by (simp add: strict_sorted_iff)

text \<open>What runs after the plan: the desired device, or what ran before if it has the same parameters.\<close>

lemma plan_run_map:
  assumes "distinct (map fst running)"
  shows "map_of (plan_run (Reconcile running c) running) n =
    (case map_of (desiredEnabled c) n of
       None \<Rightarrow> None
     | Some want \<Rightarrow>
         (case map_of running n of
            Some cur \<Rightarrow> if CaptureParamsEqual cur want then Some cur else Some want
          | None \<Rightarrow> Some want))"
proof -
  let ?p = "Reconcile running c"
  let ?ds = "p_Restart ?p @ p_Start ?p"
  have mem: "d \<in> set ?ds \<longleftrightarrow> map_of (desiredEnabled c) (d_Name d) = Some d \<and>
      (case map_of running (d_Name d) of None \<Rightarrow> True | Some cur \<Rightarrow> \<not> CaptureParamsEqual cur d)" for d
    by (auto simp: set_Start[OF assms] set_Restart[OF assms] split: option.splits)
  have "set (map d_Name (p_Restart ?p)) \<inter> set (map d_Name (p_Start ?p)) = {}"
    by (auto simp: set_Start[OF assms] set_Restart[OF assms])
  then have dist: "distinct (map d_Name ?ds)"
    using plan_sorted(2,3)[OF assms, THEN sorted_wrt_less_distinct] by simp
  have run: "map_of (plan_run ?p running) n =
    (case List.find (\<lambda>d. d_Name d = n) ?ds of Some d \<Rightarrow> Some d
     | None \<Rightarrow> if n \<in> set (p_Stop ?p) then None else map_of running n)"
    unfolding plan_run_def map_of_fold_update[OF dist] map_of_fold_delete ..
  show ?thesis
  proof (cases "\<exists>d \<in> set ?ds. d_Name d = n")
    case True
    then obtain d where d: "List.find (\<lambda>d. d_Name d = n) ?ds = Some d"
      by (cases "List.find (\<lambda>d. d_Name d = n) ?ds") (auto simp: find_None_iff)
    from find_SomeD[OF this] have "d \<in> set ?ds" "d_Name d = n" by blast+
    then have "map_of (desiredEnabled c) n = Some d"
      and "case map_of running n of None \<Rightarrow> True | Some cur \<Rightarrow> \<not> CaptureParamsEqual cur d"
      using mem[of d] unfolding \<open>d_Name d = n\<close> by (iprover elim: conjE iffE mp)+
    then show ?thesis unfolding run d option.case by (cases "map_of running n") simp_all
  next
    case False
    then have none: "List.find (\<lambda>d. d_Name d = n) ?ds = None" by (auto simp: find_None_iff)
    show ?thesis
    proof (cases "map_of (desiredEnabled c) n")
      case None
      then show ?thesis
        unfolding run none set_Stop by (simp add: map_of_eq_None_iff[of running])
    next
      case (Some d)
      then have n: "d_Name d = n" using desiredEnabled_name by blast
      then have "d \<notin> set ?ds" using False by blast
      then have "\<exists>cur. map_of running n = Some cur \<and> CaptureParamsEqual cur d"
        using mem[of d] Some unfolding n by (cases "map_of running n") simp_all
      then show ?thesis unfolding run none set_Stop Some by auto
    qed
  qed
qed

lemma plan_run_distinct: "distinct (map fst m) \<Longrightarrow> distinct (map fst (plan_run p m))"
proof -
  have "distinct (map fst m) \<Longrightarrow> distinct (map fst (fold AList.delete ks m))" for ks and m :: "(string \<times> device) list"
    by (induction ks arbitrary: m) (simp_all add: distinct_delete)
  moreover have "distinct (map fst m) \<Longrightarrow> distinct (map fst (fold (\<lambda>d. AList.update (d_Name d) d) ds m))" for ds m
    by (induction ds arbitrary: m) (simp_all add: distinct_update)
  ultimately show "distinct (map fst m) \<Longrightarrow> ?thesis" unfolding plan_run_def by blast
qed

lemma converged_plan_empty:
  assumes "distinct (map fst running)"
    and "\<And>n want. map_of (desiredEnabled c) n = Some want \<Longrightarrow>
           \<exists>cur. map_of running n = Some cur \<and> CaptureParamsEqual cur want"
    and "\<And>n. map_of (desiredEnabled c) n = None \<Longrightarrow> map_of running n = None"
  shows "plan_Empty (Reconcile running c)"
proof -
  have "p_Start (Reconcile running c) = []" "p_Restart (Reconcile running c) = []"
    using assms(2) set_Start[OF assms(1)] set_Restart[OF assms(1)]
    by (metis last_in_set option.distinct(1) option.inject)+
  moreover have "p_Stop (Reconcile running c) = []"
    using assms(3) set_Stop[of _ running c] by (metis last_in_set map_of_eq_None_iff)
  ultimately show ?thesis by (simp add: plan_Empty_def)
qed


definition demo_device :: "string \<Rightarrow> int \<Rightarrow> device" where
  "demo_device n rate =
     \<lparr>d_Name = n, d_Device = ''usb:'' @ n, d_Rate = rate, d_Format = ''s16'',
      d_Streams = [\<lparr>s_Path = ''/'' @ n, s_Mode = ModePCM, s_Channels = [1], s_Bitrate = 0\<rparr>],
      d_Enabled = None, d_QuietAlert = None\<rparr>"

definition demo_running :: "(string \<times> device) list" where
  "demo_running = map (\<lambda>n. (n, demo_device n 48000)) [''attic'', ''barn'', ''coop'']"

definition demo_config :: config where
  "demo_config = zero_config\<lparr>c_Devices := [demo_device ''coop'' 48000, demo_device ''barn'' 96000, demo_device ''dam'' 48000]\<rparr>"


end
