(* ===== verification/Media.thy ===== *)
theory Media
  imports Prelude
begin

text \<open>
  The data that flows from a capture to a client: periods of interleaved S16LE samples
  (\<open>internal/audio/source.go\<close>) and RTP payload frames (\<open>internal/pipeline/pipeline.go\<close>), with the
  reading of little-endian samples the components share.
\<close>

unbundle bit_operations_syntax

record period =
  pd_Buf :: "u8 list"
  pd_Frames :: nat
  pd_Pos :: u64
  pd_Session :: u64
  pd_Captured :: instant

record frame =
  fr_Payload :: "u8 list"
  fr_Duration :: u32
  fr_Pos :: u64
  fr_Captured :: instant
  fr_Session :: u64

text \<open>Little-endian samples of two, three and four bytes; a trailing part of a sample is not one.\<close>

definition le16 :: "u8 \<Rightarrow> u8 \<Rightarrow> u16" where
  "le16 a b = ucast a OR push_bit 8 (ucast b)"

definition le24 :: "u8 \<Rightarrow> u8 \<Rightarrow> u8 \<Rightarrow> 24 word" where
  "le24 a b c = ucast a OR push_bit 8 (ucast b) OR push_bit 16 (ucast c)"

definition le32 :: "u8 \<Rightarrow> u8 \<Rightarrow> u8 \<Rightarrow> u8 \<Rightarrow> u32" where
  "le32 a b c d = ucast a OR push_bit 8 (ucast b) OR push_bit 16 (ucast c) OR push_bit 24 (ucast d)"

fun samples16 :: "u8 list \<Rightarrow> u16 list" where
  "samples16 (a # b # bs) = le16 a b # samples16 bs"
| "samples16 bs = []"

fun samples24 :: "u8 list \<Rightarrow> 24 word list" where
  "samples24 (a # b # c # bs) = le24 a b c # samples24 bs"
| "samples24 bs = []"

text \<open>24 bits in the low three bytes of four; the fourth is padding.\<close>

fun samples24in32 :: "u8 list \<Rightarrow> 24 word list" where
  "samples24in32 (a # b # c # d # bs) = le24 a b c # samples24in32 bs"
| "samples24in32 bs = []"

fun samples32 :: "u8 list \<Rightarrow> u32 list" where
  "samples32 (a # b # c # d # bs) = le32 a b c d # samples32 bs"
| "samples32 bs = []"

lemma samples16_length: "length (samples16 bs) = length bs div 2"
  by (induction bs rule: samples16.induct) auto

lemma samples16_append: "even (length xs) \<Longrightarrow> samples16 (xs @ ys) = samples16 xs @ samples16 ys"
  by (induction xs rule: samples16.induct) auto

lemma samples16_nth: "i < length bs div 2 \<Longrightarrow> samples16 bs ! i = le16 (bs ! (2 * i)) (bs ! (2 * i + 1))"
proof (induction bs arbitrary: i rule: samples16.induct)
  case (1 a b bs)
  then show ?case by (cases i) auto
qed auto

text \<open>The high bytes of a sample are its arithmetic shift right.\<close>

lemma le16_of_le32: "le16 c d = ucast (signed_drop_bit 16 (le32 a b c d))"
  by (rule bit_word_eqI) (auto simp: le16_def le32_def bit_simps not_less dest: bit_imp_le_length)

lemma le16_of_le24: "le16 b c = ucast (signed_drop_bit 8 (le24 a b c))"
  by (rule bit_word_eqI) (auto simp: le16_def le24_def bit_simps not_less dest: bit_imp_le_length)

section \<open>Time of frames\<close>

text \<open>\<open>framesDur\<close>: 0 for a rate that is not positive.\<close>

definition framesDur :: "int \<Rightarrow> int \<Rightarrow> duration" where
  "framesDur frames rate = (if rate \<le> 0 then 0 else go_quot (frames * second) rate)"

lemma framesDur_mono: "0 \<le> m \<Longrightarrow> m \<le> n \<Longrightarrow> framesDur m rate \<le> framesDur n rate"
  by (simp add: framesDur_def second_def millisecond_def zdiv_mono1)

lemma framesDur_0 [simp]: "framesDur 0 rate = 0"
  by (simp add: framesDur_def)

end
