(* ===== verification/Audio_Capture.thy ===== *)
theory Audio_Capture
  imports Media Config
begin

text \<open>
  \<open>internal/audio\<close> up to the fan-out: the reduction of wide captures to 16 bits (\<open>convert.go\<close>), the
  extraction of a channel selection, and the negotiation of a capture (\<open>capture.go\<close>). The capture
  library is a parameter: what opening and probing a device answers.
\<close>

section \<open>Reduction to 16 bits\<close>

definition downconvertS32ToS16 :: "u8 list \<Rightarrow> u8 list" where
  "downconvertS32ToS16 src =
     concat (map (\<lambda>i. [src ! (i * 4 + 2), src ! (i * 4 + 3)]) [0..<length src div 4])"

definition downconvertS24ToS16 :: "u8 list \<Rightarrow> nat \<Rightarrow> u8 list" where
  "downconvertS24ToS16 src srcBytes =
     concat (map (\<lambda>i. [src ! (i * srcBytes + 1), src ! (i * srcBytes + 2)]) [0..<length src div srcBytes])"

definition downconvertS24LEToS16 :: "u8 list \<Rightarrow> u8 list" where
  "downconvertS24LEToS16 src = downconvertS24ToS16 src 4"

definition downconvertS243LEToS16 :: "u8 list \<Rightarrow> u8 list" where
  "downconvertS243LEToS16 src = downconvertS24ToS16 src 3"

section \<open>Channel selection\<close>

text \<open>The copy loop of \<open>selectingSource.Read\<close> over one period.\<close>

definition select_buf :: "nat \<Rightarrow> nat list \<Rightarrow> nat \<Rightarrow> u8 list \<Rightarrow> u8 list" where
  "select_buf srcCh idx frames buf =
     concat (map (\<lambda>f. concat (map (\<lambda>ci.
       let so = f * (srcCh * 2) + ci * 2 in [buf ! so, buf ! (so + 1)]) idx)) [0..<frames])"

text \<open>\<open>None\<close> is the source itself, unwrapped; \<open>Some idx\<close> the selecting source.\<close>

definition NewSelectingSource :: "nat \<Rightarrow> nat list \<Rightarrow> nat list option" where
  "NewSelectingSource srcChannels selection =
     (let idx = map (\<lambda>c. c - 1) selection in
      if length idx = srcChannels \<and> list_all (\<lambda>i. idx ! i = i) [0..<length idx] then None
      else Some idx)"

definition selected_Read :: "nat \<Rightarrow> nat list option \<Rightarrow> period \<Rightarrow> period" where
  "selected_Read srcChannels sel p =
     (case sel of
        None \<Rightarrow> p
      | Some idx \<Rightarrow> p\<lparr>pd_Buf := select_buf srcChannels idx (pd_Frames p) (pd_Buf p)\<rparr>)"

definition maxSelected :: "int list \<Rightarrow> int" where
  "maxSelected selection = foldl (\<lambda>m c. if c > m then c else m) 1 selection"

section \<open>Opening a capture\<close>

datatype capture_format = FormatS16LE | FormatS32LE | FormatS24LE | FormatS243LE

text \<open>The errors of the capture library that the code tells apart; a format error may name a range.\<close>

datatype open_error =
  BadRateError string | GeometryError string | BadFormatError string nat | OtherError string

definition captureFormats :: "capture_format list" where
  "captureFormats = [FormatS16LE, FormatS32LE, FormatS24LE, FormatS243LE]"

definition openErrorRank :: "open_error \<Rightarrow> nat" where
  "openErrorRank err = (case err of BadRateError _ \<Rightarrow> 1 | GeometryError _ \<Rightarrow> 1 | _ \<Rightarrow> 0)"

definition preferRateError :: "open_error option \<Rightarrow> open_error \<Rightarrow> open_error" where
  "preferRateError existing next' =
     (case existing of
        None \<Rightarrow> next'
      | Some e \<Rightarrow>
          if openErrorRank next' > openErrorRank e then next'
          else if openErrorRank next' = openErrorRank e then
            (case (e, next') of
               (BadFormatError _ prevMax, BadFormatError _ curMax) \<Rightarrow>
                 if prevMax = 0 \<and> curMax > 0 then next' else e
             | _ \<Rightarrow> e)
          else e)"

text \<open>What \<open>openNegotiate\<close> does with a list of formats: the first that opens, or the best error.\<close>

fun negotiate :: "(capture_format \<Rightarrow> open_error + 's) \<Rightarrow> open_error option \<Rightarrow> capture_format list \<Rightarrow>
    open_error option + 's \<times> capture_format" where
  "negotiate openStream chosen [] = Inl chosen"
| "negotiate openStream chosen (f # fs) =
     (case openStream f of
        Inr s \<Rightarrow> Inr (s, f)
      | Inl err \<Rightarrow> negotiate openStream (Some (preferRateError chosen err)) fs)"

definition openNegotiate :: "(capture_format \<Rightarrow> open_error + 's) \<Rightarrow> open_error option + 's \<times> capture_format" where
  "openNegotiate openStream = negotiate openStream None captureFormats"

text \<open>\<open>probe count f\<close>: whether the capability query accepts the count in the format.\<close>

definition ResolveOpenChannels :: "(int \<Rightarrow> capture_format \<Rightarrow> bool) \<Rightarrow> int list \<Rightarrow> int" where
  "ResolveOpenChannels probe selection =
     (let maxSel = maxSelected selection in
      case List.find (\<lambda>count. list_ex (probe count) captureFormats) [maxSel..MaxChannels] of
        Some count \<Rightarrow> count
      | None \<Rightarrow> maxSel)"

record opened =
  op_Rate :: int
  op_Channels :: int

datatype capture_result =
  CaptureErr bool open_error   \<comment> \<open>whether the stream was closed, and the error\<close>
| CaptureOk opened capture_format

definition captureFormat :: "string \<Rightarrow> open_error + capture_format" where
  "captureFormat format =
     (if format = ''s16'' \<or> format = '''' then Inr FormatS16LE
      else Inl (OtherError (''audio: unsupported stream format '' @ quote format @ '' (only s16 is supported)'')))"

text \<open>
  \<open>OpenCaptureAt\<close>; \<open>openStream channels format\<close> is what opening the device at its rate answers, and
  \<open>start\<close> what starting the opened stream answers. The result says whether an opened stream has
  been closed again.
\<close>

definition OpenCaptureAt ::
  "(int \<Rightarrow> capture_format \<Rightarrow> open_error + opened) \<Rightarrow> (opened \<Rightarrow> open_error option) \<Rightarrow> device \<Rightarrow> int \<Rightarrow> capture_result" where
  "OpenCaptureAt openStream start dev openCh =
     (case captureFormat (d_Format dev) of
        Inl err \<Rightarrow> CaptureErr False err
      | Inr _ \<Rightarrow>
      let openCh = (if openCh < 1 then 1 else openCh) in
      case openNegotiate (openStream openCh) of
        Inl None \<Rightarrow> CaptureErr False (OtherError '''')
      | Inl (Some err) \<Rightarrow> CaptureErr False err
      | Inr (n, f) \<Rightarrow>
          if op_Rate n \<noteq> d_Rate dev then
            CaptureErr True (OtherError (''audio: negotiated rate '' @ Itoa (op_Rate n)
              @ '' Hz does not match requested '' @ Itoa (d_Rate dev) @ '' Hz''))
          else if op_Channels n < openCh then
            CaptureErr True (OtherError (''audio: device negotiated '' @ Itoa (op_Channels n)
              @ '' channels but '' @ Itoa openCh @ '' were requested''))
          else case start n of
                 Some err \<Rightarrow> CaptureErr True err
               | None \<Rightarrow> CaptureOk n f)"

definition OpenCapture ::
  "(int \<Rightarrow> capture_format \<Rightarrow> open_error + opened) \<Rightarrow> (opened \<Rightarrow> open_error option) \<Rightarrow>
     (int \<Rightarrow> capture_format \<Rightarrow> bool) \<Rightarrow> device \<Rightarrow> capture_result" where
  "OpenCapture openStream start probe dev =
     OpenCaptureAt openStream start dev (ResolveOpenChannels probe (StreamChannelUnion dev))"

text \<open>One read of an opened capture: \<open>raw\<close> is what the driver delivered for \<open>n\<close> frames.\<close>

definition bytesPerSample :: "capture_format \<Rightarrow> nat" where
  "bytesPerSample f = (case f of FormatS16LE \<Rightarrow> 2 | FormatS32LE \<Rightarrow> 4 | FormatS24LE \<Rightarrow> 4 | FormatS243LE \<Rightarrow> 3)"

definition capture_Read :: "capture_format \<Rightarrow> nat \<Rightarrow> nat \<Rightarrow> u8 list \<Rightarrow> period" where
  "capture_Read f channels n raw =
     (let inb = take (n * channels * bytesPerSample f) raw;
          buf = (case f of FormatS16LE \<Rightarrow> inb
                 | FormatS32LE \<Rightarrow> downconvertS32ToS16 inb
                 | FormatS24LE \<Rightarrow> downconvertS24LEToS16 inb
                 | FormatS243LE \<Rightarrow> downconvertS243LEToS16 inb)
      in \<lparr>pd_Buf = buf, pd_Frames = n, pd_Pos = 0, pd_Session = 0, pd_Captured = 0\<rparr>)"

section \<open>The reductions are arithmetic shifts\<close>

lemma concat_upt_Suc: "concat (map f [0..<Suc n]) = f 0 @ concat (map (\<lambda>i. f (Suc i)) [0..<n])"
  by (simp add: upt_conv_Cons map_Suc_upt[symmetric] comp_def del: upt_Suc)

lemma length_div_Cons:
  "length (a # b # c # d # bs) div 4 = Suc (length bs div 4)" "length (a # b # c # bs) div 3 = Suc (length bs div 3)"
  using div_add_self1[of "4::nat" "length bs"] div_add_self1[of "3::nat" "length bs"] by simp_all

lemma downconvertS32_Cons: "downconvertS32ToS16 (a # b # c # d # bs) = c # d # downconvertS32ToS16 bs"
  unfolding downconvertS32ToS16_def length_div_Cons concat_upt_Suc by (simp add: add.commute)

lemma downconvertS24LE_Cons: "downconvertS24LEToS16 (a # b # c # d # bs) = b # c # downconvertS24LEToS16 bs"
  unfolding downconvertS24LEToS16_def downconvertS24ToS16_def length_div_Cons concat_upt_Suc by simp

lemma downconvertS243LE_Cons: "downconvertS243LEToS16 (a # b # c # bs) = b # c # downconvertS243LEToS16 bs"
  unfolding downconvertS243LEToS16_def downconvertS24ToS16_def length_div_Cons concat_upt_Suc by simp

lemma downconvert_short:
  "length bs < 4 \<Longrightarrow> downconvertS32ToS16 bs = []" "length bs < 4 \<Longrightarrow> downconvertS24LEToS16 bs = []"
  "length bs < 3 \<Longrightarrow> downconvertS243LEToS16 bs = []"
  by (simp_all add: downconvertS32ToS16_def downconvertS24LEToS16_def downconvertS243LEToS16_def
      downconvertS24ToS16_def)

text \<open>
  The byte-copying reductions of 32-bit and 24-bit captures compute the arithmetic shift of
  every sample to 16 bits, ignore padding and a trailing partial sample, and write the stated
  number of bytes.
\<close>
theorem reductions_are_arithmetic_shifts:
  "samples16 (downconvertS32ToS16 src) = map (\<lambda>s. ucast (signed_drop_bit 16 s)) (samples32 src)
   \<and> samples16 (downconvertS24LEToS16 src) = map (\<lambda>s. ucast (signed_drop_bit 8 s)) (samples24in32 src)
   \<and> samples16 (downconvertS243LEToS16 src) = map (\<lambda>s. ucast (signed_drop_bit 8 s)) (samples24 src)
   \<and> length (downconvertS32ToS16 src) = length src div 4 * 2
   \<and> length (downconvertS24LEToS16 src) = length src div 4 * 2
   \<and> length (downconvertS243LEToS16 src) = length src div 3 * 2"
proof (intro conjI)
  show "samples16 (downconvertS32ToS16 src) = map (\<lambda>s. ucast (signed_drop_bit 16 s)) (samples32 src)"
  proof (induction src rule: samples32.induct)
    case (1 a b c d bs)
    then show ?case using le16_of_le32[of c d a b] by (simp add: downconvertS32_Cons)
  qed (simp_all add: downconvert_short)
  show "samples16 (downconvertS24LEToS16 src) = map (\<lambda>s. ucast (signed_drop_bit 8 s)) (samples24in32 src)"
  proof (induction src rule: samples24in32.induct)
    case (1 a b c d bs)
    then show ?case using le16_of_le24[of b c a] by (simp add: downconvertS24LE_Cons)
  qed (simp_all add: downconvert_short)
  show "samples16 (downconvertS243LEToS16 src) = map (\<lambda>s. ucast (signed_drop_bit 8 s)) (samples24 src)"
  proof (induction src rule: samples24.induct)
    case (1 a b c bs)
    then show ?case using le16_of_le24[of b c a] by (simp add: downconvertS243LE_Cons)
  qed (simp_all add: downconvert_short)
  have l: "length (concat (map (\<lambda>i. [f i, g i]) [0..<n])) = n * 2" for n and f g :: "nat \<Rightarrow> u8"
    by (induction n) auto
  show "length (downconvertS32ToS16 src) = length src div 4 * 2"
    "length (downconvertS24LEToS16 src) = length src div 4 * 2"
    "length (downconvertS243LEToS16 src) = length src div 3 * 2"
    by (simp_all only: downconvertS32ToS16_def downconvertS24LEToS16_def downconvertS243LEToS16_def
        downconvertS24ToS16_def l)
qed

section \<open>Selection\<close>

lemma length_concat_uniform:
  "\<forall>xs \<in> set xss. length xs = k \<Longrightarrow> length (concat xss) = length xss * k"
  by (induction xss) auto

lemma nth_concat_uniform:
  "\<forall>xs \<in> set xss. length xs = k \<Longrightarrow> i < length xss \<Longrightarrow> j < k \<Longrightarrow> concat xss ! (i * k + j) = xss ! i ! j"
proof (induction xss arbitrary: i)
  case (Cons xs xss)
  then show ?case by (cases i) (auto simp: nth_append)
qed simp

lemma select_buf_length: "length (select_buf srcCh idx frames buf) = frames * (length idx * 2)"
  by (simp add: select_buf_def length_concat comp_def sum_list_triv Let_def)

lemma select_buf_nth:
  assumes "f < frames" "j < length idx" "b < 2"
  shows "select_buf srcCh idx frames buf ! (f * (length idx * 2) + (j * 2 + b)) =
    buf ! (f * (srcCh * 2) + (idx ! j) * 2 + b)"
proof -
  let ?frame = "\<lambda>f. concat (map (\<lambda>ci. let so = f * (srcCh * 2) + ci * 2 in [buf ! so, buf ! (so + 1)]) idx)"
  have "j * 2 + b < length idx * 2" using assms by simp
  then have "select_buf srcCh idx frames buf ! (f * (length idx * 2) + (j * 2 + b)) = ?frame f ! (j * 2 + b)"
    unfolding select_buf_def using assms
    by (subst nth_concat_uniform) (auto simp: length_concat comp_def sum_list_triv Let_def)
  also have "\<dots> = buf ! (f * (srcCh * 2) + (idx ! j) * 2 + b)"
    using assms by (subst nth_concat_uniform) (auto simp: Let_def less_2_cases_iff)
  finally show ?thesis .
qed

lemma select_sample:
  assumes "f < frames" "j < length idx" "idx ! j < srcCh" "length buf = frames * (srcCh * 2)"
  shows "samples16 (select_buf srcCh idx frames buf) ! (f * length idx + j) = samples16 buf ! (f * srcCh + idx ! j)"
proof -
  have i: "i * n + m < k * n" if "i < k" "m < n" for i m k n :: nat
  proof -
    have "(i + 1) * n \<le> k * n" using that by (intro mult_right_mono) simp_all
    then show ?thesis using that by simp
  qed
  let ?A = "f * length idx + j" and ?B = "f * srcCh + idx ! j"
  have "?A < frames * length idx" "?B < frames * srcCh" using assms by (auto intro!: i)
  then have len: "?A < length (select_buf srcCh idx frames buf) div 2" "?B < length buf div 2"
    using assms(4) by (simp_all add: select_buf_length mult.assoc[symmetric])
  have pos: "2 * ?A + b = f * (length idx * 2) + (j * 2 + b)" "2 * ?B + b = f * (srcCh * 2) + idx ! j * 2 + b" for b
    by (simp_all add: algebra_simps)
  have byte: "select_buf srcCh idx frames buf ! (2 * ?A + b) = buf ! (2 * ?B + b)" if "b < 2" for b
    unfolding pos using select_buf_nth[OF assms(1,2) that] .
  show ?thesis
    unfolding samples16_nth[OF len(1)] samples16_nth[OF len(2)]
    using byte[of 0] byte[of 1] by simp
qed

text \<open>
  The source of a channel selection delivers, for every frame, exactly the selected channels
  in order, whether it copies or is the unwrapped capture, and keeps the position, session and
  capture time of the period.
\<close>
theorem selection_extracts_channels:
  assumes "\<forall>c \<in> set selection. 1 \<le> c \<and> c \<le> srcCh" "length (pd_Buf p) = pd_Frames p * (srcCh * 2)"
  defines "q \<equiv> selected_Read srcCh (NewSelectingSource srcCh selection) p"
  shows "length (pd_Buf q) = pd_Frames p * (length selection * 2)
    \<and> (\<forall>f < pd_Frames p. \<forall>j < length selection.
         samples16 (pd_Buf q) ! (f * length selection + j) =
         samples16 (pd_Buf p) ! (f * srcCh + (selection ! j - 1)))
    \<and> pd_Frames q = pd_Frames p \<and> pd_Pos q = pd_Pos p \<and> pd_Session q = pd_Session p \<and> pd_Captured q = pd_Captured p"
proof (cases "NewSelectingSource srcCh selection")
  case None
  then have l: "length selection = srcCh" and i: "\<forall>j < srcCh. selection ! j - 1 = j"
    by (auto simp: NewSelectingSource_def Let_def list_all_iff split: if_splits)
  have "q = p" using None by (simp add: q_def selected_Read_def)
  then show ?thesis using l i assms(2) by simp
next
  case (Some idx)
  then have idx: "idx = map (\<lambda>c. c - 1) selection"
    by (auto simp: NewSelectingSource_def Let_def split: if_splits)
  have q: "q = p\<lparr>pd_Buf := select_buf srcCh idx (pd_Frames p) (pd_Buf p)\<rparr>"
    using Some by (simp add: q_def selected_Read_def)
  have "samples16 (pd_Buf q) ! (f * length selection + j) = samples16 (pd_Buf p) ! (f * srcCh + (selection ! j - 1))"
    if "f < pd_Frames p" "j < length selection" for f j
  proof -
    have "1 \<le> selection ! j \<and> selection ! j \<le> srcCh" using assms(1) that(2) by simp
    then have "idx ! j < srcCh" using that(2) by (auto simp: idx)
    then show ?thesis
      using select_sample[OF that(1) _ _ assms(2), of j idx] that(2) by (simp add: q idx)
  qed
  then show ?thesis by (simp add: q idx select_buf_length)
qed

definition demo_period :: period where
  "demo_period = \<lparr>pd_Buf = [1, 0, 2, 0, 3, 0, 4, 0], pd_Frames = 2, pd_Pos = 7, pd_Session = 0, pd_Captured = 0\<rparr>"

lemma selection_extracts_channels_witness:
  "samples16 (pd_Buf (selected_Read 2 (NewSelectingSource 2 [2]) demo_period)) ! (1 * length [2::nat] + 0)
     = samples16 (pd_Buf demo_period) ! (1 * 2 + ([2] ! 0 - 1))"
proof -
  have h: "\<forall>c \<in> set [2::nat]. 1 \<le> c \<and> c \<le> 2" "length (pd_Buf demo_period) = pd_Frames demo_period * (2 * 2)"
    by (simp_all add: demo_period_def)
  show ?thesis
    by (rule selection_extracts_channels[OF h, THEN conjunct2, THEN conjunct1, rule_format])
      (simp_all add: demo_period_def)
qed

section \<open>An opened capture is what was asked for\<close>

lemma maxSelected_upper: "c \<in> set selection \<Longrightarrow> c \<le> maxSelected selection"
  and maxSelected_ge: "1 \<le> maxSelected selection"
  and maxSelected_in: "maxSelected selection = 1 \<or> maxSelected selection \<in> set selection"
proof -
  have "m \<le> foldl (\<lambda>m c. if c > m then c else m) m cs \<and> (\<forall>c \<in> set cs. c \<le> foldl (\<lambda>m c. if c > m then c else m) m cs)
      \<and> (foldl (\<lambda>m c. if c > m then c else m) m cs = m \<or> foldl (\<lambda>m c. if c > m then c else m) m cs \<in> set cs)"
    for m :: int and cs
    by (induction cs arbitrary: m) (auto, (meson order_trans less_imp_le linorder_not_less)+)
  from this[of 1 selection]
  show "c \<in> set selection \<Longrightarrow> c \<le> maxSelected selection" "1 \<le> maxSelected selection"
    "maxSelected selection = 1 \<or> maxSelected selection \<in> set selection"
    by (auto simp: maxSelected_def)
qed



lemma ResolveOpenChannels_ge: "maxSelected selection \<le> ResolveOpenChannels probe selection"
  by (auto simp: ResolveOpenChannels_def Let_def dest: find_SomeD split: option.splits)

lemma ResolveOpenChannels_le:
  "\<forall>c \<in> set selection. c \<le> 8 \<Longrightarrow> ResolveOpenChannels probe selection \<le> 8"
  using maxSelected_in[of selection]
  by (auto simp: ResolveOpenChannels_def Let_def MaxChannels_def dest!: find_SomeD split: option.splits)

lemma negotiate_Inr:
  "negotiate os chosen fs = Inr (s, f) \<Longrightarrow> f \<in> set fs \<and> os f = Inr s"
  by (induction os chosen fs rule: negotiate.induct) (auto split: sum.splits)

lemma negotiate_Inl:
  "negotiate os chosen fs = Inl e \<Longrightarrow> (\<forall>f \<in> set fs. \<exists>err. os f = Inl err) \<and>
     (e = chosen \<or> (\<exists>f \<in> set fs. \<exists>err. e = Some err \<and> os f = Inl err)) \<and>
     (\<forall>f \<in> set fs. \<forall>err. os f = Inl err \<longrightarrow> (\<exists>best. e = Some best \<and> openErrorRank err \<le> openErrorRank best)) \<and>
     (\<forall>c. chosen = Some c \<longrightarrow> (\<exists>best. e = Some best \<and> openErrorRank c \<le> openErrorRank best))"
proof (induction os chosen fs rule: negotiate.induct)
  case (2 os chosen f fs)
  then obtain err where err: "os f = Inl err" "negotiate os (Some (preferRateError chosen err)) fs = Inl e"
    by (auto split: sum.splits)
  have pick: "preferRateError chosen err = err \<or> chosen = Some (preferRateError chosen err)"
    by (auto simp: preferRateError_def split: option.splits open_error.splits)
  moreover have "openErrorRank err \<le> openErrorRank (preferRateError chosen err)"
    "\<forall>c. chosen = Some c \<longrightarrow> openErrorRank c \<le> openErrorRank (preferRateError chosen err)"
    by (auto simp: preferRateError_def openErrorRank_def split: option.splits open_error.splits)
  moreover note IH = 2(1)[OF err]
  moreover obtain best where best: "e = Some best" "openErrorRank (preferRateError chosen err) \<le> openErrorRank best"
    using IH by blast
  ultimately have rank: "openErrorRank err \<le> openErrorRank best" "\<forall>c. chosen = Some c \<longrightarrow> openErrorRank c \<le> openErrorRank best"
    using order_trans by blast+
  have "e = chosen \<or> (\<exists>f' \<in> set (f # fs). \<exists>err'. e = Some err' \<and> os f' = Inl err')"
    using IH pick err(1) by auto
  then show ?case using IH rank best(1) err(1) by simp
qed auto

lemma OpenCaptureAt_Ok:
  assumes "OpenCaptureAt os start dev ch = CaptureOk n f"
  shows "op_Rate n = d_Rate dev" "max 1 ch \<le> op_Channels n" "os (max 1 ch) f = Inr n"
proof -
  have m: "(if ch < 1 then 1 else ch) = max 1 ch" by simp
  obtain s f' where neg: "openNegotiate (os (max 1 ch)) = Inr (s, f')"
    using assms unfolding OpenCaptureAt_def Let_def m by (auto split: sum.splits option.splits prod.splits)
  then have "n = s \<and> f = f' \<and> op_Rate s = d_Rate dev \<and> max 1 ch \<le> op_Channels s"
    using assms unfolding OpenCaptureAt_def Let_def m
    by (auto split: sum.splits option.splits if_splits)
  moreover have "os (max 1 ch) f' = Inr s" using neg unfolding openNegotiate_def by (auto dest: negotiate_Inr)
  ultimately show "op_Rate n = d_Rate dev" "max 1 ch \<le> op_Channels n" "os (max 1 ch) f = Inr n" by simp_all
qed

lemma OpenCaptureAt_Err:
  assumes err: "OpenCaptureAt os start dev ch = CaptureErr closed e" and dev: "d_Format dev = ''s16''"
  shows "closed \<longleftrightarrow> (\<exists>f \<in> set captureFormats. \<exists>n. os (max 1 ch) f = Inr n)"
    and "\<not> closed \<Longrightarrow> \<forall>f \<in> set captureFormats. \<forall>e'. os (max 1 ch) f = Inl e' \<longrightarrow> openErrorRank e' \<le> openErrorRank e"
proof -
  have m: "(if ch < 1 then 1 else ch) = max 1 ch" by simp
  have fmt: "captureFormat (d_Format dev) = Inr FormatS16LE" using dev by (simp add: captureFormat_def)
  note run = err[unfolded OpenCaptureAt_def fmt Let_def m]
  have "(closed \<longleftrightarrow> (\<exists>f \<in> set captureFormats. \<exists>n. os (max 1 ch) f = Inr n)) \<and>
    (\<not> closed \<longrightarrow> (\<forall>f \<in> set captureFormats. \<forall>e'. os (max 1 ch) f = Inl e' \<longrightarrow> openErrorRank e' \<le> openErrorRank e))"
  proof (cases "openNegotiate (os (max 1 ch))")
    case (Inl oe)
    note neg = negotiate_Inl[OF Inl[unfolded openNegotiate_def]]
    have ne: "FormatS16LE \<in> set captureFormats" by (simp add: captureFormats_def)
    have "\<not> closed" "oe = Some e" using run Inl neg ne by (cases oe; auto)+
    then show ?thesis using neg by fastforce
  next
    case (Inr p)
    obtain s f where p: "p = (s, f)" by fastforce
    have "os (max 1 ch) f = Inr s \<and> f \<in> set captureFormats"
      using Inr unfolding openNegotiate_def p by (auto dest: negotiate_Inr)
    moreover have closed using run Inr unfolding p by (auto split: option.splits if_splits)
    ultimately show ?thesis by blast
  qed
  then show "closed \<longleftrightarrow> (\<exists>f \<in> set captureFormats. \<exists>n. os (max 1 ch) f = Inr n)"
    "\<not> closed \<Longrightarrow> \<forall>f \<in> set captureFormats. \<forall>e'. os (max 1 ch) f = Inl e' \<longrightarrow> openErrorRank e' \<le> openErrorRank e"
    by blast+
qed

text \<open>
  C36. A capture that opens runs at the configured rate with enough channels for every stream; a
  failed open leaves no stream open (a stream is closed exactly when one had opened) and reports
  an error of the highest rank.
\<close>
theorem opened_capture_is_honest:
  assumes "\<forall>s \<in> set (d_Streams dev). \<forall>c \<in> set (s_Channels s). 1 \<le> c \<and> c \<le> 8" and "d_Format dev = ''s16''"
  shows "(OpenCapture os start probe dev = CaptureOk n f \<longrightarrow>
       op_Rate n = d_Rate dev \<and>
       (\<forall>s \<in> set (d_Streams dev). \<forall>c \<in> set (s_Channels s). c \<le> op_Channels n) \<and>
       os (ResolveOpenChannels probe (StreamChannelUnion dev)) f = Inr n \<and>
       ResolveOpenChannels probe (StreamChannelUnion dev) \<le> 8)
    \<and> (OpenCapture os start probe dev = CaptureErr closed e \<longrightarrow>
         (closed \<longleftrightarrow> (\<exists>f \<in> set captureFormats. \<exists>n. os (ResolveOpenChannels probe (StreamChannelUnion dev)) f = Inr n)) \<and>
         (\<not> closed \<longrightarrow> (\<forall>f \<in> set captureFormats. \<forall>e'.
            os (ResolveOpenChannels probe (StreamChannelUnion dev)) f = Inl e' \<longrightarrow> openErrorRank e' \<le> openErrorRank e)))"
proof (intro conjI impI)
  let ?ch = "ResolveOpenChannels probe (StreamChannelUnion dev)"
  have ch: "maxSelected (StreamChannelUnion dev) \<le> ?ch" by (rule ResolveOpenChannels_ge)
  then have one: "max 1 ?ch = ?ch" using maxSelected_ge[of "StreamChannelUnion dev"] by simp
  have union: "set (StreamChannelUnion dev) = (\<Union>s \<in> set (d_Streams dev). set (s_Channels s))"
    by (simp add: StreamChannelUnion_def NormalizeChannels_def)
  show "?ch \<le> 8" using assms(1) by (intro ResolveOpenChannels_le) (auto simp: union)
  {
    assume ok: "OpenCapture os start probe dev = CaptureOk n f"
    note ok' = OpenCaptureAt_Ok[OF ok[unfolded OpenCapture_def], unfolded one]
    show "op_Rate n = d_Rate dev" "os ?ch f = Inr n" using ok' by blast+
    show "\<forall>s \<in> set (d_Streams dev). \<forall>c \<in> set (s_Channels s). c \<le> op_Channels n"
    proof (intro ballI)
      fix s c assume "s \<in> set (d_Streams dev)" "c \<in> set (s_Channels s)"
      then have "c \<le> maxSelected (StreamChannelUnion dev)" by (intro maxSelected_upper) (auto simp: union)
      then show "c \<le> op_Channels n" using ch ok'(2) by linarith
    qed
  }
  assume err: "OpenCapture os start probe dev = CaptureErr closed e"
  note err' = OpenCaptureAt_Err[OF err[unfolded OpenCapture_def] assms(2), unfolded one]
  show "closed \<longleftrightarrow> (\<exists>f \<in> set captureFormats. \<exists>n. os ?ch f = Inr n)" by (rule err')
  show "\<forall>f \<in> set captureFormats. \<forall>e'. os ?ch f = Inl e' \<longrightarrow> openErrorRank e' \<le> openErrorRank e"
    if "\<not> closed" using err'(2)[OF that] .
qed

definition demo_capture_device :: device where
  "demo_capture_device =
     \<lparr>d_Name = ''mic'', d_Device = ''usb:mic'', d_Rate = 48000, d_Format = ''s16'',
      d_Streams = [\<lparr>s_Path = ''/mic'', s_Mode = ModePCM, s_Channels = [2], s_Bitrate = 0\<rparr>],
      d_Enabled = None, d_QuietAlert = None\<rparr>"

lemma opened_capture_is_honest_witness:
  "OpenCapture (\<lambda>ch f. if f = FormatS243LE then Inr \<lparr>op_Rate = 48000, op_Channels = ch\<rparr>
                 else Inl (BadFormatError ''no'' 2)) (\<lambda>_. None) (\<lambda>ch f. ch = 2) demo_capture_device
     = CaptureOk \<lparr>op_Rate = 48000, op_Channels = 2\<rparr> FormatS243LE
   \<and> ResolveOpenChannels (\<lambda>ch f. ch = 2) (StreamChannelUnion demo_capture_device) \<le> 8"
proof -
  have h: "\<forall>s \<in> set (d_Streams demo_capture_device). \<forall>c \<in> set (s_Channels s). 1 \<le> c \<and> c \<le> 8"
    "d_Format demo_capture_device = ''s16''" by (simp_all add: demo_capture_device_def)
  have ok: "OpenCapture (\<lambda>ch f. if f = FormatS243LE then Inr \<lparr>op_Rate = 48000, op_Channels = ch\<rparr>
        else Inl (BadFormatError ''no'' 2)) (\<lambda>_. None) (\<lambda>ch f. ch = 2) demo_capture_device
      = CaptureOk \<lparr>op_Rate = 48000, op_Channels = 2\<rparr> FormatS243LE" by code_simp
  then show ?thesis using opened_capture_is_honest[OF h, THEN conjunct1, rule_format, OF ok] by simp
qed

end
