(* ===== verification/Audio_Fanout.thy ===== *)
theory Audio_Fanout
  imports Media
begin

text \<open>
  \<open>internal/audio/fanout.go\<close>: one capture feeding several streams. The reader stamps each period with
  its stream position and hands a copy to every consumer whose stream plays; a full queue drops it
  and counts. Reads of the consumers interleave with the reader in any order.
\<close>

definition fanoutBuffer :: nat where "fanoutBuffer = 8"

text \<open>
  A consumer: its channel, whether it has been closed, and the shared counter of drops.
\<close>

record fanoutConsumer =
  fc_ch :: "period list"
  fc_closed :: bool
  fc_dropped :: u64

record fanout =
  fo_pos :: u64
  fo_consumers :: "fanoutConsumer list"

definition NewFanout :: "u64 list \<Rightarrow> fanout" where
  "NewFanout dropped =
     \<lparr>fo_pos = 0, fo_consumers = map (\<lambda>d. \<lparr>fc_ch = [], fc_closed = False, fc_dropped = d\<rparr>) dropped\<rparr>"

text \<open>
  What the gate of a consumer answers during one \<open>distribute\<close>: \<open>None\<close> for a nil gate, otherwise
  whether the stream plays and in which session.
\<close>

type_synonym gate_answer = "(bool \<times> u64) option"

definition gate_admits :: "gate_answer \<Rightarrow> u64 option" where
  "gate_admits g = (case g of None \<Rightarrow> Some 0 | Some (on, session) \<Rightarrow> if on then Some session else None)"

text \<open>The non-blocking send to one consumer.\<close>

definition consumer_offer :: "period \<Rightarrow> fanoutConsumer \<Rightarrow> fanoutConsumer" where
  "consumer_offer out c =
     (if length (fc_ch c) < fanoutBuffer then c\<lparr>fc_ch := fc_ch c @ [out]\<rparr>
      else c\<lparr>fc_dropped := fc_dropped c + 1\<rparr>)"

text \<open>
  The body of the loop over the consumers; \<open>cp\<close> is the stamped copy, which is the same whichever
  consumer is the first to need it.
\<close>

definition distribute_one :: "period \<Rightarrow> gate_answer \<Rightarrow> fanoutConsumer \<Rightarrow> fanoutConsumer" where
  "distribute_one cp g c =
     (case gate_admits g of None \<Rightarrow> c | Some session \<Rightarrow> consumer_offer (cp\<lparr>pd_Session := session\<rparr>) c)"

definition stamp :: "u64 \<Rightarrow> instant \<Rightarrow> period \<Rightarrow> period" where
  "stamp pos now p =
     \<lparr>pd_Buf = pd_Buf p, pd_Frames = pd_Frames p, pd_Pos = pos, pd_Session = 0,
      pd_Captured = (if is_zero (pd_Captured p) then now else pd_Captured p)\<rparr>"

definition distribute :: "instant \<Rightarrow> gate_answer list \<Rightarrow> period \<Rightarrow> fanout \<Rightarrow> fanout" where
  "distribute now gates p f =
     (let pos = fo_pos f; cp = stamp pos now p in
      f\<lparr>fo_pos := pos + word_of_nat (pd_Frames p),
        fo_consumers := map2 (distribute_one cp) gates (fo_consumers f)\<rparr>)"

definition closeConsumers :: "fanout \<Rightarrow> fanout" where
  "closeConsumers f = f\<lparr>fo_consumers := map (\<lambda>c. c\<lparr>fc_closed := True\<rparr>) (fo_consumers f)\<rparr>"

text \<open>\<open>Read\<close> of a consumer: a period, the end of the feed, or \<open>None\<close> while it blocks.\<close>

datatype read_result = ReadPeriod period | ReadEOF

definition consumer_Read :: "fanoutConsumer \<Rightarrow> (read_result \<times> fanoutConsumer) option" where
  "consumer_Read c =
     (case fc_ch c of
        p # ps \<Rightarrow> Some (ReadPeriod p, c\<lparr>fc_ch := ps\<rparr>)
      | [] \<Rightarrow> if fc_closed c then Some (ReadEOF, c) else None)"

section \<open>Runs\<close>

text \<open>
  What happens to a fan-out: a period is read from the capture and distributed, the capture ends
  (which \<open>Run\<close> does once, last), or a consumer reads. Each consumer's received periods are kept.
\<close>

datatype fanout_event =
  Captured instant "gate_answer list" period | Ended | ConsumerRead nat

type_synonym fanout_state = "fanout \<times> period list list"

fun fanout_step :: "fanout_event \<Rightarrow> fanout_state \<Rightarrow> fanout_state" where
  "fanout_step (Captured now gates p) (f, got) = (distribute now gates p f, got)"
| "fanout_step Ended (f, got) = (closeConsumers f, got)"
| "fanout_step (ConsumerRead i) (f, got) =
     (if i < length (fo_consumers f) then
        (case consumer_Read (fo_consumers f ! i) of
           Some (ReadPeriod p, c) \<Rightarrow>
             (f\<lparr>fo_consumers := (fo_consumers f)[i := c]\<rparr>, got[i := got ! i @ [p]])
         | _ \<Rightarrow> (f, got))
      else (f, got))"

definition fanout_run :: "u64 list \<Rightarrow> fanout_event list \<Rightarrow> fanout_state" where
  "fanout_run dropped evs = fold fanout_step evs (NewFanout dropped, map (\<lambda>_. []) dropped)"

section \<open>What a consumer is owed\<close>

text \<open>
  The periods sent for consumer \<open>i\<close>: those captured while its gate was open, each stamped with the
  number of frames captured before it.
\<close>

fun owed :: "nat \<Rightarrow> nat \<Rightarrow> fanout_event list \<Rightarrow> period list" where
  "owed i pos [] = []"
| "owed i pos (Captured now gates p # evs) =
     (case gate_admits (gates ! i) of
        None \<Rightarrow> []
      | Some session \<Rightarrow> [(stamp (word_of_nat pos) now p)\<lparr>pd_Session := session\<rparr>])
     @ owed i (pos + pd_Frames p) evs"
| "owed i pos (_ # evs) = owed i pos evs"

fun captured_frames :: "fanout_event list \<Rightarrow> nat" where
  "captured_frames [] = 0"
| "captured_frames (Captured now gates p # evs) = pd_Frames p + captured_frames evs"
| "captured_frames (_ # evs) = captured_frames evs"

fun gates_ok :: "nat \<Rightarrow> fanout_event list \<Rightarrow> bool" where
  "gates_ok n [] \<longleftrightarrow> True"
| "gates_ok n (Captured now gates p # evs) \<longleftrightarrow> length gates = n \<and> gates_ok n evs"
| "gates_ok n (_ # evs) \<longleftrightarrow> gates_ok n evs"

lemma owed_append: "owed i pos (xs @ ys) = owed i pos xs @ owed i (pos + captured_frames xs) ys"
  by (induction i pos xs rule: owed.induct) (auto simp: add.assoc)

lemma captured_frames_append: "captured_frames (xs @ ys) = captured_frames xs + captured_frames ys"
  by (induction xs rule: captured_frames.induct) auto

lemma gates_ok_append: "gates_ok n (xs @ ys) \<longleftrightarrow> gates_ok n xs \<and> gates_ok n ys"
  by (induction n xs rule: gates_ok.induct) auto

text \<open>
  Consumer \<open>i\<close> has received and has queued, in order, a subsequence of what it is owed; its counter has
  advanced by what is missing, and its queue is bounded.
\<close>

definition consumer_ok :: "u64 \<Rightarrow> period list \<Rightarrow> period list \<Rightarrow> fanoutConsumer \<Rightarrow> bool" where
  "consumer_ok d0 due got c \<longleftrightarrow>
     subseq (got @ fc_ch c) due \<and> length (fc_ch c) \<le> fanoutBuffer \<and>
     fc_dropped c = d0 + word_of_nat (length due - length (got @ fc_ch c))"

definition fanout_inv :: "u64 list \<Rightarrow> fanout_event list \<Rightarrow> fanout_state \<Rightarrow> bool" where [inv_defs]:
  "fanout_inv dropped evs st \<longleftrightarrow>
     length (fo_consumers (fst st)) = length dropped \<and> length (snd st) = length dropped \<and>
     fo_pos (fst st) = word_of_nat (captured_frames evs) \<and>
     (\<forall>i < length dropped. consumer_ok (dropped ! i) (owed i 0 evs) (snd st ! i) (fo_consumers (fst st) ! i))"



lemma consumer_ok_offer:
  assumes "consumer_ok d0 due got c"
  shows "consumer_ok d0 (due @ [out]) got (consumer_offer out c)"
proof -
  have s: "subseq (got @ fc_ch c) due" and len: "length (fc_ch c) \<le> fanoutBuffer"
    and d: "fc_dropped c = d0 + word_of_nat (length due - length (got @ fc_ch c))"
    using assms by (simp_all add: consumer_ok_def)
  show ?thesis
  proof (cases "length (fc_ch c) < fanoutBuffer")
    case True
    have "subseq ((got @ fc_ch c) @ [out]) (due @ [out])" using s by (rule subseq_snoc_keep)
    then show ?thesis using True d by (simp add: consumer_ok_def consumer_offer_def)
  next
    case False
    have "subseq (got @ fc_ch c) (due @ [out])" using s by (rule subseq_snoc_drop)
    moreover have "length due + 1 - length (got @ fc_ch c) = (length due - length (got @ fc_ch c)) + 1"
      using subseq_length[OF s] by simp
    ultimately show ?thesis using False d len by (simp add: consumer_ok_def consumer_offer_def)
  qed
qed

lemma fanout_inv_step:
  assumes "fanout_inv dropped evs st" "gates_ok (length dropped) [e]"
  shows "fanout_inv dropped (evs @ [e]) (fanout_step e st)"
proof -
  obtain f got where st: "st = (f, got)" by (cases st)
  note inv = assms(1)[unfolded fanout_inv_def st fst_conv snd_conv]
  show ?thesis
  proof (cases e)
    case (Captured now gates p)
    then have g: "length gates = length dropped" using assms(2) by simp
    have ok: "consumer_ok (dropped ! i) (owed i 0 (evs @ [e])) (got ! i)
        (distribute_one (stamp (fo_pos f) now p) (gates ! i) (fo_consumers f ! i))" if "i < length dropped" for i
    proof (cases "gate_admits (gates ! i)")
      case None
      then show ?thesis using inv that by (simp add: Captured owed_append distribute_one_def)
    next
      case (Some session)
      have "consumer_ok (dropped ! i) (owed i 0 evs) (got ! i) (fo_consumers f ! i)" using inv that by simp
      from consumer_ok_offer[OF this] Some inv show ?thesis
        by (simp add: Captured owed_append distribute_one_def)
    qed
    then show ?thesis
      using inv g by (auto simp: fanout_inv_def st Captured distribute_def Let_def captured_frames_append)
  next
    case Ended
    then show ?thesis
      using inv by (auto simp: fanout_inv_def st closeConsumers_def consumer_ok_def owed_append captured_frames_append)
  next
    case (ConsumerRead i)
    show ?thesis
    proof (cases "i < length dropped \<and> fc_ch (fo_consumers f ! i) \<noteq> []")
      case True
      then obtain q qs where q: "fc_ch (fo_consumers f ! i) = q # qs" by (cases "fc_ch (fo_consumers f ! i)") auto
      then show ?thesis
        using inv True
        by (auto simp: fanout_inv_def st ConsumerRead consumer_Read_def owed_append captured_frames_append
            consumer_ok_def nth_list_update)
    next
      case False
      then have "fanout_step e st = st"
        using inv by (auto simp: st ConsumerRead consumer_Read_def split: list.splits)
      then show ?thesis using inv
        by (auto simp: fanout_inv_def st ConsumerRead owed_append captured_frames_append)
    qed
  qed
qed

lemma fanout_run_inv:
  "gates_ok (length dropped) evs \<Longrightarrow> fanout_inv dropped evs (fanout_run dropped evs)"
proof (induction evs rule: rev_induct)
  case Nil
  show ?case by (auto simp: fanout_inv_def fanout_run_def NewFanout_def consumer_ok_def)
next
  case (snoc e evs)
  then show ?case using fanout_inv_step[of dropped evs "fanout_run dropped evs" e]
    by (simp add: fanout_run_def gates_ok_append)
qed


definition demo_events :: "fanout_event list" where
  "demo_events =
     [Captured 5 [Some (True, 1), Some (False, 3)] \<lparr>pd_Buf = [1, 2], pd_Frames = 1, pd_Pos = 9, pd_Session = 0, pd_Captured = 0\<rparr>,
      ConsumerRead 0,
      Captured 6 [Some (True, 1), Some (True, 4)] \<lparr>pd_Buf = [3, 4], pd_Frames = 1, pd_Pos = 9, pd_Session = 0, pd_Captured = 0\<rparr>]"


end
