(* ===== verification/Pipeline.thy ===== *)
theory Pipeline
  imports Audio_Fanout Config
begin

text \<open>
  \<open>internal/pipeline/pipeline.go\<close>: the stages that turn capture periods into RTP payload frames.
  The L16 packetizer and the Opus encoder are libraries the code calls; they are arguments here.
  A run is the list of what the source's reads returned, each with the answer of the gate and the
  wall clock at that moment, and how the source ended; \<open>emit\<close> threads the consumer's state.
\<close>

type_synonym read_event = "period \<times> gate_answer \<times> instant"
type_synonym ('e, 's) emitter = "frame \<Rightarrow> 's \<Rightarrow> 'e option \<times> 's"

definition admit :: "gate_answer \<Rightarrow> instant \<Rightarrow> period \<Rightarrow> (u64 \<times> instant) option" where
  "admit g now p =
     (let captured = (if is_zero (pd_Captured p) then now else pd_Captured p) in
      case g of
        None \<Rightarrow> Some (pd_Session p, captured)
      | Some (on, session) \<Rightarrow>
          if \<not> on \<or> pd_Session p \<noteq> 0 \<and> pd_Session p \<noteq> session then None
          else Some (session, captured))"

definition maxL16Payload :: int where "maxL16Payload = 15360"
definition opusFrameSamples :: nat where "opusFrameSamples = 960"

section \<open>The PCM stage\<close>

text \<open>
  What a packetizer made of one buffer: its payloads in order, and the error it ends with, if any.
\<close>

type_synonym 'e packetizer = "nat \<Rightarrow> nat \<Rightarrow> u8 list \<Rightarrow> u8 list list \<times> 'e option"

definition pcm_maxBytes :: "int \<Rightarrow> nat \<Rightarrow> nat" where
  "pcm_maxBytes rate ch =
     (let frameBytes = 2 * int ch in
      nat (max (min (go_quot rate 50 * frameBytes) maxL16Payload) frameBytes))"

text \<open>The loop over the payloads of one period; \<open>emitted\<close> counts the frames already emitted.\<close>

fun pcm_emit ::
  "('e, 's) emitter \<Rightarrow> int \<Rightarrow> nat \<Rightarrow> period \<Rightarrow> u64 \<Rightarrow> instant \<Rightarrow> nat \<Rightarrow> u8 list list \<Rightarrow> 's \<Rightarrow> 'e option \<times> 's" where
  "pcm_emit emit rate frameBytes p session captured emitted [] s = (None, s)"
| "pcm_emit emit rate frameBytes p session captured emitted (payload # ps) s =
     (let n = length payload div frameBytes;
          total = length (pd_Buf p) div frameBytes;
          at = captured - framesDur (int total - int emitted) rate in
      case emit \<lparr>fr_Payload = payload, fr_Duration = word_of_nat n, fr_Pos = pd_Pos p + word_of_nat emitted,
                 fr_Captured = at, fr_Session = session\<rparr> s of
        (Some e, s') \<Rightarrow> (Some e, s')
      | (None, s') \<Rightarrow> pcm_emit emit rate frameBytes p session captured (emitted + n) ps s')"

fun pcm_loop ::
  "'e packetizer \<Rightarrow> ('e, 's) emitter \<Rightarrow> int \<Rightarrow> nat \<Rightarrow> read_event list \<Rightarrow> 'e option \<Rightarrow> 's \<Rightarrow> 'e option \<times> 's" where
  "pcm_loop split emit rate ch [] fin s = (fin, s)"
| "pcm_loop split emit rate ch ((p, g, now) # reads) fin s =
     (case admit g now p of
        None \<Rightarrow> pcm_loop split emit rate ch reads fin s
      | Some (session, captured) \<Rightarrow>
          (case split ch (pcm_maxBytes rate ch) (pd_Buf p) of
             (payloads, err) \<Rightarrow>
               (case pcm_emit emit rate (2 * ch) p session captured 0 payloads s of
                  (Some e, s') \<Rightarrow> (Some e, s')
                | (None, s') \<Rightarrow>
                    (case err of Some e \<Rightarrow> (Some e, s')
                     | None \<Rightarrow> pcm_loop split emit rate ch reads fin s'))))"

section \<open>The Opus stage\<close>

text \<open>
  The encoder: \<open>Encode\<close> yields an error or a packet, and its next state; \<open>Reset\<close> its state.
\<close>

type_synonym ('e, 'x) encode = "'x \<Rightarrow> u16 list \<Rightarrow> ('e + u8 list) \<times> 'x"

record 'x opus_state =
  os_enc :: 'x
  os_acc :: "u16 list"
  os_session :: u64
  os_frameStart :: instant
  os_framePos :: u64
  os_nextPos :: u64

definition frameSamples :: "nat \<Rightarrow> nat" where
  "frameSamples ch = opusFrameSamples * ch"

text \<open>Encoding and emitting a full accumulator, which is then emptied.\<close>

definition opus_flush ::
  "('e, 'x) encode \<Rightarrow> ('e, 's) emitter \<Rightarrow> 'x opus_state \<Rightarrow> 's \<Rightarrow> ('e + 'x opus_state) \<times> 's" where
  "opus_flush encode emit st s =
     (case encode (os_enc st) (os_acc st) of
        (Inl e, x) \<Rightarrow> (Inl e, s)
      | (Inr packet, x) \<Rightarrow>
          (case emit \<lparr>fr_Payload = packet, fr_Duration = word_of_nat opusFrameSamples, fr_Pos = os_framePos st,
                      fr_Captured = os_frameStart st, fr_Session = os_session st\<rparr> s of
             (Some e, s') \<Rightarrow> (Inl e, s')
           | (None, s') \<Rightarrow> (Inr (st\<lparr>os_enc := x, os_acc := []\<rparr>), s')))"

text \<open>The accumulator's first sample: capture time and position are those of the sample that follows.\<close>

definition opus_mark ::
  "int \<Rightarrow> nat \<Rightarrow> period \<Rightarrow> instant \<Rightarrow> u8 list \<Rightarrow> 'x opus_state \<Rightarrow> 'x opus_state" where
  "opus_mark rate ch p captured pcm st =
     (if os_acc st = [] then
        st\<lparr>os_frameStart := captured - framesDur (int (length pcm div 2 div ch)) rate,
           os_framePos := pd_Pos p + word_of_nat ((length (pd_Buf p) - length pcm) div 2 div ch)\<rparr>
      else st)"

text \<open>
  The loop that fills the accumulator from one period, \<open>pcm\<close> being what is left of it. It is a
  partial function, so that its return is something to prove.
\<close>

partial_function (option) opus_fill ::
  "('e, 'x) encode \<Rightarrow> ('e, 's) emitter \<Rightarrow> int \<Rightarrow> nat \<Rightarrow> period \<Rightarrow> instant \<Rightarrow> u8 list \<Rightarrow> 'x opus_state \<Rightarrow> 's
     \<Rightarrow> (('e + 'x opus_state) \<times> 's) option" where
  "opus_fill encode emit rate ch p captured pcm st s =
     (if length pcm < 2 then Some (Inr st, s)
      else
        let st1 = opus_mark rate ch p captured pcm st;
            n = min (frameSamples ch - length (os_acc st1)) (length pcm div 2);
            st2 = st1\<lparr>os_acc := os_acc st1 @ samples16 (take (n * 2) pcm)\<rparr>
        in if length (os_acc st2) < frameSamples ch then Some (Inr st2, s)
           else case opus_flush encode emit st2 s of
                  (Inl e, s') \<Rightarrow> Some (Inl e, s')
                | (Inr st3, s') \<Rightarrow> opus_fill encode emit rate ch p captured (drop (n * 2) pcm) st3 s')"

text \<open>Another session resets the encoder; a gap inside a frame discards its partial samples.\<close>

definition opus_enter :: "('x \<Rightarrow> 'x) \<Rightarrow> u64 \<Rightarrow> u64 \<Rightarrow> 'x opus_state \<Rightarrow> 'x opus_state" where
  "opus_enter reset session pos st =
     (if session \<noteq> os_session st
        then st\<lparr>os_enc := reset (os_enc st), os_acc := [], os_session := session\<rparr>
      else if os_acc st \<noteq> [] \<and> pos \<noteq> os_nextPos st then st\<lparr>os_acc := []\<rparr>
      else st)"

definition opus_period ::
  "('e, 'x) encode \<Rightarrow> ('x \<Rightarrow> 'x) \<Rightarrow> ('e, 's) emitter \<Rightarrow> int \<Rightarrow> nat \<Rightarrow> u64 \<Rightarrow> instant \<Rightarrow> period
     \<Rightarrow> 'x opus_state \<Rightarrow> 's \<Rightarrow> (('e + 'x opus_state) \<times> 's) option" where
  "opus_period encode reset emit rate ch session captured p st s =
     (let st1 = opus_enter reset session (pd_Pos p) st;
          st2 = st1\<lparr>os_nextPos := pd_Pos p + word_of_nat (length (pd_Buf p) div 2 div ch)\<rparr>
      in opus_fill encode emit rate ch p captured (pd_Buf p) st2 s)"

fun opus_loop ::
  "('e, 'x) encode \<Rightarrow> ('x \<Rightarrow> 'x) \<Rightarrow> ('e, 's) emitter \<Rightarrow> int \<Rightarrow> nat \<Rightarrow> read_event list \<Rightarrow> 'e option
     \<Rightarrow> 'x opus_state \<Rightarrow> 's \<Rightarrow> ('e option \<times> 's) option" where
  "opus_loop encode reset emit rate ch [] fin st s = Some (fin, s)"
| "opus_loop encode reset emit rate ch ((p, g, now) # reads) fin st s =
     (case admit g now p of
        None \<Rightarrow> opus_loop encode reset emit rate ch reads fin st s
      | Some (session, captured) \<Rightarrow>
          (case opus_period encode reset emit rate ch session captured p st s of
             None \<Rightarrow> None
           | Some (Inl e, s') \<Rightarrow> Some (Some e, s')
           | Some (Inr st', s') \<Rightarrow> opus_loop encode reset emit rate ch reads fin st' s'))"

definition opus_init :: "'x \<Rightarrow> 'x opus_state" where
  "opus_init enc = \<lparr>os_enc = enc, os_acc = [], os_session = 0, os_frameStart = 0, os_framePos = 0, os_nextPos = 0\<rparr>"

text \<open>
  \<open>Run\<close>: the encoder is built up front, at the effective bitrate; \<open>unsupported\<close> is the error for a
  capture that is not 48 kHz mono or stereo.
\<close>

definition opus_Run ::
  "(int \<Rightarrow> nat \<Rightarrow> 'e) \<Rightarrow> (nat \<Rightarrow> int \<Rightarrow> 'e + 'x) \<Rightarrow> ('e, 'x) encode \<Rightarrow> ('x \<Rightarrow> 'x) \<Rightarrow> ('e, 's) emitter \<Rightarrow>
     int \<Rightarrow> int \<times> nat \<Rightarrow> read_event list \<Rightarrow> 'e option \<Rightarrow> 's \<Rightarrow> ('e option \<times> 's) option" where
  "opus_Run unsupported newEncoder encode reset emit bitrate negotiated reads fin s =
     (case negotiated of (rate, ch) \<Rightarrow>
        if rate \<noteq> 48000 \<or> ch < 1 \<or> ch > 2 then Some (Some (unsupported rate ch), s)
        else case newEncoder ch (EffectiveBitrate bitrate (int ch)) of
               Inl e \<Rightarrow> Some (Some e, s)
             | Inr enc \<Rightarrow> opus_loop encode reset emit rate ch reads fin (opus_init enc) s)"

section \<open>What is advertised\<close>

definition PayloadType :: "string \<Rightarrow> int" where
  "PayloadType mode = (if mode = ModeOpus then 97 else 96)"

definition CodecName :: "string \<Rightarrow> string" where
  "CodecName mode = (if mode = ModeOpus then ''opus'' else ''L16'')"

record write_spec =
  ws_Name :: string
  ws_PayloadType :: int
  ws_EncodingName :: string
  ws_ClockRate :: int
  ws_Channels :: int
  ws_Control :: string
  ws_FMTP :: string
  ws_Ptime :: int

definition SDPSpec :: "stream \<Rightarrow> string \<Rightarrow> int \<Rightarrow> int \<Rightarrow> write_spec" where
  "SDPSpec s name rate channels =
     (if s_Mode s = ModeOpus then
        \<lparr>ws_Name = name, ws_PayloadType = PayloadType (s_Mode s), ws_EncodingName = CodecName (s_Mode s),
         ws_ClockRate = 48000, ws_Channels = 2, ws_Control = ''trackID=0'',
         ws_FMTP = (if length (s_Channels s) = 2 then ''sprop-stereo=1'' else ''sprop-stereo=0'')
           @ '';maxaveragebitrate='' @ Itoa (EffectiveBitrate (s_Bitrate s) (int (length (s_Channels s)))),
         ws_Ptime = 0\<rparr>
      else
        \<lparr>ws_Name = name, ws_PayloadType = PayloadType (s_Mode s), ws_EncodingName = CodecName (s_Mode s),
         ws_ClockRate = rate, ws_Channels = channels, ws_Control = ''trackID=0'', ws_FMTP = '''', ws_Ptime = 20\<rparr>)"

end
