(* ===== verification/Pipeline_Spec.thy ===== *)
theory Pipeline_Spec
  imports Pipeline
begin

text \<open>
  What the stages of \<open>internal/pipeline/pipeline.go\<close> promise. The Opus stage is compared with a
  reference that takes one sample instant (a sample of every channel) at a time and knows nothing
  of periods; the frames it emits are consecutive instants of one session. The PCM stage's frames
  tile their period.
\<close>

section \<open>The reference: one instant at a time\<close>

text \<open>An instant: its session, its stream position, its capture time, and its samples.\<close>

record instant_samples =
  in_Session :: u64
  in_Pos :: u64
  in_Captured :: instant
  in_Samples :: "u16 list"

text \<open>The instants of what is left of an admitted period.\<close>

function instants_from :: "int \<Rightarrow> nat \<Rightarrow> u64 \<Rightarrow> instant \<Rightarrow> period \<Rightarrow> u8 list \<Rightarrow> instant_samples list" where
  "instants_from rate ch session captured p pcm =
     (if ch = 0 \<or> length pcm < 2 * ch then []
      else \<lparr>in_Session = session,
            in_Pos = pd_Pos p + word_of_nat ((length (pd_Buf p) - length pcm) div 2 div ch),
            in_Captured = captured - framesDur (int (length pcm div 2 div ch)) rate,
            in_Samples = samples16 (take (2 * ch) pcm)\<rparr>
           # instants_from rate ch session captured p (drop (2 * ch) pcm))"
  by auto
termination by (relation "measure (\<lambda>(rate, ch, session, captured, p, pcm). length pcm)") auto

declare instants_from.simps [simp del]

definition instants_of :: "int \<Rightarrow> nat \<Rightarrow> read_event list \<Rightarrow> instant_samples list" where
  "instants_of rate ch reads =
     concat (map (\<lambda>(p, g, now). case admit g now p of None \<Rightarrow> []
       | Some (session, captured) \<Rightarrow> instants_from rate ch session captured p (pd_Buf p)) reads)"

definition ref_step ::
  "('e, 'x) encode \<Rightarrow> ('x \<Rightarrow> 'x) \<Rightarrow> ('e, 's) emitter \<Rightarrow> nat \<Rightarrow> instant_samples \<Rightarrow> 'x opus_state \<Rightarrow> 's
     \<Rightarrow> ('e + 'x opus_state) \<times> 's" where
  "ref_step encode reset emit ch i st s =
     (let st0 = opus_enter reset (in_Session i) (in_Pos i) st;
          st1 = (if os_acc st0 = [] then st0\<lparr>os_frameStart := in_Captured i, os_framePos := in_Pos i\<rparr> else st0);
          st2 = st1\<lparr>os_acc := os_acc st1 @ in_Samples i, os_nextPos := in_Pos i + 1\<rparr>
      in if length (os_acc st2) < frameSamples ch then (Inr st2, s) else opus_flush encode emit st2 s)"

fun ref_run ::
  "('e, 'x) encode \<Rightarrow> ('x \<Rightarrow> 'x) \<Rightarrow> ('e, 's) emitter \<Rightarrow> nat \<Rightarrow> instant_samples list \<Rightarrow> 'x opus_state \<Rightarrow> 's
     \<Rightarrow> ('e + 'x opus_state) \<times> 's" where
  "ref_run encode reset emit ch [] st s = (Inr st, s)"
| "ref_run encode reset emit ch (i # is) st s =
     (case ref_step encode reset emit ch i st s of
        (Inl e, s') \<Rightarrow> (Inl e, s')
      | (Inr st', s') \<Rightarrow> ref_run encode reset emit ch is st' s')"

lemma ref_run_append:
  "ref_run encode reset emit ch (is @ js) st s =
     (case ref_run encode reset emit ch is st s of
        (Inl e, s') \<Rightarrow> (Inl e, s') | (Inr st', s') \<Rightarrow> ref_run encode reset emit ch js st' s')"
  by (induction "is" arbitrary: st s) (auto split: prod.splits sum.splits)

section \<open>The fill loop, one instant at a time\<close>

text \<open>An accumulator between two instants of a frame.\<close>

definition acc_ok :: "nat \<Rightarrow> 'x opus_state \<Rightarrow> bool" where
  "acc_ok ch st \<longleftrightarrow> ch dvd length (os_acc st) \<and> length (os_acc st) < frameSamples ch"

lemma opus_flush_acc: "opus_flush encode emit st s = (Inr st', s') \<Longrightarrow> os_acc st' = [] \<and> os_nextPos st' = os_nextPos st
    \<and> os_session st' = os_session st"
  by (auto simp: opus_flush_def split: prod.splits sum.splits option.splits)

lemma frameSamples_pos [simp]: "0 < ch \<Longrightarrow> 0 < frameSamples ch"
  by (simp add: frameSamples_def opusFrameSamples_def)

lemma acc_room: "acc_ok ch st \<Longrightarrow> length (os_acc st) + ch \<le> frameSamples ch"
  unfolding acc_ok_def frameSamples_def by (metis add.commute dvd_def leI less_le_not_le mult.commute
    mult_Suc_right mult_le_mono2 not_less_eq_eq)

lemma take_samples:
  "2 * ch \<le> length pcm \<Longrightarrow> ch \<le> n \<Longrightarrow>
   samples16 (take (n * 2) pcm) = samples16 (take (2 * ch) pcm) @ samples16 (take ((n - ch) * 2) (drop (2 * ch) pcm))"
proof -
  assume a: "2 * ch \<le> length pcm" "ch \<le> n"
  have "take (n * 2) pcm = take (2 * ch) pcm @ take ((n - ch) * 2) (drop (2 * ch) pcm)"
    using a(2) by (metis add_diff_inverse_nat diff_mult_distrib leD mult.commute mult_le_mono1 take_add)
  then show ?thesis using a(1) by (simp add: samples16_append)
qed

definition take_instant :: "int \<Rightarrow> nat \<Rightarrow> period \<Rightarrow> instant \<Rightarrow> u8 list \<Rightarrow> 'x opus_state \<Rightarrow> 'x opus_state" where
  "take_instant rate ch p captured pcm st =
     (let st1 = opus_mark rate ch p captured pcm st in st1\<lparr>os_acc := os_acc st1 @ samples16 (take (2 * ch) pcm)\<rparr>)"

lemma opus_mark_acc [simp]: "os_acc (opus_mark rate ch p captured pcm st) = os_acc st"
  by (simp add: opus_mark_def)

lemma opus_mark_nonempty: "os_acc st \<noteq> [] \<Longrightarrow> opus_mark rate ch p captured pcm st = st"
  by (simp add: opus_mark_def)

lemma take_instant_length:
  "2 * ch \<le> length pcm \<Longrightarrow> length (os_acc (take_instant rate ch p captured pcm st)) = length (os_acc st) + ch"
  by (simp add: take_instant_def Let_def samples16_length)

lemma opus_fill_step:
  assumes "\<not> length pcm < 2" "n = min (frameSamples ch - length (os_acc st)) (length pcm div 2)"
  shows "opus_fill encode emit rate ch p captured pcm st s =
    (let st2 = (opus_mark rate ch p captured pcm st)\<lparr>os_acc := os_acc st @ samples16 (take (n * 2) pcm)\<rparr> in
     if length (os_acc st2) < frameSamples ch then Some (Inr st2, s)
     else case opus_flush encode emit st2 s of
            (Inl e, s') \<Rightarrow> Some (Inl e, s')
          | (Inr st3, s') \<Rightarrow> opus_fill encode emit rate ch p captured (drop (n * 2) pcm) st3 s')"
  apply (subst opus_fill.simps)
  unfolding Let_def opus_mark_acc assms(2)[symmetric]
  using assms(1) by simp

lemma fill_full:
  assumes "0 < ch" "2 * ch \<le> length pcm" "length (os_acc st) + ch = frameSamples ch"
  shows "opus_fill encode emit rate ch p captured pcm st s =
    (case opus_flush encode emit (take_instant rate ch p captured pcm st) s of
       (Inl e, s') \<Rightarrow> Some (Inl e, s')
     | (Inr st', s') \<Rightarrow> opus_fill encode emit rate ch p captured (drop (2 * ch) pcm) st' s')"
proof -
  have n: "min (frameSamples ch - length (os_acc st)) (length pcm div 2) = ch" using assms by simp
  have "\<not> length pcm < 2" using assms(1,2) by simp
  moreover have "length (samples16 (take (ch * 2) pcm)) = ch" using assms(2) by (simp add: samples16_length)
  ultimately show ?thesis unfolding mult.commute[of 2 ch]
    using assms(3) by (subst opus_fill_step[OF _ n[symmetric]]) (simp_all add: Let_def take_instant_def mult.commute)
qed

lemma fill_more:
  assumes "0 < ch" "2 * ch \<le> length pcm" "length (os_acc st) + ch < frameSamples ch"
  shows "opus_fill encode emit rate ch p captured pcm st s =
     opus_fill encode emit rate ch p captured (drop (2 * ch) pcm) (take_instant rate ch p captured pcm st) s"
proof -
  let ?n = "min (frameSamples ch - length (os_acc st)) (length pcm div 2)"
  let ?st = "take_instant rate ch p captured pcm st"
  let ?n' = "min (frameSamples ch - length (os_acc ?st)) (length (drop (2 * ch) pcm) div 2)"
  have len: "length (os_acc ?st) = length (os_acc st) + ch" using assms(2) by (rule take_instant_length)
  then have ne: "os_acc ?st \<noteq> []" using assms(1) by auto
  have n: "?n = ch + ?n'" unfolding len using assms by auto
  have acc: "(opus_mark rate ch p captured pcm st)\<lparr>os_acc := os_acc st @ samples16 (take (?n * 2) pcm)\<rparr> =
      ?st\<lparr>os_acc := os_acc ?st @ samples16 (take (?n' * 2) (drop (2 * ch) pcm))\<rparr>"
    using take_samples[of ch pcm ?n] assms(2) n by (simp add: take_instant_def Let_def)
  have dr: "drop (?n * 2) pcm = drop (?n' * 2) (drop (2 * ch) pcm)"
    unfolding n by (simp add: algebra_simps)
  have "\<not> length pcm < 2" using assms(1,2) by simp
  then have lhs: "opus_fill encode emit rate ch p captured pcm st s =
    (let st2 = ?st\<lparr>os_acc := os_acc ?st @ samples16 (take (?n' * 2) (drop (2 * ch) pcm))\<rparr> in
     if length (os_acc st2) < frameSamples ch then Some (Inr st2, s)
     else case opus_flush encode emit st2 s of
            (Inl e, s') \<Rightarrow> Some (Inl e, s')
          | (Inr st3, s') \<Rightarrow> opus_fill encode emit rate ch p captured (drop (?n' * 2) (drop (2 * ch) pcm)) st3 s')"
    unfolding acc[symmetric] dr[symmetric] by (rule opus_fill_step) simp
  show ?thesis
  proof (cases "length (drop (2 * ch) pcm) < 2")
    case True
    then have "length (drop (2 * ch) pcm) div 2 = 0" by simp
    then have n0: "?n' = 0" by (metis min_0R)
    have "length (os_acc ?st) < frameSamples ch" using len assms(3) by simp
    then have "opus_fill encode emit rate ch p captured pcm st s = Some (Inr ?st, s)"
      unfolding lhs n0 by (simp add: Let_def)
    then show ?thesis using True by (subst (2) opus_fill.simps) simp
  next
    case False
    show ?thesis unfolding lhs
      by (subst (2) opus_fill.simps) (simp only: False if_False Let_def opus_mark_nonempty[OF ne])
  qed
qed

section \<open>The stage is the reference\<close>

definition set_next :: "u64 \<Rightarrow> ('e + 'x opus_state) \<times> 's \<Rightarrow> ('e + 'x opus_state) \<times> 's" where
  "set_next n r = (case r of (Inl e, s) \<Rightarrow> (Inl e, s) | (Inr st, s) \<Rightarrow> (Inr (st\<lparr>os_nextPos := n\<rparr>), s))"

lemma opus_flush_next:
  "opus_flush encode emit (st\<lparr>os_nextPos := n\<rparr>) s = set_next n (opus_flush encode emit st s)"
  by (simp add: opus_flush_def set_next_def split: prod.splits sum.splits option.splits)

lemma set_next_set_next: "set_next m (set_next n r) = set_next m r"
  by (auto simp: set_next_def split: prod.splits sum.splits)

text \<open>The stream position of what is left of a period.\<close>

definition pos_of :: "nat \<Rightarrow> period \<Rightarrow> u8 list \<Rightarrow> u64" where
  "pos_of ch p pcm = pd_Pos p + word_of_nat ((length (pd_Buf p) - length pcm) div 2 div ch)"

lemma pos_of_drop:
  assumes "0 < ch" "2 * ch \<le> length pcm" "length pcm \<le> length (pd_Buf p)"
  shows "pos_of ch p (drop (2 * ch) pcm) = pos_of ch p pcm + 1"
proof -
  have "length (pd_Buf p) - length (drop (2 * ch) pcm) = (length (pd_Buf p) - length pcm) + 2 * ch"
    using assms by simp
  then have "(length (pd_Buf p) - length (drop (2 * ch) pcm)) div (2 * ch)
    = Suc ((length (pd_Buf p) - length pcm) div (2 * ch))"
    using assms(1) by (simp only: div_add_self2)
  then show ?thesis unfolding pos_of_def div_mult2_eq[symmetric] by simp
qed

lemma take_instant_fields:
  "os_session (take_instant rate ch p captured pcm st) = os_session st"
  "os_nextPos (take_instant rate ch p captured pcm st) = os_nextPos st"
  by (simp_all add: take_instant_def opus_mark_def Let_def)

lemma ref_step_instant:
  assumes "os_session st = session" "instants_from rate ch session captured p pcm = i # is"
  shows "ref_step encode reset emit ch i (st\<lparr>os_nextPos := pos_of ch p pcm\<rparr>) s =
    (let st2 = (take_instant rate ch p captured pcm st)\<lparr>os_nextPos := pos_of ch p pcm + 1\<rparr> in
     if length (os_acc st2) < frameSamples ch then (Inr st2, s) else opus_flush encode emit st2 s)"
proof -
  have i: "i = \<lparr>in_Session = session, in_Pos = pos_of ch p pcm,
      in_Captured = captured - framesDur (int (length pcm div 2 div ch)) rate,
      in_Samples = samples16 (take (2 * ch) pcm)\<rparr>"
    using assms(2) by (subst (asm) instants_from.simps) (auto simp: pos_of_def split: if_splits)
  show ?thesis
    unfolding ref_step_def i by (simp add: opus_enter_def assms(1) take_instant_def opus_mark_def pos_of_def Let_def)
qed

lemma acc_ok_take:
  assumes "acc_ok ch st" "2 * ch \<le> length pcm" "length (os_acc st) + ch < frameSamples ch"
  shows "acc_ok ch (take_instant rate ch p captured pcm st)"
  using assms unfolding acc_ok_def by (simp add: take_instant_length)

lemma acc_ok_empty: "0 < ch \<Longrightarrow> os_acc st = [] \<Longrightarrow> acc_ok ch st"
  by (simp add: acc_ok_def)

lemma fill_ref:
  assumes "0 < ch" "2 * ch dvd length pcm" "length pcm \<le> length (pd_Buf p)" "acc_ok ch st" "os_session st = session"
  shows "opus_fill encode emit rate ch p captured pcm st s =
    Some (set_next (os_nextPos st)
      (ref_run encode reset emit ch (instants_from rate ch session captured p pcm)
        (st\<lparr>os_nextPos := pos_of ch p pcm\<rparr>) s))"
  using assms(2-5)
proof (induction "length pcm" arbitrary: pcm st s rule: less_induct)
  case less
  show ?case
  proof (cases "length pcm < 2 * ch")
    case True
    then have "pcm = []" using less.prems(1) assms(1) by (auto dest: dvd_imp_le)
    then show ?thesis
      by (subst opus_fill.simps, subst instants_from.simps) (simp add: set_next_def assms(1))
  next
    case False
    then have big: "2 * ch \<le> length pcm" by simp
    let ?pcm = "drop (2 * ch) pcm" and ?st = "take_instant rate ch p captured pcm st"
    have "\<exists>i. instants_from rate ch session captured p pcm = i # instants_from rate ch session captured p ?pcm"
      using False assms(1) by (subst instants_from.simps) simp
    then obtain i where i: "instants_from rate ch session captured p pcm
        = i # instants_from rate ch session captured p ?pcm" by blast
    have rest: "length ?pcm < length pcm" "2 * ch dvd length ?pcm" "length ?pcm \<le> length (pd_Buf p)"
      using less.prems(1,2) big assms(1) by (simp_all add: dvd_diff_nat)
    have pos: "pos_of ch p pcm + 1 = pos_of ch p ?pcm" using assms(1) big less.prems(2) by (rule pos_of_drop[symmetric])
    note step = ref_step_instant[OF less.prems(4) i, of encode reset emit s, unfolded pos]
    show ?thesis
    proof (cases "length (os_acc st) + ch < frameSamples ch")
      case True
      have "ref_step encode reset emit ch i (st\<lparr>os_nextPos := pos_of ch p pcm\<rparr>) s = (Inr (?st\<lparr>os_nextPos := pos_of ch p ?pcm\<rparr>), s)"
        unfolding step Let_def using True by (simp add: take_instant_length big)
      then show ?thesis
        unfolding fill_more[OF assms(1) big True] i
        by (subst less.hyps[OF rest acc_ok_take[OF less.prems(3) big True]])
          (simp_all add: take_instant_fields less.prems(4))
    next
      case False
      then have full: "length (os_acc st) + ch = frameSamples ch" using acc_room[OF less.prems(3)] by simp
      have fl: "ref_step encode reset emit ch i (st\<lparr>os_nextPos := pos_of ch p pcm\<rparr>) s
          = set_next (pos_of ch p ?pcm) (opus_flush encode emit ?st s)"
        unfolding step Let_def opus_flush_next using full by (simp add: take_instant_length big)
      show ?thesis
      proof (cases "opus_flush encode emit ?st s")
        case (Pair r s')
        show ?thesis
        proof (cases r)
          case (Inl e)
          then show ?thesis unfolding fill_full[OF assms(1) big full] i
            using Pair fl by (simp add: set_next_def)
        next
          case (Inr st')
          note fa = opus_flush_acc[OF Pair[unfolded Inr]]
          have "acc_ok ch st'" "os_session st' = session" "os_nextPos st' = os_nextPos st"
            using fa assms(1) less.prems(4) by (simp_all add: acc_ok_empty take_instant_fields)
          then show ?thesis unfolding fill_full[OF assms(1) big full] i
            using Pair Inr fl less.hyps[OF rest, of st' s'] by (simp add: set_next_def)
        qed
      qed
    qed
  qed
qed

lemma opus_enter_fields [simp]:
  "os_session (opus_enter reset session pos st) = session"
  by (simp add: opus_enter_def)

lemma acc_ok_enter: "0 < ch \<Longrightarrow> acc_ok ch st \<Longrightarrow> acc_ok ch (opus_enter reset session pos st)"
  by (auto simp: acc_ok_def opus_enter_def)

lemma ref_step_enter:
  "ref_step encode reset emit ch i st s = ref_step encode reset emit ch i
     ((opus_enter reset (in_Session i) (in_Pos i) st)\<lparr>os_nextPos := in_Pos i\<rparr>) s"
  by (simp add: ref_step_def opus_enter_def Let_def)

lemma ref_step_ok:
  assumes "0 < ch" "acc_ok ch st" "length (in_Samples i) = ch" "ref_step encode reset emit ch i st s = (Inr st', s')"
  shows "acc_ok ch st'" "os_nextPos st' = in_Pos i + 1" "os_session st' = in_Session i"
proof -
  let ?st0 = "opus_enter reset (in_Session i) (in_Pos i) st"
  let ?st1 = "if os_acc ?st0 = [] then ?st0\<lparr>os_frameStart := in_Captured i, os_framePos := in_Pos i\<rparr> else ?st0"
  let ?st2 = "?st1\<lparr>os_acc := os_acc ?st1 @ in_Samples i, os_nextPos := in_Pos i + 1\<rparr>"
  have acc: "os_acc ?st2 = os_acc ?st0 @ in_Samples i" by simp
  have "acc_ok ch ?st0" using assms(1,2) by (rule acc_ok_enter)
  then have dvd: "ch dvd length (os_acc ?st2)" unfolding acc acc_ok_def using assms(3) by simp
  have run: "(if length (os_acc ?st2) < frameSamples ch then (Inr ?st2, s) else opus_flush encode emit ?st2 s) = (Inr st', s')"
    using assms(4) unfolding ref_step_def Let_def .
  have "acc_ok ch st' \<and> os_nextPos st' = in_Pos i + 1 \<and> os_session st' = in_Session i"
  proof (cases "length (os_acc ?st2) < frameSamples ch")
    case True
    then have "st' = ?st2" using run by simp
    then show ?thesis using True dvd by (simp add: acc_ok_def)
  next
    case False
    then have "opus_flush encode emit ?st2 s = (Inr st', s')" using run by simp
    from opus_flush_acc[OF this] show ?thesis using assms(1) by (simp add: acc_ok_empty)
  qed
  then show "acc_ok ch st'" "os_nextPos st' = in_Pos i + 1" "os_session st' = in_Session i" by blast+
qed

lemma ref_run_ok:
  assumes "0 < ch" "acc_ok ch st" "\<forall>i \<in> set is. length (in_Samples i) = ch"
    "ref_run encode reset emit ch is st s = (Inr st', s')"
  shows "acc_ok ch st' \<and> (is \<noteq> [] \<longrightarrow> os_nextPos st' = in_Pos (last is) + 1)"
  using assms(2-4)
proof (induction "is" arbitrary: st s)
  case (Cons i "is")
  then obtain st1 s1 where st1: "ref_step encode reset emit ch i st s = (Inr st1, s1)"
    "ref_run encode reset emit ch is st1 s1 = (Inr st', s')" by (auto split: prod.splits sum.splits)
  have "length (in_Samples i) = ch" using Cons.prems(2) by simp
  note ok = ref_step_ok[OF assms(1) Cons.prems(1) this st1(1)]
  have "acc_ok ch st' \<and> (is \<noteq> [] \<longrightarrow> os_nextPos st' = in_Pos (last is) + 1)"
    using Cons.IH[OF ok(1) _ st1(2)] Cons.prems(2) by simp
  then show ?case using ok st1(2) by (cases "is") auto
qed simp

lemma instants_from_facts:
  assumes "0 < ch" "2 * ch dvd length pcm" "length pcm \<le> length (pd_Buf p)"
  shows "(\<forall>i \<in> set (instants_from rate ch session captured p pcm).
       in_Session i = session \<and> length (in_Samples i) = ch) \<and>
     (pcm \<noteq> [] \<longrightarrow> instants_from rate ch session captured p pcm \<noteq> [] \<and>
       in_Pos (hd (instants_from rate ch session captured p pcm)) = pos_of ch p pcm \<and>
       in_Pos (last (instants_from rate ch session captured p pcm)) + 1 = pos_of ch p [])"
  using assms(2,3)
proof (induction "length pcm" arbitrary: pcm rule: less_induct)
  case less
  show ?case
  proof (cases "length pcm < 2 * ch")
    case True
    then have "pcm = []" using less.prems(1) assms(1) by (auto dest: dvd_imp_le)
    then show ?thesis by (subst (1) instants_from.simps) (simp add: assms(1))
  next
    case False
    then have big: "2 * ch \<le> length pcm" by simp
    let ?pcm = "drop (2 * ch) pcm"
    have rest: "length ?pcm < length pcm" "2 * ch dvd length ?pcm" "length ?pcm \<le> length (pd_Buf p)"
      using less.prems big assms(1) by (simp_all add: dvd_diff_nat)
    have pos: "pos_of ch p pcm + 1 = pos_of ch p ?pcm" using assms(1) big less.prems(2) by (rule pos_of_drop[symmetric])
    have "\<exists>i. instants_from rate ch session captured p pcm = i # instants_from rate ch session captured p ?pcm
      \<and> in_Session i = session \<and> in_Pos i = pos_of ch p pcm \<and> length (in_Samples i) = ch"
      using False assms(1) big by (subst instants_from.simps) (simp add: samples16_length pos_of_def)
    then obtain i where i: "instants_from rate ch session captured p pcm = i # instants_from rate ch session captured p ?pcm"
      "in_Session i = session" "in_Pos i = pos_of ch p pcm" "length (in_Samples i) = ch" by blast
    show ?thesis
      using less.hyps[OF rest] i pos by (cases "?pcm = []") (auto simp: instants_from.simps[of _ _ _ _ _ "[]"] assms(1))
  qed
qed

text \<open>The capture delivers whole frames, at least one.\<close>

definition whole_frames :: "nat \<Rightarrow> period \<Rightarrow> bool" where
  "whole_frames ch p \<longleftrightarrow> pd_Buf p \<noteq> [] \<and> 2 * ch dvd length (pd_Buf p)"

lemma pos_of_ends:
  "pos_of ch p (pd_Buf p) = pd_Pos p" "pos_of ch p [] = pd_Pos p + word_of_nat (length (pd_Buf p) div 2 div ch)"
  by (simp_all add: pos_of_def)

lemma ref_run_enter:
  assumes "is \<noteq> []" "in_Session (hd is) = session" "in_Pos (hd is) = pos"
  shows "ref_run encode reset emit ch is ((opus_enter reset session pos st)\<lparr>os_nextPos := pos\<rparr>) s
    = ref_run encode reset emit ch is st s"
proof -
  obtain i js where i: "is = i # js" "in_Session i = session" "in_Pos i = pos" using assms by (cases "is") auto
  show ?thesis using ref_step_enter[of encode reset emit ch i st s] i by simp
qed

lemma period_ref:
  assumes "0 < ch" "whole_frames ch p" "acc_ok ch st"
  shows "opus_period encode reset emit rate ch session captured p st s =
    Some (ref_run encode reset emit ch (instants_from rate ch session captured p (pd_Buf p)) st s)"
proof -
  let ?is = "instants_from rate ch session captured p (pd_Buf p)"
  let ?fin = "pos_of ch p []"
  have buf: "2 * ch dvd length (pd_Buf p)" "pd_Buf p \<noteq> []" using assms(2) by (simp_all add: whole_frames_def)
  note facts = instants_from_facts[OF assms(1) buf(1) order_refl, of rate session captured, unfolded pos_of_ends(1)]
  have hd: "?is \<noteq> []" "in_Session (hd ?is) = session" "in_Pos (hd ?is) = pd_Pos p" using facts buf(2) by auto
  let ?st = "(opus_enter reset session (pd_Pos p) st)\<lparr>os_nextPos := ?fin\<rparr>"
  have ok: "acc_ok ch ?st" using acc_ok_enter[OF assms(1,3)] by (simp add: acc_ok_def)
  have "opus_period encode reset emit rate ch session captured p st s =
      Some (set_next ?fin (ref_run encode reset emit ch ?is st s))"
    unfolding opus_period_def Let_def pos_of_ends(2)[symmetric]
    by (subst fill_ref[OF assms(1) buf(1) order_refl ok, of session, where reset = reset])
      (simp_all add: pos_of_ends(1) ref_run_enter[OF hd])
  moreover have "set_next ?fin (ref_run encode reset emit ch ?is st s) = ref_run encode reset emit ch ?is st s"
  proof (cases "ref_run encode reset emit ch ?is st s")
    case (Pair r s')
    show ?thesis
    proof (cases r)
      case (Inr st')
      have "os_nextPos st' = ?fin"
        using ref_run_ok[OF assms(1,3) _ Pair[unfolded Inr]] facts buf(2) by auto
      then show ?thesis using Pair Inr by (simp add: set_next_def)
    qed (simp add: Pair set_next_def)
  qed
  ultimately show ?thesis by simp
qed

definition ref_outcome :: "'e option \<Rightarrow> ('e + 'x opus_state) \<times> 's \<Rightarrow> 'e option \<times> 's" where
  "ref_outcome fin r = (case r of (Inl e, s) \<Rightarrow> (Some e, s) | (Inr st, s) \<Rightarrow> (fin, s))"

lemma loop_ref:
  assumes "0 < ch" "\<forall>r \<in> set reads. whole_frames ch (fst r)" "acc_ok ch st"
  shows "opus_loop encode reset emit rate ch reads fin st s =
    Some (ref_outcome fin (ref_run encode reset emit ch (instants_of rate ch reads) st s))"
  using assms(2,3)
proof (induction reads arbitrary: st s)
  case Nil
  then show ?case by (simp add: instants_of_def ref_outcome_def)
next
  case (Cons r reads)
  obtain p g now where r: "r = (p, g, now)" by (cases r) auto
  have wf: "whole_frames ch p" "\<forall>r \<in> set reads. whole_frames ch (fst r)" using Cons.prems(1) r by auto
  show ?case
  proof (cases "admit g now p")
    case None
    then show ?thesis using Cons.IH[OF wf(2) Cons.prems(2)] by (simp add: r instants_of_def)
  next
    case (Some sc)
    obtain session captured where sc: "sc = (session, captured)" by fastforce
    let ?is = "instants_from rate ch session captured p (pd_Buf p)"
    have split: "instants_of rate ch (r # reads) = ?is @ instants_of rate ch reads"
      by (simp add: instants_of_def r Some sc)
    have len: "\<forall>i \<in> set ?is. length (in_Samples i) = ch"
      using instants_from_facts[OF assms(1) _ order_refl] wf(1) unfolding whole_frames_def by blast
    obtain res s' where run: "ref_run encode reset emit ch ?is st s = (res, s')" by fastforce
    show ?thesis
    proof (cases res)
      case (Inl e)
      then show ?thesis unfolding split ref_run_append
        using run by (simp add: r Some sc period_ref[OF assms(1) wf(1) Cons.prems(2)] ref_outcome_def)
    next
      case (Inr st')
      have "acc_ok ch st'" using ref_run_ok[OF assms(1) Cons.prems(2) len run[unfolded Inr]] ..
      note IH = Cons.IH[OF wf(2) this]
      show ?thesis unfolding split ref_run_append
        using run Inr by (simp add: r Some sc period_ref[OF assms(1) wf(1) Cons.prems(2)] IH)
    qed
  qed
qed

text \<open>
  C32. On every sequence of reads of whole frames the Opus stage returns, and what it does is
  what the reference does on the instants of the admitted periods one by one: where the capture
  cuts its periods never shows. A capture that is not 48 kHz mono or stereo, or a configuration
  the encoder rejects, is refused before anything is read or emitted.
\<close>
theorem opus_stage_is_the_instant_reference:
  assumes "\<forall>r \<in> set reads. whole_frames ch (fst r)" "ch = 1 \<or> ch = 2"
    "newEncoder ch (EffectiveBitrate bitrate (int ch)) = Inr enc"
  shows "opus_Run unsupported newEncoder encode reset emit bitrate (48000, ch) reads fin s =
      Some (ref_outcome fin (ref_run encode reset emit ch (instants_of 48000 ch reads) (opus_init enc) s))
    \<and> (\<forall>rate' ch'. rate' \<noteq> 48000 \<or> ch' \<notin> {1, 2} \<longrightarrow>
        opus_Run unsupported newEncoder encode reset emit bitrate (rate', ch') reads fin s = Some (Some (unsupported rate' ch'), s))
    \<and> (\<forall>e b. newEncoder ch (EffectiveBitrate b (int ch)) = Inl e \<longrightarrow>
        opus_Run unsupported newEncoder encode reset emit b (48000, ch) reads fin s = Some (Some e, s))"
proof -
  have ch: "0 < ch" "1 \<le> ch" "ch \<le> 2" using assms(2) by auto
  have "acc_ok ch (opus_init enc)" using ch(1) by (simp add: opus_init_def acc_ok_empty)
  note loop = loop_ref[OF ch(1) assms(1) this, of encode reset emit 48000 fin s]
  have "opus_Run unsupported newEncoder encode reset emit bitrate (rate', ch') reads fin s = Some (Some (unsupported rate' ch'), s)"
    if "rate' \<noteq> 48000 \<or> ch' \<notin> {1, 2}" for rate' ch'
  proof -
    have "rate' \<noteq> 48000 \<or> ch' < 1 \<or> ch' > 2" using that by auto
    then show ?thesis unfolding opus_Run_def prod.case by (simp only: if_True)
  qed
  then show ?thesis using ch loop assms(3) by (auto simp: opus_Run_def not_less)
qed

lemma opus_stage_is_the_instant_reference_witness:
  "let p = \<lparr>pd_Buf = replicate 1920 0, pd_Frames = 960, pd_Pos = 5, pd_Session = 0, pd_Captured = 9\<rparr>;
       encode = (\<lambda>n pcm. (Inr [word_of_nat n, word_of_nat (length pcm)], n + 1)); reset = (\<lambda>_. 0);
       emit = (\<lambda>f s. (None, s @ [f]))
   in opus_Run (\<lambda>_ _. ()) (\<lambda>_ _. Inr (7 :: nat)) encode reset emit 0 (48000, 1) [(p, Some (True, 3), 1)] None []
     = Some (ref_outcome None (ref_run encode reset emit 1
         (instants_of 48000 1 [(p, Some (True, 3), 1)]) (opus_init 7) []))"
  unfolding Let_def
  using opus_stage_is_the_instant_reference[where
      reads = "[(\<lparr>pd_Buf = replicate 1920 0, pd_Frames = 960, pd_Pos = 5, pd_Session = 0, pd_Captured = 9\<rparr>, Some (True, 3), 1)]"
      and ch = 1 and newEncoder = "\<lambda>_ _. Inr (7 :: nat)" and bitrate = 0 and enc = 7
      and encode = "\<lambda>n pcm. (Inr [word_of_nat n, word_of_nat (length pcm)], n + 1)" and reset = "\<lambda>_. 0"
      and emit = "\<lambda>f s. (None, s @ [f])" and unsupported = "\<lambda>_ _. ()" and fin = None and s = "[]"]
  by (simp add: whole_frames_def)

section \<open>The PCM stage tiles its periods\<close>

fun swap16 :: "u8 list \<Rightarrow> u8 list" where
  "swap16 (a # b # bs) = b # a # swap16 bs"
| "swap16 bs = []"

text \<open>
  What the code relies on of the packetizer: byte-swapped payloads of whole frames in order, none
  empty, none over the limit, and no error of its own.
\<close>

definition packetizes :: "nat \<Rightarrow> nat \<Rightarrow> u8 list \<Rightarrow> u8 list list \<times> 'e option \<Rightarrow> bool" where
  "packetizes ch maxBytes buf r \<longleftrightarrow>
     concat (fst r) = swap16 buf \<and> snd r = None \<and>
     (\<forall>b \<in> set (fst r). b \<noteq> [] \<and> 2 * ch dvd length b \<and> length b \<le> maxBytes)"

definition record_frame :: "('e, frame list) emitter" where
  "record_frame f s = (None, s @ [f])"

text \<open>Frames of a period, each placed by the sample frames before it.\<close>

definition frames_in :: "nat \<Rightarrow> frame list \<Rightarrow> nat" where
  "frames_in ch fs = sum_list (map (\<lambda>f. length (fr_Payload f) div (2 * ch)) fs)"

definition tiles :: "int \<Rightarrow> nat \<Rightarrow> period \<Rightarrow> u64 \<Rightarrow> instant \<Rightarrow> frame list \<Rightarrow> bool" where
  "tiles rate ch p session captured fs \<longleftrightarrow>
     concat (map fr_Payload fs) = swap16 (pd_Buf p) \<and>
     (\<forall>k < length fs.
        fr_Session (fs ! k) = session \<and>
        fr_Pos (fs ! k) = pd_Pos p + word_of_nat (frames_in ch (take k fs)) \<and>
        fr_Duration (fs ! k) = word_of_nat (length (fr_Payload (fs ! k)) div (2 * ch)) \<and>
        fr_Captured (fs ! k) =
          captured - framesDur (int (length (pd_Buf p) div (2 * ch)) - int (frames_in ch (take k fs))) rate \<and>
        0 < length (fr_Payload (fs ! k)) \<and> length (fr_Payload (fs ! k)) \<le> pcm_maxBytes rate ch)"

fun pcm_frames :: "int \<Rightarrow> nat \<Rightarrow> period \<Rightarrow> u64 \<Rightarrow> instant \<Rightarrow> nat \<Rightarrow> u8 list list \<Rightarrow> frame list" where
  "pcm_frames rate ch p session captured n [] = []"
| "pcm_frames rate ch p session captured n (b # ps) =
     \<lparr>fr_Payload = b, fr_Duration = word_of_nat (length b div (2 * ch)), fr_Pos = pd_Pos p + word_of_nat n,
      fr_Captured = captured - framesDur (int (length (pd_Buf p) div (2 * ch)) - int n) rate, fr_Session = session\<rparr>
     # pcm_frames rate ch p session captured (n + length b div (2 * ch)) ps"

lemma pcm_emit_frames:
  "pcm_emit record_frame rate (2 * ch) p session captured n ps s = (None, s @ pcm_frames rate ch p session captured n ps)"
  by (induction ps arbitrary: n s) (simp_all add: record_frame_def Let_def)

lemma pcm_frames_payloads: "map fr_Payload (pcm_frames rate ch p session captured n ps) = ps"
  by (induction ps arbitrary: n) simp_all

lemma pcm_frames_nth:
  assumes "k < length ps"
  shows "pcm_frames rate ch p session captured n ps ! k =
    (let before = n + sum_list (map (\<lambda>b. length b div (2 * ch)) (take k ps)) in
     \<lparr>fr_Payload = ps ! k, fr_Duration = word_of_nat (length (ps ! k) div (2 * ch)), fr_Pos = pd_Pos p + word_of_nat before,
      fr_Captured = captured - framesDur (int (length (pd_Buf p) div (2 * ch)) - int before) rate, fr_Session = session\<rparr>)"
  using assms
proof (induction ps arbitrary: n k)
  case (Cons b ps)
  then show ?case by (cases k) (simp_all add: add.assoc)
qed simp

lemma pcm_frames_tile:
  assumes "packetizes ch (pcm_maxBytes rate ch) (pd_Buf p) (ps, err)"
  shows "tiles rate ch p session captured (pcm_frames rate ch p session captured 0 ps)"
proof -
  let ?fs = "pcm_frames rate ch p session captured 0 ps"
  have len: "length ?fs = length ps" by (metis length_map pcm_frames_payloads)
  have before: "frames_in ch (take k ?fs) = sum_list (map (\<lambda>b. length b div (2 * ch)) (take k ps))" for k
  proof -
    have "map (\<lambda>f. length (fr_Payload f) div (2 * ch)) (take k ?fs)
        = map (\<lambda>b. length b div (2 * ch)) (map fr_Payload (take k ?fs))" by simp
    also have "map fr_Payload (take k ?fs) = take k ps" unfolding take_map[symmetric] pcm_frames_payloads ..
    finally show ?thesis unfolding frames_in_def by simp
  qed
  have bounds: "0 < length (ps ! k) \<and> length (ps ! k) \<le> pcm_maxBytes rate ch" if "k < length ps" for k
    using assms that by (auto simp: packetizes_def)
  show ?thesis unfolding tiles_def pcm_frames_payloads len before
    using assms bounds by (simp add: packetizes_def pcm_frames_nth Let_def)
qed

definition tiles_event :: "int \<Rightarrow> nat \<Rightarrow> read_event \<Rightarrow> frame list \<Rightarrow> bool" where
  "tiles_event rate ch r fs \<longleftrightarrow>
     (case r of (p, g, now) \<Rightarrow> case admit g now p of None \<Rightarrow> fs = []
       | Some (session, captured) \<Rightarrow> tiles rate ch p session captured fs)"

lemma pcm_loop_tiles:
  assumes "\<forall>r \<in> set reads. packetizes ch (pcm_maxBytes rate ch) (pd_Buf (fst r)) (split ch (pcm_maxBytes rate ch) (pd_Buf (fst r)))"
  shows "\<exists>fss. pcm_loop split record_frame rate ch reads fin s = (fin, s @ concat fss) \<and> list_all2 (tiles_event rate ch) reads fss"
  using assms
proof (induction reads arbitrary: s)
  case Nil
  show ?case by (intro exI[of _ "[]"]) simp
next
  case (Cons r reads)
  obtain p g now where r: "r = (p, g, now)" by (cases r) auto
  obtain ps err where ps: "split ch (pcm_maxBytes rate ch) (pd_Buf p) = (ps, err)" by fastforce
  have pk: "packetizes ch (pcm_maxBytes rate ch) (pd_Buf p) (ps, err)" using Cons.prems r ps by simp
  then have err: "err = None" by (simp add: packetizes_def)
  have rest: "\<forall>r \<in> set reads. packetizes ch (pcm_maxBytes rate ch) (pd_Buf (fst r)) (split ch (pcm_maxBytes rate ch) (pd_Buf (fst r)))"
    using Cons.prems by simp
  show ?case
  proof (cases "admit g now p")
    case None
    obtain fss where fss: "pcm_loop split record_frame rate ch reads fin s = (fin, s @ concat fss)"
      "list_all2 (tiles_event rate ch) reads fss" using Cons.IH[OF rest] by blast
    moreover have "tiles_event rate ch r []" by (simp add: tiles_event_def r None)
    ultimately show ?thesis using None by (intro exI[of _ "[] # fss"]) (simp add: r)
  next
    case (Some sc)
    obtain session captured where sc: "sc = (session, captured)" by fastforce
    let ?fs = "pcm_frames rate ch p session captured 0 ps"
    obtain fss where fss: "pcm_loop split record_frame rate ch reads fin (s @ ?fs) = (fin, (s @ ?fs) @ concat fss)"
      "list_all2 (tiles_event rate ch) reads fss" using Cons.IH[OF rest] by blast
    have "tiles_event rate ch r ?fs" using pcm_frames_tile[OF pk] by (simp add: tiles_event_def r Some sc)
    then show ?thesis using fss
      by (intro exI[of _ "?fs # fss"]) (simp add: r Some sc ps err pcm_emit_frames)
  qed
qed

lemma pcm_maxBytes_le: "0 \<le> rate \<Longrightarrow> 0 < ch \<Longrightarrow> 2 * ch \<le> 15360 \<Longrightarrow> pcm_maxBytes rate ch \<le> 15360"
  unfolding pcm_maxBytes_def maxL16Payload_def Let_def by auto

text \<open>
  The PCM stage's frames tile every admitted period: their payloads are its samples in
  network order, none missing and none twice, each frame at the position and the capture time of
  its first sample and at most 15360 bytes, and a period that is not admitted yields none.
\<close>
theorem pcm_frames_tile_their_periods:
  assumes "\<forall>r \<in> set reads. packetizes ch (pcm_maxBytes rate ch) (pd_Buf (fst r)) (split ch (pcm_maxBytes rate ch) (pd_Buf (fst r)))"
    and "1 \<le> ch" "ch \<le> 8" "0 \<le> rate"
  shows "\<exists>fss. pcm_loop split record_frame rate ch reads fin [] = (fin, concat fss) \<and>
     list_all2 (tiles_event rate ch) reads fss \<and> list_all (\<lambda>f. length (fr_Payload f) \<le> 15360) (concat fss)"
proof -
  obtain fss where fss: "pcm_loop split record_frame rate ch reads fin [] = (fin, [] @ concat fss)"
    "list_all2 (tiles_event rate ch) reads fss" using pcm_loop_tiles[where split = split and ch = ch and rate = rate and reads = reads, OF assms(1)] by blast
  have le: "pcm_maxBytes rate ch \<le> 15360" using assms(2-4) by (intro pcm_maxBytes_le) auto
  have "length (fr_Payload f) \<le> 15360" if fs: "fs \<in> set fss" "f \<in> set fs" for fs f
  proof -
    obtain r where "tiles_event rate ch r fs" using fss(2) fs(1) by (metis in_set_conv_nth list_all2_conv_all_nth)
    then obtain session captured p where "tiles rate ch p session captured fs"
      using fs(2) by (auto simp: tiles_event_def split: prod.splits option.splits)
    then have "length (fr_Payload f) \<le> pcm_maxBytes rate ch"
      using fs(2) unfolding tiles_def in_set_conv_nth by blast
    then show ?thesis using le by simp
  qed
  then show ?thesis using fss by (auto simp: list_all_iff)
qed

text \<open>A packetizer that sends one sample frame per payload.\<close>

fun chop :: "nat \<Rightarrow> u8 list \<Rightarrow> u8 list list" where
  "chop 0 bs = []"
| "chop (Suc n) bs = (if bs = [] then [] else take 2 bs # chop n (drop 2 bs))"

definition demo_split :: "unit packetizer" where
  "demo_split ch maxBytes buf = (chop (length buf) (swap16 buf), None)"

definition demo_period :: period where
  "demo_period = \<lparr>pd_Buf = [1, 2, 3, 4], pd_Frames = 2, pd_Pos = 40, pd_Session = 2, pd_Captured = 0\<rparr>"

definition demo_reads :: "read_event list" where
  "demo_reads = [(demo_period, Some (True, 2), 9), (demo_period, Some (True, 3), 9)]"

lemma pcm_frames_tile_their_periods_witness:
  "\<exists>fss. pcm_loop demo_split record_frame 16000 1 demo_reads None [] = (None, concat fss) \<and>
     list_all2 (tiles_event 16000 1) demo_reads fss \<and>
     list_all (\<lambda>f. length (fr_Payload f) \<le> 15360) (concat fss)"
proof (rule pcm_frames_tile_their_periods)
  have "list_all (\<lambda>r. packetizes 1 (pcm_maxBytes 16000 1) (pd_Buf (fst r))
      (demo_split 1 (pcm_maxBytes 16000 1) (pd_Buf (fst r)))) demo_reads" by code_simp
  then show "\<forall>r \<in> set demo_reads. packetizes 1 (pcm_maxBytes 16000 1) (pd_Buf (fst r))
      (demo_split 1 (pcm_maxBytes 16000 1) (pd_Buf (fst r)))" by (simp only: list_all_iff)
qed simp_all

end
