(* ===== verification/Pipeline_Frames.thy ===== *)
theory Pipeline_Frames
  imports Pipeline_Spec
begin

text \<open>
  What an Opus frame of \<open>internal/pipeline/pipeline.go\<close> holds: 960 consecutive instants of one play
  session, encoded by an encoder that has heard nothing but that session since its reset.
\<close>

text \<open>Instants \<open>o\<close> to \<open>o + n - 1\<close> of the input follow each other in one session.\<close>

definition stretch :: "instant_samples list \<Rightarrow> nat \<Rightarrow> nat \<Rightarrow> u64 \<Rightarrow> u64 \<Rightarrow> bool" where
  "stretch is o' n session pos \<longleftrightarrow>
     o' + n \<le> length is \<and>
     (\<forall>k < n. in_Session (is ! (o' + k)) = session \<and> in_Pos (is ! (o' + k)) = pos + word_of_nat k)"

definition stretch_samples :: "instant_samples list \<Rightarrow> nat \<Rightarrow> nat \<Rightarrow> u16 list" where
  "stretch_samples is o' n = concat (map in_Samples (take n (drop o' is)))"

text \<open>An encoder state reached from a reset by encoding full frames of one session.\<close>

definition heard_only ::
  "('e, 'x) encode \<Rightarrow> ('x \<Rightarrow> 'x) \<Rightarrow> instant_samples list \<Rightarrow> u64 \<Rightarrow> 'x \<Rightarrow> bool" where
  "heard_only encode reset is session x \<longleftrightarrow>
     (\<exists>x0 os. x = foldl (\<lambda>x c. snd (encode x c)) (reset x0) (map (\<lambda>o'. stretch_samples is o' 960) os) \<and>
        (\<forall>o' \<in> set os. \<exists>pos. stretch is o' 960 session pos))"

definition frame_at ::
  "('e, 'x) encode \<Rightarrow> ('x \<Rightarrow> 'x) \<Rightarrow> instant_samples list \<Rightarrow> nat \<Rightarrow> frame \<Rightarrow> bool" where
  "frame_at encode reset is o' f \<longleftrightarrow>
     stretch is o' 960 (fr_Session f) (fr_Pos f) \<and> fr_Duration f = 960 \<and>
     fr_Captured f = in_Captured (is ! o') \<and>
     (\<exists>x. fst (encode x (stretch_samples is o' 960)) = Inr (fr_Payload f) \<and>
        (fr_Session f \<noteq> 0 \<longrightarrow> heard_only encode reset is (fr_Session f) x))"

text \<open>The frames sent so far start at increasing instants and do not overlap.\<close>

definition sent_ok ::
  "('e, 'x) encode \<Rightarrow> ('x \<Rightarrow> 'x) \<Rightarrow> instant_samples list \<Rightarrow> nat list \<Rightarrow> frame list \<Rightarrow> bool" where
  "sent_ok encode reset is os fs \<longleftrightarrow>
     list_all2 (frame_at encode reset is) os fs \<and> sorted_wrt (\<lambda>a b. a + 960 \<le> b) os"

lemma stretch_mono: "stretch is o' n session pos \<Longrightarrow> stretch (is @ js) o' n session pos"
  by (auto simp: stretch_def nth_append)

lemma stretch_samples_mono: "o' + n \<le> length is \<Longrightarrow> stretch_samples (is @ js) o' n = stretch_samples is o' n"
  by (simp add: stretch_samples_def)

lemma stretch_snoc:
  assumes "stretch is o' n session pos" "o' + n = length is"
    "in_Session i = session" "in_Pos i = pos + word_of_nat n"
  shows "stretch (is @ [i]) o' (Suc n) session pos"
  using assms by (auto simp: stretch_def nth_append less_Suc_eq)

lemma stretch_samples_snoc:
  "o' + n = length is \<Longrightarrow> stretch_samples (is @ [i]) o' (Suc n) = stretch_samples is o' n @ in_Samples i"
  by (simp add: stretch_samples_def)

lemma heard_only_mono: "heard_only encode reset is session x \<Longrightarrow> heard_only encode reset (is @ js) session x"
proof -
  assume "heard_only encode reset is session x"
  then obtain x0 os where x: "x = foldl (\<lambda>x c. snd (encode x c)) (reset x0) (map (\<lambda>o'. stretch_samples is o' 960) os)"
    and os: "\<forall>o' \<in> set os. \<exists>pos. stretch is o' 960 session pos" unfolding heard_only_def by blast
  have "map (\<lambda>o'. stretch_samples is o' 960) os = map (\<lambda>o'. stretch_samples (is @ js) o' 960) os"
  proof (rule map_cong[OF refl])
    fix o' assume "o' \<in> set os"
    then have "o' + 960 \<le> length is" using os unfolding stretch_def by blast
    then show "stretch_samples is o' 960 = stretch_samples (is @ js) o' 960" by (simp add: stretch_samples_mono)
  qed
  then show ?thesis unfolding heard_only_def x using os stretch_mono by metis
qed

lemma heard_only_encode:
  assumes "heard_only encode reset is session x" "stretch is o' 960 session pos"
  shows "heard_only encode reset is session (snd (encode x (stretch_samples is o' 960)))"
proof -
  obtain x0 os where x: "x = foldl (\<lambda>x c. snd (encode x c)) (reset x0) (map (\<lambda>o'. stretch_samples is o' 960) os)"
    and os: "\<forall>o' \<in> set os. \<exists>pos. stretch is o' 960 session pos" using assms(1) unfolding heard_only_def by blast
  have "snd (encode x (stretch_samples is o' 960))
    = foldl (\<lambda>x c. snd (encode x c)) (reset x0) (map (\<lambda>o'. stretch_samples is o' 960) (os @ [o']))" by (simp add: x)
  moreover have "\<forall>o'' \<in> set (os @ [o']). \<exists>pos. stretch is o'' 960 session pos" using os assms(2) by auto
  ultimately show ?thesis unfolding heard_only_def by blast
qed

lemma heard_only_reset: "heard_only encode reset is session (reset x0)"
  unfolding heard_only_def by (intro exI[of _ x0] exI[of _ "[]"]) simp

lemma frame_at_mono: "frame_at encode reset is o' f \<Longrightarrow> frame_at encode reset (is @ js) o' f"
proof -
  assume f: "frame_at encode reset is o' f"
  then have le: "o' + 960 \<le> length is" by (simp add: frame_at_def stretch_def)
  then have "(is @ js) ! o' = is ! o'" by (simp add: nth_append)
  then show ?thesis using f heard_only_mono stretch_mono unfolding frame_at_def stretch_samples_mono[OF le] by metis
qed

lemma sent_ok_mono: "sent_ok encode reset is os fs \<Longrightarrow> sent_ok encode reset (is @ js) os fs"
  unfolding sent_ok_def using frame_at_mono by (metis list_all2_mono)

section \<open>The invariant of the reference\<close>

text \<open>
  After the instants \<open>is\<close>, the accumulator holds the last \<open>n\<close> of them, which are consecutive and of
  the current session, and every frame sent lies before.
\<close>

definition ref_inv ::
  "('e, 'x) encode \<Rightarrow> ('x \<Rightarrow> 'x) \<Rightarrow> instant_samples list \<Rightarrow> nat \<Rightarrow> nat list \<Rightarrow> 'x opus_state \<Rightarrow> frame list \<Rightarrow> bool" where
  "ref_inv encode reset is n os st fs \<longleftrightarrow>
     n \<le> length is \<and> n < 960 \<and>
     os_acc st = stretch_samples is (length is - n) n \<and>
     stretch is (length is - n) n (os_session st) (os_framePos st) \<and>
     (0 < n \<longrightarrow> os_frameStart st = in_Captured (is ! (length is - n)) \<and>
        os_nextPos st = os_framePos st + word_of_nat n) \<and>
     (os_session st \<noteq> 0 \<longrightarrow> heard_only encode reset is (os_session st) (os_enc st)) \<and>
     sent_ok encode reset is os fs \<and> (\<forall>o' \<in> set os. o' + 960 \<le> length is - n)"

lemma stretch_samples_length:
  assumes "\<forall>i \<in> set is. length (in_Samples i) = ch" "o' + n \<le> length is"
  shows "length (stretch_samples is o' n) = n * ch"
proof -
  have "\<forall>i \<in> set (take n (drop o' is)). length (in_Samples i) = ch" using assms(1) by (meson in_set_dropD in_set_takeD)
  then have "map (\<lambda>i. length (in_Samples i)) (take n (drop o' is)) = map (\<lambda>_. ch) (take n (drop o' is))"
    by (intro map_cong[OF refl]) blast
  then show ?thesis using assms(2) unfolding stretch_samples_def length_concat
    by (simp add: comp_def map_replicate_const sum_list_replicate del: map_eq_conv)
qed

lemma stretch_0 [simp]: "stretch is o' 0 session pos \<longleftrightarrow> o' \<le> length is"
  "stretch_samples is o' 0 = []"
  by (simp_all add: stretch_def stretch_samples_def)

text \<open>Entering an instant keeps the invariant, with the partial frame kept or dropped.\<close>

lemma ref_inv_enter:
  assumes inv: "ref_inv encode reset is n os st fs" and ch: "\<forall>i \<in> set is. length (in_Samples i) = ch" "0 < ch"
  shows "\<exists>m. ref_inv encode reset is m os (opus_enter reset session pos st) fs \<and>
    (0 < m \<longrightarrow> os_framePos (opus_enter reset session pos st) + word_of_nat m = pos)"
proof -
  let ?st = "opus_enter reset session pos st"
  have le: "length is - n + n \<le> length is" using inv by (simp add: ref_inv_def)
  have len: "length (os_acc st) = n * ch"
    using inv stretch_samples_length[OF ch(1) le] by (simp add: ref_inv_def)
  consider (reset) "session \<noteq> os_session st" | (gap) "session = os_session st" "os_acc st \<noteq> []" "pos \<noteq> os_nextPos st"
    | (empty) "session = os_session st" "os_acc st = []"
    | (follows) "session = os_session st" "os_acc st \<noteq> []" "pos = os_nextPos st" by blast
  then show ?thesis
  proof cases
    case reset
    then have "?st = st\<lparr>os_enc := reset (os_enc st), os_acc := [], os_session := session\<rparr>" by (simp add: opus_enter_def)
    then show ?thesis using inv by (intro exI[of _ 0]) (auto simp: ref_inv_def heard_only_reset intro: order_trans)
  next
    case gap
    then have "?st = st\<lparr>os_acc := []\<rparr>" by (simp add: opus_enter_def)
    then show ?thesis using inv by (intro exI[of _ 0]) (auto simp: ref_inv_def intro: order_trans)
  next
    case empty
    then have "?st = st" "n = 0" using len ch(2) by (simp_all add: opus_enter_def)
    then show ?thesis using inv by (intro exI[of _ n]) simp
  next
    case follows
    then have "?st = st" by (simp add: opus_enter_def)
    moreover have "0 < n" using len follows(2) by (cases n) auto
    moreover note follows(3)
    ultimately show ?thesis using inv by (intro exI[of _ n]) (simp add: ref_inv_def)
  qed
qed

section \<open>The step\<close>

lemma opus_flush_frame:
  "opus_flush encode record_frame st s =
     (case encode (os_enc st) (os_acc st) of
        (Inl e, x) \<Rightarrow> (Inl e, s)
      | (Inr packet, x) \<Rightarrow> (Inr (st\<lparr>os_enc := x, os_acc := []\<rparr>),
          s @ [\<lparr>fr_Payload = packet, fr_Duration = 960, fr_Pos = os_framePos st, fr_Captured = os_frameStart st,
                fr_Session = os_session st\<rparr>]))"
  by (simp add: opus_flush_def record_frame_def opusFrameSamples_def split: prod.splits sum.splits)

text \<open>The state once an instant has joined the accumulator.\<close>

definition ref_take :: "('x \<Rightarrow> 'x) \<Rightarrow> instant_samples \<Rightarrow> 'x opus_state \<Rightarrow> 'x opus_state" where
  "ref_take reset i st =
     (let st0 = opus_enter reset (in_Session i) (in_Pos i) st;
          st1 = (if os_acc st0 = [] then st0\<lparr>os_frameStart := in_Captured i, os_framePos := in_Pos i\<rparr> else st0)
      in st1\<lparr>os_acc := os_acc st1 @ in_Samples i, os_nextPos := in_Pos i + 1\<rparr>)"

lemma ref_step_take:
  "ref_step encode reset emit ch i st s =
     (if length (os_acc (ref_take reset i st)) < frameSamples ch then (Inr (ref_take reset i st), s)
      else opus_flush encode emit (ref_take reset i st) s)"
  by (simp add: ref_step_def ref_take_def Let_def)

text \<open>The invariant when the accumulator may also be full.\<close>

definition taken ::
  "('e, 'x) encode \<Rightarrow> ('x \<Rightarrow> 'x) \<Rightarrow> instant_samples list \<Rightarrow> nat \<Rightarrow> nat list \<Rightarrow> 'x opus_state \<Rightarrow> frame list \<Rightarrow> bool" where
  "taken encode reset is n os st fs \<longleftrightarrow>
     0 < n \<and> n \<le> length is \<and> n \<le> 960 \<and>
     os_acc st = stretch_samples is (length is - n) n \<and>
     stretch is (length is - n) n (os_session st) (os_framePos st) \<and>
     os_frameStart st = in_Captured (is ! (length is - n)) \<and>
     os_nextPos st = os_framePos st + word_of_nat n \<and>
     (os_session st \<noteq> 0 \<longrightarrow> heard_only encode reset is (os_session st) (os_enc st)) \<and>
     sent_ok encode reset is os fs \<and> (\<forall>o' \<in> set os. o' + 960 \<le> length is - n)"

lemma ref_take_inv:
  assumes inv: "ref_inv encode reset is n os st fs" and ch: "\<forall>i \<in> set is. length (in_Samples i) = ch" "0 < ch"
  shows "\<exists>m. taken encode reset (is @ [i]) m os (ref_take reset i st) fs"
proof -
  let ?st = "opus_enter reset (in_Session i) (in_Pos i) st"
  obtain m where m: "ref_inv encode reset is m os ?st fs" "0 < m \<longrightarrow> os_framePos ?st + word_of_nat m = in_Pos i"
    using ref_inv_enter[OF inv ch] by blast
  have le: "length is - m + m = length is" "m < 960" "m \<le> length is" using m(1) by (simp_all add: ref_inv_def)
  have acc: "os_acc ?st = [] \<longleftrightarrow> m = 0"
    using m(1) stretch_samples_length[OF ch(1), of "length is - m" m] le ch(2) by (fastforce simp: ref_inv_def)
  have start: "length (is @ [i]) - Suc m = length is - m" using le by simp
  have sent: "sent_ok encode reset (is @ [i]) os fs" "\<forall>o' \<in> set os. o' + 960 \<le> length is - m"
    using m(1) sent_ok_mono by (fastforce simp: ref_inv_def)+
  have heard: "in_Session i \<noteq> 0 \<longrightarrow> heard_only encode reset (is @ [i]) (in_Session i) (os_enc ?st)"
    using m(1) heard_only_mono by (fastforce simp: ref_inv_def)
  have "taken encode reset (is @ [i]) (Suc m) os (ref_take reset i st) fs"
  proof (cases "m = 0")
    case True
    then show ?thesis using acc sent heard le
      by (simp add: taken_def ref_take_def Let_def stretch_def stretch_samples_def nth_append)
  next
    case False
    then have ne: "os_acc ?st \<noteq> []" using acc by simp
    have st: "stretch is (length is - m) m (in_Session i) (os_framePos ?st)" "os_acc ?st = stretch_samples is (length is - m) m"
      "os_frameStart ?st = in_Captured (is ! (length is - m))"
      using m(1) False by (simp_all add: ref_inv_def)
    have pos: "os_framePos ?st + word_of_nat m = in_Pos i" using m(2) False by simp
    have lt: "length is - m < length is" using False le by simp
    have snoc: "stretch (is @ [i]) (length is - m) (Suc m) (in_Session i) (os_framePos ?st)"
      by (rule stretch_snoc[OF st(1) le(1)]) (simp_all add: pos)
    show ?thesis
      unfolding taken_def start using le False sent heard st snoc ne pos lt
      by (simp add: ref_take_def Let_def stretch_samples_snoc[OF le(1)] nth_append add.assoc[symmetric] add.commute[of 1])
  qed
  then show ?thesis by blast
qed

lemma sent_ok_snoc:
  assumes "sent_ok encode reset is os fs" "frame_at encode reset is o' f" "\<forall>a \<in> set os. a + 960 \<le> o'"
  shows "sent_ok encode reset is (os @ [o']) (fs @ [f])"
  using assms by (simp add: sent_ok_def sorted_wrt_append list_all2_appendI)

lemma ref_step_inv:
  assumes inv: "ref_inv encode reset is n os st fs"
    and ch: "\<forall>i \<in> set (is @ [i]). length (in_Samples i) = ch" "0 < ch"
    and step: "ref_step encode reset record_frame ch i st fs = (r, fs')"
  shows "(\<exists>os'. sent_ok encode reset (is @ [i]) os' fs') \<and>
    (\<forall>st'. r = Inr st' \<longrightarrow> (\<exists>n' os'. ref_inv encode reset (is @ [i]) n' os' st' fs'))"
proof -
  have "\<forall>i \<in> set is. length (in_Samples i) = ch" using ch(1) by simp
  then obtain m where m: "taken encode reset (is @ [i]) m os (ref_take reset i st) fs"
    using ref_take_inv[OF inv _ ch(2), of i] by blast
  let ?st = "ref_take reset i st" and ?is = "is @ [i]"
  let ?o = "length ?is - m"
  have le: "?o + m = length ?is" "0 < m" "m \<le> 960" using m by (auto simp: taken_def)
  have len: "length (os_acc ?st) = m * ch"
    using m stretch_samples_length[OF ch(1), of ?o m] le(1) by (simp add: taken_def)
  have acc: "os_acc ?st = stretch_samples ?is ?o m" using m unfolding taken_def by blast
  have sent: "sent_ok encode reset ?is os fs" "\<forall>a \<in> set os. a + 960 \<le> ?o" using m unfolding taken_def by blast+
  show ?thesis
  proof (cases "m < 960")
    case True
    then have "length (os_acc ?st) < frameSamples ch" unfolding len frameSamples_def opusFrameSamples_def using ch(2) by simp
    then have "r = Inr ?st" "fs' = fs" using step by (simp_all add: ref_step_take)
    moreover have "ref_inv encode reset ?is m os ?st fs" using m True unfolding ref_inv_def taken_def by blast
    ultimately show ?thesis using sent(1) by blast
  next
    case False
    then have m960: "m = 960" using le(3) by simp
    then have "\<not> length (os_acc ?st) < frameSamples ch" unfolding len frameSamples_def opusFrameSamples_def by simp
    then have flush: "opus_flush encode record_frame ?st fs = (r, fs')" using step by (simp add: ref_step_take)
    obtain out x where out: "encode (os_enc ?st) (os_acc ?st) = (out, x)" by fastforce
    show ?thesis
    proof (cases out)
      case (Inl e)
      then show ?thesis using flush out sent(1) by (auto simp: opus_flush_frame)
    next
      case (Inr packet)
      let ?f = "\<lparr>fr_Payload = packet, fr_Duration = 960, fr_Pos = os_framePos ?st, fr_Captured = os_frameStart ?st,
                fr_Session = os_session ?st\<rparr>"
      have r: "r = Inr (?st\<lparr>os_enc := x, os_acc := []\<rparr>)" "fs' = fs @ [?f]"
        using flush out Inr by (simp_all add: opus_flush_frame)
      have stretch: "stretch ?is ?o 960 (os_session ?st) (os_framePos ?st)" "os_frameStart ?st = in_Captured (?is ! ?o)"
        "os_session ?st \<noteq> 0 \<longrightarrow> heard_only encode reset ?is (os_session ?st) (os_enc ?st)"
        using m m960 unfolding taken_def by blast+
      have "fst (encode (os_enc ?st) (stretch_samples ?is ?o 960)) = Inr packet" using out Inr acc m960 by simp
      then have at: "frame_at encode reset ?is ?o ?f" unfolding frame_at_def using stretch by auto
      have sent': "sent_ok encode reset ?is (os @ [?o]) (fs @ [?f])" using sent(1) at sent(2) by (rule sent_ok_snoc)
      have x: "x = snd (encode (os_enc ?st) (stretch_samples ?is ?o 960))" using out acc m960 by simp
      have heard: "os_session ?st \<noteq> 0 \<longrightarrow> heard_only encode reset ?is (os_session ?st) x"
        unfolding x using heard_only_encode[OF _ stretch(1), of encode reset "os_enc ?st"] stretch(3) by simp
      have "ref_inv encode reset ?is 0 (os @ [?o]) (?st\<lparr>os_enc := x, os_acc := []\<rparr>) (fs @ [?f])"
        using sent' sent(2) heard le m960 by (auto simp: ref_inv_def)
      then show ?thesis using r sent' by blast
    qed
  qed
qed

lemma ref_run_sent:
  assumes "ref_inv encode reset is n os st fs" "\<forall>i \<in> set (is @ js). length (in_Samples i) = ch" "0 < ch"
    "ref_run encode reset record_frame ch js st fs = (r, fs')"
  shows "\<exists>os'. sent_ok encode reset (is @ js) os' fs'"
  using assms(1,2,4)
proof (induction js arbitrary: "is" n os st fs)
  case Nil
  then show ?case by (auto simp: ref_inv_def)
next
  case (Cons i js)
  obtain r1 fs1 where step: "ref_step encode reset record_frame ch i st fs = (r1, fs1)" by fastforce
  have ch: "\<forall>i \<in> set (is @ [i]). length (in_Samples i) = ch" using Cons.prems(2) by simp
  note inv = ref_step_inv[OF Cons.prems(1) ch assms(3) step]
  show ?case
  proof (cases r1)
    case (Inl e)
    then have "fs' = fs1" using Cons.prems(3) step by simp
    then show ?thesis using inv sent_ok_mono[of encode reset "is @ [i]" _ fs1 js] by auto
  next
    case (Inr st')
    then obtain n' os' where "ref_inv encode reset (is @ [i]) n' os' st' fs1" using inv by blast
    then have "\<exists>os'. sent_ok encode reset ((is @ [i]) @ js) os' fs'"
      using Cons.IH[of "is @ [i]" n' os' st' fs1] Cons.prems(2,3) step Inr by simp
    then show ?thesis by simp
  qed
qed

lemma instants_of_samples:
  assumes "0 < ch" "\<forall>r \<in> set reads. whole_frames ch (fst r)"
  shows "\<forall>i \<in> set (instants_of rate ch reads). length (in_Samples i) = ch"
proof
  fix i assume "i \<in> set (instants_of rate ch reads)"
  then obtain p g now session captured where r: "(p, g, now) \<in> set reads"
    "i \<in> set (instants_from rate ch session captured p (pd_Buf p))"
    by (auto simp: instants_of_def split: option.splits)
  have "2 * ch dvd length (pd_Buf p)" using assms(2) r(1) by (auto simp: whole_frames_def)
  then show "length (in_Samples i) = ch"
    using instants_from_facts[OF assms(1) _ order_refl, of p rate session captured] r(2) by blast
qed

text \<open>
  C11. Whatever the reads, the gate's answers and the encoder, every Opus frame sent is the
  encoding of 960 consecutive instants of one play session, spans no gap, is stamped with the
  position and capture time of the first, and comes from an encoder that has heard only that
  session since its last reset; the frames are in stream order and no instant is sent twice.
\<close>
theorem opus_frames_are_consecutive_instants:
  assumes "\<forall>r \<in> set reads. whole_frames ch (fst r)"
    "opus_Run unsupported newEncoder encode reset record_frame bitrate (48000, ch) reads fin [] = Some (e, fs)"
  shows "\<exists>os. sent_ok encode reset (instants_of 48000 ch reads) os fs"
proof (cases "1 \<le> ch \<and> ch \<le> 2 \<and> (\<exists>enc. newEncoder ch (EffectiveBitrate bitrate (int ch)) = Inr enc)")
  case True
  then obtain enc where enc: "newEncoder ch (EffectiveBitrate bitrate (int ch)) = Inr enc" and ch: "0 < ch" by auto
  let ?run = "ref_run encode reset record_frame ch (instants_of 48000 ch reads) (opus_init enc) []"
  have "acc_ok ch (opus_init enc)" using ch by (simp add: opus_init_def acc_ok_empty)
  note loop = loop_ref[OF ch assms(1) this, of encode reset record_frame 48000 fin "[]"]
  have "Some (e, fs) = Some (ref_outcome fin ?run)" using assms(2) loop True enc by (auto simp: opus_Run_def)
  then have "fs = snd ?run" by (auto simp: ref_outcome_def split: prod.splits sum.splits)
  moreover have "ref_inv encode reset [] 0 [] (opus_init enc) []" by (simp add: ref_inv_def opus_init_def sent_ok_def)
  ultimately show ?thesis
    using ref_run_sent[of encode reset "[]" 0 "[]" "opus_init enc" "[]" "instants_of 48000 ch reads" ch "fst ?run" fs]
      instants_of_samples[OF ch assms(1)] ch by simp
next
  case False
  then have "fs = []" using assms(2) by (auto simp: opus_Run_def split: sum.splits if_splits)
  then show ?thesis by (intro exI[of _ "[]"]) (simp add: sent_ok_def)
qed

text \<open>One second-session period of exactly one frame, after one queued for an earlier session.\<close>

definition demo_opus_period :: "u64 \<Rightarrow> period" where
  "demo_opus_period session =
     \<lparr>pd_Buf = replicate 1920 0, pd_Frames = 960, pd_Pos = 5, pd_Session = session, pd_Captured = 30000000\<rparr>"

definition demo_opus_reads :: "read_event list" where
  "demo_opus_reads = [(demo_opus_period 2, Some (True, 3), 1), (demo_opus_period 3, Some (True, 3), 1)]"

definition demo_opus_frame :: frame where
  "demo_opus_frame = \<lparr>fr_Payload = [1], fr_Duration = 960, fr_Pos = 5, fr_Captured = 10000000, fr_Session = 3\<rparr>"

definition demo_encode :: "(unit, nat) encode" where
  "demo_encode n pcm = (Inr [word_of_nat n], n + 1)"

lemma demo_opus_run:
  "opus_Run (\<lambda>_ _. ()) (\<lambda>_ _. Inr 0) demo_encode (\<lambda>_. 1) record_frame 0 (48000, 1) demo_opus_reads None []
     = Some (None, [demo_opus_frame])"
proof -
  have adm: "admit (Some (True, 3)) 1 (demo_opus_period 2) = None"
    "admit (Some (True, 3)) 1 (demo_opus_period 3) = Some (3, 30000000)"
    by (simp_all add: admit_def demo_opus_period_def is_zero_def)
  have dur: "framesDur 960 48000 = 20000000" by (simp add: framesDur_def second_def millisecond_def)
  define st where "st = (opus_init (1 :: nat))\<lparr>os_session := 3, os_nextPos := 965\<rparr>"
  have "opus_fill demo_encode record_frame 48000 1 (demo_opus_period 3) 30000000 (replicate 1920 0) st []
      = Some (Inr (st\<lparr>os_enc := 2, os_acc := [], os_frameStart := 10000000, os_framePos := 5\<rparr>), [demo_opus_frame])"
    by (subst opus_fill_step[where n = 960])
      (simp_all add: st_def opus_init_def frameSamples_def opusFrameSamples_def samples16_length opus_flush_frame
        demo_encode_def opus_mark_def demo_opus_period_def demo_opus_frame_def dur opus_fill.simps Let_def)
  moreover have "(opus_enter (\<lambda>_. 1) 3 5 (opus_init (0 :: nat)))\<lparr>os_nextPos := 965\<rparr> = st"
    by (simp add: opus_enter_def opus_init_def st_def)
  ultimately have "opus_period demo_encode (\<lambda>_. 1) record_frame 48000 1 3 30000000 (demo_opus_period 3) (opus_init 0) []
      = Some (Inr (st\<lparr>os_enc := 2, os_acc := [], os_frameStart := 10000000, os_framePos := 5\<rparr>), [demo_opus_frame])"
    by (simp add: opus_period_def demo_opus_period_def Let_def)
  then show ?thesis by (simp add: opus_Run_def demo_opus_reads_def adm)
qed

lemma opus_frames_are_consecutive_instants_witness:
  "\<exists>os. sent_ok demo_encode (\<lambda>_. 1) (instants_of 48000 1 demo_opus_reads) os [demo_opus_frame]"
proof (rule opus_frames_are_consecutive_instants[OF _ demo_opus_run])
  show "\<forall>r \<in> set demo_opus_reads. whole_frames 1 (fst r)"
    by (simp add: demo_opus_reads_def demo_opus_period_def whole_frames_def)
qed

end
