(* ===== verification/Rtsp_Feed.thy ===== *)
theory Rtsp_Feed
  imports Media
begin

text \<open>
  \<open>internal/rtspserver/feed.go\<close>: the broadcast of a stream's frames to its playing clients. Subscribe
  and the subscribers' Close replace the published snapshot under the lock; Push reads one
  snapshot and then offers the frame to each of its subscribers, while all of this, and the readers'
  Next, goes on.
\<close>

section \<open>State and operations\<close>

datatype feed_error = ErrSourceClosed | ErrTooManyClients

definition maxClients :: nat where "maxClients = 8"
definition subQueueDepth :: nat where "subQueueDepth = 64"

record feedSnap =
  sn_epoch :: u64
  sn_subs :: "nat list"

text \<open>A subscription: its queue and its closed flag. A feed's subscriptions are numbered in the order made.\<close>

record sub =
  su_ch :: "frame list"
  su_closed :: bool

record feed =
  fe_snap :: feedSnap
  fe_done :: bool
  fe_all :: "sub list"

definition NewFeed :: feed where
  "NewFeed = \<lparr>fe_snap = \<lparr>sn_epoch = 0, sn_subs = []\<rparr>, fe_done = False, fe_all = []\<rparr>"

definition Feed_Subscribe :: "feed \<Rightarrow> (feed_error + nat) \<times> feed" where [step_defs]:
  "Feed_Subscribe f =
     (if fe_done f then (Inl ErrSourceClosed, f)
      else let old = fe_snap f in
        if length (sn_subs old) \<ge> maxClients then (Inl ErrTooManyClients, f)
        else let s = length (fe_all f);
                 next' = \<lparr>sn_epoch = sn_epoch old, sn_subs = sn_subs old @ [s]\<rparr>;
                 next'' = (if length (sn_subs old) = 0 then next'\<lparr>sn_epoch := sn_epoch next' + 1\<rparr> else next')
             in (Inr s, f\<lparr>fe_snap := next'', fe_all := fe_all f @ [\<lparr>su_ch = [], su_closed = False\<rparr>]\<rparr>))"

definition Feed_Session :: "feed \<Rightarrow> bool \<times> u64" where
  "Feed_Session f = (length (sn_subs (fe_snap f)) > 0, sn_epoch (fe_snap f))"

definition Feed_Clients :: "feed \<Rightarrow> nat" where
  "Feed_Clients f = length (sn_subs (fe_snap f))"

definition Feed_Close :: "feed \<Rightarrow> feed" where [step_defs]:
  "Feed_Close f = f\<lparr>fe_done := True\<rparr>"

definition Sub_Close :: "nat \<Rightarrow> feed \<Rightarrow> feed" where [step_defs]:
  "Sub_Close i f =
     (if su_closed (fe_all f ! i) then f
      else f\<lparr>fe_all := (fe_all f)[i := (fe_all f ! i)\<lparr>su_closed := True\<rparr>],
             fe_snap := \<lparr>sn_epoch = sn_epoch (fe_snap f), sn_subs = filter (\<lambda>x. x \<noteq> i) (sn_subs (fe_snap f))\<rparr>\<rparr>)"

text \<open>
  Push in two parts: the load of the snapshot, which decides who is offered the frame, and the
  non-blocking send to one subscriber, which says whether it dropped it.
\<close>

definition push_targets :: "feedSnap \<Rightarrow> frame \<Rightarrow> nat list" where
  "push_targets snap fr =
     (if length (sn_subs snap) = 0 \<or> (fr_Session fr \<noteq> 0 \<and> fr_Session fr \<noteq> sn_epoch snap) then []
      else sn_subs snap)"

definition push_offer :: "frame \<Rightarrow> nat \<Rightarrow> feed \<Rightarrow> bool \<times> feed" where [step_defs]:
  "push_offer cp i f =
     (let s = fe_all f ! i in
      if length (su_ch s) < subQueueDepth
      then (False, f\<lparr>fe_all := (fe_all f)[i := s\<lparr>su_ch := su_ch s @ [cp]\<rparr>]\<rparr>)
      else (True, f))"

fun push_loop :: "frame \<Rightarrow> nat list \<Rightarrow> nat \<Rightarrow> feed \<Rightarrow> nat \<times> feed" where
  "push_loop cp [] dropped f = (dropped, f)"
| "push_loop cp (i # is) dropped f =
     (case push_offer cp i f of (d, f') \<Rightarrow> push_loop cp is (if d then dropped + 1 else dropped) f')"

definition Feed_Push :: "frame \<Rightarrow> feed \<Rightarrow> nat \<times> feed" where
  "Feed_Push fr f = push_loop fr (push_targets (fe_snap f) fr) 0 f"

text \<open>
  Next: the end of the source wins over a queued frame; otherwise a cancelled context and a queued
  frame race. The list holds the possible outcomes, none while it blocks.
\<close>

datatype next_result = NextFrame frame | NextClosed | NextCancelled

definition Sub_Next :: "bool \<Rightarrow> nat \<Rightarrow> feed \<Rightarrow> (next_result \<times> feed) list" where [step_defs]:
  "Sub_Next cancelled i f =
     (if fe_done f then [(NextClosed, f)]
      else (if cancelled then [(NextCancelled, f)] else []) @
        (case su_ch (fe_all f ! i) of [] \<Rightarrow> []
         | fr # q \<Rightarrow> [(NextFrame fr, f\<lparr>fe_all := (fe_all f)[i := (fe_all f ! i)\<lparr>su_ch := q\<rparr>]\<rparr>)]))"

section \<open>What a client of the feed relies on\<close>

text \<open>
  The contract of \<open>FrameFeed\<close> and \<open>Subscription\<close>: a subscription that was granted is a fresh member of
  the open set until it is closed, a refusal changes nothing, and closing is idempotent.
\<close>

locale frame_feed =
  fixes ok :: "'f \<Rightarrow> bool" and subscribe :: "'f \<Rightarrow> ('e + 's) \<times> 'f" and close :: "'s \<Rightarrow> 'f \<Rightarrow> 'f"
    and open_subs :: "'f \<Rightarrow> 's set"
  assumes subscribe_ok: "ok f \<Longrightarrow> ok (snd (subscribe f))"
    and subscribe_fresh: "ok f \<Longrightarrow> subscribe f = (Inr s, f') \<Longrightarrow> s \<notin> open_subs f \<and> open_subs f' = insert s (open_subs f)"
    and subscribe_refused: "ok f \<Longrightarrow> subscribe f = (Inl e, f') \<Longrightarrow> open_subs f' = open_subs f"
    and close_ok: "ok f \<Longrightarrow> s \<in> open_subs f \<Longrightarrow> ok (close s f)"
    and close_open: "ok f \<Longrightarrow> s \<in> open_subs f \<Longrightarrow> open_subs (close s f) = open_subs f - {s}"
begin

text \<open>Clients that each hold at most one subscription hold exactly the open ones.\<close>

definition holds :: "('c \<Rightarrow> 's option) \<Rightarrow> 'f \<Rightarrow> bool" where
  "holds held f \<longleftrightarrow> ok f \<and> open_subs f = ran held \<and> inj_on held (dom held)"

lemma holds_subscribe:
  assumes "holds held f" "held c = None" "subscribe f = (Inr s, f')"
  shows "holds (held(c \<mapsto> s)) f'"
proof -
  have f: "ok f" "open_subs f = ran held" "inj_on held (dom held)" using assms(1) by (simp_all add: holds_def)
  have s: "s \<notin> ran held" "open_subs f' = insert s (ran held)"
    using subscribe_fresh[OF f(1) assms(3)] f(2) by simp_all
  have "ok f'" using subscribe_ok[OF f(1)] assms(3) by simp
  moreover have "ran (held(c \<mapsto> s)) = insert s (ran held)" using assms(2) by simp
  moreover have "inj_on (held(c \<mapsto> s)) (dom (held(c \<mapsto> s)))"
  proof (rule inj_onI)
    fix x y assume xy: "x \<in> dom (held(c \<mapsto> s))" "y \<in> dom (held(c \<mapsto> s))" "(held(c \<mapsto> s)) x = (held(c \<mapsto> s)) y"
    have other: False if "held z = Some s" for z using that s(1) by (simp add: ran_def)
    show "x = y" using xy f(3) other by (auto simp: inj_on_def split: if_splits)
  qed
  ultimately show ?thesis using s(2) by (simp add: holds_def)
qed

lemma holds_refused: "holds held f \<Longrightarrow> subscribe f = (Inl e, f') \<Longrightarrow> holds held f'"
  using subscribe_ok[of f] subscribe_refused[of f e f'] by (simp add: holds_def)

lemma holds_close:
  assumes "holds held f" "held c = Some s"
  shows "holds (held(c := None)) (close s f)"
proof -
  have f: "ok f" "open_subs f = ran held" "inj_on held (dom held)" using assms(1) by (simp_all add: holds_def)
  have s: "s \<in> open_subs f" using assms(2) f(2) by (auto simp: ran_def)
  have "ran (held(c := None)) = ran held - {s}"
  proof -
    have "z = c" if "held z = Some s" for z
      using f(3) that assms(2) unfolding inj_on_def by (metis domI)
    then have only: "(\<exists>a. a \<noteq> c \<and> held a = Some x) \<longleftrightarrow> (\<exists>a. held a = Some x) \<and> x \<noteq> s" for x
      using assms(2) by (metis option.inject)
    have "ran (held(c := None)) = {x. \<exists>a. a \<noteq> c \<and> held a = Some x}" by (auto simp: ran_def)
    then show ?thesis unfolding only ran_def by blast
  qed
  moreover have "inj_on (held(c := None)) (dom (held(c := None)))"
    using f(3) by (auto simp: inj_on_def dom_def)
  ultimately show ?thesis using close_ok[OF f(1) s] close_open[OF f(1) s] f(2) by (simp add: holds_def)
qed

lemma holds_none: "holds (\<lambda>_. None) f \<Longrightarrow> open_subs f = {}"
  by (simp add: holds_def)

end

text \<open>The feed of the code keeps it: published subscribers are the ones made and not closed.\<close>

definition feed_ok :: "feed \<Rightarrow> bool" where [inv_defs]:
  "feed_ok f \<longleftrightarrow>
     distinct (sn_subs (fe_snap f)) \<and> length (sn_subs (fe_snap f)) \<le> maxClients \<and>
     set (sn_subs (fe_snap f)) = {i. i < length (fe_all f) \<and> \<not> su_closed (fe_all f ! i)}"

definition feed_open :: "feed \<Rightarrow> nat set" where
  "feed_open f = set (sn_subs (fe_snap f))"

lemma NewFeed_ok: "feed_ok NewFeed"
  by (simp add: feed_ok_def NewFeed_def)

lemma Subscribe_Inr:
  assumes "Feed_Subscribe f = (Inr s, f')"
  shows "\<not> fe_done f" "length (sn_subs (fe_snap f)) < maxClients" "s = length (fe_all f)"
    "sn_subs (fe_snap f') = sn_subs (fe_snap f) @ [s]"
    "fe_all f' = fe_all f @ [\<lparr>su_ch = [], su_closed = False\<rparr>]" "fe_done f' = fe_done f"
    "sn_epoch (fe_snap f') = (if sn_subs (fe_snap f) = [] then sn_epoch (fe_snap f) + 1 else sn_epoch (fe_snap f))"
proof -
  have c: "\<not> fe_done f" "\<not> length (sn_subs (fe_snap f)) \<ge> maxClients"
    using assms unfolding Feed_Subscribe_def Let_def by (simp_all split: if_splits)
  then show "\<not> fe_done f" "length (sn_subs (fe_snap f)) < maxClients" by simp_all
  have "s = length (fe_all f) \<and> f' = f\<lparr>fe_snap := \<lparr>sn_epoch = (if sn_subs (fe_snap f) = [] then sn_epoch (fe_snap f) + 1
      else sn_epoch (fe_snap f)), sn_subs = sn_subs (fe_snap f) @ [length (fe_all f)]\<rparr>,
      fe_all := fe_all f @ [\<lparr>su_ch = [], su_closed = False\<rparr>]\<rparr>"
    using assms c unfolding Feed_Subscribe_def Let_def by (auto split: if_splits)
  then show "s = length (fe_all f)" "sn_subs (fe_snap f') = sn_subs (fe_snap f) @ [s]"
    "fe_all f' = fe_all f @ [\<lparr>su_ch = [], su_closed = False\<rparr>]" "fe_done f' = fe_done f"
    "sn_epoch (fe_snap f') = (if sn_subs (fe_snap f) = [] then sn_epoch (fe_snap f) + 1 else sn_epoch (fe_snap f))"
    by simp_all
qed

lemma Subscribe_Inl: "Feed_Subscribe f = (Inl e, f') \<Longrightarrow> f' = f"
  by (auto simp: Feed_Subscribe_def Let_def split: if_splits)

lemma Subscribe_ok:
  assumes f: "feed_ok f"
  shows "feed_ok (snd (Feed_Subscribe f))"
proof (cases "Feed_Subscribe f")
  case (Pair r f')
  show ?thesis
  proof (cases r)
    case (Inl e)
    then show ?thesis using Pair Subscribe_Inl f by auto
  next
    case (Inr s)
    note new = Subscribe_Inr[OF Pair[unfolded Inr]]
    let ?n = "length (fe_all f)"
    have subs: "set (sn_subs (fe_snap f)) = {i. i < ?n \<and> \<not> su_closed (fe_all f ! i)}" "distinct (sn_subs (fe_snap f))"
      using f unfolding feed_ok_def by blast+
    have "{i. i < Suc ?n \<and> \<not> su_closed ((fe_all f @ [\<lparr>su_ch = [], su_closed = False\<rparr>]) ! i)}
        = insert ?n {i. i < ?n \<and> \<not> su_closed (fe_all f ! i)}"
      by (auto simp: nth_append less_Suc_eq)
    moreover have "?n \<notin> set (sn_subs (fe_snap f))" unfolding subs by simp
    ultimately show ?thesis
      unfolding Pair snd_conv feed_ok_def new(4,5) using new(2,3) subs by simp
  qed
qed

lemma Sub_Close_ok: "feed_ok f \<Longrightarrow> feed_ok (Sub_Close i f)"
proof (cases "su_closed (fe_all f ! i)")
  case False
  assume f: "feed_ok f"
  have "length (filter (\<lambda>x. x \<noteq> i) (sn_subs (fe_snap f))) \<le> maxClients"
    using f length_filter_le le_trans unfolding feed_ok_def by blast
  moreover have "{j. j < length (fe_all f) \<and> \<not> su_closed ((fe_all f)[i := (fe_all f ! i)\<lparr>su_closed := True\<rparr>] ! j)}
      = {j. j < length (fe_all f) \<and> \<not> su_closed (fe_all f ! j)} - {i}"
  proof -
    have "\<not> su_closed ((fe_all f)[i := (fe_all f ! i)\<lparr>su_closed := True\<rparr>] ! j) \<longleftrightarrow> \<not> su_closed (fe_all f ! j) \<and> j \<noteq> i"
      if "j < length (fe_all f)" for j using that by (cases "j = i") simp_all
    then show ?thesis by blast
  qed
  ultimately show ?thesis using f False
    unfolding feed_ok_def Sub_Close_def by (simp add: set_diff_eq)
qed (simp add: Sub_Close_def)

interpretation ff: frame_feed feed_ok Feed_Subscribe Sub_Close feed_open
proof unfold_locales
  fix f f' s e
  show "feed_ok f \<Longrightarrow> feed_ok (snd (Feed_Subscribe f))" by (rule Subscribe_ok)
  show "feed_ok f \<Longrightarrow> Feed_Subscribe f = (Inr s, f') \<Longrightarrow> s \<notin> feed_open f \<and> feed_open f' = insert s (feed_open f)"
    using Subscribe_Inr[of f s f'] by (auto simp: feed_ok_def feed_open_def)
  show "feed_ok f \<Longrightarrow> Feed_Subscribe f = (Inl e, f') \<Longrightarrow> feed_open f' = feed_open f"
    by (auto dest: Subscribe_Inl)
  show "feed_ok f \<Longrightarrow> s \<in> feed_open f \<Longrightarrow> feed_ok (Sub_Close s f)" by (rule Sub_Close_ok)
  show "feed_ok f \<Longrightarrow> s \<in> feed_open f \<Longrightarrow> feed_open (Sub_Close s f) = feed_open f - {s}"
    by (auto simp: feed_ok_def feed_open_def Sub_Close_def)
qed

section \<open>Concurrent use\<close>

text \<open>
  A run: the feed, the push in progress (its frame, the subscribers still to be offered it, the
  drops so far), and the history: the frames pushed and, for each subscriber, the play session it
  joined, the frames it was offered and has read, and its losses.
\<close>

record feed_run =
  rn_feed :: feed
  rn_push :: "(frame \<times> nat list \<times> nat) option"
  rn_pushed :: "frame list"
  rn_epoch :: "nat \<Rightarrow> u64"
  rn_offered :: "nat \<Rightarrow> frame list"
  rn_got :: "nat \<Rightarrow> frame list"
  rn_lost :: "nat \<Rightarrow> nat"

definition feed_start :: feed_run where
  "feed_start = \<lparr>rn_feed = NewFeed, rn_push = None, rn_pushed = [], rn_epoch = (\<lambda>_. 0), rn_offered = (\<lambda>_. []),
     rn_got = (\<lambda>_. []), rn_lost = (\<lambda>_. 0)\<rparr>"

inductive feed_step :: "feed_run \<Rightarrow> feed_run \<Rightarrow> bool" where
  subscribe: "Feed_Subscribe (rn_feed r) = (Inr s, f) \<Longrightarrow>
    feed_step r (r\<lparr>rn_feed := f, rn_epoch := (rn_epoch r)(s := sn_epoch (fe_snap f))\<rparr>)"
| refused: "Feed_Subscribe (rn_feed r) = (Inl e, f) \<Longrightarrow> feed_step r (r\<lparr>rn_feed := f\<rparr>)"
| leave: "i < length (fe_all (rn_feed r)) \<Longrightarrow> feed_step r (r\<lparr>rn_feed := Sub_Close i (rn_feed r)\<rparr>)"
| push: "rn_push r = None \<Longrightarrow>
    feed_step r (r\<lparr>rn_push := Some (fr, push_targets (fe_snap (rn_feed r)) fr, 0), rn_pushed := rn_pushed r @ [fr]\<rparr>)"
| offer: "rn_push r = Some (fr, i # is, n) \<Longrightarrow> push_offer fr i (rn_feed r) = (d, f) \<Longrightarrow>
    feed_step r (r\<lparr>rn_feed := f, rn_push := Some (fr, is, if d then n + 1 else n),
      rn_offered := (rn_offered r)(i := rn_offered r i @ [fr]),
      rn_lost := (rn_lost r)(i := rn_lost r i + (if d then 1 else 0))\<rparr>)"
| pushed: "rn_push r = Some (fr, [], n) \<Longrightarrow> feed_step r (r\<lparr>rn_push := None\<rparr>)"
| next_frame: "i < length (fe_all (rn_feed r)) \<Longrightarrow> (NextFrame fr, f) \<in> set (Sub_Next c i (rn_feed r)) \<Longrightarrow>
    feed_step r (r\<lparr>rn_feed := f, rn_got := (rn_got r)(i := rn_got r i @ [fr])\<rparr>)"
| close: "feed_step r (r\<lparr>rn_feed := Feed_Close (rn_feed r)\<rparr>)"

inductive_cases feed_stepE: "feed_step r r'"

text \<open>A frame a subscriber may be given: untagged, or of the session it joined.\<close>

definition own_frame :: "feed_run \<Rightarrow> nat \<Rightarrow> frame \<Rightarrow> bool" where
  "own_frame r i fr \<longleftrightarrow> fr_Session fr = 0 \<or> fr_Session fr = rn_epoch r i"

definition sub_inv :: "feed_run \<Rightarrow> nat \<Rightarrow> bool" where [inv_defs]:
  "sub_inv r i \<longleftrightarrow>
     length (su_ch (fe_all (rn_feed r) ! i)) \<le> subQueueDepth \<and>
     subseq (rn_got r i @ su_ch (fe_all (rn_feed r) ! i)) (rn_offered r i) \<and>
     length (rn_offered r i) = length (rn_got r i @ su_ch (fe_all (rn_feed r) ! i)) + rn_lost r i \<and>
     (\<forall>fr \<in> set (rn_offered r i). own_frame r i fr) \<and> subseq (rn_offered r i) (rn_pushed r)"

definition push_inv :: "feed_run \<Rightarrow> bool" where [inv_defs]:
  "push_inv r \<longleftrightarrow>
     (case rn_push r of None \<Rightarrow> True
      | Some (fr, is, n) \<Rightarrow> distinct is \<and>
          (\<exists>ps. rn_pushed r = ps @ [fr] \<and>
            (\<forall>i \<in> set is. i < length (fe_all (rn_feed r)) \<and> own_frame r i fr \<and> subseq (rn_offered r i) ps)))"

definition run_inv :: "feed_run \<Rightarrow> bool" where [inv_defs]:
  "run_inv r \<longleftrightarrow>
     feed_ok (rn_feed r) \<and> push_inv r \<and>
     (\<forall>i \<in> feed_open (rn_feed r). rn_epoch r i = sn_epoch (fe_snap (rn_feed r))) \<and>
     (\<forall>i < length (fe_all (rn_feed r)). sub_inv r i) \<and>
     (\<forall>i \<ge> length (fe_all (rn_feed r)). rn_offered r i = [] \<and> rn_got r i = [] \<and> rn_lost r i = 0)"

lemma run_invI:
  assumes "rn_feed r = f" "feed_ok f" "push_inv r"
    "\<And>i. i \<in> feed_open f \<Longrightarrow> rn_epoch r i = sn_epoch (fe_snap f)"
    "\<And>i. i < length (fe_all f) \<Longrightarrow> sub_inv r i"
    "\<And>i. length (fe_all f) \<le> i \<Longrightarrow> rn_offered r i = [] \<and> rn_got r i = [] \<and> rn_lost r i = 0"
  shows "run_inv r"
  using assms(2-) unfolding run_inv_def assms(1) by blast

lemma run_invD:
  assumes "run_inv r"
  shows "feed_ok (rn_feed r)" "push_inv r"
    "\<And>i. i \<in> feed_open (rn_feed r) \<Longrightarrow> rn_epoch r i = sn_epoch (fe_snap (rn_feed r))"
    "\<And>i. i < length (fe_all (rn_feed r)) \<Longrightarrow> sub_inv r i"
    "\<And>i. length (fe_all (rn_feed r)) \<le> i \<Longrightarrow> rn_offered r i = [] \<and> rn_got r i = [] \<and> rn_lost r i = 0"
  using assms unfolding run_inv_def by blast+

lemma push_inv_cong:
  assumes "push_inv r" "rn_push r' = rn_push r" "rn_pushed r' = rn_pushed r" "rn_offered r' = rn_offered r"
    "rn_epoch r' = rn_epoch r" "length (fe_all (rn_feed r')) = length (fe_all (rn_feed r))"
  shows "push_inv r'"
  using assms(1) unfolding push_inv_def own_frame_def assms(2-) .

lemma run_inv_start: "run_inv feed_start"
  by (simp add: run_inv_def feed_start_def push_inv_def NewFeed_ok) (simp add: feed_open_def NewFeed_def)

lemma run_inv_subscribe:
  assumes "run_inv r" "Feed_Subscribe (rn_feed r) = (Inr s, f)"
  shows "run_inv (r\<lparr>rn_feed := f, rn_epoch := (rn_epoch r)(s := sn_epoch (fe_snap f))\<rparr>)"
    (is "run_inv ?r")
proof -
  note new = Subscribe_Inr[OF assms(2)]
  have ok: "feed_ok (rn_feed r)" using assms(1) by (simp add: run_inv_def)
  have lt: "i < s" if "i \<in> feed_open (rn_feed r)" for i
    using ok that unfolding feed_ok_def feed_open_def new(3) by blast
  have sub: "sub_inv ?r i" if "i < s" for i
    using assms(1) that unfolding run_inv_def sub_inv_def own_frame_def by (simp add: new(3,5) nth_append)
  have new_sub: "sub_inv ?r s"
    using assms(1) unfolding run_inv_def by (simp add: sub_inv_def new(3,5))
  have epochs: "\<forall>i \<in> feed_open f. rn_epoch ?r i = sn_epoch (fe_snap f)"
  proof
    fix i assume i: "i \<in> feed_open f"
    show "rn_epoch ?r i = sn_epoch (fe_snap f)"
    proof (cases "i = s")
      case False
      then have "i \<in> feed_open (rn_feed r)" using i by (simp add: feed_open_def new(4))
      then show ?thesis using assms(1) False new(7) by (auto simp: run_inv_def feed_open_def)
    qed simp
  qed
  have "push_inv ?r"
  proof (cases "rn_push r")
    case (Some p)
    obtain fr "is" n where p: "p = (fr, is, n)" by (cases p) auto
    have "push_inv r" using assms(1) by (simp add: run_inv_def)
    then show ?thesis using Some new(3) by (fastforce simp: push_inv_def p own_frame_def new(5))
  qed (simp add: push_inv_def)
  moreover have "feed_ok f" using Subscribe_ok[OF ok] assms(2) by simp
  moreover have "\<forall>i < length (fe_all f). sub_inv ?r i" using sub new_sub by (simp add: new(3,5) less_Suc_eq)
  moreover have "\<forall>i \<ge> length (fe_all f). rn_offered r i = [] \<and> rn_got r i = [] \<and> rn_lost r i = 0"
    using assms(1) unfolding run_inv_def new(5) by simp
  ultimately show ?thesis using epochs by (simp add: run_inv_def)
qed

text \<open>What only replaces the subscriptions' states leaves everything else of the invariant alone.\<close>

lemma run_inv_leave:
  assumes "run_inv r" "i < length (fe_all (rn_feed r))"
  shows "run_inv (r\<lparr>rn_feed := Sub_Close i (rn_feed r)\<rparr>)"
proof (cases "su_closed (fe_all (rn_feed r) ! i)")
  case True
  then have "Sub_Close i (rn_feed r) = rn_feed r" by (simp add: Sub_Close_def)
  then show ?thesis using assms(1) by simp
next
  case False
  let ?f = "Sub_Close i (rn_feed r)"
  have all: "length (fe_all ?f) = length (fe_all (rn_feed r))" "sn_epoch (fe_snap ?f) = sn_epoch (fe_snap (rn_feed r))"
    "feed_open ?f \<subseteq> feed_open (rn_feed r)"
    using False by (auto simp: Sub_Close_def feed_open_def)
  have ch: "su_ch (fe_all ?f ! j) = su_ch (fe_all (rn_feed r) ! j)" if "j < length (fe_all (rn_feed r))" for j
    using False that by (cases "j = i") (simp_all add: Sub_Close_def)
  let ?r = "r\<lparr>rn_feed := ?f\<rparr>"
  have ok: "feed_ok ?f" using run_invD(1)[OF assms(1)] by (rule Sub_Close_ok)
  have push: "push_inv ?r" using run_invD(2)[OF assms(1)] by (rule push_inv_cong) (simp_all add: all)
  have sub: "sub_inv ?r j" if "j < length (fe_all ?f)" for j
    using run_invD(4)[OF assms(1), of j] that by (simp add: sub_inv_def own_frame_def all ch)
  have epoch: "rn_epoch ?r j = sn_epoch (fe_snap ?f)" if "j \<in> feed_open ?f" for j
    using run_invD(3)[OF assms(1), of j] subsetD[OF all(3) that] by (simp add: all(2))
  have rest: "rn_offered ?r j = [] \<and> rn_got ?r j = [] \<and> rn_lost ?r j = 0" if "length (fe_all ?f) \<le> j" for j
    using run_invD(5)[OF assms(1), of j] that by (simp add: all(1))
  show ?thesis by (rule run_invI[OF _ ok push epoch sub rest]) simp_all
qed

lemma push_targets_facts:
  assumes "run_inv r" "i \<in> set (push_targets (fe_snap (rn_feed r)) fr)"
  shows "i < length (fe_all (rn_feed r))" "own_frame r i fr"
proof -
  have i: "i \<in> feed_open (rn_feed r)" "fr_Session fr = 0 \<or> fr_Session fr = sn_epoch (fe_snap (rn_feed r))"
    using assms(2) unfolding push_targets_def feed_open_def by (auto split: if_splits)
  have ok: "feed_ok (rn_feed r)" using assms(1) by (simp add: run_inv_def)
  then show "i < length (fe_all (rn_feed r))" using i(1) unfolding feed_ok_def feed_open_def by blast
  show "own_frame r i fr" using i assms(1) unfolding run_inv_def own_frame_def by auto
qed

lemma run_inv_push:
  assumes "run_inv r" "rn_push r = None"
  shows "run_inv (r\<lparr>rn_push := Some (fr, push_targets (fe_snap (rn_feed r)) fr, 0), rn_pushed := rn_pushed r @ [fr]\<rparr>)"
    (is "run_inv ?r")
proof -
  have sub: "sub_inv ?r i" if "i < length (fe_all (rn_feed r))" for i
    using run_invD(4)[OF assms(1) that] by (simp add: sub_inv_def own_frame_def subseq_snoc_drop)
  have "distinct (push_targets (fe_snap (rn_feed r)) fr)"
    using assms(1) by (simp add: run_inv_def feed_ok_def push_targets_def)
  moreover have "subseq (rn_offered r i) (rn_pushed r)" if "i \<in> set (push_targets (fe_snap (rn_feed r)) fr)" for i
    using assms(1) push_targets_facts(1)[OF assms(1) that] by (simp add: run_inv_def sub_inv_def)
  ultimately have "push_inv ?r"
    using push_targets_facts[OF assms(1)] by (simp add: push_inv_def own_frame_def)
  then show ?thesis using run_invD(3,5)[OF assms(1)]
    by (intro run_invI[of ?r, OF _ run_invD(1)[OF assms(1)] _ _ sub]) simp_all
qed

lemma push_offer_facts:
  assumes "push_offer fr i f = (d, f')" "i < length (fe_all f)"
  shows "fe_snap f' = fe_snap f" "fe_done f' = fe_done f" "length (fe_all f') = length (fe_all f)"
    "\<And>j. su_closed (fe_all f' ! j) = su_closed (fe_all f ! j)"
    "\<And>j. j \<noteq> i \<Longrightarrow> fe_all f' ! j = fe_all f ! j"
    "d \<longleftrightarrow> \<not> length (su_ch (fe_all f ! i)) < subQueueDepth"
    "su_ch (fe_all f' ! i) = (if d then su_ch (fe_all f ! i) else su_ch (fe_all f ! i) @ [fr])"
proof -
  note off = assms(1)[unfolded push_offer_def Let_def]
  show "fe_snap f' = fe_snap f" "fe_done f' = fe_done f" "length (fe_all f') = length (fe_all f)"
    "\<And>j. j \<noteq> i \<Longrightarrow> fe_all f' ! j = fe_all f ! j"
    "d \<longleftrightarrow> \<not> length (su_ch (fe_all f ! i)) < subQueueDepth"
    "su_ch (fe_all f' ! i) = (if d then su_ch (fe_all f ! i) else su_ch (fe_all f ! i) @ [fr])"
    using off assms(2) by (auto split: if_splits)
  show "su_closed (fe_all f' ! j) = su_closed (fe_all f ! j)" for j
    using off assms(2) by (cases "j = i") (auto split: if_splits)
qed

lemma feed_ok_same_subs:
  assumes "feed_ok f" "fe_snap f' = fe_snap f" "length (fe_all f') = length (fe_all f)"
    "\<And>j. su_closed (fe_all f' ! j) = su_closed (fe_all f ! j)"
  shows "feed_ok f'"
  using assms(1) unfolding feed_ok_def assms(2-) .

lemma run_inv_offer:
  assumes inv: "run_inv r" and push: "rn_push r = Some (fr, i # is, n)"
    and off: "push_offer fr i (rn_feed r) = (d, f)"
  shows "run_inv (r\<lparr>rn_feed := f, rn_push := Some (fr, is, if d then n + 1 else n),
      rn_offered := (rn_offered r)(i := rn_offered r i @ [fr]),
      rn_lost := (rn_lost r)(i := rn_lost r i + (if d then 1 else 0))\<rparr>)" (is "run_inv ?r")
proof -
  have pinv: "push_inv r" using inv by (simp add: run_inv_def)
  then obtain ps where ps: "rn_pushed r = ps @ [fr]" "distinct (i # is)"
    "\<forall>j \<in> set (i # is). j < length (fe_all (rn_feed r)) \<and> own_frame r j fr \<and> subseq (rn_offered r j) ps"
    by (auto simp: push_inv_def push)
  have i: "i < length (fe_all (rn_feed r))" "own_frame r i fr" "subseq (rn_offered r i) ps" using ps(3) by auto
  note f = push_offer_facts[OF off i(1)]
  have ok: "feed_ok f" using inv f(1,3,4) by (intro feed_ok_same_subs[of "rn_feed r" f]) (simp_all add: run_inv_def)
  have old: "sub_inv r j" if "j < length (fe_all (rn_feed r))" for j using inv that by (simp add: run_inv_def)
  have sub: "sub_inv ?r j" if "j < length (fe_all (rn_feed r))" for j
  proof (cases "j = i")
    case False
    then show ?thesis using old[OF that] f(5)[OF False] by (simp add: sub_inv_def own_frame_def)
  next
    case True
    show ?thesis unfolding True
      using old[OF i(1)] f(6,7) i(2) subseq_snoc_keep[OF i(3), of fr] subseq_snoc_drop
        subseq_snoc_keep[of "rn_got r i @ su_ch (fe_all (rn_feed r) ! i)" "rn_offered r i" fr]
      by (auto simp: sub_inv_def own_frame_def ps(1))
  qed
  have push: "push_inv ?r" using ps by (auto simp: push_inv_def own_frame_def f(3))
  have sub': "sub_inv ?r j" if "j < length (fe_all f)" for j using sub that unfolding f(3) by blast
  have epoch: "rn_epoch ?r j = sn_epoch (fe_snap f)" if "j \<in> feed_open f" for j
    using run_invD(3)[OF inv, of j] that unfolding feed_open_def f(1) by simp
  have rest: "rn_offered ?r j = [] \<and> rn_got ?r j = [] \<and> rn_lost ?r j = 0" if "length (fe_all f) \<le> j" for j
    using run_invD(5)[OF inv, of j] that i(1) by (auto simp: f(3))
  show ?thesis by (rule run_invI[OF _ ok push epoch sub' rest]) simp_all
qed

lemma Sub_Next_frame:
  assumes "(NextFrame fr, f') \<in> set (Sub_Next c i f)" "i < length (fe_all f)"
  shows "fe_snap f' = fe_snap f" "length (fe_all f') = length (fe_all f)" "\<not> fe_done f"
    "\<And>j. su_closed (fe_all f' ! j) = su_closed (fe_all f ! j)"
    "\<And>j. j \<noteq> i \<Longrightarrow> fe_all f' ! j = fe_all f ! j"
    "su_ch (fe_all f ! i) = fr # su_ch (fe_all f' ! i)"
proof -
  have "\<not> fe_done f" using assms(1) by (auto simp: Sub_Next_def)
  moreover obtain fr' q where "su_ch (fe_all f ! i) = fr' # q"
    using assms(1) \<open>\<not> fe_done f\<close> by (cases "su_ch (fe_all f ! i)") (auto simp: Sub_Next_def split: if_splits)
  moreover have "fr' = fr" "f' = f\<lparr>fe_all := (fe_all f)[i := (fe_all f ! i)\<lparr>su_ch := q\<rparr>]\<rparr>"
    using assms(1) calculation by (auto simp: Sub_Next_def split: if_splits)
  ultimately have q: "su_ch (fe_all f ! i) = fr # q" "\<not> fe_done f"
    "f' = f\<lparr>fe_all := (fe_all f)[i := (fe_all f ! i)\<lparr>su_ch := q\<rparr>]\<rparr>" by simp_all
  then show "fe_snap f' = fe_snap f" "length (fe_all f') = length (fe_all f)" "\<not> fe_done f"
    "\<And>j. j \<noteq> i \<Longrightarrow> fe_all f' ! j = fe_all f ! j" "su_ch (fe_all f ! i) = fr # su_ch (fe_all f' ! i)"
    using assms(2) by simp_all
  show "su_closed (fe_all f' ! j) = su_closed (fe_all f ! j)" for j
    using q(3) assms(2) by (cases "j = i") simp_all
qed

lemma run_inv_next:
  assumes inv: "run_inv r" and i: "i < length (fe_all (rn_feed r))"
    and nx: "(NextFrame fr, f) \<in> set (Sub_Next c i (rn_feed r))"
  shows "run_inv (r\<lparr>rn_feed := f, rn_got := (rn_got r)(i := rn_got r i @ [fr])\<rparr>)" (is "run_inv ?r")
proof -
  note f = Sub_Next_frame[OF nx i]
  have ok: "feed_ok f" using inv f(1,2,4) by (intro feed_ok_same_subs[of "rn_feed r" f]) (simp_all add: run_inv_def)
  have old: "sub_inv r j" if "j < length (fe_all (rn_feed r))" for j using inv that by (simp add: run_inv_def)
  have sub: "sub_inv ?r j" if "j < length (fe_all (rn_feed r))" for j
  proof (cases "j = i")
    case False
    then show ?thesis using old[OF that] f(5)[OF False] by (simp add: sub_inv_def own_frame_def)
  next
    case True
    show ?thesis unfolding True using old[OF i] f(6) by (simp add: sub_inv_def own_frame_def)
  qed
  have push: "push_inv ?r" using run_invD(2)[OF inv] by (rule push_inv_cong) (simp_all add: f(2))
  have sub': "sub_inv ?r j" if "j < length (fe_all f)" for j using sub that unfolding f(2) by blast
  have epoch: "rn_epoch ?r j = sn_epoch (fe_snap f)" if "j \<in> feed_open f" for j
    using run_invD(3)[OF inv, of j] that unfolding feed_open_def f(1) by simp
  have rest: "rn_offered ?r j = [] \<and> rn_got ?r j = [] \<and> rn_lost ?r j = 0" if "length (fe_all f) \<le> j" for j
    using run_invD(5)[OF inv, of j] that i by (auto simp: f(2))
  show ?thesis by (rule run_invI[OF _ ok push epoch sub' rest]) simp_all
qed

lemma run_inv_close:
  assumes "run_inv r"
  shows "run_inv (r\<lparr>rn_feed := Feed_Close (rn_feed r)\<rparr>)" (is "run_inv ?r")
proof -
  let ?f = "Feed_Close (rn_feed r)"
  have same: "fe_snap ?f = fe_snap (rn_feed r)" "fe_all ?f = fe_all (rn_feed r)" by (simp_all add: Feed_Close_def)
  have ok: "feed_ok ?f" using run_invD(1)[OF assms] by (rule feed_ok_same_subs) (simp_all add: same)
  have push: "push_inv ?r" using run_invD(2)[OF assms] by (rule push_inv_cong) (simp_all add: same)
  have epoch: "rn_epoch ?r j = sn_epoch (fe_snap ?f)" if "j \<in> feed_open ?f" for j
    using run_invD(3)[OF assms, of j] that unfolding feed_open_def same by simp
  have sub: "sub_inv ?r j" if "j < length (fe_all ?f)" for j
    using run_invD(4)[OF assms, of j] that by (simp add: sub_inv_def own_frame_def same)
  have rest: "rn_offered ?r j = [] \<and> rn_got ?r j = [] \<and> rn_lost ?r j = 0" if "length (fe_all ?f) \<le> j" for j
    using run_invD(5)[OF assms, of j] that unfolding same by simp
  show ?thesis by (rule run_invI[OF _ ok push epoch sub rest]) simp_all
qed

lemma run_inv_step: "feed_step r r' \<Longrightarrow> run_inv r \<Longrightarrow> run_inv r'"
proof (induction rule: feed_step.induct)
  case (refused r e f)
  then show ?case using Subscribe_Inl[OF refused(1)] by simp
next
  case (pushed r fr n)
  then show ?case by (simp add: run_inv_def push_inv_def sub_inv_def own_frame_def)
qed (blast intro: run_inv_subscribe run_inv_leave run_inv_push run_inv_offer run_inv_next run_inv_close)+

lemma run_inv_steps: "feed_step\<^sup>*\<^sup>* feed_start r \<Longrightarrow> run_inv r"
  by (induction rule: rtranclp_induct) (auto intro: run_inv_start run_inv_step)


definition demo_feed_frame :: "u64 \<Rightarrow> frame" where
  "demo_feed_frame session =
     \<lparr>fr_Payload = [1], fr_Duration = 960, fr_Pos = 0, fr_Captured = 0, fr_Session = session\<rparr>"

text \<open>A client joins and a frame of its session is pushed to it.\<close>

lemma demo_feed_run:
  "\<exists>r. feed_step\<^sup>*\<^sup>* feed_start r \<and> Feed_Session (rn_feed r) = (True, 1) \<and> rn_offered r 0 = [demo_feed_frame 1]"
proof -
  let ?f1 = "snd (Feed_Subscribe NewFeed)"
  let ?r1 = "feed_start\<lparr>rn_feed := ?f1, rn_epoch := (rn_epoch feed_start)(0 := sn_epoch (fe_snap ?f1))\<rparr>"
  have sub: "Feed_Subscribe NewFeed = (Inr 0, ?f1)" by code_simp
  have s1: "feed_step feed_start ?r1" using sub by (intro feed_step.subscribe) (simp add: feed_start_def)
  let ?r2 = "?r1\<lparr>rn_push := Some (demo_feed_frame 1, push_targets (fe_snap (rn_feed ?r1)) (demo_feed_frame 1), 0),
      rn_pushed := rn_pushed ?r1 @ [demo_feed_frame 1]\<rparr>"
  have s2: "feed_step ?r1 ?r2" by (rule feed_step.push) (simp add: feed_start_def)
  have t: "push_targets (fe_snap ?f1) (demo_feed_frame 1) = [0]" by code_simp
  obtain d f where off: "push_offer (demo_feed_frame 1) 0 ?f1 = (d, f)" by fastforce
  have snap: "fe_snap f = fe_snap ?f1"
    using push_offer_facts(1)[OF off] by (simp add: Feed_Subscribe_def NewFeed_def maxClients_def Let_def)
  have s3: "\<exists>r3. feed_step ?r2 r3 \<and> rn_feed r3 = f \<and> rn_offered r3 0 = [demo_feed_frame 1]"
    by (intro exI conjI, rule feed_step.offer[of _ "demo_feed_frame 1" 0 "[]" 0 d f]) (simp_all add: t off feed_start_def)
  then obtain r3 where r3: "feed_step ?r2 r3" "rn_feed r3 = f" "rn_offered r3 0 = [demo_feed_frame 1]" by blast
  have "feed_step\<^sup>*\<^sup>* feed_start r3" using s1 s2 r3(1) by (meson converse_rtranclp_into_rtranclp rtranclp.rtrancl_refl)
  moreover have "Feed_Session ?f1 = (True, 1)" by code_simp
  ultimately show ?thesis using r3(2,3) snap by (auto simp: Feed_Session_def)
qed


end
