(* ===== verification/Rtsp_Session.thy ===== *)
theory Rtsp_Session
  imports Rtsp_Feed Auth_Guard
begin

text \<open>
  \<open>internal/rtspserver/session.go\<close>, \<open>eviction.go\<close> and \<open>server.go\<close>: the RTSP connection's state machine and
  the server's table of tracks. A handler is a function of the request, of what it reads from the
  guard and the track table, of the random bytes it draws, and of the connection's state and the
  feeds; it returns whether the connection must close, what it sent or reported, and the new state.
  The message parser, \<open>net/url\<close> and \<open>rtsp.ParseTransport\<close> are parameters.
\<close>

section \<open>Data\<close>

datatype sessionState = stateInit | stateReady | statePlaying
datatype pathKind = pathNone | pathSession | pathTrack
datatype disconnectReason = DisconnectReadError | DisconnectTeardown | DisconnectEvicted

text \<open>A track; \<open>tr_ref\<close> is its identity as a pointer, \<open>tr_Feed\<close> that of its feed.\<close>

record track =
  tr_ref :: nat
  tr_Path :: string
  tr_SDP :: string
  tr_PayloadType :: int
  tr_Feed :: nat

record request =
  rq_Method :: string
  rq_URL :: string
  rq_CSeq :: int
  rq_Header :: "string \<Rightarrow> string"

record response =
  rs_StatusCode :: int
  rs_Reason :: string
  rs_CSeq :: int
  rs_Header :: "(string \<times> string) list"
  rs_Body :: string

record transport =
  tp_Protocol :: string
  tp_Interleaved :: bool
  tp_channels :: "(int \<times> int) option"

record connSession =
  cs_track :: "track option"
  cs_sub :: "nat option"
  cs_state :: sessionState
  cs_id :: string
  cs_rtpCh :: int
  cs_rtcpCh :: int
  cs_startSeq :: u16
  cs_startTS :: u32
  cs_writing :: bool
  cs_teardown :: bool
  cs_nonce :: string
  cs_authed :: bool
  cs_authGen :: u64
  cs_evictReason :: disconnectReason

definition new_conn :: connSession where
  "new_conn = \<lparr>cs_track = None, cs_sub = None, cs_state = stateInit, cs_id = '''', cs_rtpCh = 0, cs_rtcpCh = 0,
     cs_startSeq = 0, cs_startTS = 0, cs_writing = False, cs_teardown = False, cs_nonce = '''',
     cs_authed = False, cs_authGen = 0, cs_evictReason = DisconnectReadError\<rparr>"

text \<open>What a connection does besides changing its state.\<close>

datatype effect =
  Respond response | ClientConnected string | ClientDisconnected string disconnectReason | StartWriter nat

text \<open>The libraries and the connection's surroundings.\<close>

record env =
  ev_urlParse :: "string \<Rightarrow> (string \<times> string) option"
  ev_ParseTransport :: "string \<Rightarrow> transport option"
  ev_ParseChallenges :: "string list \<Rightarrow> challenge list"
  ev_md5 :: "string \<Rightarrow> u8 list"
  ev_LocalAddr :: string
  ev_TimeoutSeconds :: int

text \<open>
  What one request reads of what others change: the guard when it is consulted and when the answer is
  checked, the track table at the two lookups, and the random bytes.
\<close>

record reads =
  rd_guard :: "guard option"
  rd_guard' :: "guard option"
  rd_tracks :: "string \<Rightarrow> track option"
  rd_tracks' :: "string \<Rightarrow> track option"
  rd_nonce :: "nat \<Rightarrow> u8 list"
  rd_id :: "u8 list"
  rd_seq :: u32
  rd_ts :: u32

section \<open>Eviction\<close>

definition authorizedUnder :: "bool \<Rightarrow> u64 \<Rightarrow> u64 \<Rightarrow> bool" where
  "authorizedUnder authed authGen guardGen \<longleftrightarrow> authed \<and> authGen = guardGen"

definition shouldEvict :: "bool \<Rightarrow> u64 \<Rightarrow> bool \<Rightarrow> u64 \<Rightarrow> bool" where
  "shouldEvict enabled guardGen authed authGen \<longleftrightarrow> enabled \<and> \<not> authorizedUnder authed authGen guardGen"

section \<open>Responses\<close>

definition respondStatus :: "request \<Rightarrow> int \<Rightarrow> string \<Rightarrow> effect" where
  "respondStatus req code reason =
     Respond \<lparr>rs_StatusCode = code, rs_Reason = reason, rs_CSeq = rq_CSeq req, rs_Header = [], rs_Body = ''''\<rparr>"

definition respondSession :: "connSession \<Rightarrow> request \<Rightarrow> int \<Rightarrow> string \<Rightarrow> effect" where
  "respondSession cs req code reason =
     Respond \<lparr>rs_StatusCode = code, rs_Reason = reason, rs_CSeq = rq_CSeq req,
       rs_Header = (if cs_id cs \<noteq> '''' then [(''Session'', cs_id cs)] else []), rs_Body = ''''\<rparr>"

definition respondOptions :: "request \<Rightarrow> effect" where
  "respondOptions req =
     Respond \<lparr>rs_StatusCode = 200, rs_Reason = ''OK'', rs_CSeq = rq_CSeq req,
       rs_Header = [(''Public'', ''OPTIONS, DESCRIBE, SETUP, PLAY, TEARDOWN, GET_PARAMETER'')], rs_Body = ''''\<rparr>"

definition contentBase :: "env \<Rightarrow> request \<Rightarrow> string \<Rightarrow> string" where
  "contentBase ev req path =
     (let host = rq_Header req ''Host'';
          host' = (if host = '''' then
                     (case ev_urlParse ev (rq_URL req) of
                        Some (h, _) \<Rightarrow> if h \<noteq> '''' then h else ev_LocalAddr ev
                      | None \<Rightarrow> ev_LocalAddr ev)
                   else host)
      in ''rtsp://'' @ host' @ path @ ''/'')"

section \<open>Routing\<close>

definition resolve :: "env \<Rightarrow> reads \<Rightarrow> string \<Rightarrow> track option \<times> pathKind" where
  "resolve ev rd rawURL =
     (case ev_urlParse ev rawURL of
        None \<Rightarrow> (None, pathNone)
      | Some (_, path) \<Rightarrow>
          (case rd_tracks rd path of
             Some t \<Rightarrow> (Some t, pathSession)
           | None \<Rightarrow>
               (case CutSuffix path ''/trackID=0'' of
                  Some p \<Rightarrow> (case rd_tracks' rd p of Some t \<Rightarrow> (Some t, pathTrack) | None \<Rightarrow> (None, pathNone))
                | None \<Rightarrow> (None, pathNone))))"

text \<open>The table of tracks: \<open>New\<close>, \<open>AddTrack\<close>, \<open>RemoveTrack\<close>, \<open>HasTrack\<close>.\<close>

definition NewTracks :: "track list \<Rightarrow> string \<Rightarrow> track option" where
  "NewTracks ts = fold (\<lambda>t m. m(tr_Path t \<mapsto> t)) ts (\<lambda>_. None)"

definition AddTrack :: "track \<Rightarrow> (string \<Rightarrow> track option) \<Rightarrow> string \<Rightarrow> track option" where
  "AddTrack t m = m(tr_Path t \<mapsto> t)"

definition RemoveTrack :: "string \<Rightarrow> (string \<Rightarrow> track option) \<Rightarrow> string \<Rightarrow> track option" where
  "RemoveTrack path m = m(path := None)"

definition HasTrack :: "string \<Rightarrow> (string \<Rightarrow> track option) \<Rightarrow> bool" where
  "HasTrack path m \<longleftrightarrow> m path \<noteq> None"

section \<open>Handlers\<close>

definition authorized :: "env \<Rightarrow> reads \<Rightarrow> request \<Rightarrow> connSession \<Rightarrow> bool \<times> connSession" where
  "authorized ev rd req cs =
     (case guard_Snapshot (rd_guard rd) of (enabled, gen) \<Rightarrow>
        if authorizedUnder (cs_authed cs) (cs_authGen cs) gen then (True, cs)
        else if \<not> enabled then (True, cs)
        else if cs_nonce cs \<noteq> '''' \<and>
            guard_CheckDigest (ev_ParseChallenges ev) (ev_md5 ev) (rd_guard' rd) (rq_Method req)
              (rq_Header req ''Authorization'') (cs_nonce cs)
          then (True, cs\<lparr>cs_authed := True, cs_authGen := gen\<rparr>)
        else (False, cs))"

definition respondUnauthorized :: "reads \<Rightarrow> request \<Rightarrow> connSession \<Rightarrow> effect \<times> connSession" where
  "respondUnauthorized rd req cs =
     (let cs' = (if cs_nonce cs = '''' then cs\<lparr>cs_nonce := NewNonce (rd_nonce rd)\<rparr> else cs) in
      (Respond \<lparr>rs_StatusCode = 401, rs_Reason = ''Unauthorized'', rs_CSeq = rq_CSeq req,
         rs_Header = [(''WWW-Authenticate'', DigestChallenge (cs_nonce cs'))], rs_Body = ''''\<rparr>, cs'))"

definition respondDescribe :: "env \<Rightarrow> reads \<Rightarrow> request \<Rightarrow> effect" where
  "respondDescribe ev rd req =
     (case resolve ev rd (rq_URL req) of
        (Some t, pathSession) \<Rightarrow>
          Respond \<lparr>rs_StatusCode = 200, rs_Reason = ''OK'', rs_CSeq = rq_CSeq req,
            rs_Header = [(''Content-Type'', ''application/sdp''), (''Content-Base'', contentBase ev req (tr_Path t))],
            rs_Body = tr_SDP t\<rparr>
      | _ \<Rightarrow> respondStatus req 404 ''Not Found'')"

definition sessionMatches :: "request \<Rightarrow> connSession \<Rightarrow> bool" where
  "sessionMatches req cs =
     (if cs_id cs = '''' then False
      else let got = rq_Header req ''Session'' in
        if got = '''' then False
        else TrimSpace (fst (Cut got (CHR '';''))) = cs_id cs)"

fun Contains :: "string \<Rightarrow> string \<Rightarrow> bool" where
  "Contains [] p \<longleftrightarrow> p = []"
| "Contains (c # s) p \<longleftrightarrow> HasPrefix (c # s) p \<or> Contains s p"

definition upper_char :: "char \<Rightarrow> char" where
  "upper_char c = (if char_between (CHR ''a'') (CHR ''z'') c then char_of (of_char c - 32 :: nat) else c)"

definition respondSetup :: "env \<Rightarrow> reads \<Rightarrow> request \<Rightarrow> connSession \<Rightarrow> effect \<times> connSession" where
  "respondSetup ev rd req cs =
     (case resolve ev rd (rq_URL req) of
        (Some t, pathTrack) \<Rightarrow>
          if (case cs_track cs of Some t' \<Rightarrow> tr_ref t' \<noteq> tr_ref t | None \<Rightarrow> False)
            then (respondStatus req 455 ''Method Not Valid in This State'', cs)
          else if cs_state cs = statePlaying
            then (respondStatus req 455 ''Method Not Valid in This State'', cs)
          else (case ev_ParseTransport ev (rq_Header req ''Transport'') of
              None \<Rightarrow> (respondStatus req 461 ''Unsupported Transport'', cs)
            | Some th \<Rightarrow>
                if \<not> Contains (map upper_char (tp_Protocol th)) ''TCP''
                  then (respondStatus req 461 ''Unsupported Transport'', cs)
                else
                  let (a, b) = (if tp_Interleaved th then (case tp_channels th of Some ab \<Rightarrow> ab | None \<Rightarrow> (0, 1)) else (0, 1));
                      cs' = cs\<lparr>cs_track := Some t, cs_rtpCh := a, cs_rtcpCh := b, cs_id := hex_encode (rd_id rd),
                               cs_startSeq := ucast (rd_seq rd), cs_startTS := rd_ts rd, cs_state := stateReady\<rparr>
                  in (Respond \<lparr>rs_StatusCode = 200, rs_Reason = ''OK'', rs_CSeq = rq_CSeq req,
                        rs_Header = [(''Transport'', ''RTP/AVP/TCP;unicast;interleaved='' @ Itoa a @ ''-'' @ Itoa b),
                          (''Session'', cs_id cs' @ '';timeout='' @ Itoa (ev_TimeoutSeconds ev))],
                        rs_Body = ''''\<rparr>, cs'))
      | _ \<Rightarrow> (respondStatus req 404 ''Not Found'', cs))"

definition play_response :: "env \<Rightarrow> request \<Rightarrow> connSession \<Rightarrow> track \<Rightarrow> effect" where
  "play_response ev req cs t =
     Respond \<lparr>rs_StatusCode = 200, rs_Reason = ''OK'', rs_CSeq = rq_CSeq req,
       rs_Header = [(''Session'', cs_id cs), (''Range'', ''npt=0.000-''),
         (''RTP-Info'', ''url='' @ contentBase ev req (tr_Path t) @ ''trackID=0;seq='' @ nat_digits (unat (cs_startSeq cs))
            @ '';rtptime='' @ nat_digits (unat (cs_startTS cs)))],
       rs_Body = ''''\<rparr>"

text \<open>
  \<open>PLAY\<close>: \<open>feeds\<close> maps the identity of a feed to its state. A connection that is not in the initial
  state has a track, which the code dereferences; the model answers 500 where it would not.
\<close>

definition respondPlay ::
  "env \<Rightarrow> request \<Rightarrow> connSession \<times> (nat \<Rightarrow> feed) \<Rightarrow> effect list \<times> connSession \<times> (nat \<Rightarrow> feed)" where
  "respondPlay ev req csf =
     (case csf of (cs, feeds) \<Rightarrow>
        if cs_state cs = stateInit \<or> \<not> sessionMatches req cs
          then ([respondStatus req 454 ''Session Not Found''], cs, feeds)
        else (case cs_track cs of
            None \<Rightarrow> ([respondStatus req 500 ''Internal Server Error''], cs, feeds)
          | Some t \<Rightarrow>
              if cs_state cs = statePlaying then ([play_response ev req cs t], cs, feeds)
              else (case Feed_Subscribe (feeds (tr_Feed t)) of
                  (Inl ErrTooManyClients, f) \<Rightarrow> ([respondStatus req 453 ''Not Enough Bandwidth''], cs, feeds(tr_Feed t := f))
                | (Inl ErrSourceClosed, f) \<Rightarrow> ([respondStatus req 404 ''Not Found''], cs, feeds(tr_Feed t := f))
                | (Inr s, f) \<Rightarrow>
                    ([play_response ev req cs t, ClientConnected (tr_Path t), StartWriter s],
                     cs\<lparr>cs_sub := Some s, cs_state := statePlaying, cs_writing := True\<rparr>, feeds(tr_Feed t := f)))))"

definition handle ::
  "env \<Rightarrow> reads \<Rightarrow> request \<Rightarrow> connSession \<times> (nat \<Rightarrow> feed)
     \<Rightarrow> bool \<times> effect list \<times> connSession \<times> (nat \<Rightarrow> feed)" where
  "handle ev rd req csf =
     (case csf of (cs0, feeds) \<Rightarrow>
        let (auth, cs) = (if rq_Method req \<noteq> ''OPTIONS'' then authorized ev rd req cs0 else (True, cs0)) in
        if \<not> auth then
          (case respondUnauthorized rd req cs of (o', cs') \<Rightarrow> (cs_state cs' \<noteq> stateInit, [o'], cs', feeds))
        else if rq_Method req = ''OPTIONS'' then (False, [respondOptions req], cs, feeds)
        else if rq_Method req = ''DESCRIBE'' then (False, [respondDescribe ev rd req], cs, feeds)
        else if rq_Method req = ''SETUP'' then
          (case respondSetup ev rd req cs of (o', cs') \<Rightarrow> (False, [o'], cs', feeds))
        else if rq_Method req = ''PLAY'' then
          (case respondPlay ev req (cs, feeds) of (os, cs', feeds') \<Rightarrow> (False, os, cs', feeds'))
        else if rq_Method req = ''GET_PARAMETER'' then (False, [respondSession cs req 200 ''OK''], cs, feeds)
        else if rq_Method req = ''TEARDOWN'' then
          (True, [respondSession cs req 200 ''OK''], cs\<lparr>cs_teardown := True\<rparr>, feeds)
        else (False, [respondStatus req 501 ''Not Implemented''], cs, feeds))"

section \<open>The end of a connection\<close>

text \<open>The deferred cleanup of \<open>serveConn\<close>, once the writer has been joined.\<close>

definition cleanup :: "connSession \<times> (nat \<Rightarrow> feed) \<Rightarrow> effect list \<times> (nat \<Rightarrow> feed)" where
  "cleanup csf =
     (case csf of (cs, feeds) \<Rightarrow>
        let feeds' = (case (cs_sub cs, cs_track cs) of
                (Some s, Some t) \<Rightarrow> feeds(tr_Feed t := Sub_Close s (feeds (tr_Feed t)))
              | _ \<Rightarrow> feeds);
            reason = (if cs_evictReason cs = DisconnectEvicted then DisconnectEvicted
                      else if cs_teardown cs then DisconnectTeardown else DisconnectReadError)
        in ((case cs_track cs of
               Some t \<Rightarrow> if cs_writing cs then [ClientDisconnected (tr_Path t) reason] else []
             | None \<Rightarrow> []), feeds'))"

section \<open>The byte stream\<close>

datatype stream_class = FrameNeedMore | FrameInterleaved | FrameRequest | FrameResponse | FrameUnknown
datatype 'a parsed = Incomplete | ParseFailed | Parsed 'a nat

text \<open>\<open>step\<close>: what is consumed of the buffer, whether the connection must close, and the new state.\<close>

definition conn_step ::
  "('b list \<Rightarrow> stream_class) \<Rightarrow> ('b list \<Rightarrow> unit parsed) \<Rightarrow> ('b list \<Rightarrow> 'r parsed) \<Rightarrow> ('r \<Rightarrow> 's \<Rightarrow> bool \<times> 's)
     \<Rightarrow> 'b list \<Rightarrow> 's \<Rightarrow> (nat \<times> bool) \<times> 's" where
  "conn_step classify parseInterleaved parseRequest hdl buf s =
     (case classify buf of
        FrameNeedMore \<Rightarrow> ((0, False), s)
      | FrameInterleaved \<Rightarrow>
          (case parseInterleaved buf of Incomplete \<Rightarrow> ((0, False), s) | ParseFailed \<Rightarrow> ((1, False), s)
           | Parsed _ n \<Rightarrow> ((n, False), s))
      | FrameRequest \<Rightarrow>
          (case parseRequest buf of Incomplete \<Rightarrow> ((0, False), s) | ParseFailed \<Rightarrow> ((0, True), s)
           | Parsed req n \<Rightarrow> (case hdl req s of (fatal, s') \<Rightarrow> ((n, fatal), s')))
      | FrameResponse \<Rightarrow> ((1, False), s)
      | FrameUnknown \<Rightarrow> ((1, False), s))"

text \<open>The inner loop of \<open>serveConn\<close> over what has been read; \<open>None\<close> for the buffer means the connection closes.\<close>

function serve_buf ::
  "('b list \<Rightarrow> stream_class) \<Rightarrow> ('b list \<Rightarrow> unit parsed) \<Rightarrow> ('b list \<Rightarrow> 'r parsed) \<Rightarrow> ('r \<Rightarrow> 's \<Rightarrow> bool \<times> 's)
     \<Rightarrow> 'b list \<Rightarrow> 's \<Rightarrow> 'b list option \<times> 's" where
  "serve_buf classify parseInterleaved parseRequest hdl buf s =
     (if buf = [] then (Some [], s)
      else case conn_step classify parseInterleaved parseRequest hdl buf s of
        ((consumed, fatal), s') \<Rightarrow>
          if fatal then (None, s')
          else if consumed = 0 then (Some buf, s')
          else serve_buf classify parseInterleaved parseRequest hdl (drop consumed buf) s')"
  by pat_completeness auto
termination
  by (relation "measure (\<lambda>(classify, parseInterleaved, parseRequest, hdl, buf, s). length buf)") auto

declare serve_buf.simps [simp del]

end
