(* ===== verification/Rtsp_Server.thy ===== *)
theory Rtsp_Server
  imports Rtsp_Session
begin

text \<open>
  The RTSP server of \<open>internal/rtspserver\<close> at work: any number of connections, each taking the steps of
  \<open>Rtsp_Session\<close>, sharing the guard, the track table and the feeds with token changes, reloads,
  writers and the media. What is shown rests on the contracts of the guard (\<open>tok\<close>) and of the feed (\<open>ff\<close>).
\<close>

record server =
  sv_guard :: guard
  sv_tracks :: "string \<Rightarrow> track option"
  sv_feeds :: "nat \<Rightarrow> feed"
  sv_conns :: "nat \<Rightarrow> connSession option"
  sv_closing :: "nat \<Rightarrow> bool"
  sv_log :: "(nat \<times> effect) list"
  sv_sets :: nat

definition server_start :: "string \<Rightarrow> track list \<Rightarrow> server" where
  "server_start token ts = \<lparr>sv_guard = NewGuard token, sv_tracks = NewTracks ts, sv_feeds = (\<lambda>_. NewFeed),
     sv_conns = (\<lambda>_. None), sv_closing = (\<lambda>_. False), sv_log = [], sv_sets = 0\<rparr>"

text \<open>
  A request reads the guard, possibly replaced (by \<open>vs\<close>) before the credential is checked, and the
  track table, possibly changed between its two lookups. A connection that must close, or whose
  writer evicted it, handles no further request once its loop returns.
\<close>

inductive srv_step :: "env \<Rightarrow> server \<Rightarrow> server \<Rightarrow> bool" for ev where
  set_token: "srv_step ev sv (sv\<lparr>sv_guard := guard_Set token (sv_guard sv), sv_sets := sv_sets sv + 1\<rparr>)"
| add_track: "srv_step ev sv (sv\<lparr>sv_tracks := AddTrack t (sv_tracks sv)\<rparr>)"
| remove_track: "srv_step ev sv (sv\<lparr>sv_tracks := RemoveTrack p (sv_tracks sv)\<rparr>)"
| feed_close: "srv_step ev sv (sv\<lparr>sv_feeds := (sv_feeds sv)(k := Feed_Close (sv_feeds sv k))\<rparr>)"
| feed_offer: "i < length (fe_all (sv_feeds sv k)) \<Longrightarrow> push_offer fr i (sv_feeds sv k) = (d, f) \<Longrightarrow>
    srv_step ev sv (sv\<lparr>sv_feeds := (sv_feeds sv)(k := f)\<rparr>)"
| feed_next: "i < length (fe_all (sv_feeds sv k)) \<Longrightarrow> (NextFrame fr, f) \<in> set (Sub_Next c i (sv_feeds sv k)) \<Longrightarrow>
    srv_step ev sv (sv\<lparr>sv_feeds := (sv_feeds sv)(k := f)\<rparr>)"
| accept: "sv_conns sv c = None \<Longrightarrow>
    srv_step ev sv (sv\<lparr>sv_conns := (sv_conns sv)(c \<mapsto> new_conn), sv_closing := (sv_closing sv)(c := False)\<rparr>)"
| request: "sv_conns sv c = Some cs \<Longrightarrow> \<not> sv_closing sv c \<Longrightarrow>
    rd_guard rd = Some (sv_guard sv) \<Longrightarrow> rd_guard' rd = Some (fold guard_Set vs (sv_guard sv)) \<Longrightarrow>
    rd_tracks rd = sv_tracks sv \<Longrightarrow>
    handle ev rd req (cs, sv_feeds sv) = (fatal, os, cs', feeds') \<Longrightarrow>
    srv_step ev sv (sv\<lparr>sv_guard := fold guard_Set vs (sv_guard sv), sv_sets := sv_sets sv + length vs,
      sv_tracks := rd_tracks' rd, sv_feeds := feeds', sv_conns := (sv_conns sv)(c \<mapsto> cs'),
      sv_closing := (sv_closing sv)(c := fatal), sv_log := sv_log sv @ map (Pair c) os\<rparr>)"
| evict: "sv_conns sv c = Some cs \<Longrightarrow> cs_writing cs \<Longrightarrow>
    guard_Snapshot (Some (sv_guard sv)) = (enabled, gen) \<Longrightarrow> shouldEvict enabled gen (cs_authed cs) (cs_authGen cs) \<Longrightarrow>
    srv_step ev sv (sv\<lparr>sv_conns := (sv_conns sv)(c \<mapsto> cs\<lparr>cs_evictReason := DisconnectEvicted\<rparr>)\<rparr>)"
| finish: "sv_conns sv c = Some cs \<Longrightarrow> cleanup (cs, sv_feeds sv) = (os, feeds') \<Longrightarrow>
    srv_step ev sv (sv\<lparr>sv_feeds := feeds', sv_conns := (sv_conns sv)(c := None),
      sv_log := sv_log sv @ map (Pair c) os\<rparr>)"

inductive_cases srv_stepE: "srv_step ev sv sv'"

section \<open>One request\<close>

text \<open>What \<open>authorized\<close> leaves alone, and when it lets a request through.\<close>

lemma authorized_same:
  assumes "authorized ev rd req cs = (ok, cs')"
  shows "cs' = cs \<or> (\<exists>gen. cs' = cs\<lparr>cs_authed := True, cs_authGen := gen\<rparr>)"
  using assms by (auto simp: authorized_def split: prod.splits if_splits)

lemma authorized_cases:
  assumes "authorized ev rd req cs = (True, cs')"
  obtains (known) "cs' = cs" "cs_authed cs" "cs_authGen cs = guard_Generation (rd_guard rd)"
    | (open_access) "cs' = cs" "\<not> guard_Enabled (rd_guard rd)"
    | (digest) "cs_nonce cs \<noteq> ''''"
        "guard_CheckDigest (ev_ParseChallenges ev) (ev_md5 ev) (rd_guard' rd) (rq_Method req)
          (rq_Header req ''Authorization'') (cs_nonce cs)"
        "cs' = cs\<lparr>cs_authed := True, cs_authGen := guard_Generation (rd_guard rd)\<rparr>"
proof (cases "authorizedUnder (cs_authed cs) (cs_authGen cs) (guard_Generation (rd_guard rd))")
  case True
  then have "cs' = cs" using assms by (simp add: authorized_def Snapshot_pair)
  then show thesis using True known by (simp add: authorizedUnder_def)
next
  case na: False
  show thesis
  proof (cases "guard_Enabled (rd_guard rd)")
    case False
    then have "cs' = cs" using assms na by (simp add: authorized_def Snapshot_pair)
    then show thesis using False open_access by blast
  next
    case True
    let ?d = "guard_CheckDigest (ev_ParseChallenges ev) (ev_md5 ev) (rd_guard' rd) (rq_Method req)
          (rq_Header req ''Authorization'') (cs_nonce cs)"
    have run: "(if cs_nonce cs \<noteq> '''' \<and> ?d then (True, cs\<lparr>cs_authed := True, cs_authGen := guard_Generation (rd_guard rd)\<rparr>)
        else (False, cs)) = (True, cs')"
      using assms True na unfolding authorized_def Snapshot_pair prod.case by (simp only: if_False not_True_eq_False)
    then have "cs_nonce cs \<noteq> '''' \<and> ?d" by (metis Pair_inject)
    then show thesis using run digest by simp
  qed
qed

text \<open>What a request may change: the handlers after authorization keep the credentials.\<close>

definition same_auth :: "connSession \<Rightarrow> connSession \<Rightarrow> bool" where
  "same_auth cs cs' \<longleftrightarrow> cs_authed cs' = cs_authed cs \<and> cs_authGen cs' = cs_authGen cs \<and> cs_nonce cs' = cs_nonce cs"

lemma respondSetup_same:
  "respondSetup ev rd req cs = (e, cs') \<Longrightarrow> same_auth cs cs' \<and> cs_sub cs' = cs_sub cs \<and> cs_writing cs' = cs_writing cs
     \<and> (\<exists>r. e = Respond r) \<and> (cs' = cs \<or> cs_state cs \<noteq> statePlaying \<and> cs_state cs' = stateReady \<and> cs_track cs' \<noteq> None)"
proof -
  assume run: "respondSetup ev rd req cs = (e, cs')"
  have refuse: ?thesis if "\<exists>code reason. (e, cs') = (respondStatus req code reason, cs)"
    using that by (auto simp: respondStatus_def same_auth_def)
  show ?thesis
  proof (cases "\<exists>t th. resolve ev rd (rq_URL req) = (Some t, pathTrack) \<and> cs_state cs \<noteq> statePlaying \<and>
      (case cs_track cs of Some t' \<Rightarrow> tr_ref t' = tr_ref t | None \<Rightarrow> True) \<and>
      ev_ParseTransport ev (rq_Header req ''Transport'') = Some th \<and> Contains (map upper_char (tp_Protocol th)) ''TCP''")
    case True
    then obtain t th where t: "resolve ev rd (rq_URL req) = (Some t, pathTrack)" "cs_state cs \<noteq> statePlaying"
      "case cs_track cs of Some t' \<Rightarrow> tr_ref t' = tr_ref t | None \<Rightarrow> True"
      "ev_ParseTransport ev (rq_Header req ''Transport'') = Some th" "Contains (map upper_char (tp_Protocol th)) ''TCP''"
      by blast
    have "\<not> (case cs_track cs of Some t' \<Rightarrow> tr_ref t' \<noteq> tr_ref t | None \<Rightarrow> False)"
      using t(3) by (cases "cs_track cs") simp_all
    note accept = t(1,2) this t(4,5)
    obtain a b where ab: "(if tp_Interleaved th then (case tp_channels th of Some ab \<Rightarrow> ab | None \<Rightarrow> (0, 1)) else (0, 1)) = (a, b)"
      by fastforce
    have "cs' = cs\<lparr>cs_track := Some t, cs_rtpCh := a, cs_rtcpCh := b, cs_id := hex_encode (rd_id rd),
        cs_startSeq := ucast (rd_seq rd), cs_startTS := rd_ts rd, cs_state := stateReady\<rparr>" "\<exists>r. e = Respond r"
      using run unfolding respondSetup_def accept prod.case option.case pathKind.case Let_def ab
      by (auto simp: accept)
    then show ?thesis using accept(2) by (simp add: same_auth_def)
  next
    case False
    have "\<exists>code reason. (e, cs') = (respondStatus req code reason, cs)"
    proof (cases "resolve ev rd (rq_URL req)")
      case (Pair ot kind)
      show ?thesis
      proof (cases "ot = None \<or> kind \<noteq> pathTrack")
        case True
        then show ?thesis using run Pair by (cases ot; cases kind) (auto simp: respondSetup_def)
      next
        case nf: False
        then obtain t where t: "ot = Some t" "kind = pathTrack" by auto
        let ?other = "case cs_track cs of Some t' \<Rightarrow> tr_ref t' \<noteq> tr_ref t | None \<Rightarrow> False"
        let ?th = "ev_ParseTransport ev (rq_Header req ''Transport'')"
        have other: "(case cs_track cs of Some t' \<Rightarrow> tr_ref t' = tr_ref t | None \<Rightarrow> True) \<longleftrightarrow> \<not> ?other"
          by (cases "cs_track cs") simp_all
        have no: "\<not> Contains (map upper_char (tp_Protocol th)) ''TCP''"
          if "\<not> ?other" "cs_state cs \<noteq> statePlaying" "?th = Some th" for th
        proof
          assume tcp: "Contains (map upper_char (tp_Protocol th)) ''TCP''"
          show False
            by (rule notE[OF False], intro exI[of _ t] exI[of _ th] conjI
                Pair[unfolded t] that(2) iffD2[OF other that(1)] that(3) tcp)
        qed
        consider "?other" | "\<not> ?other" "cs_state cs = statePlaying" | "\<not> ?other" "cs_state cs \<noteq> statePlaying" "?th = None"
          | th where "\<not> ?other" "cs_state cs \<noteq> statePlaying" "?th = Some th" "\<not> Contains (map upper_char (tp_Protocol th)) ''TCP''"
        proof (cases "?other \<or> cs_state cs = statePlaying")
          case False
          then show thesis using no that(3,4) by (cases ?th) auto
        qed (use that(1,2) in blast)
        then show ?thesis using run unfolding respondSetup_def Pair t prod.case option.case pathKind.case
          by cases auto
      qed
    qed
    then show ?thesis by (rule refuse)
  qed
qed

lemma if3_False:
  "(if a then (True, x) else if b then (True, x) else if c then (True, y) else (False, x)) = (False, z) \<Longrightarrow> z = x"
  by (auto split: if_splits)

lemma authorized_refused: "authorized ev rd req cs = (False, cs') \<Longrightarrow> cs' = cs"
  unfolding authorized_def Snapshot_pair prod.case by (rule if3_False)

text \<open>The connection a request is handled for once it has passed the check.\<close>

definition passed :: "env \<Rightarrow> reads \<Rightarrow> request \<Rightarrow> connSession \<Rightarrow> connSession \<Rightarrow> bool" where
  "passed ev rd req cs cs1 \<longleftrightarrow> (if rq_Method req = ''OPTIONS'' then cs1 = cs else authorized ev rd req cs = (True, cs1))"

lemma respondPlay_cases:
  assumes "respondPlay ev req (cs, feeds) = (os, cs', feeds')"
  obtains (same) r where "os = [Respond r]" "cs' = cs" "feeds' = feeds"
    | (play) t s f r where "cs_track cs = Some t" "cs_state cs = stateReady" "Feed_Subscribe (feeds (tr_Feed t)) = (Inr s, f)"
        "feeds' = feeds(tr_Feed t := f)" "os = [Respond r, ClientConnected (tr_Path t), StartWriter s]"
        "cs' = cs\<lparr>cs_sub := Some s, cs_state := statePlaying, cs_writing := True\<rparr>"
proof -
  consider (bad) "cs_state cs = stateInit \<or> \<not> sessionMatches req cs"
    | (ok) "\<not> (cs_state cs = stateInit \<or> \<not> sessionMatches req cs)" by blast
  then show thesis
  proof cases
    case bad
    then show thesis using assms same unfolding respondPlay_def prod.case respondStatus_def by auto
  next
    case ok
    note run = assms[unfolded respondPlay_def prod.case if_not_P[OF ok]]
    show thesis
    proof (cases "cs_track cs")
      case None
      then show thesis using run same by (auto simp: respondStatus_def)
    next
      case (Some t)
      show thesis
      proof (cases "cs_state cs = statePlaying")
        case True
        then show thesis using run Some same by (auto simp: play_response_def)
      next
        case False
        then have ready: "cs_state cs = stateReady" using ok by (cases "cs_state cs") auto
        note run' = run[unfolded Some option.case if_not_P[OF False]]
        obtain res f where sub: "Feed_Subscribe (feeds (tr_Feed t)) = (res, f)" by fastforce
        show thesis
        proof (cases res)
          case (Inl e)
          then have "f = feeds (tr_Feed t)" using sub Subscribe_Inl by blast
          then have id: "feeds(tr_Feed t := f) = feeds" by simp
          show thesis using run' sub Inl same id by (cases e) (auto simp: respondStatus_def)
        next
          case (Inr s)
          then have "os = [play_response ev req cs t, ClientConnected (tr_Path t), StartWriter s]" "feeds' = feeds(tr_Feed t := f)"
            "cs' = cs\<lparr>cs_sub := Some s, cs_state := statePlaying, cs_writing := True\<rparr>"
            using run' sub by auto
          moreover obtain r where "play_response ev req cs t = Respond r" by (simp add: play_response_def)
          ultimately show thesis using play[OF Some ready] sub Inr by metis
        qed
      qed
    qed
  qed
qed

lemma handle_cases:
  assumes "handle ev rd req (cs, feeds) = (fatal, os, cs', feeds')"
  obtains (unauthorized) r n where "rq_Method req \<noteq> ''OPTIONS''" "fst (authorized ev rd req cs) = False"
        "os = [Respond r]" "rs_StatusCode r = 401" "feeds' = feeds" "fatal = (cs_state cs \<noteq> stateInit)"
        "cs' = (if cs_nonce cs = '''' then cs\<lparr>cs_nonce := n\<rparr> else cs)"
    | (answered) cs1 r where "passed ev rd req cs cs1" "os = [Respond r]" "feeds' = feeds"
        "cs' = cs1 \<or> cs' = cs1\<lparr>cs_teardown := True\<rparr>"
    | (set_up) cs1 r where "passed ev rd req cs cs1" "os = [Respond r]" "feeds' = feeds" "same_auth cs1 cs'"
        "cs_sub cs' = cs_sub cs1" "cs_writing cs' = cs_writing cs1"
        "cs_state cs1 \<noteq> statePlaying" "cs_state cs' = stateReady" "cs_track cs' \<noteq> None"
    | (play) cs1 t s f r where "passed ev rd req cs cs1" "cs_track cs1 = Some t" "cs_state cs1 = stateReady"
        "Feed_Subscribe (feeds (tr_Feed t)) = (Inr s, f)" "feeds' = feeds(tr_Feed t := f)"
        "os = [Respond r, ClientConnected (tr_Path t), StartWriter s]"
        "cs' = cs1\<lparr>cs_sub := Some s, cs_state := statePlaying, cs_writing := True\<rparr>"
proof -
  obtain auth cs1 where a: "(if rq_Method req \<noteq> ''OPTIONS'' then authorized ev rd req cs else (True, cs)) = (auth, cs1)"
    by fastforce
  note run = assms[unfolded handle_def prod.case Let_def a]
  show thesis
  proof (cases auth)
    case False
    then have m: "rq_Method req \<noteq> ''OPTIONS''" "authorized ev rd req cs = (False, cs1)" using a by (auto split: if_splits)
    have "cs1 = cs" using authorized_refused[OF m(2)] .
    then show thesis
      using run unauthorized[OF m(1), of _ "NewNonce (rd_nonce rd)"] m(2) False
      by (auto simp: respondUnauthorized_def Let_def split: if_splits)
  next
    case True
    then have p: "passed ev rd req cs cs1" using a by (auto simp: passed_def split: if_splits)
    have run': "(if rq_Method req = ''OPTIONS'' then (False, [respondOptions req], cs1, feeds)
        else if rq_Method req = ''DESCRIBE'' then (False, [respondDescribe ev rd req], cs1, feeds)
        else if rq_Method req = ''SETUP'' then
          (case respondSetup ev rd req cs1 of (o', cs') \<Rightarrow> (False, [o'], cs', feeds))
        else if rq_Method req = ''PLAY'' then
          (case respondPlay ev req (cs1, feeds) of (os, cs', feeds') \<Rightarrow> (False, os, cs', feeds'))
        else if rq_Method req = ''GET_PARAMETER'' then (False, [respondSession cs1 req 200 ''OK''], cs1, feeds)
        else if rq_Method req = ''TEARDOWN'' then
          (True, [respondSession cs1 req 200 ''OK''], cs1\<lparr>cs_teardown := True\<rparr>, feeds)
        else (False, [respondStatus req 501 ''Not Implemented''], cs1, feeds)) = (fatal, os, cs', feeds')"
      using run True by (simp only: simp_thms if_False)
    have one: "\<exists>r. respondOptions req = Respond r" "\<exists>r. respondDescribe ev rd req = Respond r"
      "\<exists>r. respondSession cs1 req 200 ''OK'' = Respond r" "\<exists>r. respondStatus req 501 ''Not Implemented'' = Respond r"
      by (auto simp: respondOptions_def respondDescribe_def respondStatus_def respondSession_def
          split: prod.splits option.splits pathKind.splits)
    consider "rq_Method req = ''OPTIONS''" | "rq_Method req = ''DESCRIBE''" | (S) "rq_Method req = ''SETUP''"
      | (P) "rq_Method req = ''PLAY''" | "rq_Method req = ''GET_PARAMETER''" | (T) "rq_Method req = ''TEARDOWN''"
      | (X) "rq_Method req \<notin> {''OPTIONS'', ''DESCRIBE'', ''SETUP'', ''PLAY'', ''GET_PARAMETER'', ''TEARDOWN''}"
      by blast
    then show thesis
    proof cases
      case S
      obtain e cs2 where e: "respondSetup ev rd req cs1 = (e, cs2)" by fastforce
      then have "cs' = cs2" "os = [e]" "feeds' = feeds" using run' S by auto
      then show thesis using respondSetup_same[OF e] set_up[OF p] answered[OF p] by metis
    next
      case P
      obtain os2 cs2 feeds2 where e: "respondPlay ev req (cs1, feeds) = (os2, cs2, feeds2)" by (metis prod_cases3)
      then have eq: "cs' = cs2" "os = os2" "feeds' = feeds2" using run' P by auto
      from e show thesis
      proof (cases rule: respondPlay_cases)
        case (same r)
        then show thesis using answered[OF p] eq by blast
      next
        case (play t s f r)
        then show thesis using that(4)[OF p] eq by blast
      qed
    qed (use run' answered[OF p] one in auto)
  qed
qed

section \<open>The invariant\<close>

definition held_of :: "nat \<Rightarrow> connSession \<Rightarrow> nat option" where
  "held_of k cs = (case cs_track cs of Some t \<Rightarrow> if tr_Feed t = k then cs_sub cs else None | None \<Rightarrow> None)"

lemma held_of_cong: "cs_track cs' = cs_track cs \<Longrightarrow> cs_sub cs' = cs_sub cs \<Longrightarrow> held_of k cs' = held_of k cs"
  unfolding held_of_def by metis

text \<open>The subscription each connection holds on feed \<open>k\<close>.\<close>

definition held :: "server \<Rightarrow> nat \<Rightarrow> nat \<Rightarrow> nat option" where
  "held sv k c = (case sv_conns sv c of Some cs \<Rightarrow> held_of k cs | None \<Rightarrow> None)"

definition conn_ok :: "connSession \<Rightarrow> bool" where [inv_defs]:
  "conn_ok cs \<longleftrightarrow>
     (cs_state cs = statePlaying \<longleftrightarrow> cs_sub cs \<noteq> None) \<and> (cs_writing cs \<longleftrightarrow> cs_sub cs \<noteq> None) \<and>
     (cs_state cs \<noteq> stateInit \<longrightarrow> cs_track cs \<noteq> None)"

text \<open>
  An authenticated connection answered its own nonce with a token the guard held at or after the
  generation it recorded.
\<close>

definition auth_ok :: "env \<Rightarrow> guard \<Rightarrow> nat \<Rightarrow> connSession \<Rightarrow> bool" where [inv_defs]:
  "auth_ok ev g n cs \<longleftrightarrow>
     (cs_authed cs \<longrightarrow> (\<exists>g0 vs us m hdr. g = fold guard_Set us (fold guard_Set vs g0) \<and>
        guard_Generation (Some g0) = cs_authGen cs \<and> length vs + length us \<le> n \<and>
        guard_CheckDigest (ev_ParseChallenges ev) (ev_md5 ev) (Some (fold guard_Set vs g0)) m hdr (cs_nonce cs)))"

fun is_connected :: "effect \<Rightarrow> bool" where
  "is_connected (ClientConnected p) = True" | "is_connected _ = False"

fun is_disconnected :: "effect \<Rightarrow> bool" where
  "is_disconnected (ClientDisconnected p r) = True" | "is_disconnected _ = False"

definition seen :: "(effect \<Rightarrow> bool) \<Rightarrow> server \<Rightarrow> nat \<Rightarrow> nat" where
  "seen P sv c = length (filter (\<lambda>(d, e). d = c \<and> P e) (sv_log sv))"

definition playing :: "server \<Rightarrow> nat \<Rightarrow> nat" where
  "playing sv c = (case sv_conns sv c of Some cs \<Rightarrow> if cs_writing cs then 1 else 0 | None \<Rightarrow> 0)"

definition server_inv :: "env \<Rightarrow> server \<Rightarrow> bool" where [inv_defs]:
  "server_inv ev sv \<longleftrightarrow>
     (\<forall>c cs. sv_conns sv c = Some cs \<longrightarrow> conn_ok cs \<and> auth_ok ev (sv_guard sv) (sv_sets sv) cs) \<and>
     (\<forall>k. ff.holds (held sv k) (sv_feeds sv k)) \<and>
     (\<forall>c. seen is_connected sv c = seen is_disconnected sv c + playing sv c)"

lemma server_invI:
  assumes "\<And>c cs. sv_conns sv c = Some cs \<Longrightarrow> conn_ok cs" "\<And>c cs. sv_conns sv c = Some cs \<Longrightarrow> auth_ok ev (sv_guard sv) (sv_sets sv) cs"
    "\<And>k. ff.holds (held sv k) (sv_feeds sv k)" "\<And>c. seen is_connected sv c = seen is_disconnected sv c + playing sv c"
  shows "server_inv ev sv"
  using assms unfolding server_inv_def by blast

lemma server_invD:
  assumes "server_inv ev sv"
  shows "\<And>c cs. sv_conns sv c = Some cs \<Longrightarrow> conn_ok cs" "\<And>c cs. sv_conns sv c = Some cs \<Longrightarrow> auth_ok ev (sv_guard sv) (sv_sets sv) cs"
    "\<And>k. ff.holds (held sv k) (sv_feeds sv k)" "\<And>c. seen is_connected sv c = seen is_disconnected sv c + playing sv c"
  using assms unfolding server_inv_def by blast+

lemma auth_ok_sets:
  assumes "auth_ok ev g n cs"
  shows "auth_ok ev (fold guard_Set us' g) (n + length us') cs"
  unfolding auth_ok_def
proof
  assume "cs_authed cs"
  then obtain g0 vs us m hdr where a: "g = fold guard_Set us (fold guard_Set vs g0)"
    "guard_Generation (Some g0) = cs_authGen cs" "length vs + length us \<le> n"
    "guard_CheckDigest (ev_ParseChallenges ev) (ev_md5 ev) (Some (fold guard_Set vs g0)) m hdr (cs_nonce cs)"
    using assms unfolding auth_ok_def by blast
  have "fold guard_Set us' g = fold guard_Set (us @ us') (fold guard_Set vs g0)" using a(1) by simp
  moreover have "length vs + length (us @ us') \<le> n + length us'" using a(3) by simp
  ultimately show "\<exists>g0 vs us m hdr. fold guard_Set us' g = fold guard_Set us (fold guard_Set vs g0) \<and>
      guard_Generation (Some g0) = cs_authGen cs \<and> length vs + length us \<le> n + length us' \<and>
      guard_CheckDigest (ev_ParseChallenges ev) (ev_md5 ev) (Some (fold guard_Set vs g0)) m hdr (cs_nonce cs)"
    using a(2,4) by blast
qed

lemma auth_ok_same: "auth_ok ev g n cs \<Longrightarrow> same_auth cs cs' \<Longrightarrow> auth_ok ev g n cs'"
  unfolding auth_ok_def same_auth_def by metis

text \<open>Passing the check keeps the invariant of the credentials, with the sets that happened meanwhile.\<close>

lemma passed_facts:
  assumes "passed ev rd req cs cs1"
  shows "cs_sub cs1 = cs_sub cs" "cs_writing cs1 = cs_writing cs" "cs_track cs1 = cs_track cs"
    "cs_state cs1 = cs_state cs" "cs_nonce cs1 = cs_nonce cs"
proof -
  have "cs1 = cs \<or> (\<exists>gen. cs1 = cs\<lparr>cs_authed := True, cs_authGen := gen\<rparr>)"
    using assms authorized_same[of ev rd req cs True cs1] unfolding passed_def by (metis (full_types))
  then show "cs_sub cs1 = cs_sub cs" "cs_writing cs1 = cs_writing cs" "cs_track cs1 = cs_track cs"
    "cs_state cs1 = cs_state cs" "cs_nonce cs1 = cs_nonce cs" by auto
qed

lemma passed_auth:
  assumes "passed ev rd req cs cs1" "auth_ok ev g n cs" "rd_guard rd = Some g" "rd_guard' rd = Some (fold guard_Set vs g)"
  shows "auth_ok ev (fold guard_Set vs g) (n + length vs) cs1"
proof (cases "rq_Method req = ''OPTIONS''")
  case True
  then show ?thesis using assms(1) auth_ok_sets[OF assms(2)] by (simp add: passed_def)
next
  case False
  then have "authorized ev rd req cs = (True, cs1)" using assms(1) by (simp add: passed_def)
  then show ?thesis
  proof (cases rule: authorized_cases)
    case digest
    show ?thesis unfolding auth_ok_def
    proof (intro impI exI conjI)
      show "fold guard_Set vs g = fold guard_Set [] (fold guard_Set vs g)" by simp
      show "guard_Generation (Some g) = cs_authGen cs1" using digest(3) assms(3) by simp
      show "guard_CheckDigest (ev_ParseChallenges ev) (ev_md5 ev) (Some (fold guard_Set vs g)) (rq_Method req)
          (rq_Header req ''Authorization'') (cs_nonce cs1)"
        using digest(2,3) assms(4) by simp
    qed simp
  qed (simp_all add: auth_ok_sets[OF assms(2)])
qed

lemma holds_same:
  assumes "ff.holds h f" "fe_snap f' = fe_snap f" "length (fe_all f') = length (fe_all f)"
    "\<And>j. su_closed (fe_all f' ! j) = su_closed (fe_all f ! j)"
  shows "ff.holds h f'"
  using assms(1) feed_ok_same_subs[OF _ assms(2-4)] unfolding ff.holds_def feed_open_def assms(2) by blast

lemma held_upd:
  "held (sv\<lparr>sv_conns := (sv_conns sv)(c \<mapsto> cs)\<rparr>) k = (held sv k)(c := held_of k cs)"
  by (auto simp: held_def)

lemma held_cong: "sv_conns sv' = sv_conns sv \<Longrightarrow> held sv' k = held sv k"
  by (auto simp: held_def)

text \<open>Steps that leave the connections and the log alone, and those that change only feeds.\<close>

lemma server_inv_other:
  assumes "server_inv ev sv" "sv_conns sv' = sv_conns sv" "sv_log sv' = sv_log sv"
    "sv_guard sv' = fold guard_Set vs (sv_guard sv)" "sv_sets sv' = sv_sets sv + length vs"
    "\<And>k. ff.holds (held sv k) (sv_feeds sv' k)"
  shows "server_inv ev sv'"
proof (rule server_invI)
  show "conn_ok cs" if "sv_conns sv' c = Some cs" for c cs
    using server_invD(1)[OF assms(1)] that by (simp add: assms(2))
  show "auth_ok ev (sv_guard sv') (sv_sets sv') cs" if "sv_conns sv' c = Some cs" for c cs
    unfolding assms(4,5) by (rule auth_ok_sets) (use server_invD(2)[OF assms(1)] that assms(2) in simp)
  show "ff.holds (held sv' k) (sv_feeds sv' k)" for k unfolding held_cong[OF assms(2)] by (rule assms(6))
  show "seen is_connected sv' c = seen is_disconnected sv' c + playing sv' c" for c
    using server_invD(4)[OF assms(1), of c] by (simp add: seen_def playing_def assms(2,3))
qed

lemma server_inv_feed:
  assumes "server_inv ev sv" "fe_snap f = fe_snap (sv_feeds sv k)" "length (fe_all f) = length (fe_all (sv_feeds sv k))"
    "\<And>j. su_closed (fe_all f ! j) = su_closed (fe_all (sv_feeds sv k) ! j)"
  shows "server_inv ev (sv\<lparr>sv_feeds := (sv_feeds sv)(k := f)\<rparr>)"
proof (rule server_inv_other[OF assms(1), where vs = "[]"])
  fix j
  show "ff.holds (held sv j) (sv_feeds (sv\<lparr>sv_feeds := (sv_feeds sv)(k := f)\<rparr>) j)"
    using server_invD(3)[OF assms(1), of j] holds_same[OF server_invD(3)[OF assms(1)] assms(2-4)] by simp
qed simp_all

text \<open>A step of one connection: the others are untouched.\<close>

lemma server_inv_conn:
  assumes inv: "server_inv ev sv" and c: "sv_conns sv c = Some cs"
    and sv': "sv' = sv\<lparr>sv_guard := fold guard_Set vs (sv_guard sv), sv_sets := sv_sets sv + length vs,
      sv_tracks := tracks, sv_feeds := feeds', sv_conns := (sv_conns sv)(c \<mapsto> cs'),
      sv_closing := closing, sv_log := sv_log sv @ map (Pair c) os\<rparr>"
    and ok: "conn_ok cs'" "auth_ok ev (fold guard_Set vs (sv_guard sv)) (sv_sets sv + length vs) cs'"
    and feeds: "\<And>k. ff.holds ((held sv k)(c := held_of k cs')) (feeds' k)"
    and log: "length (filter is_connected os) + (if cs_writing cs then 1 else 0)
      = length (filter is_disconnected os) + (if cs_writing cs' then 1 else 0)"
  shows "server_inv ev sv'"
proof (rule server_invI)
  fix d ds assume d: "sv_conns sv' d = Some ds"
  show "conn_ok ds" using d ok(1) server_invD(1)[OF inv] by (cases "d = c") (auto simp: sv')
  show "auth_ok ev (sv_guard sv') (sv_sets sv') ds"
    using d ok(2) auth_ok_sets[OF server_invD(2)[OF inv, of d ds], of vs] by (cases "d = c") (simp_all add: sv')
next
  fix k
  have "held sv' k = (held sv k)(c := held_of k cs')" by (auto simp: held_def sv')
  then show "ff.holds (held sv' k) (sv_feeds sv' k)" using feeds[of k] by (simp add: sv')
next
  fix d
  have sn: "seen P sv' d = seen P sv d + (if d = c then length (filter P os) else 0)" for P
    by (auto simp: seen_def sv' filter_map comp_def)
  have "playing sv' d = (if d = c then if cs_writing cs' then 1 else 0 else playing sv d)"
    "playing sv c = (if cs_writing cs then 1 else 0)"
    using c by (simp_all add: playing_def sv')
  then show "seen is_connected sv' d = seen is_disconnected sv' d + playing sv' d"
    unfolding sn using server_invD(4)[OF inv, of d] log by (cases "d = c") (simp_all split: if_splits)
qed

lemma server_inv_request:
  assumes inv: "server_inv ev sv" and c: "sv_conns sv c = Some cs"
    and rd: "rd_guard rd = Some (sv_guard sv)" "rd_guard' rd = Some (fold guard_Set vs (sv_guard sv))"
    and run: "handle ev rd req (cs, sv_feeds sv) = (fatal, os, cs', feeds')"
  shows "server_inv ev (sv\<lparr>sv_guard := fold guard_Set vs (sv_guard sv), sv_sets := sv_sets sv + length vs,
      sv_tracks := rd_tracks' rd, sv_feeds := feeds', sv_conns := (sv_conns sv)(c \<mapsto> cs'),
      sv_closing := (sv_closing sv)(c := fatal), sv_log := sv_log sv @ map (Pair c) os\<rparr>)"
proof -
  have ok: "conn_ok cs" and au: "auth_ok ev (sv_guard sv) (sv_sets sv) cs" and fe: "\<And>k. ff.holds (held sv k) (sv_feeds sv k)"
    using server_invD[OF inv] c by blast+
  have hc: "held sv k c = held_of k cs" for k using c by (simp add: held_def)
  have keep: "\<And>k. ff.holds ((held sv k)(c := held_of k cs')) (sv_feeds sv k)" if "\<And>k. held_of k cs' = held_of k cs"
    using fe by (simp add: that hc[symmetric])
  note au' = passed_auth[OF _ au rd]
  from run show ?thesis
  proof (cases rule: handle_cases)
    case (unauthorized r n)
    have same: "cs_track cs' = cs_track cs" "cs_sub cs' = cs_sub cs" "cs_writing cs' = cs_writing cs" "cs_state cs' = cs_state cs"
      by (simp_all add: unauthorized(7))
    then have "conn_ok cs'" using ok by (simp add: conn_ok_def)
    moreover have "auth_ok ev (fold guard_Set vs (sv_guard sv)) (sv_sets sv + length vs) cs'"
    proof (cases "cs_nonce cs = ''''")
      case True
      have "\<not> cs_authed cs" using au True by (auto simp: auth_ok_def CheckDigest_iff)
      then show ?thesis by (simp add: auth_ok_def unauthorized(7))
    qed (simp add: unauthorized(7) auth_ok_sets[OF au])
    ultimately show ?thesis unfolding unauthorized(5)
      by (rule server_inv_conn[OF inv c refl _ _ keep])
        (simp_all add: unauthorized(3) same held_of_cong[OF same(1,2)])
  next
    case (answered cs1 r)
    note p = passed_facts[OF answered(1)]
    have same: "cs_sub cs' = cs_sub cs" "cs_writing cs' = cs_writing cs" "cs_track cs' = cs_track cs" "cs_state cs' = cs_state cs"
      "same_auth cs1 cs'" using answered(4) p by (auto simp: same_auth_def)
    have "conn_ok cs'" using ok by (simp add: conn_ok_def same)
    then show ?thesis unfolding answered(3)
      by (rule server_inv_conn[OF inv c refl _ auth_ok_same[OF au'[OF answered(1)] same(5)] keep])
        (simp_all add: answered(2) same held_of_cong[OF same(3,1)])
  next
    case (set_up cs1 r)
    note p = passed_facts[OF set_up(1)]
    have sub: "cs_sub cs = None" using ok set_up(7) p by (auto simp: conn_ok_def)
    then have none: "held_of k cs' = held_of k cs" for k
      using set_up(5) p by (auto simp: held_of_def split: option.splits)
    have "conn_ok cs'" using ok set_up p sub by (simp add: conn_ok_def)
    then show ?thesis unfolding set_up(3)
      by (rule server_inv_conn[OF inv c refl _ auth_ok_same[OF au'[OF set_up(1)] set_up(4)] keep])
        (simp_all add: set_up(2,6) p none)
  next
    case (play cs1 t s f r)
    note p = passed_facts[OF play(1)]
    have sub: "cs_sub cs = None" "\<not> cs_writing cs" using ok play(3) p by (auto simp: conn_ok_def)
    have "conn_ok cs'" using play(2) by (simp add: conn_ok_def play(7))
    moreover have "same_auth cs1 cs'" by (simp add: same_auth_def play(7))
    moreover have "ff.holds ((held sv k)(c := held_of k cs')) (feeds' k)" for k
    proof (cases "k = tr_Feed t")
      case True
      have "held sv k c = None" using sub(1) by (simp add: hc held_of_def split: option.splits)
      then show ?thesis using ff.holds_subscribe[OF fe _ play(4)] True play(2,5) by (simp add: held_of_def play(7))
    next
      case False
      then have "held_of k cs' = held_of k cs" using sub(1) play(2) by (simp add: held_of_def play(7) split: option.splits)
      then show ?thesis using keep False fe[of k] hc[of k] play(5) by (metis fun_upd_other fun_upd_triv)
    qed
    ultimately show ?thesis using auth_ok_same[OF au'[OF play(1)]]
      by (intro server_inv_conn[OF inv c refl]) (simp_all add: sub(2) play(6,7))
  qed
qed

lemma server_inv_finish:
  assumes inv: "server_inv ev sv" and c: "sv_conns sv c = Some cs" and run: "cleanup (cs, sv_feeds sv) = (os, feeds')"
  shows "server_inv ev (sv\<lparr>sv_feeds := feeds', sv_conns := (sv_conns sv)(c := None), sv_log := sv_log sv @ map (Pair c) os\<rparr>)"
    (is "server_inv ev ?sv")
proof (rule server_invI)
  have ok: "conn_ok cs" and fe: "\<And>k. ff.holds (held sv k) (sv_feeds sv k)" using server_invD[OF inv] c by blast+
  fix d ds assume d: "sv_conns ?sv d = Some ds"
  then show "conn_ok ds" "auth_ok ev (sv_guard ?sv) (sv_sets ?sv) ds"
    using server_invD(1,2)[OF inv, of d ds] by (auto split: if_splits)
next
  have ok: "conn_ok cs" and fe: "\<And>k. ff.holds (held sv k) (sv_feeds sv k)" using server_invD[OF inv] c by blast+
  fix k
  have h: "held ?sv k = (held sv k)(c := None)" by (auto simp: held_def)
  have hc: "held sv k c = held_of k cs" using c by (simp add: held_def)
  have "ff.holds ((held sv k)(c := None)) (feeds' k)"
  proof (cases "held_of k cs")
    case None
    then have "feeds' k = sv_feeds sv k" using run
      by (auto simp: cleanup_def Let_def held_of_def split: option.splits if_splits)
    then show ?thesis using fe[of k] hc None by (metis fun_upd_triv)
  next
    case (Some s)
    then obtain t where t: "cs_track cs = Some t" "tr_Feed t = k" "cs_sub cs = Some s"
      by (auto simp: held_of_def split: option.splits if_splits)
    then have "feeds' k = Sub_Close s (sv_feeds sv k)" using run by (auto simp: cleanup_def Let_def)
    then show ?thesis using ff.holds_close[OF fe, of k c s] hc Some by simp
  qed
  then show "ff.holds (held ?sv k) (sv_feeds ?sv k)" unfolding h by simp
next
  have ok: "conn_ok cs" using server_invD(1)[OF inv c] .
  fix d
  have os: "length (filter is_connected os) = 0" "length (filter is_disconnected os) = (if cs_writing cs then 1 else 0)"
    using run ok by (auto simp: cleanup_def Let_def conn_ok_def split: option.splits if_splits)
  have sn: "seen P ?sv d = seen P sv d + (if d = c then length (filter P os) else 0)" for P
    by (auto simp: seen_def filter_map comp_def)
  have "playing ?sv d = (if d = c then 0 else playing sv d)" "playing sv c = (if cs_writing cs then 1 else 0)"
    using c by (simp_all add: playing_def)
  then show "seen is_connected ?sv d = seen is_disconnected ?sv d + playing ?sv d"
    unfolding sn using server_invD(4)[OF inv, of d] os by (cases "d = c") (simp_all split: if_splits)
qed

lemma server_inv_start: "server_inv ev (server_start token ts)"
proof (rule server_invI)
  fix k
  have "held (server_start token ts) k = (\<lambda>_. None)" by (auto simp: held_def server_start_def)
  moreover have "feed_open NewFeed = {}" by (simp add: feed_open_def NewFeed_def)
  ultimately show "ff.holds (held (server_start token ts) k) (sv_feeds (server_start token ts) k)"
    by (simp add: ff.holds_def NewFeed_ok server_start_def)
qed (simp_all add: server_start_def seen_def playing_def)

lemma server_inv_step: "srv_step ev sv sv' \<Longrightarrow> server_inv ev sv \<Longrightarrow> server_inv ev sv'"
proof (induction rule: srv_step.induct)
  case (set_token sv token)
  then show ?case by (rule server_inv_other[where vs = "[token]"]) (simp_all add: server_invD(3)[OF set_token])
next
  case (add_track sv t)
  then show ?case by (rule server_inv_other[where vs = "[]"]) (simp_all add: server_invD(3)[OF add_track])
next
  case (remove_track sv p)
  then show ?case by (rule server_inv_other[where vs = "[]"]) (simp_all add: server_invD(3)[OF remove_track])
next
  case (feed_close sv k)
  then show ?case by (rule server_inv_feed) (simp_all add: Feed_Close_def)
next
  case (feed_offer i sv k fr d f)
  note f = push_offer_facts[OF feed_offer(2,1)]
  show ?case using feed_offer(3) by (rule server_inv_feed) (simp_all add: f)
next
  case (feed_next i sv k fr f c)
  note f = Sub_Next_frame[OF feed_next(2,1)]
  show ?case using feed_next(3) by (rule server_inv_feed) (simp_all add: f)
next
  case (accept sv c)
  have fe: "ff.holds (held sv k) (sv_feeds sv k)" for k using server_invD(3)[OF accept(2)] .
  have "held (sv\<lparr>sv_conns := (sv_conns sv)(c \<mapsto> new_conn), sv_closing := (sv_closing sv)(c := False)\<rparr>) k = held sv k" for k
    using accept(1) by (auto simp: held_def held_of_def new_conn_def)
  then show ?case using server_invD[OF accept(2)] accept(1)
    by (intro server_invI) (auto simp: conn_ok_def auth_ok_def new_conn_def seen_def playing_def split: if_splits)
next
  case (request sv c cs rd vs req fatal os cs' feeds')
  then show ?case by (intro server_inv_request) simp_all
next
  case (evict sv c cs enabled gen)
  note ok = server_invD[OF evict(5)]
  have "held (sv\<lparr>sv_conns := (sv_conns sv)(c \<mapsto> cs\<lparr>cs_evictReason := DisconnectEvicted\<rparr>)\<rparr>) k = held sv k" for k
    unfolding held_upd using evict(1) held_of_cong[of "cs\<lparr>cs_evictReason := DisconnectEvicted\<rparr>" cs k]
    by (auto simp: held_def)
  then show ?case using ok evict(1) ok(1)[OF evict(1)] ok(2)[OF evict(1)] ok(4)
    by (intro server_invI) (auto simp: conn_ok_def auth_ok_def seen_def playing_def split: if_splits)
next
  case (finish sv c cs os feeds')
  then show ?case by (intro server_inv_finish)
qed

lemma server_inv_steps: "(srv_step ev)\<^sup>*\<^sup>* (server_start token ts) sv \<Longrightarrow> server_inv ev sv"
  by (induction rule: rtranclp_induct) (auto intro: server_inv_start server_inv_step)

section \<open>What the server keeps\<close>

text \<open>A connection authorized under the current generation answered with the token that is active now.\<close>

lemma auth_ok_current:
  assumes "auth_ok ev g n cs" "cs_authed cs" "cs_authGen cs = guard_Generation (Some g)" "n < 2 ^ 64"
  shows "\<exists>m hdr. guard_CheckDigest (ev_ParseChallenges ev) (ev_md5 ev) (Some g) m hdr (cs_nonce cs)"
proof -
  obtain g0 vs us m hdr where a: "g = fold guard_Set us (fold guard_Set vs g0)"
    "guard_Generation (Some g0) = cs_authGen cs" "length vs + length us \<le> n"
    "guard_CheckDigest (ev_ParseChallenges ev) (ev_md5 ev) (Some (fold guard_Set vs g0)) m hdr (cs_nonce cs)"
    using assms(1,2) unfolding auth_ok_def by blast
  have "guard_Generation (Some (fold guard_Set (vs @ us) g0)) = guard_Generation (Some g0)"
    using assms(3) a(1,2) by simp
  moreover have "length (vs @ us) < 2 ^ 64" using a(3) assms(4) by simp
  ultimately have all: "\<forall>v \<in> set (vs @ us). v = guard_current (Some g0)" by (rule tok.same_gen)
  have "guard_current (Some (fold guard_Set vs g0)) = guard_current (Some g0)"
    using all unfolding tok.val_fold by (cases vs rule: rev_cases) simp_all
  moreover have "guard_current (Some g) = last (guard_current (Some g0) # vs @ us)"
    using tok.val_fold[of "vs @ us" g0] a(1) by simp
  then have "guard_current (Some g) = guard_current (Some g0)"
    using all by (cases "vs @ us" rule: rev_cases) simp_all
  ultimately show ?thesis using a(4) unfolding CheckDigest_iff guard_Enabled_def by metis
qed


text \<open>
  C2. In every run, the clients of a feed are exactly the playing connections of its track, each
  holding one subscription, at most 8 of them; every connection's reports to the listener pair
  up, one disconnect for each connect once it is over; and when the last connection has ended
  every feed is idle.
\<close>
theorem feeds_serve_exactly_the_playing_connections:
  assumes "(srv_step ev)\<^sup>*\<^sup>* (server_start token ts) sv"
  shows "Feed_Clients (sv_feeds sv k) = card {c. held sv k c \<noteq> None} \<and> Feed_Clients (sv_feeds sv k) \<le> 8
    \<and> (\<forall>c cs. sv_conns sv c = Some cs \<longrightarrow> (cs_state cs = statePlaying \<longleftrightarrow>
         (\<exists>t s. cs_track cs = Some t \<and> cs_sub cs = Some s \<and> s \<in> feed_open (sv_feeds sv (tr_Feed t)))))
    \<and> (\<forall>c. seen is_connected sv c = seen is_disconnected sv c + playing sv c)
    \<and> ((\<forall>c. sv_conns sv c = None) \<longrightarrow> fst (Feed_Session (sv_feeds sv k)) = False)"
proof (intro conjI allI impI)
  have inv: "server_inv ev sv" using assms by (rule server_inv_steps)
  have h: "feed_ok (sv_feeds sv j)" "feed_open (sv_feeds sv j) = ran (held sv j)" "inj_on (held sv j) (dom (held sv j))" for j
    using server_invD(3)[OF inv, of j] by (simp_all add: ff.holds_def)
  have "distinct (sn_subs (fe_snap (sv_feeds sv k)))" using h(1)[of k] by (simp add: feed_ok_def)
  then have "Feed_Clients (sv_feeds sv k) = card (feed_open (sv_feeds sv k))"
    by (simp add: Feed_Clients_def feed_open_def distinct_card)
  also have "\<dots> = card (dom (held sv k))"
  proof -
    have "ran (held sv k) = (the \<circ> held sv k) ` dom (held sv k)" by (force simp: ran_def dom_def)
    moreover have "inj_on (the \<circ> held sv k) (dom (held sv k))"
      using h(3) unfolding inj_on_def by (metis comp_apply domD option.sel)
    ultimately show ?thesis unfolding h(2) by (metis card_image)
  qed
  also have "dom (held sv k) = {c. held sv k c \<noteq> None}" by auto
  finally show "Feed_Clients (sv_feeds sv k) = card {c. held sv k c \<noteq> None}" .
  show "Feed_Clients (sv_feeds sv k) \<le> 8" using h(1) by (simp add: Feed_Clients_def feed_ok_def maxClients_def)
  show "cs_state cs = statePlaying \<longleftrightarrow>
      (\<exists>t s. cs_track cs = Some t \<and> cs_sub cs = Some s \<and> s \<in> feed_open (sv_feeds sv (tr_Feed t)))"
    if c: "sv_conns sv c = Some cs" for c cs
  proof
    assume "cs_state cs = statePlaying"
    then obtain t s where ts: "cs_track cs = Some t" "cs_sub cs = Some s"
      using server_invD(1)[OF inv c] by (auto simp: conn_ok_def)
    then have "held sv (tr_Feed t) c = Some s" using c by (simp add: held_def held_of_def)
    then show "\<exists>t s. cs_track cs = Some t \<and> cs_sub cs = Some s \<and> s \<in> feed_open (sv_feeds sv (tr_Feed t))"
      using ts h(2)[of "tr_Feed t"] by (auto simp: ran_def)
  next
    assume "\<exists>t s. cs_track cs = Some t \<and> cs_sub cs = Some s \<and> s \<in> feed_open (sv_feeds sv (tr_Feed t))"
    then show "cs_state cs = statePlaying" using server_invD(1)[OF inv c] by (auto simp: conn_ok_def)
  qed
  show "seen is_connected sv c = seen is_disconnected sv c + playing sv c" for c using server_invD(4)[OF inv] .
  show "fst (Feed_Session (sv_feeds sv k)) = False" if "\<forall>c. sv_conns sv c = None"
  proof -
    have "held sv k = (\<lambda>_. None)" using that by (auto simp: held_def)
    then have "feed_open (sv_feeds sv k) = {}" using h(2)[of k] by simp
    then show ?thesis by (simp add: feed_open_def Feed_Session_def)
  qed
qed

section \<open>A session\<close>

definition demo_env :: env where
  "demo_env = \<lparr>ev_urlParse = (\<lambda>u. Some ('''', u)), ev_ParseTransport = (\<lambda>_. Some \<lparr>tp_Protocol = ''RTP/AVP/tcp'',
     tp_Interleaved = True, tp_channels = Some (2, 3)\<rparr>), ev_ParseChallenges = (\<lambda>_. []), ev_md5 = (\<lambda>_. []),
     ev_LocalAddr = ''mic:8554'', ev_TimeoutSeconds = 60\<rparr>"

definition demo_track :: track where
  "demo_track = \<lparr>tr_ref = 1, tr_Path = ''/mic'', tr_SDP = ''v=0'', tr_PayloadType = 96, tr_Feed = 0\<rparr>"

definition demo_rd :: "string \<Rightarrow> reads" where
  "demo_rd token = \<lparr>rd_guard = Some (NewGuard token), rd_guard' = Some (NewGuard token),
     rd_tracks = NewTracks [demo_track], rd_tracks' = NewTracks [demo_track],
     rd_nonce = (\<lambda>n. replicate n 7), rd_id = [1, 2], rd_seq = 65537, rd_ts = 9\<rparr>"

definition demo_req :: "string \<Rightarrow> string \<Rightarrow> request" where
  "demo_req m url = \<lparr>rq_Method = m, rq_URL = url, rq_CSeq = 1,
     rq_Header = (\<lambda>h. if h = ''Session'' then ''0102;timeout=60'' else '''')\<rparr>"

text \<open>Open access: a client sets up and plays.\<close>

lemma demo_session:
  "\<exists>sv cs. (srv_step demo_env)\<^sup>*\<^sup>* (server_start '''' [demo_track]) sv \<and> sv_conns sv 4 = Some cs \<and>
     cs_state cs = statePlaying \<and> cs_rtpCh cs = 2 \<and> cs_startSeq cs = 1 \<and> Feed_Clients (sv_feeds sv 0) = 1"
proof -
  let ?s0 = "server_start '''' [demo_track]" and ?rd = "demo_rd ''''"
  let ?s1 = "?s0\<lparr>sv_conns := (sv_conns ?s0)(4 \<mapsto> new_conn), sv_closing := (sv_closing ?s0)(4 := False)\<rparr>"
  have st1: "srv_step demo_env ?s0 ?s1" by (rule srv_step.accept) (simp add: server_start_def)
  obtain f1 os1 cs1 fe1 where h1: "handle demo_env ?rd (demo_req ''SETUP'' ''/mic/trackID=0'') (new_conn, \<lambda>_. NewFeed) = (f1, os1, cs1, fe1)"
    using prod_cases4 by blast
  have e1: "\<not> f1" "fe1 = (\<lambda>_. NewFeed)"
    "cs1 = new_conn\<lparr>cs_track := Some demo_track, cs_rtpCh := 2, cs_rtcpCh := 3, cs_id := ''0102'', cs_startSeq := 1,
       cs_startTS := 9, cs_state := stateReady\<rparr>"
  proof -
    have "case handle demo_env ?rd (demo_req ''SETUP'' ''/mic/trackID=0'') (new_conn, \<lambda>_. NewFeed) of (f1, os1, cs1, fe1) \<Rightarrow>
      \<not> f1 \<and> cs1 = new_conn\<lparr>cs_track := Some demo_track, cs_rtpCh := 2, cs_rtcpCh := 3, cs_id := ''0102'', cs_startSeq := 1,
       cs_startTS := 9, cs_state := stateReady\<rparr>" by code_simp
    then have r: "\<not> f1" "cs1 = new_conn\<lparr>cs_track := Some demo_track, cs_rtpCh := 2, cs_rtcpCh := 3, cs_id := ''0102'',
       cs_startSeq := 1, cs_startTS := 9, cs_state := stateReady\<rparr>" unfolding h1 by simp_all
    then show "\<not> f1" "cs1 = new_conn\<lparr>cs_track := Some demo_track, cs_rtpCh := 2, cs_rtcpCh := 3, cs_id := ''0102'',
       cs_startSeq := 1, cs_startTS := 9, cs_state := stateReady\<rparr>" by simp_all
    have ready: "cs_state cs1 = stateReady" unfolding r(2) by simp
    from h1 show "fe1 = (\<lambda>_. NewFeed)"
    proof (cases rule: handle_cases)
      case (play cs1a t s f r)
      have "cs_state cs1 = statePlaying" unfolding play(7) by simp
      then show ?thesis using ready by simp
    qed
  qed
  let ?s2 = "?s1\<lparr>sv_guard := fold guard_Set [] (sv_guard ?s1), sv_sets := sv_sets ?s1 + length ([] :: string list),
      sv_tracks := rd_tracks' ?rd, sv_feeds := fe1, sv_conns := (sv_conns ?s1)(4 \<mapsto> cs1),
      sv_closing := (sv_closing ?s1)(4 := f1), sv_log := sv_log ?s1 @ map (Pair 4) os1\<rparr>"
  have st2: "srv_step demo_env ?s1 ?s2"
    by (rule srv_step.request[where cs = new_conn and req = "demo_req ''SETUP'' ''/mic/trackID=0''"])
      (use h1 in \<open>simp_all add: server_start_def demo_rd_def\<close>)
  obtain f2 os2 cs2 fe2 where h2: "handle demo_env ?rd (demo_req ''PLAY'' ''/mic'') (cs1, fe1) = (f2, os2, cs2, fe2)"
    using prod_cases4 by blast
  have "case handle demo_env ?rd (demo_req ''PLAY'' ''/mic'')
      (new_conn\<lparr>cs_track := Some demo_track, cs_rtpCh := 2, cs_rtcpCh := 3, cs_id := ''0102'', cs_startSeq := 1,
         cs_startTS := 9, cs_state := stateReady\<rparr>, \<lambda>_. NewFeed) of (f2, os2, cs2, fe2) \<Rightarrow>
      cs_state cs2 = statePlaying \<and> cs_rtpCh cs2 = 2 \<and> cs_startSeq cs2 = 1 \<and> Feed_Clients (fe2 0) = 1" by code_simp
  then have e2: "cs_state cs2 = statePlaying" "cs_rtpCh cs2 = 2" "cs_startSeq cs2 = 1" "Feed_Clients (fe2 0) = 1"
    unfolding h2[unfolded e1(2,3)] by simp_all
  let ?s3 = "?s2\<lparr>sv_guard := fold guard_Set [] (sv_guard ?s2), sv_sets := sv_sets ?s2 + length ([] :: string list),
      sv_tracks := rd_tracks' ?rd, sv_feeds := fe2, sv_conns := (sv_conns ?s2)(4 \<mapsto> cs2),
      sv_closing := (sv_closing ?s2)(4 := f2), sv_log := sv_log ?s2 @ map (Pair 4) os2\<rparr>"
  have st3: "srv_step demo_env ?s2 ?s3"
    by (rule srv_step.request[where cs = cs1 and req = "demo_req ''PLAY'' ''/mic''"])
      (use h2 e1(1) in \<open>simp_all add: server_start_def demo_rd_def\<close>)
  have "(srv_step demo_env)\<^sup>*\<^sup>* ?s0 ?s3" using st1 st2 st3 by (meson rtranclp.rtrancl_into_rtrancl rtranclp.rtrancl_refl)
  then show ?thesis using e2 by (intro exI[of _ ?s3] exI[of _ cs2]) simp
qed

lemma feeds_serve_exactly_the_playing_connections_witness:
  "\<exists>sv. (srv_step demo_env)\<^sup>*\<^sup>* (server_start '''' [demo_track]) sv \<and> card {c. held sv 0 c \<noteq> None} = 1"
proof -
  obtain sv where "(srv_step demo_env)\<^sup>*\<^sup>* (server_start '''' [demo_track]) sv" "Feed_Clients (sv_feeds sv 0) = 1"
    using demo_session by blast
  then show ?thesis using feeds_serve_exactly_the_playing_connections[of demo_env "''''" "[demo_track]" sv 0] by metis
qed

text \<open>With a token set, a first DESCRIBE is challenged.\<close>

definition demo_guarded :: server where
  "demo_guarded = (server_start ''secret-token-1'' [demo_track])
     \<lparr>sv_conns := (sv_conns (server_start ''secret-token-1'' [demo_track]))(4 \<mapsto> new_conn),
      sv_closing := (sv_closing (server_start ''secret-token-1'' [demo_track]))(4 := False)\<rparr>"


end
