(* ===== verification/Rtsp_Writer.thy ===== *)
theory Rtsp_Writer
  imports Rtsp_Session
begin

text \<open>
  \<open>internal/rtspserver/writer.go\<close>: the writer of a playing connection. Each pass reads the next frame of
  its subscription, stops if the connection lost its authorization or the frame is too large, writes
  the frame as one RTP packet and, when due, a sender report. Marshalling and the socket are inputs.
\<close>

definition maxWriterPayload :: nat where "maxWriterPayload = 15360"

text \<open>The parameters fixed when the writer starts.\<close>

record writer_cfg =
  wc_pt :: u8
  wc_ssrc :: u32
  wc_startSeq :: u16
  wc_startTS :: u32
  wc_SRInterval :: duration

text \<open>What the writer puts on the wire.\<close>

record rtp_packet =
  rp_PayloadType :: u8
  rp_SequenceNumber :: u16
  rp_Timestamp :: u32
  rp_SSRC :: u32
  rp_Payload :: "u8 list"

record sender_report =
  sr_SSRC :: u32
  sr_Captured :: instant
  sr_RTPTimestamp :: u32
  sr_PacketCount :: u32
  sr_OctetCount :: u32

datatype wire = Rtp rtp_packet | Sr sender_report

record writer =
  wr_seq :: u16
  wr_basePos :: u64
  wr_based :: bool
  wr_packetCount :: u32
  wr_octetCount :: u32
  wr_lastSR :: instant

text \<open>
  What one pass reads: the outcome of Next, the guard and the connection's credentials, whether the
  packet could be built and written, the time when the report is considered, whether it could be
  built and written, and the time it was sent.
\<close>

record pass =
  ps_next :: next_result
  ps_guard :: "guard option"
  ps_authed :: bool
  ps_authGen :: u64
  ps_built :: bool
  ps_written :: bool
  ps_now :: instant
  ps_sr_built :: bool
  ps_sr_written :: bool
  ps_now' :: instant

datatype writer_end = WEnded | WEvicted | WTooLarge | WBuild | WWrite

definition writer_start :: "writer_cfg \<Rightarrow> instant \<Rightarrow> writer" where
  "writer_start cfg now = \<lparr>wr_seq = wc_startSeq cfg, wr_basePos = 0, wr_based = False, wr_packetCount = 0,
     wr_octetCount = 0, wr_lastSR = now - wc_SRInterval cfg\<rparr>"

definition writer_packet :: "writer_cfg \<Rightarrow> frame \<Rightarrow> writer \<Rightarrow> rtp_packet" where
  "writer_packet cfg fr w =
     \<lparr>rp_PayloadType = wc_pt cfg, rp_SequenceNumber = wr_seq w,
      rp_Timestamp = wc_startTS cfg + ucast (fr_Pos fr - wr_basePos w), rp_SSRC = wc_ssrc cfg,
      rp_Payload = fr_Payload fr\<rparr>"

text \<open>The report after a packet: what is written, and whether the writer goes on.\<close>

definition writer_report :: "writer_cfg \<Rightarrow> pass \<Rightarrow> instant \<Rightarrow> u32 \<Rightarrow> writer \<Rightarrow> wire list \<times> (writer_end + writer)" where
  "writer_report cfg p captured ts w =
     (if time_sub (ps_now p) (wr_lastSR w) \<ge> wc_SRInterval cfg \<and> \<not> is_zero captured then
        (let sr = \<lparr>sr_SSRC = wc_ssrc cfg, sr_Captured = captured, sr_RTPTimestamp = ts,
                   sr_PacketCount = wr_packetCount w, sr_OctetCount = wr_octetCount w\<rparr>;
             w' = w\<lparr>wr_lastSR := ps_now' p\<rparr>
         in if \<not> ps_sr_built p then ([], Inr w')
            else if \<not> ps_sr_written p then ([], Inl WWrite)
            else ([Sr sr], Inr w'))
      else ([], Inr w))"

definition writer_pass :: "writer_cfg \<Rightarrow> pass \<Rightarrow> writer \<Rightarrow> wire list \<times> (writer_end + writer)" where
  "writer_pass cfg p w =
     (case ps_next p of
        NextFrame fr \<Rightarrow>
          (case guard_Snapshot (ps_guard p) of (enabled, gen) \<Rightarrow>
             if shouldEvict enabled gen (ps_authed p) (ps_authGen p) then ([], Inl WEvicted)
             else if length (fr_Payload fr) > maxWriterPayload then ([], Inl WTooLarge)
             else
               let w1 = (if \<not> wr_based w then w\<lparr>wr_basePos := fr_Pos fr, wr_based := True\<rparr> else w);
                   pkt = writer_packet cfg fr w1
               in if \<not> ps_built p then ([], Inl WBuild)
                  else if \<not> ps_written p then ([], Inl WWrite)
                  else
                    let w2 = w1\<lparr>wr_seq := wr_seq w1 + 1, wr_packetCount := wr_packetCount w1 + 1,
                               wr_octetCount := wr_octetCount w1 + word_of_nat (length (fr_Payload fr))\<rparr>
                    in (case writer_report cfg p (fr_Captured fr) (rp_Timestamp pkt) w2 of
                          (out, res) \<Rightarrow> (Rtp pkt # out, res)))
      | _ \<Rightarrow> ([], Inl WEnded))"

text \<open>\<open>runWriter\<close>: \<open>Inr\<close> when it is still running after the given passes.\<close>

fun runWriter :: "writer_cfg \<Rightarrow> pass list \<Rightarrow> writer \<Rightarrow> wire list \<times> (writer_end + writer)" where
  "runWriter cfg [] w = ([], Inr w)"
| "runWriter cfg (p # ps) w =
     (case writer_pass cfg p w of
        (out, Inl e) \<Rightarrow> (out, Inl e)
      | (out, Inr w') \<Rightarrow> (case runWriter cfg ps w' of (out', res) \<Rightarrow> (out @ out', res)))"

section \<open>What goes on the wire\<close>

text \<open>
  The wire of a writer that has sent \<open>n\<close> packets of \<open>o\<close> octets, with base position \<open>b\<close>, and sends the
  frames \<open>frs\<close>: one packet for each, a report at most after each.
\<close>

inductive wire_ok :: "writer_cfg \<Rightarrow> nat \<Rightarrow> nat \<Rightarrow> u64 \<Rightarrow> frame list \<Rightarrow> wire list \<Rightarrow> bool" for cfg where
  wire_nil: "wire_ok cfg n oct b [] []"
| wire_packet: "wire_ok cfg (n + 1) (oct + length (fr_Payload fr)) b frs out \<Longrightarrow>
    rp_SequenceNumber pkt = wc_startSeq cfg + word_of_nat n \<Longrightarrow>
    rp_Timestamp pkt = wc_startTS cfg + ucast (fr_Pos fr - b) \<Longrightarrow>
    rp_PayloadType pkt = wc_pt cfg \<Longrightarrow> rp_SSRC pkt = wc_ssrc cfg \<Longrightarrow>
    rp_Payload pkt = fr_Payload fr \<Longrightarrow> length (fr_Payload fr) \<le> 15360 \<Longrightarrow>
    sr = [] \<or> fr_Captured fr \<noteq> 0 \<and>
      sr = [Sr \<lparr>sr_SSRC = wc_ssrc cfg, sr_Captured = fr_Captured fr, sr_RTPTimestamp = rp_Timestamp pkt,
                sr_PacketCount = word_of_nat (n + 1), sr_OctetCount = word_of_nat (oct + length (fr_Payload fr))\<rparr>] \<Longrightarrow>
    wire_ok cfg n oct b (fr # frs) (Rtp pkt # sr @ out)"

definition writer_inv :: "writer_cfg \<Rightarrow> nat \<Rightarrow> nat \<Rightarrow> writer \<Rightarrow> bool" where [inv_defs]:
  "writer_inv cfg n oct w \<longleftrightarrow>
     wr_seq w = wc_startSeq cfg + word_of_nat n \<and> wr_packetCount w = word_of_nat n \<and> wr_octetCount w = word_of_nat oct \<and>
     (wr_based w \<longleftrightarrow> n \<noteq> 0)"

text \<open>The frames of passes that may send: a frame, and a connection the guard still admits.\<close>

definition pass_frame :: "pass \<Rightarrow> frame option" where
  "pass_frame p = (case ps_next p of NextFrame fr \<Rightarrow>
      (case guard_Snapshot (ps_guard p) of (enabled, gen) \<Rightarrow>
         if shouldEvict enabled gen (ps_authed p) (ps_authGen p) then None else Some fr)
    | _ \<Rightarrow> None)"

text \<open>Each pass sends nothing and stops, or sends one packet and perhaps its report.\<close>

lemma writer_report_cases:
  assumes "writer_report cfg p captured ts w = (out, res)"
  shows "(out = [] \<or> captured \<noteq> 0 \<and> out = [Sr \<lparr>sr_SSRC = wc_ssrc cfg, sr_Captured = captured, sr_RTPTimestamp = ts,
      sr_PacketCount = wr_packetCount w, sr_OctetCount = wr_octetCount w\<rparr>])
    \<and> (\<forall>w'. res = Inr w' \<longrightarrow> (\<exists>t. w' = w\<lparr>wr_lastSR := t\<rparr>))"
proof (cases "time_sub (ps_now p) (wr_lastSR w) \<ge> wc_SRInterval cfg \<and> \<not> is_zero captured")
  case False
  then have "out = []" "res = Inr w" using assms unfolding writer_report_def by (simp_all split: if_splits)
  moreover have "\<exists>t. w = w\<lparr>wr_lastSR := t\<rparr>" by (rule exI[of _ "wr_lastSR w"]) simp
  ultimately show ?thesis by simp
next
  case True
  then show ?thesis using assms unfolding writer_report_def Let_def is_zero_def
    by (cases "ps_sr_built p"; cases "ps_sr_written p") auto
qed

lemma writer_pass_cases:
  assumes "writer_inv cfg n oct w" "writer_pass cfg p w = (out, res)" "wr_based w \<longrightarrow> wr_basePos w = b"
  obtains (stopped) e where "out = []" "res = Inl e"
    | (sent) fr pkt sr where "pass_frame p = Some fr" "out = Rtp pkt # sr"
        "\<And>frs out'. (n = 0 \<longrightarrow> b = fr_Pos fr) \<Longrightarrow> wire_ok cfg (n + 1) (oct + length (fr_Payload fr)) b frs out' \<Longrightarrow>
           wire_ok cfg n oct b (fr # frs) (out @ out')"
        "\<And>w'. res = Inr w' \<Longrightarrow> writer_inv cfg (n + 1) (oct + length (fr_Payload fr)) w' \<and>
           wr_basePos w' = (if n = 0 then fr_Pos fr else b)"
proof -
  consider (none) "\<nexists>fr. ps_next p = NextFrame fr" | (frame) fr where "ps_next p = NextFrame fr" by blast
  then show thesis
  proof cases
    case none
    then show thesis using assms(2) stopped by (cases "ps_next p") (auto simp: writer_pass_def)
  next
    case (frame fr)
    obtain enabled gen where snap: "guard_Snapshot (ps_guard p) = (enabled, gen)" by fastforce
    note run = assms(2)[unfolded writer_pass_def frame next_result.case snap prod.case]
    let ?ev = "shouldEvict enabled gen (ps_authed p) (ps_authGen p)"
    show thesis
    proof (cases "?ev \<or> length (fr_Payload fr) > maxWriterPayload \<or> \<not> ps_built p \<or> \<not> ps_written p")
      case True
      then have "out = [] \<and> (\<exists>e. res = Inl e)" using run unfolding Let_def by (auto split: if_splits)
      then show thesis using stopped by blast
    next
      case False
      let ?w1 = "if \<not> wr_based w then w\<lparr>wr_basePos := fr_Pos fr, wr_based := True\<rparr> else w"
      let ?pkt = "writer_packet cfg fr ?w1"
      let ?w2 = "?w1\<lparr>wr_seq := wr_seq ?w1 + 1, wr_packetCount := wr_packetCount ?w1 + 1,
          wr_octetCount := wr_octetCount ?w1 + word_of_nat (length (fr_Payload fr))\<rparr>"
      obtain sr res' where rep: "writer_report cfg p (fr_Captured fr) (rp_Timestamp ?pkt) ?w2 = (sr, res')" by fastforce
      have out: "out = Rtp ?pkt # sr" "res = res'"
        using run False rep unfolding Let_def by (simp_all split: if_splits)
      note cases = writer_report_cases[OF rep]
      have inv2: "writer_inv cfg (n + 1) (oct + length (fr_Payload fr)) ?w2" "wr_basePos ?w2 = (if n = 0 then fr_Pos fr else b)"
        using assms(1,3) by (auto simp: writer_inv_def)
      have pf: "pass_frame p = Some fr" using False by (simp add: pass_frame_def frame snap)
      show thesis
      proof (rule sent[OF pf out(1)])
        fix frs out' assume b: "n = 0 \<longrightarrow> b = fr_Pos fr"
          and rest: "wire_ok cfg (n + 1) (oct + length (fr_Payload fr)) b frs out'"
        have base: "wr_basePos ?w1 = b" "wr_seq ?w1 = wc_startSeq cfg + word_of_nat n"
          using assms(1,3) b by (auto simp: writer_inv_def)
        have "wire_ok cfg n oct b (fr # frs) (Rtp ?pkt # sr @ out')"
        proof (rule wire_packet[OF rest])
          show "rp_SequenceNumber ?pkt = wc_startSeq cfg + word_of_nat n" "rp_PayloadType ?pkt = wc_pt cfg"
            "rp_SSRC ?pkt = wc_ssrc cfg" "rp_Payload ?pkt = fr_Payload fr"
            "rp_Timestamp ?pkt = wc_startTS cfg + ucast (fr_Pos fr - b)"
            using base by (simp_all add: writer_packet_def)
          show "length (fr_Payload fr) \<le> 15360" using False by (simp add: maxWriterPayload_def)
          have "wr_packetCount ?w2 = word_of_nat (n + 1)" "wr_octetCount ?w2 = word_of_nat (oct + length (fr_Payload fr))"
            using inv2(1) by (simp_all add: writer_inv_def)
          then show "sr = [] \<or> fr_Captured fr \<noteq> 0 \<and> sr = [Sr \<lparr>sr_SSRC = wc_ssrc cfg, sr_Captured = fr_Captured fr,
              sr_RTPTimestamp = rp_Timestamp ?pkt, sr_PacketCount = word_of_nat (n + 1),
              sr_OctetCount = word_of_nat (oct + length (fr_Payload fr))\<rparr>]"
            using cases by metis
        qed
        then show "wire_ok cfg n oct b (fr # frs) (out @ out')" by (simp add: out)
      next
        fix w' assume "res = Inr w'"
        then obtain t where "w' = ?w2\<lparr>wr_lastSR := t\<rparr>" using cases out(2) by metis
        then show "writer_inv cfg (n + 1) (oct + length (fr_Payload fr)) w' \<and> wr_basePos w' = (if n = 0 then fr_Pos fr else b)"
          using inv2 by (auto simp: writer_inv_def)
      qed
    qed
  qed
qed

lemma runWriter_wire:
  assumes "writer_inv cfg n oct w" "runWriter cfg ps w = (out, res)" "0 < n" "wr_basePos w = b"
  shows "\<exists>m. wire_ok cfg n oct b (map (\<lambda>p. the (pass_frame p)) (take m ps)) out \<and> m \<le> length ps \<and>
    list_all (\<lambda>p. pass_frame p \<noteq> None) (take m ps)"
  using assms
proof (induction ps arbitrary: n oct w out)
  case Nil
  then show ?case by (auto intro: wire_nil)
next
  case (Cons p ps)
  obtain out1 res1 where p: "writer_pass cfg p w = (out1, res1)" by fastforce
  have based: "wr_based w \<longrightarrow> wr_basePos w = b" using Cons.prems(4) by simp
  from Cons.prems(1) p based show ?case
  proof (cases rule: writer_pass_cases)
    case (stopped e)
    then show ?thesis using Cons.prems(2) p by (intro exI[of _ 0]) (auto intro: wire_nil)
  next
    case (sent fr pkt sr)
    show ?thesis
    proof (cases res1)
      case (Inl e)
      then have "out = out1" using Cons.prems(2) p by simp
      moreover have "wire_ok cfg n oct b [fr] (out1 @ [])"
        using Cons.prems(3) by (intro sent(3) wire_nil) simp
      ultimately show ?thesis using sent(1) by (intro exI[of _ 1]) simp
    next
      case (Inr w')
      obtain out2 where o2: "runWriter cfg ps w' = (out2, res)" "out = out1 @ out2"
        using Cons.prems(2) p Inr by (auto split: prod.splits)
      note w' = sent(4)[OF Inr]
      have b': "wr_basePos w' = b" using w' Cons.prems(3) by simp
      obtain m where m: "wire_ok cfg (n + 1) (oct + length (fr_Payload fr)) b (map (\<lambda>p. the (pass_frame p)) (take m ps)) out2"
        "m \<le> length ps" "list_all (\<lambda>p. pass_frame p \<noteq> None) (take m ps)"
        using Cons.IH[OF conjunct1[OF w'] o2(1) _ b'] add_pos_pos[OF Cons.prems(3) zero_less_one] by blast
      have "wire_ok cfg n oct b (fr # map (\<lambda>p. the (pass_frame p)) (take m ps)) (out1 @ out2)"
        using Cons.prems(3) by (intro sent(3) m(1)) simp
      then show ?thesis using m(2,3) sent(1) o2(2) by (intro exI[of _ "Suc m"]) simp
    qed
  qed
qed

text \<open>
  C22. The writer sends the frames of its subscription in order, one RTP packet each of at most
  15360 bytes: sequence numbers count the packets from the announced start, timestamps differ
  exactly as the frames' stream positions do (modulo the words' widths), and a sender report
  follows its packet with that packet's timestamp and capture time and the counts so far; from
  the first pass without a frame or without authorization on nothing is sent.
\<close>
theorem packets_follow_the_stream_position:
  assumes "runWriter cfg ps (writer_start cfg now) = (out, res)"
  shows "\<exists>m b. m \<le> length ps \<and> list_all (\<lambda>p. pass_frame p \<noteq> None) (take m ps) \<and>
    wire_ok cfg 0 0 b (map (\<lambda>p. the (pass_frame p)) (take m ps)) out \<and> (0 < m \<longrightarrow> b = fr_Pos (the (pass_frame (ps ! 0))))"
proof (cases ps)
  case Nil
  then show ?thesis using assms by (auto intro: wire_nil)
next
  case (Cons p qs)
  let ?w = "writer_start cfg now"
  have inv: "writer_inv cfg 0 0 ?w" "wr_based ?w \<longrightarrow> wr_basePos ?w = fr_Pos (the (pass_frame p))"
    by (simp_all add: writer_inv_def writer_start_def)
  obtain out1 res1 where p: "writer_pass cfg p ?w = (out1, res1)" by fastforce
  from inv(1) p inv(2) show ?thesis
  proof (cases rule: writer_pass_cases)
    case (stopped e)
    then show ?thesis using assms p Cons by (intro exI[of _ 0]) (auto intro: wire_nil)
  next
    case (sent fr pkt sr)
    have b: "fr_Pos (the (pass_frame p)) = fr_Pos fr" using sent(1) by simp
    show ?thesis
    proof (cases res1)
      case (Inl e)
      then have "out = out1" using assms p Cons by simp
      moreover have "wire_ok cfg 0 0 (fr_Pos fr) [fr] (out1 @ [])"
        using sent(3)[unfolded b, of "[]" "[]"] by (simp add: wire_nil)
      ultimately show ?thesis using sent(1) Cons by (intro exI[of _ 1] exI[of _ "fr_Pos fr"]) simp
    next
      case (Inr w')
      obtain out2 where o2: "runWriter cfg qs w' = (out2, res)" "out = out1 @ out2"
        using assms p Inr Cons by (auto split: prod.splits)
      note w' = sent(4)[OF Inr, unfolded b]
      obtain m where m: "wire_ok cfg 1 (length (fr_Payload fr)) (fr_Pos fr) (map (\<lambda>p. the (pass_frame p)) (take m qs)) out2"
        "m \<le> length qs" "list_all (\<lambda>p. pass_frame p \<noteq> None) (take m qs)"
        using runWriter_wire[of cfg 1 "length (fr_Payload fr)" w' qs out2 res "fr_Pos fr"] w' o2(1) by auto
      have "wire_ok cfg 0 0 (fr_Pos fr) (fr # map (\<lambda>p. the (pass_frame p)) (take m qs)) (out1 @ out2)"
        using sent(3)[unfolded b] m(1) by simp
      then show ?thesis using m(2,3) sent(1) o2(2) Cons by (intro exI[of _ "Suc m"] exI[of _ "fr_Pos fr"]) simp
    qed
  qed
qed

definition demo_pass :: "guard \<Rightarrow> u64 \<Rightarrow> pass" where
  "demo_pass g pos = \<lparr>ps_next = NextFrame \<lparr>fr_Payload = [1, 2], fr_Duration = 960, fr_Pos = pos, fr_Captured = 5, fr_Session = 1\<rparr>,
     ps_guard = Some g, ps_authed = False, ps_authGen = 0, ps_built = True, ps_written = True, ps_now = 0,
     ps_sr_built = True, ps_sr_written = True, ps_now' = 0\<rparr>"

definition demo_writer_cfg :: writer_cfg where
  "demo_writer_cfg = \<lparr>wc_pt = 97, wc_ssrc = 7, wc_startSeq = 65535, wc_startTS = 100, wc_SRInterval = 5000000000\<rparr>"

text \<open>Two frames with a gap between them, then a token is set: the wrapped sequence number, the report, the end.\<close>

lemma packets_follow_the_stream_position_witness:
  "let run = runWriter demo_writer_cfg [demo_pass (NewGuard '''') 40, demo_pass (NewGuard '''') 3000, demo_pass (NewGuard ''token-token-1'') 3960]
        (writer_start demo_writer_cfg 0) in
   snd run = Inl WEvicted \<and> length (fst run) = 3 \<and>
   (\<exists>m b. m \<le> 3 \<and> wire_ok demo_writer_cfg 0 0 b (map (\<lambda>p. the (pass_frame p)) (take m [demo_pass (NewGuard '''') 40,
      demo_pass (NewGuard '''') 3000, demo_pass (NewGuard ''token-token-1'') 3960])) (fst run))"
proof -
  let ?ps = "[demo_pass (NewGuard '''') 40, demo_pass (NewGuard '''') 3000, demo_pass (NewGuard ''token-token-1'') 3960]"
  let ?run = "runWriter demo_writer_cfg ?ps (writer_start demo_writer_cfg 0)"
  have ev: "snd ?run = Inl WEvicted \<and> length (fst ?run) = 3"
    by (simp add: demo_pass_def writer_pass_def writer_report_def writer_start_def demo_writer_cfg_def
        guard_Snapshot_def NewGuard_def guard_Set_def guard_next_def shouldEvict_def authorizedUnder_def
        maxWriterPayload_def time_sub_def duration_defs is_zero_def Let_def)
  obtain out res where r: "?run = (out, res)" by fastforce
  obtain m b where "m \<le> length ?ps" "wire_ok demo_writer_cfg 0 0 b (map (\<lambda>p. the (pass_frame p)) (take m ?ps)) out"
    using packets_follow_the_stream_position[OF r] by blast
  then have "m \<le> 3" "wire_ok demo_writer_cfg 0 0 b (map (\<lambda>p. the (pass_frame p)) (take m ?ps)) (fst ?run)"
    unfolding r by simp_all
  then show ?thesis using ev unfolding Let_def by blast
qed

end
