(* ===== verification/Levels.thy ===== *)
theory Levels
  imports Complex_Main Media Sse
begin

text \<open>
  \<open>internal/levels/levels.go\<close>: the meter of a device (\<open>Observe\<close> on the capture path, \<open>sample\<close> on
  the sampler), the hub that owns the meters, the SSE subscribers and the in-process taps, and the
  one-shot \<open>Accumulator\<close>. A \<open>float64\<close> is the real number it stands for (rounding is not modelled;
  the values are finite, so no NaN arises). An \<open>Observe\<close> and a \<open>sample\<close> are one step each: the
  sliver of energy a race moves over a window boundary is not modelled.
\<close>

section \<open>Decibels\<close>

definition FloorDbfs :: real where "FloorDbfs = - 99"
definition fullScale :: real where "fullScale = 32768"

definition dbfs :: "real \<Rightarrow> real" where
  "dbfs ratio =
     (if ratio \<le> 0 then FloorDbfs
      else let d = 20 * log 10 ratio in
        if d < FloorDbfs then FloorDbfs else if d > 0 then 0 else d)"

definition rmsDbfs :: "u64 \<Rightarrow> u64 \<Rightarrow> real" where
  "rmsDbfs sumSq count =
     (if count = 0 then FloorDbfs
      else dbfs (sqrt (real (unat sumSq) / real (unat count)) / fullScale))"

record channelLevels =
  cl_Channel :: nat
  cl_PeakDbfs :: real
  cl_RmsDbfs :: real
  cl_Clipped :: bool

record deviceLevels =
  dl_Name :: string
  dl_Channels :: "channelLevels list"

text \<open>The levels event of one window: one entry per device with a meter.\<close>

type_synonym levelsEvent = "deviceLevels list"

lemma dbfs_range: "FloorDbfs \<le> dbfs r \<and> dbfs r \<le> 0"
  by (simp add: dbfs_def FloorDbfs_def Let_def)

text \<open>The smallest sample, one part in 32768, is above the floor.\<close>

lemma dbfs_floor_iff:
  assumes "r = 0 \<or> 1 / fullScale \<le> r"
  shows "dbfs r = FloorDbfs \<longleftrightarrow> r = 0"
proof -
  have "log 10 (2 ^ 300) < log (10::real) (10 ^ 99)" by (subst log_less_cancel_iff) simp_all
  also have "log 10 (10 ^ 99) = (99::real)" by (subst log_nat_power) simp_all
  finally have "300 * log 10 2 < (99::real)" by (subst (asm) log_nat_power) simp_all
  moreover have "log 10 (1 / fullScale) = - (15 * log 10 2)"
  proof -
    have "log 10 (2 ^ 15) = 15 * log 10 (2::real)" by (subst log_nat_power) simp_all
    moreover have "fullScale = 2 ^ 15" by (simp add: fullScale_def)
    ultimately have "log 10 fullScale = 15 * log 10 2" by metis
    then show ?thesis by (simp add: log_divide fullScale_def)
  qed
  ultimately have small: "FloorDbfs < 20 * log 10 (1 / fullScale)"
    by (simp add: FloorDbfs_def)
  show ?thesis
  proof (cases "r = 0")
    case True
    then show ?thesis by (simp add: dbfs_def)
  next
    case False
    then have r: "1 / fullScale \<le> r" using assms by simp
    then have "0 < r" by (rule order.strict_trans2[rotated]) (simp add: fullScale_def)
    moreover have "log 10 (1 / fullScale) \<le> log 10 r"
      using r \<open>0 < r\<close> by (subst log_le_cancel_iff) (simp_all add: fullScale_def)
    ultimately have "0 < r" "log 10 (1 / fullScale) \<le> log 10 r" .
    with small show ?thesis by (simp add: dbfs_def Let_def FloorDbfs_def)
  qed
qed

section \<open>Meter\<close>

record chanAccum =
  ca_peak :: u32
  ca_sumSq :: u64
  ca_count :: u64
  ca_clipped :: bool

definition zeroAccum :: chanAccum where
  "zeroAccum = \<lparr>ca_peak = 0, ca_sumSq = 0, ca_count = 0, ca_clipped = False\<rparr>"

definition abs16 :: "u16 \<Rightarrow> u32" where
  "abs16 s = (if sint s < 0 then - scast s else ucast s)"

text \<open>The sample of frame \<open>f\<close> in channel \<open>c\<close> of an interleaved buffer.\<close>

definition sample_at :: "nat \<Rightarrow> nat \<Rightarrow> u8 list \<Rightarrow> nat \<Rightarrow> u16" where
  "sample_at nch c pcm f = (let i = (f * nch + c) * 2 in le16 (pcm ! i) (pcm ! (i + 1)))"

definition square16 :: "u16 \<Rightarrow> u64" where
  "square16 s = scast s * scast s"

definition full16 :: "u16 \<Rightarrow> bool" where
  "full16 s \<longleftrightarrow> sint s = 2 ^ 15 - 1 \<or> sint s = - (2 ^ 15)"

text \<open>One turn of the inner loop over the stack locals \<open>peak\<close>, \<open>sumSq\<close> and \<open>clipped\<close>.\<close>

definition fold_sample :: "u16 \<Rightarrow> u32 \<times> u64 \<times> bool \<Rightarrow> u32 \<times> u64 \<times> bool" where
  "fold_sample s st =
     (case st of (peak, sumSq, clipped) \<Rightarrow>
        (if abs16 s > peak then abs16 s else peak, sumSq + square16 s, clipped \<or> full16 s))"

text \<open>The merge into the atomics; the compare-and-swap loop raises the peak to the maximum.\<close>

definition merge_accum :: "nat \<Rightarrow> u32 \<times> u64 \<times> bool \<Rightarrow> chanAccum \<Rightarrow> chanAccum" where
  "merge_accum frames st acc =
     (case st of (peak, sumSq, clipped) \<Rightarrow>
        acc\<lparr>ca_count := ca_count acc + word_of_nat frames, ca_sumSq := ca_sumSq acc + sumSq,
            ca_peak := (if peak \<le> ca_peak acc then ca_peak acc else peak),
            ca_clipped := (if clipped then True else ca_clipped acc)\<rparr>)"

text \<open>\<open>subs\<close> is the hub's gate (\<open>None\<close> for a meter without one).\<close>

definition meter_Observe :: "int option \<Rightarrow> u8 list \<Rightarrow> chanAccum list \<Rightarrow> chanAccum list" where
  "meter_Observe subs pcm chs =
     (if subs = Some 0 then chs
      else let nch = length chs in
        if nch = 0 then chs
        else let frames = length pcm div 2 div nch in
          if frames = 0 then chs
          else map (\<lambda>c. merge_accum frames
                 (fold (\<lambda>f. fold_sample (sample_at nch c pcm f)) [0..<frames] (0, 0, False)) (chs ! c))
               [0..<nch])"

definition chan_levels :: "nat \<Rightarrow> chanAccum \<Rightarrow> channelLevels" where
  "chan_levels c acc =
     \<lparr>cl_Channel = c, cl_PeakDbfs = dbfs (real (unat (ca_peak acc)) / fullScale),
      cl_RmsDbfs = rmsDbfs (ca_sumSq acc) (ca_count acc), cl_Clipped = ca_clipped acc\<rparr>"

definition meter_reset :: "chanAccum list \<Rightarrow> chanAccum list" where
  "meter_reset chs = map (\<lambda>_. zeroAccum) chs"

definition meter_sample :: "string \<Rightarrow> chanAccum list \<Rightarrow> deviceLevels \<times> chanAccum list" where
  "meter_sample name chs =
     (\<lparr>dl_Name = name, dl_Channels = map (\<lambda>c. chan_levels c (chs ! c)) [0..<length chs]\<rparr>,
      map (\<lambda>_. zeroAccum) chs)"

definition new_meter :: "int \<Rightarrow> chanAccum list" where
  "new_meter channels = replicate (nat (if channels < 1 then 1 else channels)) zeroAccum"

section \<open>The accumulator of a one-shot capture\<close>

record accumulator =
  ac_sumSq :: "u64 list"
  ac_count :: u64

definition NewAccumulator :: "int \<Rightarrow> accumulator" where
  "NewAccumulator channels = \<lparr>ac_sumSq = replicate (nat (max 1 channels)) 0, ac_count = 0\<rparr>"

definition accumulator_Add :: "u8 list \<Rightarrow> accumulator \<Rightarrow> accumulator" where
  "accumulator_Add pcm a =
     (let nch = length (ac_sumSq a); frames = length pcm div 2 div nch
      in a\<lparr>ac_sumSq := fold (\<lambda>f acc. fold (\<lambda>c acc. acc[c := acc ! c + square16 (sample_at nch c pcm f)])
               [0..<nch] acc) [0..<frames] (ac_sumSq a),
           ac_count := ac_count a + word_of_nat frames\<rparr>)"

definition accumulator_RMSDbfs :: "accumulator \<Rightarrow> real list" where
  "accumulator_RMSDbfs a = map (\<lambda>s. rmsDbfs s (ac_count a)) (ac_sumSq a)"

section \<open>What a window measures\<close>

text \<open>The samples of a channel, deinterleaved; a trailing part of a frame belongs to none.\<close>

definition channel_samples :: "nat \<Rightarrow> nat \<Rightarrow> u8 list \<Rightarrow> u16 list" where
  "channel_samples nch c pcm =
     map (\<lambda>f. samples16 pcm ! (f * nch + c)) [0..<length pcm div 2 div nch]"

definition accum_of :: "u16 list \<Rightarrow> chanAccum" where
  "accum_of xs = \<lparr>ca_peak = fold max (map abs16 xs) 0, ca_sumSq = sum_list (map square16 xs),
     ca_count = word_of_nat (length xs), ca_clipped = list_ex full16 xs\<rparr>"

lemma sample_at_samples16:
  assumes "c < nch" "f < length pcm div 2 div nch"
  shows "sample_at nch c pcm f = samples16 pcm ! (f * nch + c)"
proof -
  have "Suc f \<le> length pcm div 2 div nch" using assms(2) by simp
  then have "Suc f * nch \<le> length pcm div 2"
    using div_times_less_eq_dividend[of "length pcm div 2" nch] mult_le_mono1[of "Suc f" _ nch]
    by (meson le_trans)
  then have "f * nch + c < length pcm div 2" using assms(1) by simp
  then show ?thesis
    by (simp add: sample_at_def samples16_nth Let_def mult.commute)
qed

lemma fold_sample_eq:
  "fold fold_sample xs (p, q, b) =
     (fold max (map abs16 xs) p, q + sum_list (map square16 xs), b \<or> list_ex full16 xs)"
  by (induction xs arbitrary: p q b) (auto simp: fold_sample_def max_def)

lemma fold_max_max: "fold max xs (max p (q::'a::linorder)) = max p (fold max xs q)"
proof (induction xs arbitrary: q)
  case (Cons x xs)
  then show ?case using Cons.IH[of "max x q"] by (simp add: max.left_commute)
qed simp

lemma merge_accum_of:
  "merge_accum (length ys) (fold fold_sample ys (0, 0, False)) (accum_of xs) = accum_of (xs @ ys)"
proof -
  have "fold max (map abs16 ys) (fold max (map abs16 xs) 0) =
      max (fold max (map abs16 xs) 0) (fold max (map abs16 ys) (0::u32))"
    using fold_max_max[of "map abs16 ys" "fold max (map abs16 xs) 0" 0] by simp
  then show ?thesis
    by (auto simp: merge_accum_def accum_of_def fold_sample_eq max_def)
qed

lemma Observe_accum_of:
  assumes "subs \<noteq> Some 0" "0 < n"
  shows "meter_Observe subs pcm (map (\<lambda>c. accum_of (xs c)) [0..<n]) =
    map (\<lambda>c. accum_of (xs c @ channel_samples n c pcm)) [0..<n]"
proof -
  have loop: "fold (\<lambda>f. fold_sample (sample_at n c pcm f)) [0..<length pcm div 2 div n] st =
      fold fold_sample (channel_samples n c pcm) st" if "c < n" for c st
    unfolding channel_samples_def fold_map comp_def using that
    by (intro fold_cong) (simp_all add: sample_at_samples16)
  have len: "length (channel_samples n c pcm) = length pcm div 2 div n" for c
    by (simp add: channel_samples_def)
  show ?thesis
  proof (cases "length pcm div 2 div n = 0")
    case True
    then have "channel_samples n c pcm = []" for c using len[of c] by simp
    with assms True show ?thesis by (simp add: meter_Observe_def)
  next
    case False
    with assms have "meter_Observe subs pcm (map (\<lambda>c. accum_of (xs c)) [0..<n]) =
      map (\<lambda>c. merge_accum (length pcm div 2 div n) (fold (\<lambda>f. fold_sample (sample_at n c pcm f))
        [0..<length pcm div 2 div n] (0, 0, False)) (accum_of (xs c))) [0..<n]"
      by (auto simp: meter_Observe_def Let_def)
    also have "\<dots> = map (\<lambda>c. accum_of (xs c @ channel_samples n c pcm)) [0..<n]"
      by (rule map_cong[OF refl]) (simp add: loop merge_accum_of[of "channel_samples n _ pcm", unfolded len])
    finally show ?thesis .
  qed
qed

subsection \<open>On integers\<close>

text \<open>The same window over integers: nothing overflows before 2^34 samples of a channel.\<close>

definition peak_of :: "u16 list \<Rightarrow> int" where
  "peak_of xs = Max (insert 0 ((\<lambda>s. \<bar>sint s\<bar>) ` set xs))"

definition energy_of :: "u16 list \<Rightarrow> int" where
  "energy_of xs = sum_list (map (\<lambda>s. (sint s)\<^sup>2) xs)"

lemma sint16_range: "- (2 ^ 15) \<le> sint (s::u16)" "sint (s::u16) < 2 ^ 15"
  using sint_range_size[of s] by (simp_all add: word_size)

lemma sint16_square: "(sint (s::u16))\<^sup>2 \<le> 2 ^ 30"
proof -
  have "\<bar>sint s\<bar> \<le> 2 ^ 15" using sint16_range[of s] by linarith
  then have "\<bar>sint s\<bar>\<^sup>2 \<le> (2 ^ 15)\<^sup>2" by (intro power_mono) simp_all
  then show ?thesis by simp
qed

lemma uint_abs16: "uint (abs16 s) = \<bar>sint s\<bar>"
proof (cases "sint s < 0")
  case True
  have "abs16 s = - word_of_int (sint s)"
    using True by (simp only: abs16_def scast_eq if_True)
  also have "\<dots> = word_of_int (- sint s)" by (rule wi_hom_neg)
  finally have "uint (abs16 s) = (- sint s) mod 2 ^ LENGTH(32)" by (simp only: uint_word_of_int)
  then have "uint (abs16 s) = (- sint s) mod 2 ^ 32" by (simp only: len_of_numeral_defs) simp
  also have "\<dots> = - sint s" using True sint16_range[of s] by (intro mod_pos_pos_trivial) simp_all
  finally show ?thesis using True by simp
next
  case False
  then have "sint s = uint s"
    using sint16_range[of s] by (simp add: uint_sint take_bit_int_eq_self)
  moreover have "uint (ucast s :: u32) = uint s" by (simp add: uint_up_ucast is_up)
  ultimately show ?thesis using False by (simp only: abs16_def) simp
qed

lemma uint_square16: "uint (square16 s) = (sint s)\<^sup>2"
proof -
  have "square16 s = word_of_int ((sint s)\<^sup>2)"
    by (simp only: square16_def scast_eq power2_eq_square) simp
  then have "uint (square16 s) = (sint s)\<^sup>2 mod 2 ^ LENGTH(64)" by (simp only: uint_word_of_int)
  then have "uint (square16 s) = (sint s)\<^sup>2 mod 2 ^ 64" by simp
  also have "\<dots> = (sint s)\<^sup>2"
    using sint16_square[of s] by (intro mod_pos_pos_trivial) simp_all
  finally show ?thesis .
qed

lemma uint_peak: "uint (fold max (map abs16 xs) p) = Max (insert (uint p) ((\<lambda>s. \<bar>sint s\<bar>) ` set xs))"
proof (induction xs arbitrary: p)
  case Nil
  show ?case by simp
next
  case (Cons x xs)
  have "uint (max (abs16 x) p) = max \<bar>sint x\<bar> (uint p)"
    by (simp add: max_def word_le_def uint_abs16)
  then have "uint (fold max (map abs16 (x # xs)) p) =
      Max (insert (max \<bar>sint x\<bar> (uint p)) ((\<lambda>s. \<bar>sint s\<bar>) ` set xs))"
    using Cons[of "max (abs16 x) p"] by simp
  also have "\<dots> = Max (insert (uint p) (insert \<bar>sint x\<bar> ((\<lambda>s. \<bar>sint s\<bar>) ` set xs)))"
    by (cases "set xs = {}") (simp_all add: max.assoc max.commute max.left_commute)
  finally show ?case by simp
qed

lemma energy_bound: "0 \<le> energy_of xs \<and> energy_of xs \<le> 2 ^ 30 * int (length xs)"
proof (induction xs)
  case (Cons x xs)
  with sint16_square[of x] show ?case by (simp add: energy_of_def)
qed (simp add: energy_of_def)

lemma uint_energy:
  "length xs < 2 ^ 34 \<Longrightarrow> uint (sum_list (map square16 xs)) = energy_of xs"
proof (induction xs)
  case (Cons x xs)
  have "energy_of (x # xs) < 2 ^ 64"
    using energy_bound[of "x # xs"] Cons.prems by simp
  with Cons show ?case
    by (simp add: energy_of_def uint_square16 uint_plus_if')
qed (simp add: energy_of_def)

lemma peak_of_eq: "uint (ca_peak (accum_of xs)) = peak_of xs"
  by (simp add: accum_of_def uint_peak peak_of_def)

lemma peak_of_0: "peak_of xs = 0 \<longleftrightarrow> (\<forall>s \<in> set xs. s = 0)"
proof -
  have "peak_of xs = 0 \<longleftrightarrow> (\<forall>s \<in> set xs. \<bar>sint s\<bar> \<le> 0)"
    by (simp add: peak_of_def Max_eq_iff)
  also have "\<dots> \<longleftrightarrow> (\<forall>s \<in> set xs. s = 0)" by (simp add: signed_eq_0_iff)
  finally show ?thesis .
qed

lemma real_unat: "real (unat w) = real_of_int (uint (w::'a::len word))"
  by simp

lemma peak_floor_iff:
  "dbfs (real (unat (ca_peak (accum_of xs))) / fullScale) = FloorDbfs \<longleftrightarrow> (\<forall>s \<in> set xs. s = 0)"
proof -
  have "unat (ca_peak (accum_of xs)) = 0 \<longleftrightarrow> peak_of xs = 0"
    by (simp flip: peak_of_eq) (simp add: unat_eq_0 uint_0_iff)
  moreover have "dbfs (real (unat w) / fullScale) = FloorDbfs \<longleftrightarrow> unat w = 0" for w :: u32
    using dbfs_floor_iff[of "real (unat w) / fullScale"]
    by (cases "unat w") (simp_all add: fullScale_def)
  ultimately show ?thesis by (simp only: peak_of_0)
qed

text \<open>The levels of a channel whose samples in the window are \<open>xs\<close>.\<close>

definition window_levels :: "nat \<Rightarrow> u16 list \<Rightarrow> channelLevels" where
  "window_levels c xs =
     \<lparr>cl_Channel = c, cl_PeakDbfs = dbfs (real_of_int (peak_of xs) / 32768),
      cl_RmsDbfs = (if xs = [] then FloorDbfs
                    else dbfs (sqrt (real_of_int (energy_of xs) / real (length xs)) / 32768)),
      cl_Clipped = (\<exists>s \<in> set xs. sint s = 32767 \<or> sint s = - 32768)\<rparr>"

lemma unat_count: "length xs < 2 ^ 34 \<Longrightarrow> unat (ca_count (accum_of xs)) = length xs"
  by (simp add: accum_of_def unat_of_nat take_bit_nat_eq_self)

lemma chan_levels_accum:
  assumes "length xs < 2 ^ 34"
  shows "chan_levels c (accum_of xs) = window_levels c xs"
proof -
  have count: "ca_count (accum_of xs) = 0 \<longleftrightarrow> xs = []"
    using unat_count[OF assms] unat_eq_zero by (metis length_0_conv)
  have "uint (ca_sumSq (accum_of xs)) = energy_of xs"
    using uint_energy[OF assms] by (simp add: accum_of_def)
  then have sum: "real (unat (ca_sumSq (accum_of xs))) = real_of_int (energy_of xs)"
    by (simp only: real_unat)
  have "ca_clipped (accum_of xs) = (\<exists>s \<in> set xs. sint s = 32767 \<or> sint s = - 32768)"
    by (simp add: accum_of_def list_ex_iff full16_def)
  with count sum show ?thesis
    by (simp add: chan_levels_def window_levels_def rmsDbfs_def unat_count[OF assms] fullScale_def
        real_unat peak_of_eq del: uint_nat of_nat_unat)
qed

text \<open>The life of a meter: periods observed with what the gate reads, windows sampled, resets.\<close>

datatype meter_op = MObserve "int option" "u8 list" | MSample | MReset

fun meter_run :: "string \<Rightarrow> meter_op list \<Rightarrow> chanAccum list \<Rightarrow> deviceLevels list" where
  "meter_run name [] chs = []"
| "meter_run name (MObserve subs pcm # ops) chs = meter_run name ops (meter_Observe subs pcm chs)"
| "meter_run name (MSample # ops) chs =
     fst (meter_sample name chs) # meter_run name ops (snd (meter_sample name chs))"
| "meter_run name (MReset # ops) chs = meter_run name ops (meter_reset chs)"

text \<open>The reference keeps the deinterleaved samples of the window and measures them at its end.\<close>

fun window_run :: "string \<Rightarrow> nat \<Rightarrow> meter_op list \<Rightarrow> (nat \<Rightarrow> u16 list) \<Rightarrow> deviceLevels list" where
  "window_run name n [] xs = []"
| "window_run name n (MObserve subs pcm # ops) xs =
     window_run name n ops (if subs = Some 0 then xs else (\<lambda>c. xs c @ channel_samples n c pcm))"
| "window_run name n (MSample # ops) xs =
     \<lparr>dl_Name = name, dl_Channels = map (\<lambda>c. window_levels c (xs c)) [0..<n]\<rparr>
       # window_run name n ops (\<lambda>_. [])"
| "window_run name n (MReset # ops) xs = window_run name n ops (\<lambda>_. [])"

fun op_samples :: "meter_op \<Rightarrow> nat" where
  "op_samples (MObserve subs pcm) = length pcm div 2"
| "op_samples _ = 0"

lemma accum_of_Nil: "accum_of [] = zeroAccum"
  by (simp add: accum_of_def zeroAccum_def)

lemma zero_meter: "map (\<lambda>_. zeroAccum) [0..<n] = map (\<lambda>c. accum_of [])  [0..<n]"
  by (simp add: accum_of_Nil)

lemma channel_samples_length: "length (channel_samples n c pcm) \<le> length pcm div 2"
  by (simp add: channel_samples_def)

lemma meter_run_window:
  assumes "0 < n"
  shows "\<forall>c. length (xs c) + sum_list (map op_samples ops) < 2 ^ 34 \<Longrightarrow>
    meter_run name ops (map (\<lambda>c. accum_of (xs c)) [0..<n]) = window_run name n ops xs"
proof (induction ops arbitrary: xs)
  case (Cons x ops)
  have fresh: "meter_run name ops (map (\<lambda>c. zeroAccum) [0..<n]) = window_run name n ops (\<lambda>_. [])"
    unfolding zero_meter using Cons.prems[rule_format, of 0] by (intro Cons.IH) simp
  show ?case
  proof (cases x)
    case (MObserve subs pcm)
    have "length (xs c @ channel_samples n c pcm) + sum_list (map op_samples ops) < 2 ^ 34" for c
      using Cons.prems[rule_format, of c] channel_samples_length[of n c pcm] MObserve by simp
    moreover have "length (xs c) + sum_list (map op_samples ops) < 2 ^ 34" for c
      using Cons.prems[rule_format, of c] by simp
    moreover have "meter_Observe (Some 0) pcm chs = chs" for chs by (simp add: meter_Observe_def)
    ultimately show ?thesis
      using MObserve Observe_accum_of[OF _ assms, of subs pcm xs]
        Cons.IH[of "\<lambda>c. xs c @ channel_samples n c pcm"] Cons.IH[of xs]
      by (cases "subs = Some 0") simp_all
  next
    case MSample
    have "length (xs c) < 2 ^ 34" for c using Cons.prems[rule_format, of c] by simp
    then show ?thesis
      using MSample fresh by (simp add: meter_sample_def chan_levels_accum comp_def map_replicate_const[symmetric] del: map_replicate_const)
  next
    case MReset
    then show ?thesis using fresh by (simp add: meter_reset_def comp_def)
  qed
qed simp

lemma new_meter_accum: "new_meter (int n) = map (\<lambda>c. accum_of []) [0..<max 1 n]"
  by (simp add: new_meter_def accum_of_Nil map_replicate_const)

text \<open>
  The levels a meter reports are those of the deinterleaved samples observed, while the gate
  was open, since the last window or reset: peak, RMS and clipping per channel over the integers,
  with nothing lost to wrap-around below 2^34 samples. And a channel reads exactly the floor if
  and only if every one of its samples in the window was digital zero.
\<close>
theorem meter_windows_are_exact:
  assumes "sum_list (map op_samples ops) < 2 ^ 34" and "1 \<le> channels"
  shows "meter_run name ops (new_meter channels) = window_run name (nat channels) ops (\<lambda>_. []) \<and>
    (cl_PeakDbfs (window_levels c xs) = FloorDbfs \<longleftrightarrow> set xs \<subseteq> {0})"
proof
  have "channels = int (nat channels)" "max 1 (nat channels) = nat channels" using assms(2) by simp_all
  then have "new_meter channels = map (\<lambda>c. accum_of []) [0..<nat channels]"
    by (metis new_meter_accum)
  then show "meter_run name ops (new_meter channels) = window_run name (nat channels) ops (\<lambda>_. [])"
    using meter_run_window[of "nat channels" "\<lambda>_. []"] assms by simp
  have "cl_PeakDbfs (window_levels c xs) = dbfs (real (unat (ca_peak (accum_of xs))) / fullScale)"
    by (simp add: window_levels_def fullScale_def real_unat peak_of_eq del: uint_nat of_nat_unat)
  then show "cl_PeakDbfs (window_levels c xs) = FloorDbfs \<longleftrightarrow> set xs \<subseteq> {0}"
    by (simp only: peak_floor_iff) auto
qed

theorem meter_windows_are_exact_witness:
  "\<exists>l r. meter_run ''mic'' [MObserve (Some 1) [0, 0, 255, 127, 0, 0], MSample] (new_meter 2) =
     [\<lparr>dl_Name = ''mic'', dl_Channels = [l, r]\<rparr>] \<and> l = window_levels 0 [0] \<and>
     cl_PeakDbfs l = FloorDbfs \<and> r = window_levels 1 [32767]"
proof -
  have run: "meter_run ''mic'' [MObserve (Some 1) [0, 0, 255, 127, 0, 0], MSample] (new_meter 2) =
      window_run ''mic'' (nat 2) [MObserve (Some 1) [0, 0, 255, 127, 0, 0], MSample] (\<lambda>_. [])"
    and zero: "cl_PeakDbfs (window_levels 0 [0]) = FloorDbfs"
    using meter_windows_are_exact[of "[MObserve (Some 1) [0, 0, 255, 127, 0, 0], MSample]" 2 "''mic''" 0 "[0]"]
    by simp_all
  have "channel_samples 2 0 [0, 0, 255, 127, 0, 0] = [0]" "channel_samples 2 (Suc 0) [0, 0, 255, 127, 0, 0] = [32767]"
    by (simp_all add: channel_samples_def le16_def)
  with run zero show ?thesis by (simp add: upt_rec)
qed

section \<open>Hub\<close>

definition sseBuffer :: int where "sseBuffer = 8"
definition eventName :: string where "eventName = ''levels''"

text \<open>
  The meters carry an identity (the capture keeps a pointer to its meter), the taps a handle. The
  gate \<open>subs\<close> is bumped outside the lock, so an attach or a detach is two steps; \<open>up\<close> and \<open>down\<close>
  count those that are between the two.
\<close>

record hub =
  hb_subs :: int
  hb_bc :: broadcaster
  hb_meters :: "(nat \<times> string \<times> chanAccum list) list"
  hb_sseCount :: int
  hb_taps :: "nat list"
  hb_next :: nat
  hb_up :: nat
  hb_down :: nat

definition NewHub :: hub where
  "NewHub = \<lparr>hb_subs = 0, hb_bc = NewBroadcaster sseBuffer, hb_meters = [], hb_sseCount = 0,
     hb_taps = [], hb_next = 0, hb_up = 0, hb_down = 0\<rparr>"

definition hub_Meter :: "string \<Rightarrow> int \<Rightarrow> hub \<Rightarrow> hub" where
  "hub_Meter name channels h =
     h\<lparr>hb_meters := hb_meters h @ [(hb_next h, name, new_meter channels)], hb_next := hb_next h + 1\<rparr>"

fun remove_first :: "string \<Rightarrow> (nat \<times> string \<times> chanAccum list) list \<Rightarrow> (nat \<times> string \<times> chanAccum list) list" where
  "remove_first name [] = []"
| "remove_first name ((i, n, chs) # ms) = (if n = name then ms else (i, n, chs) # remove_first name ms)"

definition hub_RemoveMeter :: "string \<Rightarrow> hub \<Rightarrow> hub" where
  "hub_RemoveMeter name h = h\<lparr>hb_meters := remove_first name (hb_meters h)\<rparr>"

text \<open>The capture holding meter \<open>i\<close> observes a period; a removed meter is read by nobody.\<close>

definition hub_Observe :: "nat \<Rightarrow> u8 list \<Rightarrow> hub \<Rightarrow> hub" where
  "hub_Observe i pcm h =
     h\<lparr>hb_meters := map (\<lambda>(j, name, chs).
         (j, name, if j = i then meter_Observe (Some (hb_subs h)) pcm chs else chs)) (hb_meters h)\<rparr>"

definition reset_meters :: "hub \<Rightarrow> hub" where
  "reset_meters h = h\<lparr>hb_meters := map (\<lambda>(i, name, chs). (i, name, meter_reset chs)) (hb_meters h)\<rparr>"

definition first_consumer :: "hub \<Rightarrow> bool" where
  "first_consumer h \<longleftrightarrow> hb_sseCount h = 0 \<and> length (hb_taps h) = 0"

definition hub_Subscribe :: "hub \<Rightarrow> nat \<times> hub" where
  "hub_Subscribe h =
     (case bc_Subscribe (hb_bc h) of
        (s, bc) \<Rightarrow>
          let first = first_consumer h;
              h = h\<lparr>hb_bc := bc, hb_sseCount := hb_sseCount h + 1\<rparr>;
              h = (if first then reset_meters h else h)
          in (s, h\<lparr>hb_up := hb_up h + 1\<rparr>))"

text \<open>The cancel functions run once: a handle that is no longer registered does nothing.\<close>

definition hub_cancel_sub :: "nat \<Rightarrow> hub \<Rightarrow> hub" where
  "hub_cancel_sub s h =
     (if s \<in> set (bc_subs (hb_bc h))
      then h\<lparr>hb_bc := bc_cancel s (hb_bc h), hb_sseCount := hb_sseCount h - 1, hb_down := hb_down h + 1\<rparr>
      else h)"

definition hub_Tap :: "hub \<Rightarrow> nat \<times> hub" where
  "hub_Tap h =
     (let t = hb_next h; first = first_consumer h;
          h = h\<lparr>hb_taps := t # hb_taps h, hb_next := hb_next h + 1\<rparr>;
          h = (if first then reset_meters h else h)
      in (t, h\<lparr>hb_up := hb_up h + 1\<rparr>))"

definition hub_cancel_tap :: "nat \<Rightarrow> hub \<Rightarrow> hub" where
  "hub_cancel_tap t h =
     (if t \<in> set (hb_taps h)
      then h\<lparr>hb_taps := removeAll t (hb_taps h), hb_down := hb_down h + 1\<rparr>
      else h)"

definition sampleDevicesLocked :: "hub \<Rightarrow> levelsEvent \<times> hub" where
  "sampleDevicesLocked h =
     (map (\<lambda>(i, name, chs). fst (meter_sample name chs)) (hb_meters h),
      h\<lparr>hb_meters := map (\<lambda>(i, name, chs). (i, name, snd (meter_sample name chs))) (hb_meters h)\<rparr>)"

definition hub_sample :: "hub \<Rightarrow> (levelsEvent \<times> nat list \<times> bool) \<times> hub" where
  "hub_sample h =
     (case sampleDevicesLocked h of
        (devs, h) \<Rightarrow> ((devs, hb_taps h, hb_sseCount h > 0), h))"

text \<open>
  One tick of \<open>Run\<close>: what each tap receives, and the event for the SSE clients. \<open>marshal\<close> stands
  for \<open>json.Marshal\<close> of the event.
\<close>

definition marshalLevels :: "(levelsEvent \<Rightarrow> string) \<Rightarrow> levelsEvent \<Rightarrow> event" where
  "marshalLevels marshal le = \<lparr>ev_Name = eventName, ev_Data = marshal le\<rparr>"

definition hub_tick :: "(levelsEvent \<Rightarrow> string) \<Rightarrow> hub \<Rightarrow> (nat \<times> levelsEvent) list \<times> hub" where
  "hub_tick marshal h =
     (if hb_subs h = 0 then ([], h)
      else case hub_sample h of
        ((ev, taps, hasSSE), h) \<Rightarrow>
          (map (\<lambda>t. (t, ev)) taps,
           if hasSSE then h\<lparr>hb_bc := bc_Broadcast (marshalLevels marshal ev) (hb_bc h)\<rparr> else h))"

datatype hub_op =
    HMeter string int | HRemoveMeter string | HObserve nat "u8 list"
  | HSubscribe | HCancelSub nat | HTap | HCancelTap nat | HGateUp | HGateDown | HTick | HRecv nat

fun hub_step :: "(levelsEvent \<Rightarrow> string) \<Rightarrow> hub_op \<Rightarrow> hub \<Rightarrow> hub" where
  "hub_step marshal (HMeter name n) h = hub_Meter name n h"
| "hub_step marshal (HRemoveMeter name) h = hub_RemoveMeter name h"
| "hub_step marshal (HObserve i pcm) h = hub_Observe i pcm h"
| "hub_step marshal HSubscribe h = snd (hub_Subscribe h)"
| "hub_step marshal (HCancelSub s) h = hub_cancel_sub s h"
| "hub_step marshal HTap h = snd (hub_Tap h)"
| "hub_step marshal (HCancelTap t) h = hub_cancel_tap t h"
| "hub_step marshal HGateUp h =
     (if hb_up h = 0 then h else h\<lparr>hb_subs := hb_subs h + 1, hb_up := hb_up h - 1\<rparr>)"
| "hub_step marshal HGateDown h =
     (if hb_down h = 0 then h else h\<lparr>hb_subs := hb_subs h - 1, hb_down := hb_down h - 1\<rparr>)"
| "hub_step marshal HTick h = snd (hub_tick marshal h)"
| "hub_step marshal (HRecv s) h = h\<lparr>hb_bc := snd (bc_recv s (hb_bc h))\<rparr>"

definition hub_run :: "(levelsEvent \<Rightarrow> string) \<Rightarrow> hub_op list \<Rightarrow> hub" where
  "hub_run marshal ops = fold (hub_step marshal) ops NewHub"

definition consumers :: "hub \<Rightarrow> nat" where
  "consumers h = bc_Len (hb_bc h) + length (hb_taps h)"

definition hub_inv :: "hub \<Rightarrow> bool" where [inv_defs]:
  "hub_inv h \<longleftrightarrow> bc_inv (hb_bc h) \<and> hb_sseCount h = int (bc_Len (hb_bc h)) \<and> distinct (hb_taps h) \<and>
     (\<forall>t \<in> set (hb_taps h). t < hb_next h) \<and>
     hb_subs h + int (hb_up h) - int (hb_down h) = int (consumers h)"

lemma bc_Len_ops [simp]:
  "bc_inv b \<Longrightarrow> bc_Len (bc_Broadcast ev b) = bc_Len b"
  "bc_Len (snd (bc_Subscribe b)) = Suc (bc_Len b)"
  "bc_Len (snd (bc_recv s b)) = bc_Len b"
  by (simp_all add: bc_Len_def bc_Broadcast_chans bc_Subscribe_def bc_recv_def Let_def split: list.split)

lemma length_removeAll_distinct: "distinct xs \<Longrightarrow> x \<in> set xs \<Longrightarrow> Suc (length (removeAll x xs)) = length xs"
  using length_pos_if_in_set[of x xs] by (simp add: distinct_remove1_removeAll[symmetric] length_remove1)

lemma bc_Len_cancel: "bc_inv b \<Longrightarrow> s \<in> set (bc_subs b) \<Longrightarrow> Suc (bc_Len (bc_cancel s b)) = bc_Len b"
  by (simp add: bc_Len_def bc_cancel_def bc_inv_def length_removeAll_distinct)

lemma hub_inv_meters [simp]:
  "hub_inv (h\<lparr>hb_meters := ms\<rparr>) = hub_inv h"
  "hub_inv (reset_meters h) = hub_inv h"
  by (simp_all add: hub_inv_def consumers_def reset_meters_def)

lemma hub_inv_cancel_sub: "hub_inv h \<Longrightarrow> hub_inv (hub_cancel_sub s h)"
  using bc_Len_cancel[of "hb_bc h" s] bc_inv_cancel[of "hb_bc h" s]
  by (auto simp: hub_inv_def consumers_def hub_cancel_sub_def)

lemma hub_inv_cancel_tap: "hub_inv h \<Longrightarrow> hub_inv (hub_cancel_tap t h)"
  using length_removeAll_distinct[of "hb_taps h" t]
  by (auto simp: hub_inv_def consumers_def hub_cancel_tap_def distinct_removeAll)

lemma hub_inv_Subscribe: "hub_inv h \<Longrightarrow> hub_inv (snd (hub_Subscribe h))"
  using bc_inv_Subscribe[of "hb_bc h"] bc_Len_ops(2)[of "hb_bc h"]
  by (cases "bc_Subscribe (hb_bc h)") (auto simp: hub_inv_def consumers_def hub_Subscribe_def reset_meters_def Let_def)

lemma hub_inv_Tap: "hub_inv h \<Longrightarrow> hub_inv (snd (hub_Tap h))"
  by (auto simp: hub_inv_def consumers_def hub_Tap_def reset_meters_def Let_def)

lemma hub_sample_simps [simp]:
  "fst (hub_sample h) = (map (\<lambda>(i, name, chs). fst (meter_sample name chs)) (hb_meters h), hb_taps h, hb_sseCount h > 0)"
  "snd (hub_sample h) = h\<lparr>hb_meters := map (\<lambda>(i, name, chs). (i, name, snd (meter_sample name chs))) (hb_meters h)\<rparr>"
  by (simp_all add: hub_sample_def sampleDevicesLocked_def)

lemma hub_tick_eq:
  "hub_tick marshal h =
     (if hb_subs h = 0 then ([], h)
      else (map (\<lambda>t. (t, fst (fst (hub_sample h)))) (hb_taps h),
        if hb_sseCount h > 0
        then (snd (hub_sample h))\<lparr>hb_bc := bc_Broadcast (marshalLevels marshal (fst (fst (hub_sample h)))) (hb_bc h)\<rparr>
        else snd (hub_sample h)))"
  by (simp add: hub_tick_def hub_sample_def sampleDevicesLocked_def)

lemma hub_inv_tick: "hub_inv h \<Longrightarrow> hub_inv (snd (hub_tick marshal h))"
  by (auto simp: hub_tick_eq hub_inv_def consumers_def bc_inv_Broadcast)

lemma hub_inv_step: "hub_inv h \<Longrightarrow> hub_inv (hub_step marshal x h)"
proof (cases x)
  case (HMeter name n)
  assume "hub_inv h"
  then show ?thesis using HMeter by (auto simp: hub_inv_def consumers_def hub_Meter_def less_SucI)
next
  case (HRecv s)
  assume "hub_inv h"
  then show ?thesis
    using HRecv bc_inv_recv[of "hb_bc h" s] by (simp add: hub_inv_def consumers_def)
next
  case HGateUp
  assume "hub_inv h"
  then show ?thesis using HGateUp by (auto simp: hub_inv_def consumers_def)
next
  case HGateDown
  assume "hub_inv h"
  then show ?thesis using HGateDown by (auto simp: hub_inv_def consumers_def)
qed (simp_all add: hub_inv_cancel_sub hub_inv_cancel_tap hub_inv_Subscribe hub_inv_Tap hub_inv_tick
    hub_RemoveMeter_def hub_Observe_def)

lemma hub_inv_run: "hub_inv (hub_run marshal ops)"
proof -
  have "hub_inv h \<Longrightarrow> hub_inv (fold (hub_step marshal) ops h)" for h
    by (induction ops arbitrary: h) (simp_all add: hub_inv_step)
  moreover have "hub_inv NewHub"
    by (simp add: hub_inv_def NewHub_def consumers_def bc_Len_def) (simp add: NewBroadcaster_def Let_def)
  ultimately show ?thesis by (simp add: hub_run_def)
qed

lemma first_consumer_iff: "hub_inv h \<Longrightarrow> first_consumer h \<longleftrightarrow> consumers h = 0"
  by (auto simp: hub_inv_def first_consumer_def consumers_def)

lemma idle_Observe: "hb_subs h = 0 \<Longrightarrow> hub_Observe i pcm h = h"
proof -
  assume "hb_subs h = 0"
  then have "hb_meters (hub_Observe i pcm h) = hb_meters h"
    by (auto simp: hub_Observe_def meter_Observe_def intro!: map_idI)
  then show ?thesis by (simp add: hub_Observe_def)
qed

text \<open>
  Whatever meters, subscribers and taps come and go, the gate counts exactly the consumers
  whose attach or detach is complete. With nobody attached no period is measured and no tick
  samples; with somebody attached a tick hands the window to every tap once and marshals it for
  the SSE clients exactly when there are any; and the first consumer after an idle time finds
  every meter at zero.
\<close>
theorem metering_follows_the_consumers:
  assumes "h = hub_run marshal ops" "hb_up h = 0" "hb_down h = 0"
  shows "hb_subs h = int (consumers h) \<and>
    (if consumers h = 0
     then hub_Observe i pcm h = h \<and> hub_tick marshal h = ([], h) \<and>
       set (map (snd \<circ> snd) (hb_meters (snd (hub_Tap h)))) \<union>
       set (map (snd \<circ> snd) (hb_meters (snd (hub_Subscribe h)))) \<subseteq>
         (\<lambda>(i, name, chs). replicate (length chs) zeroAccum) ` set (hb_meters h)
     else map fst (fst (hub_tick marshal h)) = hb_taps h \<and> distinct (hb_taps h) \<and>
       hb_bc (snd (hub_tick marshal h)) =
         (if bc_Len (hb_bc h) = 0 then hb_bc h
          else bc_Broadcast (marshalLevels marshal (fst (fst (hub_sample h)))) (hb_bc h)))"
proof -
  have inv: "hub_inv h" unfolding assms(1) by (rule hub_inv_run)
  then have gate: "hb_subs h = int (consumers h)" using assms(2,3) by (simp add: hub_inv_def)
  have sse: "hb_sseCount h = int (bc_Len (hb_bc h))" using inv by (simp add: hub_inv_def)
  show ?thesis
  proof (cases "consumers h = 0")
    case True
    then have "first_consumer h" using inv by (simp add: first_consumer_iff)
    then have "hb_meters (snd (hub_Tap h)) = hb_meters (reset_meters h)"
      "hb_meters (snd (hub_Subscribe h)) = hb_meters (reset_meters h)"
      by (simp_all add: hub_Tap_def hub_Subscribe_def reset_meters_def Let_def split: prod.split)
    moreover have "set (map (snd \<circ> snd) (hb_meters (reset_meters h))) \<subseteq>
        (\<lambda>(i, name, chs). replicate (length chs) zeroAccum) ` set (hb_meters h)"
      by (force simp: reset_meters_def meter_reset_def map_replicate_const)
    ultimately show ?thesis
      using True gate idle_Observe[of h i pcm] by (simp add: hub_tick_eq)
  next
    case False
    then have "map fst (fst (hub_tick marshal h)) = hb_taps h"
      using gate by (simp add: hub_tick_eq comp_def)
    moreover have "hb_bc (snd (hub_tick marshal h)) = (if bc_Len (hb_bc h) = 0 then hb_bc h
        else bc_Broadcast (marshalLevels marshal (fst (fst (hub_sample h)))) (hb_bc h))"
      using False gate sse by (simp add: hub_tick_eq)
    moreover have "distinct (hb_taps h)" using inv by (simp add: hub_inv_def)
    ultimately show ?thesis using False gate by simp
  qed
qed

theorem metering_follows_the_consumers_witness:
  "\<exists>h. h = hub_run (\<lambda>_. '''') [HMeter ''mic'' 1, HTap, HGateUp] \<and> consumers h = 1 \<and>
     map fst (fst (hub_tick (\<lambda>_. '''') h)) = hb_taps h"
proof -
  let ?h = "hub_run (\<lambda>_. '''') [HMeter ''mic'' 1, HTap, HGateUp]"
  have "hb_up ?h = 0" "hb_down ?h = 0" "consumers ?h = 1"
    by (simp_all add: hub_run_def NewHub_def hub_Meter_def hub_Tap_def reset_meters_def
        consumers_def bc_Len_def NewBroadcaster_def Let_def)
  then show ?thesis using metering_follows_the_consumers[OF refl, where ops = "[HMeter ''mic'' 1, HTap, HGateUp]"]
    by auto
qed

end
