(* ===== verification/Monitor_Conditions.thy ===== *)
theory Monitor_Conditions
  imports Config Notify_Center Levels "HOL-Library.Multiset"
begin

text \<open>
  What the condition monitors of \<open>internal/monitor\<close> share: the settings snapshot
  (\<open>settings.go\<close>), the texts and the presence grace (\<open>signal.go\<close>), the loop over the tracked
  subjects, and the locale \<open>subject_conditions\<close>, which reasons about the keys a monitor owns in the
  notification center from the effect of its calls alone. A monitor's step returns the publisher
  calls it makes, in order.
\<close>

section \<open>Settings\<close>

record settings =
  st_Enabled :: bool
  st_Audio :: audioAlerts
  st_Host :: hostAlerts
  st_QuietAlert :: "(string \<times> bool) list"
  st_UpdateCheck :: bool

definition SettingsFrom :: "config \<Rightarrow> settings" where
  "SettingsFrom cfg =
     (let qa = fold (\<lambda>d. AList.update (d_Name d) (QuietAlertEnabled d)) (c_Devices cfg) []
      in \<lparr>st_Enabled = NotificationsEnabled cfg, st_Audio = nt_Audio (c_Notifications cfg),
          st_Host = nt_Host (c_Notifications cfg), st_QuietAlert = qa,
          st_UpdateCheck = UpdateCheckEnabled cfg\<rparr>)"

definition intVal :: "int option \<Rightarrow> int" where
  "intVal p = (case p of None \<Rightarrow> 0 | Some v \<Rightarrow> v)"

text \<open>A 64-bit product, which wraps.\<close>

definition secs :: "int option \<Rightarrow> duration" where
  "secs p = sint (word_of_int (intVal p * second) :: 64 word)"

definition devicePresenceGrace :: int where "devicePresenceGrace = 2"

section \<open>Texts\<close>

definition plural :: "int \<Rightarrow> string \<Rightarrow> string" where
  "plural n unit = (if n = 1 then ''1 '' @ unit else Itoa n @ '' '' @ unit @ ''s'')"

definition humanDuration :: "int \<Rightarrow> string" where
  "humanDuration sec =
     (if sec \<ge> 3600 \<and> sec mod 3600 = 0 then plural (sec div 3600) ''hour''
      else if sec \<ge> 60 \<and> sec mod 60 = 0 then plural (sec div 60) ''minute''
      else plural sec ''second'')"

definition conditionClear :: "string \<Rightarrow> string \<Rightarrow> notification" where
  "conditionClear title message =
     zero_notification\<lparr>n_Severity := SeverityInfo, n_Title := title, n_Message := message\<rparr>"

section \<open>Publishing\<close>

text \<open>The switch on the transition of a detector, and the guarded resolve.\<close>

definition on_transition :: "transition \<Rightarrow> notification \<Rightarrow> string \<Rightarrow> notification \<Rightarrow> pub_call list" where
  "on_transition tr onset key clear =
     (case tr of TransitionOnset \<Rightarrow> [POnset onset] | TransitionClear \<Rightarrow> [PClear key clear] | TransitionNone \<Rightarrow> [])"

definition resolve_if :: "bool \<Rightarrow> string \<Rightarrow> string \<Rightarrow> pub_call list" where
  "resolve_if raised key reason = (if raised then [PResolve key reason] else [])"

text \<open>A loop over a map of subjects that may publish, update the subject's state or delete it.\<close>

fun sweep :: "(string \<Rightarrow> 'st \<Rightarrow> pub_call list \<times> 'st option) \<Rightarrow> (string \<times> 'st) list \<Rightarrow>
    pub_call list \<times> (string \<times> 'st) list" where
  "sweep f [] = ([], [])"
| "sweep f ((n, st) # xs) =
     (case f n st of (cs, r) \<Rightarrow>
       case sweep f xs of (cs', ys) \<Rightarrow>
         (cs @ cs', (case r of None \<Rightarrow> ys | Some st' \<Rightarrow> (n, st') # ys)))"

lemma effect_on_transition:
  assumes "n_Key onset = key" "key \<noteq> ''''"
  shows "calls_effect (on_transition tr onset key clear) A =
    (case tr of TransitionOnset \<Rightarrow> insert key A | TransitionClear \<Rightarrow> A - {key} | TransitionNone \<Rightarrow> A)"
  using assms by (simp add: on_transition_def split: transition.split)

lemma effect_resolve_if: "calls_effect (resolve_if b key reason) A = (if b then A - {key} else A)"
  by (simp add: resolve_if_def)

lemma keys_on_transition: "call \<in> set (on_transition tr onset key clear) \<Longrightarrow> call_keys call \<subseteq> {n_Key onset, key}"
  by (auto simp: on_transition_def split: transition.splits)

lemma keys_resolve_if: "call \<in> set (resolve_if b key reason) \<Longrightarrow> call_keys call = {key}"
  by (auto simp: resolve_if_def split: if_splits)

lemma effect_local:
  "k \<in> A \<longleftrightarrow> k \<in> B \<Longrightarrow> k \<in> calls_effect cs A \<longleftrightarrow> k \<in> calls_effect cs B"
proof (induction cs arbitrary: A B)
  case (Cons call cs)
  show ?case unfolding fold_simps comp_def
    by (rule Cons.IH) (use Cons.prems in \<open>cases call; auto\<close>)
qed simp

lemma sweep_keys: "set (map fst (snd (sweep f xs))) \<subseteq> set (map fst xs)"
proof (induction xs)
  case (Cons x xs)
  obtain n st where "x = (n, st)" by (cases x)
  then have "set (map fst (snd (sweep f (x # xs)))) \<subseteq> insert n (set (map fst (snd (sweep f xs))))"
    by (cases "f n st"; cases "sweep f xs") (simp add: subset_insertI split: option.split)
  also have "\<dots> \<subseteq> insert n (set (map fst xs))" using Cons by blast
  also have "\<dots> = set (map fst (x # xs))" using \<open>x = (n, st)\<close> by simp
  finally show ?case .
qed simp

lemma sweep_distinct: "distinct (map fst xs) \<Longrightarrow> distinct (map fst (snd (sweep f xs)))"
proof (induction f xs rule: sweep.induct)
  case (2 f n st xs)
  then have "n \<notin> set (map fst (snd (sweep f xs)))" using sweep_keys[of f xs] by auto
  with 2 show ?case by (auto split: prod.splits option.splits)
qed simp

lemma sweep_map_of:
  "distinct (map fst xs) \<Longrightarrow>
     map_of (snd (sweep f xs)) n = (case map_of xs n of None \<Rightarrow> None | Some st \<Rightarrow> snd (f n st))"
proof (induction f xs rule: sweep.induct)
  case (2 f m st xs)
  have "map_of (snd (sweep f xs)) m = None"
    using 2(2) sweep_keys[of f xs] by (auto simp: map_of_eq_None_iff)
  with 2 show ?case by (auto split: prod.splits option.splits)
qed simp

lemma set_update_subset: "set (AList.update k v al) \<subseteq> insert (k, v) (set al)"
  by (induction al) auto

lemma map_of_mset:
  "distinct (map fst xs) \<Longrightarrow> mset ys = mset xs \<Longrightarrow> distinct (map fst ys) \<and> map_of ys = map_of xs \<and> set ys = set xs"
proof -
  assume dist: "distinct (map fst xs)" and eq: "mset ys = mset xs"
  have "mset (map fst ys) = mset (map fst xs)" using eq by simp
  then have "distinct (map fst ys)" using dist mset_eq_imp_distinct_iff by blast
  moreover have "set ys = set xs" using eq by (rule mset_eq_setD)
  ultimately show ?thesis using dist map_of_inject_set[of ys xs] by blast
qed

section \<open>Conditions of subjects\<close>

text \<open>
  A monitor tracks subjects by name, and each subject has conditions; \<open>key\<close> is the center key of a
  condition and \<open>raised\<close> whether the subject's state holds it raised. The lemmas compare what the
  center has active with what the monitor believes raised.
\<close>

locale subject_conditions =
  fixes key :: "string \<Rightarrow> 'c \<Rightarrow> string"
    and raised :: "'c \<Rightarrow> 'st \<Rightarrow> bool"
  assumes key_inj: "key n c = key n' c' \<Longrightarrow> n = n' \<and> c = c'"
    and key_nonempty: "key n c \<noteq> ''''"
begin

lemma key_eq [simp]: "key n c = key n' c' \<longleftrightarrow> n = n' \<and> c = c'"
  using key_inj by blast

definition owned :: "string set" where
  "owned = {k. \<exists>n c. k = key n c}"

definition believed :: "(string \<times> 'st) list \<Rightarrow> string set" where
  "believed states = {k. \<exists>n c st. map_of states n = Some st \<and> raised c st \<and> k = key n c}"

definition dev_agree :: "string \<Rightarrow> string set \<Rightarrow> 'st \<Rightarrow> bool" where
  "dev_agree n A st \<longleftrightarrow> (\<forall>c. key n c \<in> A \<longleftrightarrow> raised c st)"

definition dev_calls :: "string \<Rightarrow> pub_call list \<Rightarrow> bool" where
  "dev_calls n cs \<longleftrightarrow> (\<forall>call \<in> set cs. call_keys call \<subseteq> range (key n))"

definition all_agree :: "(string \<times> 'st) list \<Rightarrow> string set \<Rightarrow> bool" where
  "all_agree states A \<longleftrightarrow>
     (\<forall>n c. key n c \<in> A \<longleftrightarrow> (\<exists>st. map_of states n = Some st \<and> raised c st))"

lemma dev_calls_append [simp]: "dev_calls n (cs @ cs') \<longleftrightarrow> dev_calls n cs \<and> dev_calls n cs'"
  by (auto simp: dev_calls_def)

lemma dev_calls_Nil [simp]: "dev_calls n []"
  by (simp add: dev_calls_def)

lemma dev_calls_transition:
  "n_Key onset = key n c \<Longrightarrow> dev_calls n (on_transition tr onset (key n c) clear)"
  using keys_on_transition[of _ tr onset "key n c" clear] by (force simp: dev_calls_def)

lemma dev_calls_resolve: "dev_calls n (resolve_if b (key n c) reason)"
  using keys_resolve_if[of _ b "key n c" reason] by (auto simp: dev_calls_def)

lemma other_subject:
  assumes "dev_calls n cs" "m \<noteq> n"
  shows "key m c \<in> calls_effect cs A \<longleftrightarrow> key m c \<in> A"
  using assms by (intro calls_effect_other) (force simp: dev_calls_def)

lemma foreign_key:
  assumes "\<forall>call \<in> set cs. call_keys call \<subseteq> owned" "k \<notin> owned"
  shows "k \<in> calls_effect cs A \<longleftrightarrow> k \<in> A"
  using assms by (intro calls_effect_other) auto

lemma dev_calls_owned: "dev_calls n cs \<Longrightarrow> \<forall>call \<in> set cs. call_keys call \<subseteq> owned"
  by (force simp: dev_calls_def owned_def)

lemma dev_agree_lookup:
  "all_agree states A \<Longrightarrow> map_of states n = Some st \<Longrightarrow> dev_agree n A st"
  by (auto simp: all_agree_def dev_agree_def)

lemma dev_agree_fresh:
  "all_agree states A \<Longrightarrow> map_of states n = None \<Longrightarrow> \<forall>c. \<not> raised c st \<Longrightarrow> dev_agree n A st"
  by (auto simp: all_agree_def dev_agree_def)

lemma all_agree_update:
  assumes "all_agree states A" "dev_calls n cs" "dev_agree n (calls_effect cs A) st'"
  shows "all_agree (AList.update n st' states) (calls_effect cs A)"
  using assms other_subject[OF assms(2)]
  by (auto simp: all_agree_def dev_agree_def update_conv')

lemma sweep_effect:
  assumes "distinct (map fst xs)" "\<And>n st. (n, st) \<in> set xs \<Longrightarrow> dev_calls n (fst (f n st))"
  shows "key n c \<in> calls_effect (fst (sweep f xs)) A \<longleftrightarrow>
    key n c \<in> (case map_of xs n of None \<Rightarrow> A | Some st \<Rightarrow> calls_effect (fst (f n st)) A)"
  using assms
proof (induction xs arbitrary: A)
  case (Cons x xs)
  obtain m st where x: "x = (m, st)" by (cases x)
  have rest: "key n c \<in> calls_effect (fst (sweep f (x # xs))) A \<longleftrightarrow>
      key n c \<in> calls_effect (fst (sweep f xs)) (calls_effect (fst (f m st)) A)"
    by (simp add: x split: prod.split)
  have IH: "key n c \<in> calls_effect (fst (sweep f xs)) B \<longleftrightarrow>
      key n c \<in> (case map_of xs n of None \<Rightarrow> B | Some st \<Rightarrow> calls_effect (fst (f n st)) B)" for B
    using Cons by simp
  show ?case
  proof (cases "n = m")
    case True
    moreover have "map_of xs m = None" using Cons.prems by (auto simp: x map_of_eq_None_iff)
    ultimately show ?thesis using rest IH by (simp add: x)
  next
    case False
    have "dev_calls m (fst (f m st))" using Cons.prems(2)[of m st] by (simp add: x)
    then have "key n c \<in> calls_effect (fst (f m st)) A \<longleftrightarrow> key n c \<in> A"
      using False by (rule other_subject)
    note effect_local[OF this]
    then show ?thesis using rest IH False \<open>key n c \<in> calls_effect (fst (f m st)) A \<longleftrightarrow> key n c \<in> A\<close>
      by (cases "map_of xs n") (simp_all add: x)
  qed
qed simp

lemma all_agree_sweep:
  assumes agree: "all_agree states A" and dist: "distinct (map fst states)"
    and step: "\<And>n st A. (n, st) \<in> set states \<Longrightarrow> dev_agree n A st \<Longrightarrow> dev_calls n (fst (f n st)) \<and>
      (\<forall>c. key n c \<in> calls_effect (fst (f n st)) A \<longleftrightarrow> (\<exists>st'. snd (f n st) = Some st' \<and> raised c st'))"
  shows "all_agree (snd (sweep f states)) (calls_effect (fst (sweep f states)) A)"
  unfolding all_agree_def
proof (intro allI)
  fix n c
  have "dev_agree n {key n c | c. raised c st} st" for n st by (auto simp: dev_agree_def)
  then have calls: "(n, st) \<in> set states \<Longrightarrow> dev_calls n (fst (f n st))" for n st
    using step by blast
  note eff = sweep_effect[OF dist calls]
  show "key n c \<in> calls_effect (fst (sweep f states)) A \<longleftrightarrow>
      (\<exists>st. map_of (snd (sweep f states)) n = Some st \<and> raised c st)"
  proof (cases "map_of states n")
    case None
    then have "key n c \<notin> A" using agree unfolding all_agree_def by (metis option.distinct(1))
    with None show ?thesis by (simp add: eff dist sweep_map_of)
  next
    case (Some st)
    then have "(n, st) \<in> set states" "dev_agree n A st"
      using agree by (auto dest: map_of_SomeD dev_agree_lookup)
    from step[OF this] Some show ?thesis by (simp add: eff dist sweep_map_of)
  qed
qed

lemma sweep_owned:
  assumes "\<And>n st. dev_calls n (fst (f n st))"
  shows "\<forall>call \<in> set (fst (sweep f states)). call_keys call \<subseteq> owned"
proof (induction states)
  case (Cons x xs)
  obtain n st where x: "x = (n, st)" by (cases x)
  have "fst (sweep f (x # xs)) = fst (f n st) @ fst (sweep f xs)"
    by (simp add: x split: prod.split)
  with Cons dev_calls_owned[OF assms, of n st] show ?case by auto
qed simp

lemma agree_active:
  assumes "all_agree states A" "\<And>k. k \<notin> owned \<Longrightarrow> k \<in> A \<longleftrightarrow> k \<in> A0"
  shows "A = (A0 - owned) \<union> believed states"
proof (intro set_eqI)
  fix k
  show "k \<in> A \<longleftrightarrow> k \<in> (A0 - owned) \<union> believed states"
  proof (cases "k \<in> owned")
    case True
    then obtain n c where "k = key n c" by (auto simp: owned_def)
    then show ?thesis using assms(1) by (auto simp: all_agree_def believed_def owned_def)
  next
    case False
    then have "k \<notin> believed states" by (auto simp: believed_def owned_def)
    with False assms(2) show ?thesis by blast
  qed
qed

end

end
