(* ===== verification/Monitor_Signal.thy ===== *)
theory Monitor_Signal
  imports Monitor_Conditions "HOL-Library.Multiset"
begin

text \<open>
  \<open>internal/monitor/signal.go\<close>: the audio-signal monitor. Fed one levels event per window, it keeps
  three conditions per device (stuck at digital zero, very quiet, clipping) and calls the
  publisher. Settings are swapped by \<open>Apply\<close>, which also attaches the tap; the tap detaches itself
  after a window observed while disabled. A stored settings pointer is a value with an identity.
\<close>

section \<open>State\<close>

definition zeroClearAfter :: duration where "zeroClearAfter = 5 * second"
definition quietClearAfter :: duration where "quietClearAfter = 30 * second"
definition clipClearAfter :: duration where "clipClearAfter = 30 * second"

definition audioZeroKey :: "string \<Rightarrow> string" where "audioZeroKey name = ''audio:'' @ name @ '':zero''"
definition audioQuietKey :: "string \<Rightarrow> string" where "audioQuietKey name = ''audio:'' @ name @ '':quiet''"
definition audioClipKey :: "string \<Rightarrow> string" where "audioClipKey name = ''audio:'' @ name @ '':clip''"

record clipSample =
  cs_at :: instant
  cs_clipped :: bool

record deviceState =
  ds_zero :: hysteresis
  ds_quiet :: hysteresis
  ds_clip :: "clipSample list"
  ds_clipActive :: bool
  ds_lastClip :: instant
  ds_missed :: int
  ds_seen :: bool

definition resetClip :: "deviceState \<Rightarrow> deviceState" where
  "resetClip st = st\<lparr>ds_clip := [], ds_clipActive := False, ds_lastClip := 0\<rparr>"

record signal =
  sg_set :: "nat \<times> settings"
  sg_applied :: "(nat \<times> settings) option"
  sg_states :: "(string \<times> deviceState) list"
  sg_hub :: bool
  sg_attached :: bool
  sg_closed :: bool

definition NewSignal :: "settings \<Rightarrow> signal" where
  "NewSignal s = \<lparr>sg_set = (0, s), sg_applied = None, sg_states = [], sg_hub = False,
     sg_attached = False, sg_closed = False\<rparr>"

section \<open>The tap\<close>

definition attach :: "signal \<Rightarrow> signal" where
  "attach s = (if \<not> sg_hub s \<or> sg_attached s \<or> sg_closed s then s else s\<lparr>sg_attached := True\<rparr>)"

definition detach :: "signal \<Rightarrow> signal" where
  "detach s = (if \<not> sg_attached s \<or> st_Enabled (snd (sg_set s)) then s else s\<lparr>sg_attached := False\<rparr>)"

text \<open>\<open>Apply\<close> stores the new settings and, once they are visible, attaches; both steps of it.\<close>

definition apply_store :: "settings \<Rightarrow> signal \<Rightarrow> signal" where
  "apply_store cfg s = s\<lparr>sg_set := (fst (sg_set s) + 1, cfg)\<rparr>"

definition signal_Apply :: "settings \<Rightarrow> signal \<Rightarrow> signal" where
  "signal_Apply cfg s =
     (let s = apply_store cfg s in if st_Enabled cfg then attach s else s)"

definition signal_shutdown :: "signal \<Rightarrow> signal" where
  "signal_shutdown s =
     (let s = s\<lparr>sg_closed := True\<rparr> in if sg_attached s then s\<lparr>sg_attached := False\<rparr> else s)"

definition RunSignal :: "settings \<Rightarrow> signal" where
  "RunSignal cfg =
     (let s = (NewSignal cfg)\<lparr>sg_hub := True\<rparr>
      in if st_Enabled (snd (sg_set s)) then attach s else s)"

section \<open>Reading a window\<close>

definition quietArmed :: "settings \<Rightarrow> string \<Rightarrow> bool" where
  "quietArmed cfg name = (case map_of (st_QuietAlert cfg) name of Some v \<Rightarrow> v | None \<Rightarrow> True)"

definition allChannelsAtFloor :: "deviceLevels \<Rightarrow> bool" where
  "allChannelsAtFloor d \<longleftrightarrow>
     dl_Channels d \<noteq> [] \<and> list_all (\<lambda>c. cl_PeakDbfs c = FloorDbfs) (dl_Channels d)"

definition maxPeak :: "deviceLevels \<Rightarrow> real" where
  "maxPeak d = foldl (\<lambda>m c. if cl_PeakDbfs c > m then cl_PeakDbfs c else m) FloorDbfs (dl_Channels d)"

definition anyClipped :: "deviceLevels \<Rightarrow> bool" where
  "anyClipped d \<longleftrightarrow> list_ex cl_Clipped (dl_Channels d)"

section \<open>Texts\<close>

definition zeroOnset :: "string \<Rightarrow> int \<Rightarrow> notification" where
  "zeroOnset name zeroSeconds = zero_notification\<lparr>n_Severity := SeverityWarning,
     n_Category := CategoryAudio, n_Key := audioZeroKey name, n_Source := name, n_Title := ''No signal'',
     n_Message := ''No signal: '' @ name @ '' has been at digital zero for '' @ humanDuration zeroSeconds
       @ '' (check the cable or the mixer capture switch)''\<rparr>"

definition quietOnset :: "string \<Rightarrow> int \<Rightarrow> int \<Rightarrow> notification" where
  "quietOnset name quietDbfs quietSeconds = zero_notification\<lparr>n_Severity := SeverityWarning,
     n_Category := CategoryAudio, n_Key := audioQuietKey name, n_Source := name,
     n_Title := ''Very quiet input'',
     n_Message := ''Very quiet input: '' @ name @ '' peak has stayed below '' @ Itoa quietDbfs
       @ '' dBFS for '' @ humanDuration quietSeconds\<rparr>"

definition clipOnset :: "string \<Rightarrow> int \<Rightarrow> notification" where
  "clipOnset name clipPercent = zero_notification\<lparr>n_Severity := SeverityWarning,
     n_Category := CategoryAudio, n_Key := audioClipKey name, n_Source := name,
     n_Title := ''Input clipping'',
     n_Message := name @ '' is clipping: at least '' @ Itoa clipPercent
       @ ''% of recent windows hit full scale''\<rparr>"

section \<open>One device in one window\<close>

definition evaluateClip ::
  "instant \<Rightarrow> bool \<Rightarrow> string \<Rightarrow> settings \<Rightarrow> deviceState \<Rightarrow> pub_call list \<times> deviceState" where
  "evaluateClip now clipped name cfg st =
     (let winDur = secs (aa_ClipWindowSeconds (st_Audio cfg));
          cutoff = now - winDur;
          kept = filter (\<lambda>cs. \<not> cs_at cs < cutoff) (ds_clip st @ [\<lparr>cs_at = now, cs_clipped = clipped\<rparr>]);
          clippedCount = int (length (filter cs_clipped kept));
          st = st\<lparr>ds_clip := kept\<rparr>;
          st = (if clipped then st\<lparr>ds_lastClip := now\<rparr> else st)
      in if ds_clipActive st then
           if \<not> is_zero (ds_lastClip st) \<and> time_sub now (ds_lastClip st) \<ge> clipClearAfter
           then ([PClear (audioClipKey name) (conditionClear ''Clipping stopped'' (name @ '' is no longer clipping''))],
                 resetClip st)
           else ([], st)
         else if time_sub now (cs_at (hd kept)) < winDur then ([], st)
         else if clippedCount * 100 \<ge> intVal (aa_ClipPercent (st_Audio cfg)) * int (length kept)
           then ([POnset (clipOnset name (intVal (aa_ClipPercent (st_Audio cfg))))], st\<lparr>ds_clipActive := True\<rparr>)
           else ([], st))"

definition evaluateZero ::
  "instant \<Rightarrow> deviceLevels \<Rightarrow> settings \<Rightarrow> deviceState \<Rightarrow> pub_call list \<times> deviceState" where
  "evaluateZero now d cfg st =
     (case hys_Observe now (allChannelsAtFloor d) (ds_zero st) of
        (tr, z) \<Rightarrow>
          (on_transition tr (zeroOnset (dl_Name d) (intVal (aa_ZeroSeconds (st_Audio cfg))))
             (audioZeroKey (dl_Name d))
             (conditionClear ''Signal restored'' (dl_Name d @ '' is producing audio again'')),
           st\<lparr>ds_zero := z\<rparr>))"

definition evaluateQuiet ::
  "instant \<Rightarrow> deviceLevels \<Rightarrow> settings \<Rightarrow> deviceState \<Rightarrow> pub_call list \<times> deviceState" where
  "evaluateQuiet now d cfg st =
     (if quietArmed cfg (dl_Name d) then
        let over = (maxPeak d < real_of_int (intVal (aa_QuietDbfs (st_Audio cfg)))) in
        case hys_Observe now over (ds_quiet st) of
          (tr, q) \<Rightarrow>
            (on_transition tr (quietOnset (dl_Name d) (intVal (aa_QuietDbfs (st_Audio cfg)))
                 (intVal (aa_QuietSeconds (st_Audio cfg))))
               (audioQuietKey (dl_Name d))
               (conditionClear ''Input level recovered'' (dl_Name d @ '' is back above the quiet threshold'')),
             st\<lparr>ds_quiet := q\<rparr>)
      else ([], st))"

definition signal_evaluate ::
  "instant \<Rightarrow> deviceLevels \<Rightarrow> settings \<Rightarrow> deviceState \<Rightarrow> pub_call list \<times> deviceState" where
  "signal_evaluate now d cfg st =
     (let st = st\<lparr>ds_zero := hys_SetEnterAfter (secs (aa_ZeroSeconds (st_Audio cfg))) (ds_zero st),
                  ds_quiet := hys_SetEnterAfter (secs (aa_QuietSeconds (st_Audio cfg))) (ds_quiet st)\<rparr>
      in case evaluateZero now d cfg st of (zero_calls, st) \<Rightarrow>
         case evaluateQuiet now d cfg st of (quiet_calls, st) \<Rightarrow>
         case evaluateClip now (anyClipped d) (dl_Name d) cfg st of (clip_calls, st) \<Rightarrow>
           (zero_calls @ quiet_calls @ clip_calls, st))"

section \<open>One window\<close>

text \<open>The resolves of a device's raised conditions, in \<open>resolveAll\<close> and \<open>ageOutAbsent\<close> alike.\<close>

definition resolve_device :: "string \<Rightarrow> string \<Rightarrow> deviceState \<Rightarrow> pub_call list" where
  "resolve_device reason name st =
     resolve_if (h_active (ds_zero st)) (audioZeroKey name) reason
       @ resolve_if (h_active (ds_quiet st)) (audioQuietKey name) reason
       @ resolve_if (ds_clipActive st) (audioClipKey name) reason"

definition resolveAll :: "string \<Rightarrow> (string \<times> deviceState) list \<Rightarrow> pub_call list \<times> (string \<times> deviceState) list" where
  "resolveAll reason states =
     sweep (\<lambda>name st.
       (resolve_device reason name st,
        Some (resetClip (st\<lparr>ds_zero := hys_Reset (ds_zero st), ds_quiet := hys_Reset (ds_quiet st)\<rparr>))))
     states"

definition disarmQuiet ::
  "settings \<Rightarrow> settings \<Rightarrow> (string \<times> deviceState) list \<Rightarrow> pub_call list \<times> (string \<times> deviceState) list" where
  "disarmQuiet prev cfg states =
     sweep (\<lambda>name st.
       if quietArmed prev name \<and> \<not> quietArmed cfg name
       then (resolve_if (h_active (ds_quiet st)) (audioQuietKey name) ''very-quiet alert turned off'',
             Some (st\<lparr>ds_quiet := hys_Reset (ds_quiet st)\<rparr>))
       else ([], Some st))
     states"

definition reconcile :: "nat \<times> settings \<Rightarrow> signal \<Rightarrow> pub_call list \<times> signal" where
  "reconcile cfg s =
     (case sg_applied s of
        None \<Rightarrow> ([], s\<lparr>sg_applied := Some cfg\<rparr>)
      | Some prev \<Rightarrow>
          if fst prev = fst cfg then ([], s\<lparr>sg_applied := Some cfg\<rparr>)
          else if st_Enabled (snd prev) \<and> \<not> st_Enabled (snd cfg) then
            (case resolveAll ''notifications disabled'' (sg_states s) of
               (cs, states) \<Rightarrow> (cs, s\<lparr>sg_states := states, sg_applied := Some cfg\<rparr>))
          else if \<not> st_Enabled (snd cfg) then ([], s\<lparr>sg_applied := Some cfg\<rparr>)
          else
            (case disarmQuiet (snd prev) (snd cfg) (sg_states s) of
               (cs, states) \<Rightarrow> (cs, s\<lparr>sg_states := states, sg_applied := Some cfg\<rparr>)))"

definition new_deviceState :: "settings \<Rightarrow> deviceState" where
  "new_deviceState cfg =
     \<lparr>ds_zero = NewHysteresis (secs (aa_ZeroSeconds (st_Audio cfg))) zeroClearAfter,
      ds_quiet = NewHysteresis (secs (aa_QuietSeconds (st_Audio cfg))) quietClearAfter,
      ds_clip = [], ds_clipActive = False, ds_lastClip = 0, ds_missed = 0, ds_seen = False\<rparr>"

definition stateFor :: "string \<Rightarrow> settings \<Rightarrow> (string \<times> deviceState) list \<Rightarrow> deviceState" where
  "stateFor name cfg states =
     (case map_of states name of Some st \<Rightarrow> st | None \<Rightarrow> new_deviceState cfg)"

fun observe_devices ::
  "instant \<Rightarrow> settings \<Rightarrow> levelsEvent \<Rightarrow> (string \<times> deviceState) list \<Rightarrow>
     pub_call list \<times> (string \<times> deviceState) list" where
  "observe_devices now cfg [] states = ([], states)"
| "observe_devices now cfg (d # ds) states =
     (let st = (stateFor (dl_Name d) cfg states)\<lparr>ds_seen := True\<rparr> in
      case (if st_Enabled cfg then signal_evaluate now d cfg st else ([], st)) of
        (cs, st) \<Rightarrow>
          case observe_devices now cfg ds (AList.update (dl_Name d) st states) of
            (cs', states) \<Rightarrow> (cs @ cs', states))"

definition age_device :: "bool \<Rightarrow> string \<Rightarrow> deviceState \<Rightarrow> pub_call list \<times> deviceState option" where
  "age_device enabled name st =
     (if ds_seen st then ([], Some (st\<lparr>ds_missed := 0\<rparr>))
      else let st = st\<lparr>ds_missed := ds_missed st + 1\<rparr> in
        if ds_missed st < devicePresenceGrace then ([], Some st)
        else (if enabled then resolve_device ''device stopped'' name st else [], None))"

definition ageOutAbsent :: "bool \<Rightarrow> (string \<times> deviceState) list \<Rightarrow> pub_call list \<times> (string \<times> deviceState) list" where
  "ageOutAbsent enabled states = sweep (age_device enabled) states"

text \<open>
  \<open>observe\<close> up to its last step: the settings it loaded, the publisher calls, and whether it goes on
  to \<open>detach\<close>, which reads the settings again under the tap lock.
\<close>

definition observe_window :: "instant \<Rightarrow> levelsEvent \<Rightarrow> signal \<Rightarrow> pub_call list \<times> bool \<times> signal" where
  "observe_window now ev s =
     (let cfg = sg_set s in
      case reconcile cfg s of (cs1, s) \<Rightarrow>
      let states = map (\<lambda>(name, st). (name, st\<lparr>ds_seen := False\<rparr>)) (sg_states s) in
      case observe_devices now (snd cfg) ev states of (cs2, states) \<Rightarrow>
      case ageOutAbsent (st_Enabled (snd cfg)) states of (cs3, states) \<Rightarrow>
        (cs1 @ cs2 @ cs3, \<not> st_Enabled (snd cfg), s\<lparr>sg_states := states\<rparr>))"

section \<open>Interleavings\<close>

text \<open>
  Two goroutines: the run loop applies settings (store, then attach), the sampler delivers windows
  (observe, then detach); shutdown may come at any time. A window may arrive after the tap is gone,
  since the hub delivers from a snapshot. \<open>SOrder\<close> is the freedom Go has in the iteration order of
  the states map. \<open>sy_calls\<close> collects the publisher calls of each window.
\<close>

record signal_sys =
  sy_signal :: signal
  sy_attaching :: bool
  sy_detaching :: bool
  sy_calls :: "(instant \<times> pub_call list) list"

datatype signal_op =
    SApplyStore settings | SApplyAttach | SWindow instant levelsEvent | SDetach | SClose
  | SOrder "(string \<times> deviceState) list"

fun signal_step :: "signal_op \<Rightarrow> signal_sys \<Rightarrow> signal_sys" where
  "signal_step (SApplyStore cfg) y =
     (if sy_attaching y then y
      else y\<lparr>sy_signal := apply_store cfg (sy_signal y), sy_attaching := st_Enabled cfg\<rparr>)"
| "signal_step SApplyAttach y =
     (if sy_attaching y then y\<lparr>sy_signal := attach (sy_signal y), sy_attaching := False\<rparr> else y)"
| "signal_step (SWindow now ev) y =
     (if sy_detaching y then y
      else case observe_window now ev (sy_signal y) of
        (cs, d, s) \<Rightarrow> y\<lparr>sy_signal := s, sy_detaching := d, sy_calls := sy_calls y @ [(now, cs)]\<rparr>)"
| "signal_step SDetach y =
     (if sy_detaching y then y\<lparr>sy_signal := detach (sy_signal y), sy_detaching := False\<rparr> else y)"
| "signal_step SClose y = y\<lparr>sy_signal := signal_shutdown (sy_signal y)\<rparr>"
| "signal_step (SOrder states) y =
     (if mset states = mset (sg_states (sy_signal y))
      then y\<lparr>sy_signal := (sy_signal y)\<lparr>sg_states := states\<rparr>\<rparr> else y)"

definition signal_run :: "settings \<Rightarrow> signal_op list \<Rightarrow> signal_sys" where
  "signal_run cfg ops = fold signal_step ops
     \<lparr>sy_signal = RunSignal cfg, sy_attaching = False, sy_detaching = False, sy_calls = []\<rparr>"

text \<open>The keys of the conditions the monitor holds raised.\<close>

definition signal_keys :: "(string \<times> deviceState) list \<Rightarrow> string set" where
  "signal_keys states = {k. \<exists>name st. map_of states name = Some st \<and>
     (h_active (ds_zero st) \<and> k = audioZeroKey name \<or> h_active (ds_quiet st) \<and> k = audioQuietKey name \<or>
      ds_clipActive st \<and> k = audioClipKey name)}"

definition signal_owned :: "string set" where
  "signal_owned = range audioZeroKey \<union> range audioQuietKey \<union> range audioClipKey"

section \<open>The conditions in the center\<close>

datatype sig_cond = CZero | CQuiet | CClip

fun sig_key :: "string \<Rightarrow> sig_cond \<Rightarrow> string" where
  "sig_key name CZero = audioZeroKey name"
| "sig_key name CQuiet = audioQuietKey name"
| "sig_key name CClip = audioClipKey name"

fun sig_raised :: "sig_cond \<Rightarrow> deviceState \<Rightarrow> bool" where
  "sig_raised CZero st = h_active (ds_zero st)"
| "sig_raised CQuiet st = h_active (ds_quiet st)"
| "sig_raised CClip st = ds_clipActive st"

lemmas audio_keys = audioZeroKey_def audioQuietKey_def audioClipKey_def

lemma sig_key_inj:
  assumes "sig_key n c = sig_key n' c'"
  shows "n = n' \<and> c = c'"
proof -
  have "last (sig_key n c) = last (sig_key n' c')" using assms by simp
  then have "c = c'" by (cases c; cases c') (simp_all add: audio_keys)
  with assms show ?thesis by (cases c) (simp_all add: audio_keys)
qed

interpretation sig: subject_conditions sig_key sig_raised
proof
  show "sig_key n c = sig_key n' c' \<Longrightarrow> n = n' \<and> c = c'" for n c n' c' by (rule sig_key_inj)
  show "sig_key n c \<noteq> ''''" for n c by (cases c) (simp_all add: audio_keys)
qed

lemma ex_sig_cond: "(\<exists>c. P c) \<longleftrightarrow> P CZero \<or> P CQuiet \<or> P CClip"
  by (metis sig_cond.exhaust)

lemma all_sig_cond: "(\<forall>c. P c) \<longleftrightarrow> P CZero \<and> P CQuiet \<and> P CClip"
  by (metis sig_cond.exhaust)

lemma signal_keys_believed: "signal_keys states = sig.believed states"
  by (auto simp: signal_keys_def sig.believed_def ex_sig_cond)

lemma signal_owned_eq: "signal_owned = sig.owned"
  by (auto simp: signal_owned_def sig.owned_def ex_sig_cond)

lemma sig_key_eqs [simp]:
  "audioZeroKey n = audioZeroKey m \<longleftrightarrow> n = m" "audioQuietKey n = audioQuietKey m \<longleftrightarrow> n = m"
  "audioClipKey n = audioClipKey m \<longleftrightarrow> n = m"
  "audioZeroKey n \<noteq> audioQuietKey m" "audioZeroKey n \<noteq> audioClipKey m"
  "audioQuietKey n \<noteq> audioZeroKey m" "audioQuietKey n \<noteq> audioClipKey m"
  "audioClipKey n \<noteq> audioZeroKey m" "audioClipKey n \<noteq> audioQuietKey m"
  using sig.key_eq[of n CZero m CZero] sig.key_eq[of n CQuiet m CQuiet] sig.key_eq[of n CClip m CClip]
    sig.key_eq[of n CZero m CQuiet] sig.key_eq[of n CZero m CClip] sig.key_eq[of n CQuiet m CZero]
    sig.key_eq[of n CQuiet m CClip] sig.key_eq[of n CClip m CZero] sig.key_eq[of n CClip m CQuiet]
  by (simp_all del: sig.key_eq)

lemma audio_key_nonempty [simp]: "audioZeroKey n \<noteq> ''''" "audioQuietKey n \<noteq> ''''" "audioClipKey n \<noteq> ''''"
  by (simp_all add: audio_keys)

lemma onset_keys [simp]:
  "n_Key (zeroOnset name a) = audioZeroKey name" "n_Key (quietOnset name b a) = audioQuietKey name"
  "n_Key (clipOnset name a) = audioClipKey name"
  by (simp_all add: zeroOnset_def quietOnset_def clipOnset_def)

lemmas dev_agree_sig = sig.dev_agree_def all_sig_cond sig_key.simps sig_raised.simps

lemma dev_calls_sig:
  "n_Key onset = audioZeroKey n \<Longrightarrow> sig.dev_calls n (on_transition tr onset (audioZeroKey n) clear)"
  "n_Key onset = audioQuietKey n \<Longrightarrow> sig.dev_calls n (on_transition tr onset (audioQuietKey n) clear)"
  "sig.dev_calls n (resolve_if b (audioZeroKey n) reason)"
  "sig.dev_calls n (resolve_if b (audioQuietKey n) reason)"
  "sig.dev_calls n (resolve_if b (audioClipKey n) reason)"
  "sig.dev_calls n [PClear (audioClipKey n) clear]"
  "n_Key onset = audioClipKey n \<Longrightarrow> sig.dev_calls n [POnset onset]"
  using sig.dev_calls_transition[of onset n CZero] sig.dev_calls_transition[of onset n CQuiet]
    sig.dev_calls_resolve[of n b CZero] sig.dev_calls_resolve[of n b CQuiet] sig.dev_calls_resolve[of n b CClip]
  by simp_all (auto simp: sig.dev_calls_def intro: range_eqI[of _ _ CClip])

lemmas effect_sig = effect_on_transition effect_resolve_if fold_append comp_def

subsection \<open>One device\<close>

definition sig_ok :: "string \<Rightarrow> string set \<Rightarrow> pub_call list \<times> deviceState \<Rightarrow> bool" where
  "sig_ok n A r \<longleftrightarrow> sig.dev_calls n (fst r) \<and> sig.dev_agree n (calls_effect (fst r) A) (snd r)"

lemma sig_okI:
  "sig.dev_calls n cs \<Longrightarrow> sig.dev_agree n (calls_effect cs A) st \<Longrightarrow> sig_ok n A (cs, st)"
  by (simp add: sig_ok_def)

lemma sig_ok_seq:
  "sig_ok n A (cs, st) \<Longrightarrow> sig_ok n (calls_effect cs A) (cs', st') \<Longrightarrow> sig_ok n A (cs @ cs', st')"
  by (simp add: sig_ok_def)

lemma evaluateZero_ok:
  assumes "sig.dev_agree (dl_Name d) A st"
  shows "sig_ok (dl_Name d) A (evaluateZero now d cfg st)"
proof -
  obtain tr z where o: "hys_Observe now (allChannelsAtFloor d) (ds_zero st) = (tr, z)" by fastforce
  then have "h_active z = (case tr of TransitionNone \<Rightarrow> h_active (ds_zero st) | TransitionOnset \<Rightarrow> True
      | TransitionClear \<Rightarrow> False)"
    using hys_Observe_active[of now "allChannelsAtFloor d" "ds_zero st"] by simp
  then show ?thesis
    using assms unfolding evaluateZero_def o prod.case
    by (intro sig_okI dev_calls_sig) (cases tr; auto simp: dev_agree_sig effect_sig)+
qed

lemma evaluateQuiet_ok:
  assumes "sig.dev_agree (dl_Name d) A st"
  shows "sig_ok (dl_Name d) A (evaluateQuiet now d cfg st)"
proof (cases "quietArmed cfg (dl_Name d)")
  case True
  define over where "over = (maxPeak d < real_of_int (intVal (aa_QuietDbfs (st_Audio cfg))))"
  obtain tr q where o: "hys_Observe now over (ds_quiet st) = (tr, q)" by fastforce
  then have "h_active q = (case tr of TransitionNone \<Rightarrow> h_active (ds_quiet st) | TransitionOnset \<Rightarrow> True
      | TransitionClear \<Rightarrow> False)"
    using hys_Observe_active[of now over "ds_quiet st"] by simp
  then show ?thesis
    using assms True unfolding evaluateQuiet_def Let_def over_def[symmetric] o prod.case if_P[OF True]
    by (intro sig_okI dev_calls_sig) (cases tr; auto simp: dev_agree_sig effect_sig)+
next
  case False
  with assms show ?thesis by (simp add: evaluateQuiet_def sig_ok_def)
qed

lemma evaluateClip_ok:
  assumes "sig.dev_agree n A st"
  shows "sig_ok n A (evaluateClip now clipped n cfg st)"
  using assms by (auto simp: evaluateClip_def Let_def sig_ok_def dev_agree_sig resetClip_def dev_calls_sig)

lemma evaluate_ok:
  assumes "sig.dev_agree (dl_Name d) A st"
  shows "sig_ok (dl_Name d) A (signal_evaluate now d cfg st)"
proof -
  define st0 where "st0 = st\<lparr>ds_zero := hys_SetEnterAfter (secs (aa_ZeroSeconds (st_Audio cfg))) (ds_zero st),
      ds_quiet := hys_SetEnterAfter (secs (aa_QuietSeconds (st_Audio cfg))) (ds_quiet st)\<rparr>"
  have "sig.dev_agree (dl_Name d) A st0" using assms by (simp add: st0_def dev_agree_sig)
  note zero = evaluateZero_ok[OF this, of now cfg]
  obtain cz sz where z: "evaluateZero now d cfg st0 = (cz, sz)" by fastforce
  then have "sig.dev_agree (dl_Name d) (calls_effect cz A) sz" using zero by (simp add: sig_ok_def)
  note quiet = evaluateQuiet_ok[OF this, of now cfg]
  obtain cq sq where q: "evaluateQuiet now d cfg sz = (cq, sq)" by fastforce
  then have "sig.dev_agree (dl_Name d) (calls_effect cq (calls_effect cz A)) sq"
    using quiet by (simp add: sig_ok_def)
  note clip = evaluateClip_ok[OF this, of now "anyClipped d" cfg]
  obtain cc sc where c: "evaluateClip now (anyClipped d) (dl_Name d) cfg sq = (cc, sc)" by fastforce
  have "signal_evaluate now d cfg st = (cz @ (cq @ cc), sc)"
    by (simp add: signal_evaluate_def st0_def[symmetric] z q c)
  with zero quiet clip z q c show ?thesis by (simp add: sig_ok_def)
qed

subsection \<open>The loops over all devices\<close>

lemma resolve_device_effect:
  assumes "sig.dev_agree n A st"
  shows "sig.dev_calls n (resolve_device reason n st) \<and>
    (\<forall>c. sig_key n c \<notin> calls_effect (resolve_device reason n st) A)"
  using assms by (auto simp: resolve_device_def all_sig_cond dev_agree_sig effect_resolve_if dev_calls_sig)

lemma resolveAll_agree:
  assumes "sig.all_agree states A" "distinct (map fst states)"
  shows "sig.all_agree (snd (resolveAll reason states)) (calls_effect (fst (resolveAll reason states)) A)"
  unfolding resolveAll_def
  by (rule sig.all_agree_sweep[OF assms])
    (use resolve_device_effect in \<open>simp add: all_sig_cond resetClip_def\<close>)

lemma disarmQuiet_agree:
  assumes "sig.all_agree states A" "distinct (map fst states)"
  shows "sig.all_agree (snd (disarmQuiet prev cfg states)) (calls_effect (fst (disarmQuiet prev cfg states)) A)"
  unfolding disarmQuiet_def
  by (rule sig.all_agree_sweep[OF assms])
    (auto simp: dev_calls_sig dev_agree_sig effect_resolve_if)

definition all_quiet :: "(string \<times> deviceState) list \<Rightarrow> bool" where
  "all_quiet states \<longleftrightarrow> (\<forall>(n, st) \<in> set states. \<forall>c. \<not> sig_raised c st)"

lemma age_device_effect:
  assumes "sig.dev_agree n A st" "\<not> enabled \<Longrightarrow> \<forall>c. \<not> sig_raised c st"
  shows "sig.dev_calls n (fst (age_device enabled n st)) \<and>
    (\<forall>c. sig_key n c \<in> calls_effect (fst (age_device enabled n st)) A \<longleftrightarrow>
      (\<exists>st'. snd (age_device enabled n st) = Some st' \<and> sig_raised c st'))"
proof -
  let ?st = "st\<lparr>ds_missed := ds_missed st + 1\<rparr>"
  have "sig.dev_agree n A ?st" using assms(1) by (simp add: dev_agree_sig)
  note resolve_device_effect[OF this, of "''device stopped''"]
  moreover have "\<forall>c. sig_key n c \<notin> A" if "\<not> enabled"
    using assms(1) assms(2)[OF that] by (simp add: sig.dev_agree_def)
  ultimately show ?thesis
    using assms(1) by (simp add: age_device_def Let_def all_sig_cond dev_agree_sig)
qed

lemma ageOut_agree:
  assumes "sig.all_agree states A" "distinct (map fst states)" "\<not> enabled \<Longrightarrow> all_quiet states"
  shows "sig.all_agree (snd (ageOutAbsent enabled states)) (calls_effect (fst (ageOutAbsent enabled states)) A)"
  unfolding ageOutAbsent_def
  by (rule sig.all_agree_sweep[OF assms(1,2)], rule age_device_effect)
    (use assms(3) in \<open>auto simp: all_quiet_def\<close>)

subsection \<open>A window\<close>

lemma all_quiet_update: "all_quiet states \<Longrightarrow> \<forall>c. \<not> sig_raised c st \<Longrightarrow> all_quiet (AList.update n st states)"
  using set_update_subset[of n st states] by (fastforce simp: all_quiet_def)

lemma all_quiet_sweep:
  assumes "\<And>n st st'. (n, st) \<in> set states \<Longrightarrow> snd (f n st) = Some st' \<Longrightarrow> \<forall>c. \<not> sig_raised c st'"
  shows "all_quiet (snd (sweep f states))"
  using assms
proof (induction states)
  case (Cons x xs)
  obtain n st where x: "x = (n, st)" by (cases x)
  have "snd (sweep f (x # xs)) =
      (case snd (f n st) of None \<Rightarrow> snd (sweep f xs) | Some st' \<Rightarrow> (n, st') # snd (sweep f xs))"
    by (cases "sweep f xs"; cases "f n st"; cases "snd (f n st)"; simp add: x)
  moreover have "all_quiet (snd (sweep f xs))" using Cons by auto
  moreover have "\<forall>c. \<not> sig_raised c st'" if "snd (f n st) = Some st'" for st'
    using Cons.prems[of n st st'] that by (simp add: x)
  ultimately show ?case by (cases "snd (f n st)") (simp_all add: all_quiet_def)
qed (simp add: all_quiet_def)

lemma raised_new: "\<not> sig_raised c (new_deviceState cfg)"
  by (cases c) (simp_all add: new_deviceState_def)

lemma raised_seen [simp]: "sig_raised c (st\<lparr>ds_seen := b\<rparr>) = sig_raised c st"
  "sig_raised c (st\<lparr>ds_missed := m\<rparr>) = sig_raised c st"
  by (cases c; simp)+

lemma agree_stateFor:
  assumes "sig.all_agree states A"
  shows "sig.dev_agree n A ((stateFor n cfg states)\<lparr>ds_seen := b\<rparr>)"
proof -
  have "sig.dev_agree n A (stateFor n cfg states)"
    using sig.dev_agree_lookup[OF assms, of n] sig.dev_agree_fresh[OF assms, of n "new_deviceState cfg"]
    by (auto simp: stateFor_def raised_new split: option.split)
  then show ?thesis by (simp add: sig.dev_agree_def)
qed

lemma evaluate_present_ok:
  assumes "sig.all_agree states A"
  shows "sig_ok (dl_Name d) A
    (if st_Enabled cfg then signal_evaluate now d cfg ((stateFor (dl_Name d) cfg states)\<lparr>ds_seen := True\<rparr>)
     else ([], (stateFor (dl_Name d) cfg states)\<lparr>ds_seen := True\<rparr>))"
  using evaluate_ok[OF agree_stateFor[OF assms]] agree_stateFor[OF assms, where b = True]
  by (simp add: sig_ok_def)

lemma observe_devices_agree:
  "sig.all_agree states A \<Longrightarrow> distinct (map fst states) \<Longrightarrow>
   observe_devices now cfg ds states = (cs, states') \<Longrightarrow>
     sig.all_agree states' (calls_effect cs A) \<and> distinct (map fst states') \<and>
     (\<forall>call \<in> set cs. call_keys call \<subseteq> sig.owned)"
proof (induction ds arbitrary: states A cs states')
  case (Cons d ds)
  obtain c1 st where r: "(if st_Enabled cfg
      then signal_evaluate now d cfg ((stateFor (dl_Name d) cfg states)\<lparr>ds_seen := True\<rparr>)
      else ([], (stateFor (dl_Name d) cfg states)\<lparr>ds_seen := True\<rparr>)) = (c1, st)" by fastforce
  have ok: "sig_ok (dl_Name d) A (c1, st)"
    using evaluate_present_ok[OF Cons.prems(1), of d cfg now] unfolding r .
  obtain c2 s2 where rest: "observe_devices now cfg ds (AList.update (dl_Name d) st states) = (c2, s2)"
    by fastforce
  have cs: "cs = c1 @ c2" "states' = s2" using Cons.prems(3) by (simp_all add: Let_def r rest)
  have "sig.all_agree (AList.update (dl_Name d) st states) (calls_effect c1 A)"
    using ok Cons.prems(1) by (intro sig.all_agree_update) (simp_all add: sig_ok_def)
  from Cons.IH[OF this _ rest] have "sig.all_agree s2 (calls_effect c2 (calls_effect c1 A)) \<and>
      distinct (map fst s2) \<and> (\<forall>call \<in> set c2. call_keys call \<subseteq> sig.owned)"
    using Cons.prems(2) by (simp add: distinct_update)
  moreover have "\<forall>call \<in> set c1. call_keys call \<subseteq> sig.owned"
    using ok by (intro sig.dev_calls_owned[of "dl_Name d"]) (simp add: sig_ok_def)
  ultimately show ?case by (auto simp: cs)
qed simp

lemma observe_devices_disabled:
  "\<not> st_Enabled cfg \<Longrightarrow> all_quiet states \<Longrightarrow> all_quiet (snd (observe_devices now cfg ds states))"
proof (induction ds arbitrary: states)
  case (Cons d ds)
  have "\<forall>c. \<not> sig_raised c ((stateFor (dl_Name d) cfg states)\<lparr>ds_seen := True\<rparr>)"
    using Cons.prems(2) by (auto simp: stateFor_def raised_new all_quiet_def split: option.split dest!: map_of_SomeD)
  then have "all_quiet (AList.update (dl_Name d) ((stateFor (dl_Name d) cfg states)\<lparr>ds_seen := True\<rparr>) states)"
    using Cons.prems(2) by (rule all_quiet_update[rotated])
  from Cons.IH[OF Cons.prems(1) this] show ?case
    using Cons.prems(1) by (simp add: Let_def case_prod_unfold)
qed simp

definition signal_inv :: "signal \<Rightarrow> bool" where [inv_defs]:
  "signal_inv s \<longleftrightarrow> distinct (map fst (sg_states s)) \<and>
     (case sg_applied s of
        None \<Rightarrow> sg_states s = []
      | Some prev \<Rightarrow> fst prev \<le> fst (sg_set s) \<and> (fst prev = fst (sg_set s) \<longrightarrow> prev = sg_set s) \<and>
          (\<not> st_Enabled (snd prev) \<longrightarrow> all_quiet (sg_states s)))"

lemma reconcile_agree:
  assumes "signal_inv s" "sig.all_agree (sg_states s) A" "reconcile (sg_set s) s = (cs, s')"
  shows "sig.all_agree (sg_states s') (calls_effect cs A) \<and> distinct (map fst (sg_states s')) \<and>
    (\<forall>call \<in> set cs. call_keys call \<subseteq> sig.owned) \<and>
    s' = s\<lparr>sg_states := sg_states s', sg_applied := Some (sg_set s)\<rparr> \<and>
    (\<not> st_Enabled (snd (sg_set s)) \<longrightarrow> all_quiet (sg_states s'))"
proof -
  have dist: "distinct (map fst (sg_states s))" using assms(1) by (simp add: signal_inv_def)
  have resolved: "all_quiet (snd (resolveAll r (sg_states s)))" for r
    unfolding resolveAll_def by (rule all_quiet_sweep) (auto simp: all_sig_cond resetClip_def)
  have owned: "\<forall>call \<in> set (fst (resolveAll r (sg_states s))). call_keys call \<subseteq> sig.owned"
      "\<forall>call \<in> set (fst (disarmQuiet p q (sg_states s))). call_keys call \<subseteq> sig.owned" for r p q
    unfolding resolveAll_def disarmQuiet_def
    by (rule sig.sweep_owned; simp add: resolve_device_def dev_calls_sig)+
  have keys: "distinct (map fst (snd (resolveAll r (sg_states s))))"
      "distinct (map fst (snd (disarmQuiet p q (sg_states s))))" for r p q
    unfolding resolveAll_def disarmQuiet_def by (rule sweep_distinct[OF dist])+
  note facts = resolveAll_agree[OF assms(2) dist] disarmQuiet_agree[OF assms(2) dist] resolved owned keys
  show ?thesis
  proof (cases "sg_applied s")
    case None
    then have "sg_states s = []" using assms(1) by (simp add: signal_inv_def)
    then show ?thesis using assms(2,3) None by (auto simp: reconcile_def all_quiet_def)
  next
    case (Some prev)
    note inv = assms(1)[unfolded signal_inv_def Some option.case]
    consider (same) "fst prev = fst (sg_set s)"
      | (off) "fst prev \<noteq> fst (sg_set s)" "st_Enabled (snd prev)" "\<not> st_Enabled (snd (sg_set s))"
      | (idle) "fst prev \<noteq> fst (sg_set s)" "\<not> st_Enabled (snd prev)" "\<not> st_Enabled (snd (sg_set s))"
      | (on) "fst prev \<noteq> fst (sg_set s)" "st_Enabled (snd (sg_set s))" by blast
    then show ?thesis
    proof cases
      case same
      then have "cs = []" "s' = s\<lparr>sg_applied := Some (sg_set s)\<rparr>"
        using assms(3) by (simp_all add: reconcile_def Some)
      then show ?thesis using assms(2) dist inv same by auto
    next
      case off
      let ?r = "resolveAll ''notifications disabled'' (sg_states s)"
      have "cs = fst ?r" "s' = s\<lparr>sg_states := snd ?r, sg_applied := Some (sg_set s)\<rparr>"
        using assms(3) off by (simp_all add: reconcile_def Some case_prod_unfold)
      then show ?thesis using facts by simp
    next
      case idle
      then have "cs = []" "s' = s\<lparr>sg_applied := Some (sg_set s)\<rparr>"
        using assms(3) by (simp_all add: reconcile_def Some)
      then show ?thesis using assms(2) dist inv idle by simp
    next
      case on
      let ?r = "disarmQuiet (snd prev) (snd (sg_set s)) (sg_states s)"
      have "cs = fst ?r" "s' = s\<lparr>sg_states := snd ?r, sg_applied := Some (sg_set s)\<rparr>"
        using assms(3) on by (simp_all add: reconcile_def Some case_prod_unfold)
      then show ?thesis using facts on by simp
    qed
  qed
qed

lemma unseen_agree:
  "sig.all_agree (map (\<lambda>(n, st). (n, st\<lparr>ds_seen := False\<rparr>)) states) A = sig.all_agree states A"
proof -
  have "map_of (map (\<lambda>(n, st). (n, st\<lparr>ds_seen := False\<rparr>)) states) n =
      map_option (\<lambda>st. st\<lparr>ds_seen := False\<rparr>) (map_of states n)" for n
    by (induction states) auto
  then show ?thesis by (auto simp: sig.all_agree_def)
qed

lemma ageOut_owned: "\<forall>call \<in> set (fst (ageOutAbsent enabled states)). call_keys call \<subseteq> sig.owned"
  unfolding ageOutAbsent_def
  by (rule sig.sweep_owned) (simp add: age_device_def resolve_device_def dev_calls_sig Let_def)

lemma ageOut_quiet: "all_quiet states \<Longrightarrow> all_quiet (snd (ageOutAbsent enabled states))"
  unfolding ageOutAbsent_def
  by (rule all_quiet_sweep) (force simp: age_device_def Let_def all_quiet_def split: if_splits)

lemma window_agree:
  assumes "signal_inv s" "sig.all_agree (sg_states s) A" "observe_window now ev s = (cs, d, s')"
  shows "signal_inv s' \<and> sig.all_agree (sg_states s') (calls_effect cs A) \<and>
    (\<forall>call \<in> set cs. call_keys call \<subseteq> sig.owned) \<and> d = (\<not> st_Enabled (snd (sg_set s))) \<and>
    (d \<longrightarrow> all_quiet (sg_states s')) \<and>
    s' = s\<lparr>sg_states := sg_states s', sg_applied := Some (sg_set s)\<rparr>"
proof -
  obtain c1 s1 where 1: "reconcile (sg_set s) s = (c1, s1)" by fastforce
  define u where "u = map (\<lambda>(n, st). (n, st\<lparr>ds_seen := False\<rparr>)) (sg_states s1)"
  obtain c2 s2 where 2: "observe_devices now (snd (sg_set s)) ev u = (c2, s2)" by fastforce
  obtain c3 s3 where 3: "ageOutAbsent (st_Enabled (snd (sg_set s))) s2 = (c3, s3)" by fastforce
  have res: "cs = c1 @ c2 @ c3" "d = (\<not> st_Enabled (snd (sg_set s)))" "s' = s1\<lparr>sg_states := s3\<rparr>"
    using assms(3) by (simp_all add: observe_window_def Let_def 1 u_def[symmetric] 2 3)
  note R = reconcile_agree[OF assms(1,2) 1]
  have u: "sig.all_agree u (calls_effect c1 A)" "distinct (map fst u)"
    using R unfolding u_def by (simp_all only: unseen_agree) (simp add: case_prod_unfold comp_def)
  note D = observe_devices_agree[OF u 2]
  have quiet: "all_quiet s2" if "\<not> st_Enabled (snd (sg_set s))"
  proof -
    have "all_quiet u" using R that by (fastforce simp: u_def all_quiet_def)
    from observe_devices_disabled[OF that this, of now ev] show ?thesis by (simp add: 2)
  qed
  have "sig.all_agree s3 (calls_effect c3 (calls_effect c2 (calls_effect c1 A)))"
    using ageOut_agree[of s2 "calls_effect c2 (calls_effect c1 A)" "st_Enabled (snd (sg_set s))"] D quiet
    by (simp add: 3)
  moreover have "\<forall>call \<in> set c3. call_keys call \<subseteq> sig.owned"
    using ageOut_owned[of "st_Enabled (snd (sg_set s))" s2] by (simp add: 3)
  moreover have "distinct (map fst s3)"
    using sweep_distinct[of s2 "age_device (st_Enabled (snd (sg_set s)))"] D 3 by (simp add: ageOutAbsent_def)
  moreover have "all_quiet s3" if "\<not> st_Enabled (snd (sg_set s))"
    using ageOut_quiet[OF quiet[OF that], of "st_Enabled (snd (sg_set s))"] by (simp add: 3)
  moreover have "s' = s\<lparr>sg_states := s3, sg_applied := Some (sg_set s)\<rparr>"
  proof -
    have "s1 = s\<lparr>sg_states := sg_states s1, sg_applied := Some (sg_set s)\<rparr>" using R by blast
    then show ?thesis unfolding res(3) by (metis signal.update_convs(2,3) signal.surjective)
  qed
  ultimately show ?thesis
    using R D by (auto simp: res signal_inv_def)
qed

section \<open>Every interleaving\<close>

definition sys_inv :: "string set \<Rightarrow> signal_sys \<Rightarrow> bool" where [inv_defs]:
  "sys_inv A0 y \<longleftrightarrow> signal_inv (sy_signal y) \<and>
     (let A = calls_effect (concat (map snd (sy_calls y))) A0 in
        sig.all_agree (sg_states (sy_signal y)) A \<and> (\<forall>k. k \<notin> sig.owned \<longrightarrow> (k \<in> A) = (k \<in> A0)))"

definition tap_inv :: "signal_sys \<Rightarrow> bool" where [inv_defs]:
  "tap_inv y \<longleftrightarrow> sg_hub (sy_signal y) \<and> (sg_closed (sy_signal y) \<longrightarrow> \<not> sg_attached (sy_signal y)) \<and>
     (\<not> sg_closed (sy_signal y) \<and> st_Enabled (snd (sg_set (sy_signal y))) \<and> \<not> sy_attaching y \<longrightarrow>
        sg_attached (sy_signal y))"

lemma sys_inv_frame:
  assumes "sys_inv A0 y" "sg_states s = sg_states (sy_signal y)" "sg_applied s = sg_applied (sy_signal y)"
    "sg_set s = sg_set (sy_signal y)"
  shows "sys_inv A0 (y\<lparr>sy_signal := s, sy_attaching := a\<rparr>)"
    "sys_inv A0 (y\<lparr>sy_signal := s, sy_detaching := d\<rparr>)"
    "sys_inv A0 (y\<lparr>sy_signal := s\<rparr>)"
proof -
  have "signal_inv s = signal_inv (sy_signal y)" unfolding signal_inv_def assms(2-4) ..
  then show "sys_inv A0 (y\<lparr>sy_signal := s, sy_attaching := a\<rparr>)"
    "sys_inv A0 (y\<lparr>sy_signal := s, sy_detaching := d\<rparr>)" "sys_inv A0 (y\<lparr>sy_signal := s\<rparr>)"
    using assms(1) by (simp_all add: sys_inv_def assms(2))
qed

lemma tap_ops_frame [simp]:
  "sg_states (attach s) = sg_states s" "sg_applied (attach s) = sg_applied s" "sg_set (attach s) = sg_set s"
  "sg_states (detach s) = sg_states s" "sg_applied (detach s) = sg_applied s" "sg_set (detach s) = sg_set s"
  "sg_states (signal_shutdown s) = sg_states s" "sg_applied (signal_shutdown s) = sg_applied s"
  "sg_set (signal_shutdown s) = sg_set s"
  by (simp_all add: attach_def detach_def signal_shutdown_def Let_def)

lemma sys_inv_store: "sys_inv A0 y \<Longrightarrow> sys_inv A0 (y\<lparr>sy_signal := apply_store cfg (sy_signal y), sy_attaching := a\<rparr>)"
  by (cases "sg_set (sy_signal y)") (auto simp: sys_inv_def signal_inv_def apply_store_def split: option.splits)

lemma sys_inv_order:
  assumes "sys_inv A0 y" "mset states = mset (sg_states (sy_signal y))"
  shows "sys_inv A0 (y\<lparr>sy_signal := (sy_signal y)\<lparr>sg_states := states\<rparr>\<rparr>)"
proof -
  let ?old = "sg_states (sy_signal y)"
  have inv: "signal_inv (sy_signal y)" using assms(1) by (simp add: sys_inv_def)
  then have "distinct (map fst ?old)" by (simp add: signal_inv_def)
  note same = map_of_mset[OF this assms(2)]
  then have "sig.all_agree states A = sig.all_agree ?old A" for A by (simp add: sig.all_agree_def)
  moreover have "all_quiet states = all_quiet ?old" using same by (simp add: all_quiet_def)
  ultimately show ?thesis
  proof (cases "sg_applied (sy_signal y)")
    case None
    then have "?old = []" "states = []" using inv assms(2) by (simp_all add: signal_inv_def)
    then show ?thesis
      using sys_inv_frame(3)[OF assms(1), of "(sy_signal y)\<lparr>sg_states := states\<rparr>"] by simp
  next
    case (Some prev)
    then show ?thesis
      using assms(1) same \<open>\<And>A. sig.all_agree states A = sig.all_agree ?old A\<close> \<open>all_quiet states = all_quiet ?old\<close>
      by (simp add: sys_inv_def signal_inv_def)
  qed
qed

lemma sys_inv_window:
  assumes "sys_inv A0 y" "observe_window now ev (sy_signal y) = (cs, d, s)"
  shows "sys_inv A0 (y\<lparr>sy_signal := s, sy_detaching := d, sy_calls := sy_calls y @ [(now, cs)]\<rparr>)"
proof -
  let ?A = "calls_effect (concat (map snd (sy_calls y))) A0"
  have "signal_inv (sy_signal y)" "sig.all_agree (sg_states (sy_signal y)) ?A"
    "\<forall>k. k \<notin> sig.owned \<longrightarrow> (k \<in> ?A) = (k \<in> A0)"
    using assms(1) by (simp_all add: sys_inv_def Let_def)
  with window_agree[OF this(1,2) assms(2)] show ?thesis
    by (simp add: sys_inv_def Let_def sig.foreign_key)
qed

lemma sys_inv_step:
  assumes "sys_inv A0 y"
  shows "sys_inv A0 (signal_step x y)"
proof (cases x)
  case (SApplyStore cfg)
  then show ?thesis using assms sys_inv_store[OF assms] by simp
next
  case SApplyAttach
  then show ?thesis
    using assms sys_inv_frame(1)[OF assms, of "attach (sy_signal y)"] by simp
next
  case (SWindow now ev)
  then show ?thesis
    using assms sys_inv_window[OF assms, of now ev]
    by (cases "observe_window now ev (sy_signal y)") simp
next
  case SDetach
  then show ?thesis
    using assms sys_inv_frame(2)[OF assms, of "detach (sy_signal y)"] by simp
next
  case SClose
  then show ?thesis
    using sys_inv_frame(3)[OF assms, of "signal_shutdown (sy_signal y)"] by simp
next
  case (SOrder states)
  then show ?thesis using assms sys_inv_order[OF assms, of states] by simp
qed

lemma window_frame:
  assumes "observe_window now ev s = (cs, d, s')"
  shows "sg_set s' = sg_set s \<and> sg_hub s' = sg_hub s \<and> sg_attached s' = sg_attached s \<and>
    sg_closed s' = sg_closed s \<and> d = (\<not> st_Enabled (snd (sg_set s)))"
  using assms by (auto simp: observe_window_def reconcile_def Let_def case_prod_unfold split: option.splits if_splits)

lemma tap_window:
  assumes "tap_inv y" "observe_window now ev (sy_signal y) = (cs, d, s)"
  shows "tap_inv (y\<lparr>sy_signal := s, sy_detaching := d, sy_calls := calls\<rparr>)"
proof -
  have "sg_set s = sg_set (sy_signal y)" "sg_hub s = sg_hub (sy_signal y)"
    "sg_attached s = sg_attached (sy_signal y)" "sg_closed s = sg_closed (sy_signal y)"
    using window_frame[OF assms(2)] by blast+
  with assms(1) show ?thesis by (simp add: tap_inv_def)
qed

lemma tap_inv_step:
  assumes "tap_inv y"
  shows "tap_inv (signal_step x y)"
proof (cases x)
  case (SApplyStore cfg)
  then show ?thesis using assms by (simp add: tap_inv_def apply_store_def)
next
  case SApplyAttach
  then show ?thesis using assms by (simp add: tap_inv_def attach_def)
next
  case (SWindow now ev)
  show ?thesis
  proof (cases "sy_detaching y")
    case True
    then show ?thesis using SWindow assms by simp
  next
    case False
    obtain cs d s where "observe_window now ev (sy_signal y) = (cs, d, s)" by (rule prod_cases3)
    then show ?thesis using SWindow False tap_window[OF assms] by simp
  qed
next
  case SDetach
  then show ?thesis using assms by (simp add: tap_inv_def detach_def)
next
  case SClose
  then show ?thesis using assms by (simp add: tap_inv_def signal_shutdown_def Let_def)
next
  case (SOrder states)
  then show ?thesis using assms by (simp add: tap_inv_def)
qed

lemma detach_disabled: "\<not> st_Enabled (snd (sg_set s)) \<Longrightarrow> \<not> sg_attached (detach s)"
  by (simp add: detach_def)

lemma signal_run_inv:
  assumes "A0 \<inter> sig.owned = {}"
  shows "sys_inv A0 (signal_run cfg ops)" "tap_inv (signal_run cfg ops)"
proof -
  let ?y = "\<lparr>sy_signal = RunSignal cfg, sy_attaching = False, sy_detaching = False, sy_calls = []\<rparr>"
  have start: "sg_states (RunSignal cfg) = []" "sg_applied (RunSignal cfg) = None"
    by (simp_all add: RunSignal_def NewSignal_def attach_def Let_def)
  have "sig.all_agree [] A0" using assms by (auto simp: sig.all_agree_def sig.owned_def)
  then have "sys_inv A0 ?y" by (simp add: sys_inv_def signal_inv_def start)
  moreover have "sys_inv A0 y \<Longrightarrow> sys_inv A0 (fold signal_step ops y)" for y
    by (induction ops arbitrary: y) (simp_all add: sys_inv_step)
  ultimately show "sys_inv A0 (signal_run cfg ops)" by (simp add: signal_run_def)
  have "tap_inv ?y" by (auto simp: tap_inv_def RunSignal_def NewSignal_def attach_def Let_def)
  moreover have "tap_inv y \<Longrightarrow> tap_inv (fold signal_step ops y)" for y
    by (induction ops arbitrary: y) (simp_all add: tap_inv_step)
  ultimately show "tap_inv (signal_run cfg ops)" by (simp add: signal_run_def)
qed

text \<open>
  C37. Whatever windows, settings changes, map orders and shutdowns interleave, the conditions
  active in the notification center under the monitor's keys are exactly those its detectors hold
  raised, no other key is touched, and once a window has run with the monitors off nothing is
  raised.
\<close>
theorem signal_conditions_mirror_the_center:
  assumes "active_keys c \<inter> signal_owned = {}" "y = signal_run cfg ops"
  shows "active_keys (center_pub.run enc (sy_calls y) c) =
      active_keys c \<union> signal_keys (sg_states (sy_signal y)) \<and>
    (case sg_applied (sy_signal y) of
       Some (_, applied) \<Rightarrow> st_Enabled applied \<or> signal_keys (sg_states (sy_signal y)) = {}
     | None \<Rightarrow> signal_keys (sg_states (sy_signal y)) = {})"
proof -
  have disj: "active_keys c \<inter> sig.owned = {}" using assms(1) by (simp add: signal_owned_eq)
  let ?A = "calls_effect (concat (map snd (sy_calls y))) (active_keys c)"
  have inv: "signal_inv (sy_signal y)" "sig.all_agree (sg_states (sy_signal y)) ?A"
      "\<And>k. k \<notin> sig.owned \<Longrightarrow> (k \<in> ?A) = (k \<in> active_keys c)"
    using signal_run_inv(1)[OF disj, of cfg ops] by (simp_all add: sys_inv_def Let_def assms(2))
  have "?A = (active_keys c - sig.owned) \<union> sig.believed (sg_states (sy_signal y))"
    by (rule sig.agree_active[OF inv(2,3)])
  also have "active_keys c - sig.owned = active_keys c" using disj by blast
  finally have active: "active_keys (center_pub.run enc (sy_calls y) c) =
      active_keys c \<union> signal_keys (sg_states (sy_signal y))"
    by (simp only: center_pub.active_run signal_keys_believed)
  have quiet: "all_quiet states \<Longrightarrow> signal_keys states = {}" for states
    unfolding signal_keys_believed sig.believed_def all_quiet_def by (blast dest: map_of_SomeD)
  have "signal_keys [] = {}" by (simp add: signal_keys_def)
  with inv(1) quiet have "case sg_applied (sy_signal y) of
       Some (_, applied) \<Rightarrow> st_Enabled applied \<or> signal_keys (sg_states (sy_signal y)) = {}
     | None \<Rightarrow> signal_keys (sg_states (sy_signal y)) = {}"
    by (cases "sg_applied (sy_signal y)") (auto simp: signal_inv_def case_prod_unfold)
  with active show ?thesis by blast
qed

text \<open>
  A settings change never strands the monitor: however stores, attaches, windows and
  detaches interleave, once an enabling Apply is complete the tap is attached until shutdown; and
  a window observed with the monitors off, with no Apply in between, ends with the tap gone.
\<close>
theorem the_tap_follows_the_settings:
  assumes "y = signal_run cfg ops" "\<not> sy_attaching y"
  shows "if st_Enabled (snd (sg_set (sy_signal y)))
    then sg_attached (sy_signal y) = (\<not> sg_closed (sy_signal y))
    else \<not> sg_attached (sy_signal (signal_step SDetach (signal_step (SWindow now ev) y)))"
proof -
  have inv: "tap_inv y" unfolding assms(1) by (rule signal_run_inv(2)[of "{}"]) simp
  obtain cs d s where w: "observe_window now ev (sy_signal y) = (cs, d, s)" by (rule prod_cases3)
  show ?thesis
  proof (cases "st_Enabled (snd (sg_set (sy_signal y)))")
    case True
    then show ?thesis using inv assms(2) by (simp add: tap_inv_def) blast
  next
    case False
    then have s: "\<not> st_Enabled (snd (sg_set s))" "d" using window_frame[OF w] by simp_all
    show ?thesis
      using False detach_disabled[OF s(1)] detach_disabled[OF False] s(2) w by (cases "sy_detaching y") simp_all
  qed
qed

section \<open>Concrete runs\<close>

definition demo_settings :: settings where
  "demo_settings =
     \<lparr>st_Enabled = True,
      st_Audio = \<lparr>aa_QuietDbfs = Some (- 60), aa_QuietSeconds = Some 600, aa_ZeroSeconds = Some 0,
                  aa_ClipPercent = Some 20, aa_ClipWindowSeconds = Some 10\<rparr>,
      st_Host = nt_Host (c_Notifications Default), st_QuietAlert = [(''mic'', False)], st_UpdateCheck = True\<rparr>"

definition silent_mic :: deviceLevels where
  "silent_mic = \<lparr>dl_Name = ''mic'', dl_Channels =
     [\<lparr>cl_Channel = 0, cl_PeakDbfs = FloorDbfs, cl_RmsDbfs = FloorDbfs, cl_Clipped = False\<rparr>]\<rparr>"

lemma demo_window:
  "\<exists>st. sg_states (sy_signal (signal_run demo_settings [SWindow 1 [silent_mic]])) = [(''mic'', st)] \<and>
     h_active (ds_zero st)"
  by (simp add: signal_run_def RunSignal_def NewSignal_def attach_def observe_window_def reconcile_def
      demo_settings_def silent_mic_def signal_evaluate_def evaluateZero_def evaluateQuiet_def evaluateClip_def
      stateFor_def new_deviceState_def NewHysteresis_def hys_defs allChannelsAtFloor_def quietArmed_def
      ageOutAbsent_def age_device_def anyClipped_def secs_def intVal_def second_def millisecond_def Let_def)

theorem signal_conditions_mirror_the_center_witness:
  "\<exists>c y. y = signal_run demo_settings [SWindow 1 [silent_mic]] \<and>
     audioZeroKey ''mic'' \<in> active_keys (center_pub.run (\<lambda>_. None) (sy_calls y) c)"
proof -
  let ?y = "signal_run demo_settings [SWindow 1 [silent_mic]]"
  obtain st where st: "sg_states (sy_signal ?y) = [(''mic'', st)]" "h_active (ds_zero st)"
    using demo_window by blast
  have "active_keys (NewCenter [] ''b'' 1) \<inter> signal_owned = {}"
    by (simp add: active_keys_def NewCenter_def Let_def)
  from signal_conditions_mirror_the_center[OF this refl, of "\<lambda>_. None" demo_settings "[SWindow 1 [silent_mic]]"]
  have "active_keys (center_pub.run (\<lambda>_. None) (sy_calls ?y) (NewCenter [] ''b'' 1)) =
      active_keys (NewCenter [] ''b'' 1) \<union> signal_keys (sg_states (sy_signal ?y))" by simp
  moreover have "audioZeroKey ''mic'' \<in> signal_keys (sg_states (sy_signal ?y))"
    using st by (auto simp: signal_keys_def)
  ultimately show ?thesis by blast
qed

theorem the_tap_follows_the_settings_witness:
  "\<exists>y. y = signal_run (demo_settings\<lparr>st_Enabled := False\<rparr>) [SApplyStore demo_settings, SApplyAttach] \<and>
     sg_attached (sy_signal y)"
proof -
  let ?y = "signal_run (demo_settings\<lparr>st_Enabled := False\<rparr>) [SApplyStore demo_settings, SApplyAttach]"
  have y: "\<not> sy_attaching ?y" "st_Enabled (snd (sg_set (sy_signal ?y)))" "\<not> sg_closed (sy_signal ?y)"
    by (simp_all add: signal_run_def RunSignal_def NewSignal_def apply_store_def attach_def demo_settings_def Let_def)
  show ?thesis
    using the_tap_follows_the_settings[OF refl y(1), of 0 "[]"] y(2,3) by auto
qed

end
