(* ===== verification/Announce.thy ===== *)
theory Announce
  imports Pipeline
begin

text \<open>
  \<open>internal/announce/announce.go\<close> and the records of \<open>cmd/remotemic/main.go\<close> it advertises: the
  names of the advertised services, kept distinct and within one DNS label, their TXT records, and
  the retry of a responder that fails to start. The mDNS library itself is not modelled.
\<close>

section \<open>Names\<close>

definition labelMax :: int where "labelMax = 63"
definition renameRoom :: int where "renameRoom = int (length '' (101)'')"
definition NameBudget :: int where "NameBudget = labelMax - renameRoom"

record info =
  in_Name :: string
  in_Path :: string
  in_Port :: int
  in_Codec :: string
  in_Rate :: int
  in_Channels :: int
  in_Version :: string
  in_AuthRequired :: bool

definition RuneStart :: "char \<Rightarrow> bool" where
  "RuneStart c \<longleftrightarrow> \<not> (0x80 \<le> (of_char c :: nat) \<and> (of_char c :: nat) < 0xC0)"

text \<open>The loop of \<open>CutName\<close> that moves a cut back to the start of a rune.\<close>

fun rune_cut :: "string \<Rightarrow> nat \<Rightarrow> nat" where
  "rune_cut s 0 = 0"
| "rune_cut s (Suc k) = (if \<not> RuneStart (s ! Suc k) then rune_cut s k else Suc k)"

definition CutName :: "string \<Rightarrow> int \<Rightarrow> string" where
  "CutName s n =
     (if int (length s) \<le> n then s
      else TrimRight (take (rune_cut s (nat (max n 0))) s) '' '')"

text \<open>Names are valid UTF-8, on which mapping the runes maps the ASCII bytes.\<close>

definition asciiLower :: "string \<Rightarrow> string" where
  "asciiLower s = map lower_char s"

definition txtRecords :: "info \<Rightarrow> (string \<times> string) list" where
  "txtRecords i =
     [(''txtvers'', ''1''), (''model'', ''birdnet-go-remote-mic''), (''version'', in_Version i),
      (''codec'', in_Codec i), (''rate'', Itoa (in_Rate i)), (''ch'', Itoa (in_Channels i)),
      (''path'', in_Path i), (''auth'', if in_AuthRequired i then ''token'' else ''none'')]"

text \<open>
  The search for a free name: a loop without a bound in the code, so its result is an option.
  \<open>taken\<close> holds the folded names already given out.
\<close>

partial_function (option) free_name :: "string \<Rightarrow> string list \<Rightarrow> int \<Rightarrow> string \<Rightarrow> string option" where
  "free_name base taken n name =
     (if \<not> List.member taken (asciiLower name) then Some name
      else let sfx = '' #'' @ Itoa n
        in free_name base taken (n + 1) (CutName base (NameBudget - int (length sfx)) @ sfx))"

fun distinct_loop :: "info list \<Rightarrow> string list \<Rightarrow> string list option" where
  "distinct_loop [] taken = Some []"
| "distinct_loop (i # is) taken =
     (case free_name (in_Name i) taken 2 (in_Name i) of
        None \<Rightarrow> None
      | Some name \<Rightarrow> map_option ((#) name) (distinct_loop is (asciiLower name # taken)))"

definition distinctNames :: "info list \<Rightarrow> string list option" where
  "distinctNames infos = distinct_loop infos []"

text \<open>The instance name of a device's stream, and the records of the serving devices.\<close>

definition instanceLabel :: "string \<Rightarrow> string \<Rightarrow> string" where
  "instanceLabel name sfx =
     (let head = CutName name (NameBudget - int (length sfx));
          sfx = (if head = '''' then TrimLeft sfx '' '' else sfx)
      in CutName (head @ sfx) NameBudget)"

section \<open>The responder\<close>

definition responderBackoff :: "duration list" where
  "responderBackoff = [5 * second, 30 * second, 2 * minute, 5 * minute]"

definition responderStable :: duration where "responderStable = 10 * minute"
definition responderUp :: duration where "responderUp = 2 * minute"

definition registeredAfter :: "nat \<Rightarrow> duration" where
  "registeredAfter n = int (max n 1) * responderUp"

text \<open>
  What \<open>Run\<close> does when the responder stopped after \<open>lasted\<close> while its context is live: whether it keeps
  the responder, the new failure count, and the wait before it tries again.
\<close>

definition responder_failed :: "nat \<Rightarrow> duration \<Rightarrow> nat \<Rightarrow> bool \<times> nat \<times> duration" where
  "responder_failed services lasted failures =
     (let keep = (lasted < registeredAfter services);
          failures = (if lasted \<ge> responderStable then 0 else failures);
          failures = failures + 1
      in (keep, failures, responderBackoff ! (min failures (length responderBackoff) - 1)))"

section \<open>Cut names\<close>

lemma TrimRight_length: "length (TrimRight s cs) \<le> length s"
  using length_dropWhile_le[of "\<lambda>c. List.member cs c" "rev s"] by (simp add: TrimRight_def)

lemma rune_cut_le: "rune_cut s k \<le> k"
  by (induction s k rule: rune_cut.induct) auto

lemma CutName_length: "int (length (CutName s n)) \<le> max n 0"
proof (cases "int (length s) \<le> n")
  case False
  have "length (TrimRight (take (rune_cut s (nat (max n 0))) s) '' '') \<le> rune_cut s (nat (max n 0))"
    using TrimRight_length[of "take (rune_cut s (nat (max n 0))) s" "'' ''"] by simp
  also have "\<dots> \<le> nat (max n 0)" by (rule rune_cut_le)
  finally show ?thesis using False by (simp add: CutName_def)
qed (simp add: CutName_def)

lemma instanceLabel_length: "int (length (instanceLabel name sfx)) \<le> NameBudget"
  using CutName_length[of _ NameBudget]
  by (simp add: instanceLabel_def Let_def NameBudget_def labelMax_def renameRoom_def)

section \<open>The search ends\<close>

text \<open>The candidate of turn \<open>n\<close> ends in a number sign and the decimal digits of \<open>n\<close>.\<close>

definition candidate :: "string \<Rightarrow> int \<Rightarrow> string" where
  "candidate base n =
     CutName base (NameBudget - int (length ('' #'' @ Itoa n))) @ '' #'' @ Itoa n"

lemma hash_not_digit: "d < 10 \<Longrightarrow> digit_char d \<noteq> CHR ''#''"
  using digit_char_val[of d] by auto

lemma hash_nat_digits: "CHR ''#'' \<notin> set (nat_digits n)"
proof (induction n rule: nat_digits.induct)
  case (1 n)
  then show ?case
    using hash_not_digit[of n] hash_not_digit[of "n mod 10"]
    by (cases "n < 10") (auto simp: nat_digits.simps[of n])
qed

lemma lower_hash: "lower_char (CHR ''#'') = CHR ''#''" "lower_char (CHR '' '') = CHR '' ''"
  by code_simp+

lemma candidate_inj:
  assumes "0 \<le> m" "0 \<le> n" "asciiLower (candidate base m) = asciiLower (candidate base n)"
  shows "m = n"
proof -
  have tail: "takeWhile (\<lambda>c. c \<noteq> CHR ''#'') (rev (asciiLower (candidate base k))) = rev (nat_digits (nat k))"
    if "0 \<le> k" for k
  proof -
    have "\<forall>x \<in> set (rev (nat_digits (nat k))). x \<noteq> CHR ''#''" using hash_nat_digits[of "nat k"] by auto
    then show ?thesis
      using that takeWhile_append2[of "rev (nat_digits (nat k))" "\<lambda>c. c \<noteq> CHR ''#''"]
      by (simp add: candidate_def asciiLower_def Itoa_def lower_nat_digits lower_hash)
  qed
  have "rev (nat_digits (nat m)) = rev (nat_digits (nat n))"
    using tail[OF assms(1)] tail[OF assms(2)] assms(3) by simp
  then have "nat m = nat n" by (simp add: nat_digits_inj)
  with assms show ?thesis by simp
qed

lemma free_name_step:
  "free_name base taken n name =
     (if asciiLower name \<notin> set taken then Some name
      else free_name base taken (n + 1) (candidate base n))"
  by (subst free_name.simps) (simp add: candidate_def Let_def)

text \<open>Each turn uses up one taken name, so at most as many turns as names are taken.\<close>

definition blocked :: "string \<Rightarrow> string list \<Rightarrow> int \<Rightarrow> int set" where
  "blocked base taken n = {m. n \<le> m \<and> asciiLower (candidate base m) \<in> set taken}"

lemma blocked_finite:
  assumes "0 \<le> n"
  shows "finite (blocked base taken n)" "card (blocked base taken n) \<le> length taken"
proof -
  have inj: "inj_on (\<lambda>m. asciiLower (candidate base m)) (blocked base taken n)"
    using assms by (auto simp: inj_on_def blocked_def intro: candidate_inj)
  have sub: "(\<lambda>m. asciiLower (candidate base m)) ` blocked base taken n \<subseteq> set taken"
    by (auto simp: blocked_def)
  show "finite (blocked base taken n)" using inj sub by (rule inj_on_finite) simp
  have "card (blocked base taken n) \<le> card (set taken)" by (rule card_inj_on_le[OF inj sub]) simp
  then show "card (blocked base taken n) \<le> length taken" using card_length[of taken] by linarith
qed

lemma free_name_terminates:
  assumes "0 \<le> n"
  shows "\<exists>r. free_name base taken n name = Some r \<and> asciiLower r \<notin> set taken \<and>
    (r = name \<or> (\<exists>m. n \<le> m \<and> m \<le> n + int (card (blocked base taken n)) \<and> r = candidate base m))"
  using assms
proof (induction "card (blocked base taken n)" arbitrary: n name rule: less_induct)
  case less
  show ?case
  proof (cases "asciiLower name \<in> set taken")
    case False
    then show ?thesis by (subst free_name_step) simp
  next
    case True
    then have step: "free_name base taken n name = free_name base taken (n + 1) (candidate base n)"
      by (subst free_name_step) simp
    show ?thesis
    proof (cases "asciiLower (candidate base n) \<in> set taken")
      case False
      then have "free_name base taken (n + 1) (candidate base n) = Some (candidate base n)"
        by (subst free_name_step) simp
      with False step show ?thesis by auto
    next
      case blocked: True
      have split: "blocked base taken n = insert n (blocked base taken (n + 1))"
        using blocked by (auto simp: blocked_def)
      have "n \<notin> blocked base taken (n + 1)" by (simp add: blocked_def)
      then have card: "card (blocked base taken n) = Suc (card (blocked base taken (n + 1)))"
        using blocked_finite(1)[of "n + 1"] less.prems by (simp add: split)
      obtain r where r: "free_name base taken (n + 1) (candidate base n) = Some r" "asciiLower r \<notin> set taken"
          "r = candidate base n \<or>
           (\<exists>m. n + 1 \<le> m \<and> m \<le> n + 1 + int (card (blocked base taken (n + 1))) \<and> r = candidate base m)"
        using less.hyps[of "n + 1" "candidate base n"] card less.prems by auto
      then have "\<exists>m. n \<le> m \<and> m \<le> n + int (card (blocked base taken n)) \<and> r = candidate base m"
      proof (cases "r = candidate base n")
        case True
        then show ?thesis by (intro exI[of _ n]) simp
      next
        case False
        with r(3) obtain m where "n + 1 \<le> m" "m \<le> n + 1 + int (card (blocked base taken (n + 1)))"
          "r = candidate base m" by blast
        then show ?thesis using card by (intro exI[of _ m]) simp
      qed
      with r step show ?thesis by auto
    qed
  qed
qed

lemma candidate_length:
  assumes "0 \<le> n" "n < 10 ^ 50"
  shows "int (length (candidate base n)) \<le> NameBudget"
proof -
  have "nat n < 10 ^ 50" using assms by (simp add: nat_less_iff)
  then have "length (nat_digits (nat n)) \<le> 50" using nat_digits_length[of "nat n" 49] by simp
  then have "int (length ('' #'' @ Itoa n)) \<le> 52" using assms by (simp add: Itoa_def)
  then show ?thesis
    using CutName_length[of base "NameBudget - int (length ('' #'' @ Itoa n))"]
    by (simp add: candidate_def NameBudget_def labelMax_def renameRoom_def)
qed

text \<open>A name is the configured one when it was free, and otherwise a numbered one within the budget.\<close>

definition kept_or_numbered :: "info \<Rightarrow> string \<Rightarrow> bool" where
  "kept_or_numbered i name \<longleftrightarrow> name = in_Name i \<or>
     (\<exists>n\<ge>2. name = candidate (in_Name i) n) \<and> int (length name) \<le> NameBudget"

lemma distinct_loop_terminates:
  assumes "length is + length taken < 10 ^ 49" "distinct taken"
  shows "\<exists>names. distinct_loop is taken = Some names \<and> list_all2 kept_or_numbered is names \<and>
    distinct (map asciiLower names) \<and> set (map asciiLower names) \<inter> set taken = {}"
  using assms
proof (induction "is" arbitrary: taken)
  case (Cons i is')
  obtain r where r: "free_name (in_Name i) taken 2 (in_Name i) = Some r" "asciiLower r \<notin> set taken"
      "r = in_Name i \<or>
       (\<exists>m. 2 \<le> m \<and> m \<le> 2 + int (card (blocked (in_Name i) taken 2)) \<and> r = candidate (in_Name i) m)"
    using free_name_terminates[of 2 "in_Name i" taken "in_Name i"] by auto
  have "int (card (blocked (in_Name i) taken 2)) \<le> int (length taken)"
    using blocked_finite(2)[of 2 "in_Name i" taken] by simp
  moreover have "int (length taken) < 10 ^ 49" using Cons.prems(1) by simp
  ultimately have "m < 10 ^ 50" if "m \<le> 2 + int (card (blocked (in_Name i) taken 2))" for m
    using that by simp
  with r(3) candidate_length have kept: "kept_or_numbered i r"
    by (auto simp: kept_or_numbered_def)
  obtain names where "distinct_loop is' (asciiLower r # taken) = Some names"
      "list_all2 kept_or_numbered is' names" "distinct (map asciiLower names)"
      "set (map asciiLower names) \<inter> set (asciiLower r # taken) = {}"
    using Cons.IH[of "asciiLower r # taken"] Cons.prems r(2) by auto
  with r kept show ?case by (intro exI[of _ "r # names"]) auto
qed simp

text \<open>
  The search for distinct service names always ends, for any list of services that fits in
  memory (fewer than 10^49): every service gets a name, its own where that was free and otherwise
  a numbered one within the label budget, and no two names are equal even when DNS compares them
  without case.
\<close>
theorem service_names_are_found_and_distinct:
  assumes "length infos < 10 ^ 49"
  shows "\<exists>names. distinctNames infos = Some names \<and> list_all2 kept_or_numbered infos names \<and>
    distinct (map asciiLower names)"
  using distinct_loop_terminates[of infos "[]"] assms by (auto simp: distinctNames_def)

theorem service_names_are_found_and_distinct_witness:
  "\<exists>names i. i = \<lparr>in_Name = ''Mic'', in_Path = ''/a'', in_Port = 8554, in_Codec = ''L16'', in_Rate = 48000,
       in_Channels = 1, in_Version = ''1'', in_AuthRequired = False\<rparr> \<and>
     distinctNames [i, i\<lparr>in_Name := ''mic''\<rparr>] = Some names \<and> distinct (map asciiLower names)"
proof -
  let ?i = "\<lparr>in_Name = ''Mic'', in_Path = ''/a'', in_Port = 8554, in_Codec = ''L16'', in_Rate = 48000,
    in_Channels = 1, in_Version = ''1'', in_AuthRequired = False\<rparr>"
  show ?thesis
    using service_names_are_found_and_distinct[of "[?i, ?i\<lparr>in_Name := ''mic''\<rparr>]"] by auto
qed

end
