(* ===== verification/Appliance_State.thy ===== *)
theory Appliance_State
  imports Announce Reload_Plan Monitor_Conditions
begin

text \<open>
  The state of the appliance's run loop (\<open>cmd/remotemic/appliance.go\<close>, \<open>retry.go\<close>,
  \<open>geometry.go\<close>) and its environment. The run loop is single-threaded, so every handler is a
  function of the state. What a handler learns from outside (clock readings, how ids resolve, what
  an open answers, whether the process is shutting down) is its environment \<open>env\<close>; what it tells
  the notification center is appended to the calls of the state. Log lines and the capability lists
  probed for the configuration form are left out. Go maps are association lists.
\<close>

section \<open>The environment\<close>

datatype resolve_error =
  DeviceNotFound | AmbiguousDevice "string list" | BadDevice string | ResolveFailed string

record hardware =
  hw_ID :: string
  hw_PortID :: string
  hw_HWAddr :: string
  hw_Label :: string

definition no_hardware :: hardware where
  "no_hardware = \<lparr>hw_ID = '''', hw_PortID = '''', hw_HWAddr = '''', hw_Label = ''''\<rparr>"

record geometry =
  gm_PeriodFrames :: int
  gm_Periods :: int

definition no_geometry :: geometry where
  "no_geometry = \<lparr>gm_PeriodFrames = 0, gm_Periods = 0\<rparr>"

text \<open>The open errors as the code classifies them: \<open>ErrDeviceInUse\<close>, \<open>ErrDeviceGone\<close>, and so on.\<close>

record capture_error =
  ce_Msg :: string
  ce_InUse :: bool
  ce_Gone :: bool
  ce_Permanent :: bool
  ce_Geometry :: bool
  ce_BadRate :: bool
  ce_NoMem :: bool
  ce_Invalid :: bool
  ce_Stalled :: bool
  ce_Shortfall :: bool

record granted =
  gr_Rate :: int
  gr_Channels :: int
  gr_Geometry :: geometry

text \<open>
  \<open>en_clock name\<close> is the clock read after the attempt to open the device \<open>name\<close>, which may take
  seconds; \<open>en_now\<close> is the reading before.
\<close>

record env =
  en_now :: instant
  en_clock :: "string \<Rightarrow> instant"
  en_resolve :: "string \<Rightarrow> resolve_error + hardware"
  en_open :: "device \<Rightarrow> nat \<Rightarrow> capture_error + granted"
  en_shutdown :: bool

section \<open>Device records\<close>

datatype device_status = StateServing | StateSkipped | StateFailed | StateDisabled

record runtime =
  rt_gen :: nat
  rt_dev :: device
  rt_state :: device_status
  rt_err :: string
  rt_downCause :: string
  rt_superseded :: bool
  rt_hwAddr :: string
  rt_friendlyName :: string
  rt_rate :: int
  rt_channels :: int
  rt_geometry :: geometry
  rt_geoStep :: nat
  rt_started :: instant
  rt_encoded :: "string list"
  rt_awaitEncode :: bool

definition isDown :: "device_status \<Rightarrow> bool" where
  "isDown s \<longleftrightarrow> s = StateSkipped \<or> s = StateFailed"

definition rt_paths :: "runtime \<Rightarrow> string list" where
  "rt_paths rt = map s_Path (d_Streams (rt_dev rt))"

text \<open>A listed path the runtime does not serve counts as proven.\<close>

definition encodedAll :: "runtime \<Rightarrow> string list \<Rightarrow> bool" where
  "encodedAll rt paths \<longleftrightarrow>
     list_all (\<lambda>p. \<not> (p \<in> set paths \<and> p \<notin> set (rt_encoded rt))) (rt_paths rt)"

section \<open>Retries and escalations\<close>

record retryState =
  rs_attempts :: int
  rs_failures :: int
  rs_next :: instant
  rs_settleAt :: instant
  rs_recoveredAt :: instant
  rs_encodeSeen :: bool
  rs_awaitEncode :: bool

definition zero_retry :: retryState where
  "zero_retry = \<lparr>rs_attempts = 0, rs_failures = 0, rs_next = 0, rs_settleAt = 0, rs_recoveredAt = 0,
     rs_encodeSeen = False, rs_awaitEncode = False\<rparr>"

record encodeFault =
  ef_dev :: device
  ef_paths :: "string list"

record geometryState =
  gs_device :: string
  gs_rate :: int
  gs_channels :: "int list"
  gs_step :: nat
  gs_ceiling :: nat
  gs_shortfalls :: int

definition retryBackoff :: "duration list" where
  "retryBackoff = [5 * second, 10 * second, 30 * second, minute, 2 * minute, 5 * minute]"

definition retrySettle :: duration where "retrySettle = 30 * second"
definition retryResetAfter :: duration where "retryResetAfter = 10 * minute"

definition backoffAt :: "duration list \<Rightarrow> int \<Rightarrow> duration" where
  "backoffAt delays i = delays ! nat (min (max i 0) (int (length delays) - 1))"

definition backoffDelay :: "int \<Rightarrow> duration" where
  "backoffDelay attempts = backoffAt retryBackoff (attempts - 1)"

section \<open>The appliance\<close>

record appliance =
  ap_cfg :: config
  ap_hw :: "(string \<times> (resolve_error + hardware)) list"
  ap_devices :: "(string \<times> runtime) list"
  ap_downReason :: "(string \<times> string) list"
  ap_retries :: "(string \<times> retryState) list"
  ap_encodeFaults :: "(string \<times> encodeFault) list"
  ap_geometry :: "(string \<times> geometryState) list"
  ap_retryAt :: instant
  ap_timer :: "instant option"
  ap_alive :: int
  ap_lastPumpErr :: "string option"
  ap_runtimeGen :: nat
  ap_pumps :: "(string \<times> nat) list"
  ap_tracks :: "string list"
  ap_meters :: "string list"
  ap_token :: string
  ap_authRequired :: bool
  ap_discovery :: bool
  ap_configuredIDs :: "string list"
  ap_retryArmed :: bool
  ap_enumTrigger :: bool
  ap_published :: "runtime list"
  ap_announcing :: bool
  ap_advertised :: "string list"
  ap_announced :: "info list"
  ap_announceGen :: nat
  ap_monitors :: "settings option"
  ap_calls :: "pub_call list"

definition newAppliance :: "config \<Rightarrow> appliance" where
  "newAppliance cfg =
     \<lparr>ap_cfg = zero_config, ap_hw = [], ap_devices = [], ap_downReason = [], ap_retries = [],
      ap_encodeFaults = [], ap_geometry = [], ap_retryAt = 0, ap_timer = None, ap_alive = 0,
      ap_lastPumpErr = None, ap_runtimeGen = 0, ap_pumps = [], ap_tracks = [], ap_meters = [], ap_token = c_Token cfg,
      ap_authRequired = AuthRequired cfg, ap_discovery = DiscoveryEnabled cfg, ap_configuredIDs = [],
      ap_retryArmed = False, ap_enumTrigger = False, ap_published = [], ap_announcing = False,
      ap_advertised = [], ap_announced = [], ap_announceGen = 0, ap_monitors = None, ap_calls = []\<rparr>"

definition emit :: "pub_call list \<Rightarrow> appliance \<Rightarrow> appliance" where
  "emit cs a = a\<lparr>ap_calls := ap_calls a @ cs\<rparr>"

definition enabledInConfig :: "appliance \<Rightarrow> string \<Rightarrow> bool" where
  "enabledInConfig a name =
     (case List.find (\<lambda>d. d_Name d = name) (c_Devices (ap_cfg a)) of Some d \<Rightarrow> IsEnabled d | None \<Rightarrow> False)"

section \<open>The down condition\<close>

definition downNotConnected :: string where "downNotConnected = ''not-connected''"
definition downAmbiguous :: string where "downAmbiguous = ''ambiguous''"
definition downMalformed :: string where "downMalformed = ''malformed''"
definition downResolve :: string where "downResolve = ''resolve-failed''"
definition downSameHardware :: string where "downSameHardware = ''same-hardware''"
definition downOpenFailed :: string where "downOpenFailed = ''open-failed''"
definition downDisconnected :: string where "downDisconnected = ''disconnected''"
definition downStalled :: string where "downStalled = ''stalled''"
definition downFailed :: string where "downFailed = ''failed''"

lemmas down_causes = downNotConnected_def downAmbiguous_def downMalformed_def downResolve_def
  downSameHardware_def downOpenFailed_def downDisconnected_def downStalled_def downFailed_def

definition deviceDownKey :: "string \<Rightarrow> string" where
  "deviceDownKey name = ''device:'' @ name @ '':down''"

definition deviceDownOnset :: "string \<Rightarrow> string \<Rightarrow> string \<Rightarrow> notification" where
  "deviceDownOnset name title message = zero_notification\<lparr>n_Severity := SeverityError,
     n_Category := CategoryDevice, n_Key := deviceDownKey name, n_Source := name, n_Title := title,
     n_Message := message\<rparr>"

definition retryableCause :: "string \<Rightarrow> bool" where
  "retryableCause cause \<longleftrightarrow>
     cause = downOpenFailed \<or> cause = downFailed \<or> cause = downStalled \<or> cause = downResolve"

definition sameCondition :: "string \<Rightarrow> string \<Rightarrow> bool" where
  "sameCondition c c' \<longleftrightarrow>
     c = c' \<or> (c = downFailed \<or> c = downStalled) \<and> (c' = downFailed \<or> c' = downStalled)"

definition retrying :: "appliance \<Rightarrow> string \<Rightarrow> bool" where
  "retrying a name =
     (case map_of (ap_retries a) name of None \<Rightarrow> False | Some st \<Rightarrow> is_zero (rs_recoveredAt st))"

definition set_reason :: "string \<Rightarrow> string \<Rightarrow> appliance \<Rightarrow> appliance" where
  "set_reason name cause a = a\<lparr>ap_downReason := AList.update name cause (ap_downReason a)\<rparr>"

definition replaceDown :: "string \<Rightarrow> string \<Rightarrow> notification \<Rightarrow> appliance \<Rightarrow> appliance" where
  "replaceDown name cause n a =
     (case map_of (ap_downReason a) name of
        Some prev \<Rightarrow>
          if sameCondition prev cause
          then emit [PUpdate (n_Key n) (n_Title n) (n_Message n)] (set_reason name cause a)
          else emit [POnset n] (set_reason name cause
                 (emit [PResolve (deviceDownKey name) ''the cause changed''] a))
      | None \<Rightarrow> emit [POnset n] (set_reason name cause a))"

definition markDown :: "string \<Rightarrow> string \<Rightarrow> notification \<Rightarrow> appliance \<Rightarrow> appliance" where
  "markDown name cause n a =
     (case map_of (ap_downReason a) name of
        Some prev \<Rightarrow>
          if \<not> sameCondition prev cause \<and> retrying a name \<and> retryableCause prev \<and> retryableCause cause
          then a else replaceDown name cause n a
      | None \<Rightarrow> replaceDown name cause n a)"

definition resolveError :: "device \<Rightarrow> resolve_error \<Rightarrow> string \<times> string" where
  "resolveError dev err =
     (case err of
        DeviceNotFound \<Rightarrow> (downNotConnected, ''Not connected: no device matches '' @ d_Device dev)
      | AmbiguousDevice ms \<Rightarrow> (downAmbiguous, ''Ambiguous: '' @ d_Device dev @ '' matches '' @ Itoa (int (length ms))
          @ '' devices ('' @ concat (case ms of [] \<Rightarrow> [] | m # rest \<Rightarrow> m # map (\<lambda>x. '', '' @ x) rest)
          @ ''). Remove this entry and re-add each unit by its own id.'')
      | BadDevice e \<Rightarrow> (downMalformed, ''Malformed device id '' @ d_Device dev @ '': '' @ e
          @ ''. Re-add the device to bind it to real hardware.'')
      | ResolveFailed e \<Rightarrow> (downResolve, ''Cannot resolve '' @ d_Device dev @ '': '' @ e))"

definition restartHint :: "device \<Rightarrow> string" where
  "restartHint dev =
     (if IsCardIndexID (d_Device dev) then ''it restarts on the next config save''
      else ''it restarts automatically when capture works again'')"

definition atAddr :: "hardware \<Rightarrow> string" where
  "atAddr hw =
     (if hw_HWAddr hw = '''' then ''''
      else if hw_Label hw = '''' then '' ('' @ hw_HWAddr hw @ '')''
      else '' ('' @ hw_HWAddr hw @ '', '' @ hw_Label hw @ '')'')"

section \<open>The retry timer\<close>

definition earlier_deadline :: "instant \<Rightarrow> instant \<Rightarrow> instant" where
  "earlier_deadline due t = (if \<not> is_zero t \<and> (is_zero due \<or> t < due) then t else due)"

definition armRetryTimer :: "appliance \<Rightarrow> appliance" where
  "armRetryTimer a =
     (let due = foldl (\<lambda>due (_, st). foldl earlier_deadline due [rs_next st, rs_settleAt st]) 0 (ap_retries a)
      in if due = ap_retryAt a then a
         else a\<lparr>ap_retryAt := due, ap_timer := (if is_zero due then None else Some due)\<rparr>)"

definition dropRetry :: "string \<Rightarrow> appliance \<Rightarrow> appliance" where
  "dropRetry name a = armRetryTimer (a\<lparr>ap_retries := AList.delete name (ap_retries a)\<rparr>)"

definition retryFor :: "string \<Rightarrow> appliance \<Rightarrow> retryState" where
  "retryFor name a = (case map_of (ap_retries a) name of Some st \<Rightarrow> st | None \<Rightarrow> zero_retry)"

definition set_retry :: "string \<Rightarrow> retryState \<Rightarrow> appliance \<Rightarrow> appliance" where
  "set_retry name st a = a\<lparr>ap_retries := AList.update name st (ap_retries a)\<rparr>"

definition settleFromEncode :: "instant \<Rightarrow> retryState \<Rightarrow> retryState" where
  "settleFromEncode now st = st\<lparr>rs_awaitEncode := False, rs_encodeSeen := True, rs_settleAt := now + retrySettle\<rparr>"

text \<open>The state after one more failure: a failure after a completed settle starts a new outage.\<close>

definition retry_failed :: "instant \<Rightarrow> retryState \<Rightarrow> retryState" where
  "retry_failed now st =
     (let st = (if \<not> is_zero (rs_recoveredAt st)
                then let st = st\<lparr>rs_failures := 0\<rparr> in
                  if time_sub now (rs_recoveredAt st) \<ge> retryResetAfter then st\<lparr>rs_attempts := 0\<rparr> else st
                else st);
          st = st\<lparr>rs_recoveredAt := 0, rs_settleAt := 0, rs_encodeSeen := False, rs_awaitEncode := False,
                  rs_attempts := rs_attempts st + 1, rs_failures := rs_failures st + 1\<rparr>
      in st\<lparr>rs_next := now + backoffDelay (rs_attempts st)\<rparr>)"

definition down_cause :: "appliance \<Rightarrow> string \<Rightarrow> string" where
  "down_cause a name = (case map_of (ap_downReason a) name of Some c \<Rightarrow> c | None \<Rightarrow> '''')"

definition scheduleRetry :: "env \<Rightarrow> device \<Rightarrow> appliance \<Rightarrow> appliance" where
  "scheduleRetry e dev a =
     (let name = d_Name dev in
      if IsCardIndexID (d_Device dev) \<or> \<not> retryableCause (down_cause a name) then dropRetry name a
      else armRetryTimer (set_retry name (retry_failed (en_clock e name) (retryFor name a)) a))"

definition faultedPaths :: "appliance \<Rightarrow> string \<Rightarrow> string list" where
  "faultedPaths a name = (case map_of (ap_encodeFaults a) name of Some f \<Rightarrow> ef_paths f | None \<Rightarrow> [])"

definition finishRecovery :: "string \<Rightarrow> runtime \<Rightarrow> appliance \<Rightarrow> appliance" where
  "finishRecovery name rt a =
     (case map_of (ap_downReason a) name of
        None \<Rightarrow> a
      | Some _ \<Rightarrow>
          emit [PClear (deviceDownKey name) (zero_notification\<lparr>n_Severity := SeverityInfo,
                  n_Title := ''Device recovered'',
                  n_Message := ''Capturing again at '' @ Itoa (rt_rate rt) @ '' Hz, '' @ Itoa (rt_channels rt) @ '' ch''\<rparr>)]
            (a\<lparr>ap_downReason := AList.delete name (ap_downReason a)\<rparr>))"

end
