(* ===== verification/Appliance.thy ===== *)
theory Appliance
  imports Appliance_State
begin

text \<open>
  The handlers of the run loop: capture-period escalation (\<open>geometry.go\<close>), opening and stopping
  devices, the reload, the retry timer, a pump that ended and a hardware change
  (\<open>appliance.go\<close>, \<open>retry.go\<close>), and the advertisement they rebuild. Each is translated whole, its
  calls to the RTSP server, the level hub, the provider and the notification center included.
\<close>

section \<open>Capture geometry\<close>

text \<open>The ladder: the period in milliseconds and the number of periods of each step.\<close>

definition geometryLadder :: "(int \<times> int) list" where
  "geometryLadder = [(0, 0), (20, 8), (40, 8), (40, 16)]"

definition geometryShortfalls :: int where "geometryShortfalls = 2"
definition geometryStableRun :: duration where "geometryStableRun = 60 * minute"

definition geometryFor :: "int \<Rightarrow> int \<Rightarrow> geometry" where
  "geometryFor rate step =
     (case geometryLadder ! nat (max 0 (min step (int (length geometryLadder) - 1))) of
        (period, periods) \<Rightarrow>
          if periods = 0 then no_geometry
          else \<lparr>gm_PeriodFrames = go_quot (rate * period) 1000, gm_Periods = periods\<rparr>)"

definition describeGeometry :: "geometry \<Rightarrow> int \<Rightarrow> string" where
  "describeGeometry g rate =
     (if gm_Periods g = 0 \<or> rate \<le> 0 then ''the default capture period''
      else let ms = go_quot (gm_PeriodFrames g * 1000) rate in
        ''a '' @ Itoa ms @ '' ms period and '' @ Itoa (gm_Periods g) @ '' periods ('' @ Itoa (ms * gm_Periods g)
          @ '' ms buffer)'')"

definition geometryFallback :: "capture_error \<Rightarrow> bool" where
  "geometryFallback err \<longleftrightarrow> \<not> ce_InUse err \<and> \<not> ce_Gone err \<and> \<not> ce_Permanent err"

definition geometryRefused :: "capture_error \<Rightarrow> bool" where
  "geometryRefused err \<longleftrightarrow> ce_Geometry err \<or> ce_BadRate err \<or> ce_NoMem err \<or> ce_Invalid err"

definition geometryKey :: "string \<Rightarrow> string" where
  "geometryKey name = ''device:'' @ name @ '':capture-period''"

definition geometryOnset :: "string \<Rightarrow> geometry \<Rightarrow> int \<Rightarrow> notification" where
  "geometryOnset name g rate = zero_notification\<lparr>n_Severity := SeverityWarning,
     n_Category := CategoryDevice, n_Key := geometryKey name, n_Source := name,
     n_Title := ''Capture period raised'',
     n_Message := ''Capture fell short of '' @ Itoa rate @ '' Hz repeatedly, so the device now captures with ''
       @ describeGeometry g rate @ '' instead of the default; this adds latency. It returns to the default once ''
       @ ''a run of the device ends after an hour of serving.''\<rparr>"

definition clearGeometry :: "string \<Rightarrow> string \<Rightarrow> appliance \<Rightarrow> appliance" where
  "clearGeometry name msg a =
     emit [PClear (geometryKey name) (zero_notification\<lparr>n_Severity := SeverityInfo,
       n_Title := ''Capture period back to default'', n_Message := msg\<rparr>)] a"

definition dropGeometry :: "string \<Rightarrow> string \<Rightarrow> appliance \<Rightarrow> appliance" where
  "dropGeometry name reason a =
     emit [PResolve (geometryKey name) reason] (a\<lparr>ap_geometry := AList.delete name (ap_geometry a)\<rparr>)"

definition geometryOrStep :: "runtime \<Rightarrow> nat \<Rightarrow> geometry" where
  "geometryOrStep rt step =
     (if gm_Periods (rt_geometry rt) \<noteq> 0 then rt_geometry rt else geometryFor (rt_rate rt) (int step))"

definition geometryStep :: "device \<Rightarrow> appliance \<Rightarrow> nat \<times> appliance" where
  "geometryStep dev a =
     (case map_of (ap_geometry a) (d_Name dev) of
        None \<Rightarrow> (0, a)
      | Some st \<Rightarrow>
          if gs_device st \<noteq> d_Device dev \<or> gs_rate st \<noteq> d_Rate dev \<or> gs_channels st \<noteq> StreamChannelUnion dev
          then (0, dropGeometry (d_Name dev) ''the device's capture settings changed'' a)
          else (gs_step st, a))"

definition geometryRunEnded :: "env \<Rightarrow> runtime \<Rightarrow> appliance \<Rightarrow> appliance" where
  "geometryRunEnded e rt a =
     (let name = d_Name (rt_dev rt) in
      case map_of (ap_geometry a) name of
        None \<Rightarrow> a
      | Some st \<Rightarrow>
          if is_zero (rt_started rt) then a
          else if time_sub (en_now e) (rt_started rt) < geometryStableRun then a
          else let a = a\<lparr>ap_geometry := AList.delete name (ap_geometry a)\<rparr> in
            if gs_step st = 0 then a
            else clearGeometry name ''The device served for an hour, so its next open uses the default capture period.'' a)"

definition geometryShortfall :: "device \<Rightarrow> nat \<Rightarrow> appliance \<Rightarrow> appliance" where
  "geometryShortfall dev openedStep a =
     (let fresh = \<lparr>gs_device = d_Device dev, gs_rate = d_Rate dev, gs_channels = StreamChannelUnion dev,
                   gs_step = 0, gs_ceiling = length geometryLadder - 1, gs_shortfalls = 0\<rparr>;
          put = (\<lambda>st. a\<lparr>ap_geometry := AList.update (d_Name dev) st (ap_geometry a)\<rparr>);
          count = (\<lambda>st.
            if openedStep \<noteq> gs_step st \<or> gs_step st \<ge> gs_ceiling st then st
            else let st = st\<lparr>gs_shortfalls := gs_shortfalls st + 1\<rparr> in
              if gs_shortfalls st < geometryShortfalls then st
              else st\<lparr>gs_step := gs_step st + 1, gs_shortfalls := 0\<rparr>)
      in case map_of (ap_geometry a) (d_Name dev) of
           None \<Rightarrow> if openedStep \<noteq> 0 then a else put (count fresh)
         | Some st \<Rightarrow> put (count st))"

definition geometryRefuse :: "string \<Rightarrow> nat \<Rightarrow> appliance \<Rightarrow> appliance" where
  "geometryRefuse name refusedAt a =
     (case map_of (ap_geometry a) name of
        None \<Rightarrow> a
      | Some st \<Rightarrow>
          let ceiling = min (gs_ceiling st) (refusedAt - 1);
              st = st\<lparr>gs_ceiling := ceiling, gs_step := min (gs_step st) ceiling, gs_shortfalls := 0\<rparr>;
              a = a\<lparr>ap_geometry := AList.update name st (ap_geometry a)\<rparr>
          in if ceiling = 0
             then clearGeometry name ''The driver refused a larger capture period; the next open uses the default period.'' a
             else a)"

text \<open>
  The code updates the text when the onset finds the condition active already. Both calls are made
  here: after an accepted onset the update has nothing to change (\<open>onset_then_update\<close> below).
\<close>

definition geometryOpened :: "string \<Rightarrow> runtime \<Rightarrow> nat \<Rightarrow> appliance \<Rightarrow> appliance" where
  "geometryOpened name rt asked a =
     (case map_of (ap_geometry a) name of
        None \<Rightarrow> a
      | Some st \<Rightarrow>
          let got = rt_geoStep rt in
          if got = 0 then
            clearGeometry name ''A larger capture period did not open this time; capture uses the default period.'' a
          else if got < asked \<and> gs_ceiling st \<ge> asked then a
          else let n = geometryOnset name (geometryOrStep rt got) (rt_rate rt)
            in emit [POnset n, PUpdate (n_Key n) (n_Title n) (n_Message n)] a)"

definition pruneGeometry :: "appliance \<Rightarrow> appliance" where
  "pruneGeometry a =
     fold (\<lambda>name a. if \<not> enabledInConfig a name
            then dropGeometry name ''device removed from the configuration'' a else a)
       (map fst (ap_geometry a)) a"

lemma onset_then_update:
  assumes "fst (center_Onset enc now n c)"
  shows "snd (center_Update enc (n_Key n) (n_Title n) (n_Message n) (snd (center_Onset enc now n c))) =
    snd (center_Onset enc now n c)"
  using assms by (auto simp: Onset_simps center_Update_def update_conv' stamped_def split: if_splits)

section \<open>Hardware\<close>

definition hw_error :: "appliance \<Rightarrow> string \<Rightarrow> resolve_error option" where
  "hw_error a devid = (case map_of (ap_hw a) devid of Some (Inl err) \<Rightarrow> Some err | _ \<Rightarrow> None)"

definition hw_found :: "appliance \<Rightarrow> string \<Rightarrow> hardware" where
  "hw_found a devid = (case map_of (ap_hw a) devid of Some (Inr hw) \<Rightarrow> hw | _ \<Rightarrow> no_hardware)"

definition claimed_ids :: "resolve_error + hardware \<Rightarrow> string list" where
  "claimed_ids r =
     (case r of
        Inr hw \<Rightarrow> hw_ID hw # (if hw_PortID hw \<noteq> '''' then [hw_PortID hw] else [])
      | Inl (AmbiguousDevice ms) \<Rightarrow> ms
      | Inl _ \<Rightarrow> [])"

definition refreshHardware :: "env \<Rightarrow> config \<Rightarrow> appliance \<Rightarrow> appliance" where
  "refreshHardware e cfg a =
     (let devids = remdups (map d_Device (c_Devices cfg))
      in a\<lparr>ap_hw := map (\<lambda>i. (i, en_resolve e i)) devids,
           ap_configuredIDs := devids @ concat (map (\<lambda>i. claimed_ids (en_resolve e i)) devids)\<rparr>)"

text \<open>Another serving device that already captures from the hardware at this address.\<close>

definition hardwareOwner :: "appliance \<Rightarrow> string \<Rightarrow> string \<Rightarrow> string option" where
  "hardwareOwner a hwAddr name =
     (if hwAddr = '''' then None
      else map_option fst (List.find (\<lambda>(other, rt). other \<noteq> name \<and> \<not> rt_superseded rt \<and>
             rt_hwAddr rt = hwAddr \<and> rt_state rt = StateServing) (ap_devices a)))"

definition resolveRefused :: "appliance \<Rightarrow> device \<Rightarrow> bool" where
  "resolveRefused a dev =
     (case hw_error a (d_Device dev) of
        None \<Rightarrow> False
      | Some err \<Rightarrow> \<not> IsCardIndexID (d_Device dev) \<or> (case err of ResolveFailed _ \<Rightarrow> False | _ \<Rightarrow> True))"

definition openRefused :: "appliance \<Rightarrow> device \<Rightarrow> bool" where
  "openRefused a dev \<longleftrightarrow> resolveRefused a dev \<or>
     hardwareOwner a (hw_HWAddr (hw_found a (d_Device dev))) (d_Name dev) \<noteq> None"

section \<open>Opening a device\<close>

definition down_record :: "device \<Rightarrow> hardware \<Rightarrow> string \<Rightarrow> string \<Rightarrow> runtime" where
  "down_record dev hw cause msg =
     \<lparr>rt_gen = 0, rt_dev = dev, rt_state = StateSkipped, rt_err = msg, rt_downCause = cause,
      rt_superseded = False, rt_hwAddr = hw_HWAddr hw, rt_friendlyName = hw_Label hw, rt_rate = 0,
      rt_channels = 0, rt_geometry = no_geometry, rt_geoStep = 0, rt_started = 0, rt_encoded = [],
      rt_awaitEncode = False\<rparr>"

definition skipDevice :: "device \<Rightarrow> hardware \<Rightarrow> string \<Rightarrow> string \<Rightarrow> string \<Rightarrow> appliance \<Rightarrow> runtime \<times> appliance" where
  "skipDevice dev hw cause title msg a =
     (down_record dev hw cause msg, markDown (d_Name dev) cause (deviceDownOnset (d_Name dev) title msg) a)"

text \<open>
  The open with its fallback, one step lower at a time: what the last open answered, its step, and
  the lowest step refused for its geometry.
\<close>

fun open_ladder :: "(nat \<Rightarrow> capture_error + granted) \<Rightarrow> nat \<Rightarrow> nat option \<Rightarrow>
    (capture_error + granted) \<times> nat \<times> nat option" where
  "open_ladder attempt 0 refusedAt = (attempt 0, 0, refusedAt)"
| "open_ladder attempt (Suc k) refusedAt =
     (case attempt (Suc k) of
        Inr g \<Rightarrow> (Inr g, Suc k, refusedAt)
      | Inl err \<Rightarrow>
          if geometryFallback err
          then open_ladder attempt k (if geometryRefused err then Some (Suc k) else refusedAt)
          else (Inl err, Suc k, refusedAt))"

definition serving_record :: "env \<Rightarrow> device \<Rightarrow> hardware \<Rightarrow> nat \<Rightarrow> nat \<Rightarrow> granted \<Rightarrow> runtime" where
  "serving_record e dev hw gen step g =
     \<lparr>rt_gen = gen, rt_dev = dev, rt_state = StateServing, rt_err = '''', rt_downCause = '''',
      rt_superseded = False, rt_hwAddr = hw_HWAddr hw, rt_friendlyName = hw_Label hw, rt_rate = gr_Rate g,
      rt_channels = gr_Channels g, rt_geometry = gr_Geometry g, rt_geoStep = step,
      rt_started = en_clock e (d_Name dev), rt_encoded = [], rt_awaitEncode = False\<rparr>"

definition add_tracks :: "string list \<Rightarrow> string list \<Rightarrow> string list" where
  "add_tracks paths tracks = fold (\<lambda>p ts. List.insert p ts) paths tracks"

definition remove_tracks :: "string list \<Rightarrow> string list \<Rightarrow> string list" where
  "remove_tracks paths tracks = fold removeAll paths tracks"

text \<open>The part of \<open>openAndStart\<close> from the open on.\<close>

definition open_device :: "env \<Rightarrow> device \<Rightarrow> hardware \<Rightarrow> nat \<Rightarrow> appliance \<Rightarrow> runtime \<times> appliance" where
  "open_device e dev hw asked a =
     (case open_ladder (en_open e dev) asked None of
        (result, step, refusedAt) \<Rightarrow>
          let a = (case refusedAt of None \<Rightarrow> a | Some r \<Rightarrow> geometryRefuse (d_Name dev) r a)
          in case result of
            Inl err \<Rightarrow>
              (down_record dev hw downOpenFailed (ce_Msg err),
               markDown (d_Name dev) downOpenFailed
                 (deviceDownOnset (d_Name dev) ''Device unavailable''
                   (''Could not open '' @ d_Device dev @ atAddr hw @ '': '' @ ce_Msg err @ ''; '' @ restartHint dev)) a)
          | Inr g \<Rightarrow>
              let rt = serving_record e dev hw (ap_runtimeGen a + 1) step g;
                  a = a\<lparr>ap_runtimeGen := ap_runtimeGen a + 1, ap_meters := ap_meters a @ [d_Name dev]\<rparr>;
                  a = (if asked > 0 then geometryOpened (d_Name dev) rt asked a else a)
              in (rt, a\<lparr>ap_tracks := add_tracks (rt_paths rt) (ap_tracks a), ap_alive := ap_alive a + 1,
                        ap_pumps := (d_Name dev, rt_gen rt) # ap_pumps a\<rparr>))"

definition openAndStart :: "env \<Rightarrow> device \<Rightarrow> appliance \<Rightarrow> runtime \<times> appliance" where
  "openAndStart e dev a =
     (case geometryStep dev a of
        (asked, a) \<Rightarrow>
          let hw = hw_found a (d_Device dev) in
          case (if resolveRefused a dev then hw_error a (d_Device dev) else None) of
            Some err \<Rightarrow>
              (case resolveError dev err of
                 (cause, msg) \<Rightarrow>
                   let title = (if cause = downNotConnected then ''Device not connected''
                                else if cause = downAmbiguous then ''Device ambiguous''
                                else if cause = downMalformed then ''Invalid device id''
                                else ''Device unavailable'');
                       msg = (if cause = downResolve then msg @ ''; '' @ restartHint dev else msg)
                   in skipDevice dev hw cause title msg a)
          | None \<Rightarrow>
              (case hardwareOwner a (hw_HWAddr hw) (d_Name dev) of
                 Some owner \<Rightarrow>
                   skipDevice dev hw downSameHardware ''Device conflict''
                     (''Same hardware as '' @ quote owner @ '': '' @ d_Device dev @ '' is '' @ hw_HWAddr hw
                        @ '', which that device already captures from'') a
               | None \<Rightarrow> open_device e dev hw asked a))"

definition put_device :: "string \<Rightarrow> runtime \<Rightarrow> appliance \<Rightarrow> appliance" where
  "put_device name rt a = a\<lparr>ap_devices := AList.update name rt (ap_devices a)\<rparr>"

definition startDevice :: "env \<Rightarrow> device \<Rightarrow> appliance \<Rightarrow> appliance" where
  "startDevice e dev a =
     (let name = d_Name dev;
          a = a\<lparr>ap_retries := AList.delete name (ap_retries a),
                ap_encodeFaults := AList.delete name (ap_encodeFaults a)\<rparr>
      in case openAndStart e dev a of
        (rt, a) \<Rightarrow>
          let a = put_device name rt a in
          if rt_state rt \<noteq> StateServing then scheduleRetry e dev a
          else finishRecovery name rt (armRetryTimer a))"

definition stop_device :: "env \<Rightarrow> string \<Rightarrow> runtime \<Rightarrow> appliance \<Rightarrow> appliance" where
  "stop_device e name rt a =
     (let a = geometryRunEnded e rt (put_device name (rt\<lparr>rt_superseded := True\<rparr>) a)
      in a\<lparr>ap_tracks := remove_tracks (rt_paths rt) (ap_tracks a),
           ap_meters := remove1 (d_Name (rt_dev rt)) (ap_meters a)\<rparr>)"

definition stop_serving :: "env \<Rightarrow> string \<Rightarrow> appliance \<Rightarrow> appliance" where
  "stop_serving e name a =
     (case map_of (ap_devices a) name of
        Some rt \<Rightarrow> if rt_state rt = StateServing then stop_device e name rt a else a
      | None \<Rightarrow> a)"

section \<open>A retry attempt\<close>

text \<open>Whether the attempt asks for a rebuild of the advertisement.\<close>

definition attemptRetry :: "env \<Rightarrow> device \<Rightarrow> appliance \<Rightarrow> bool \<times> appliance" where
  "attemptRetry e dev a =
     (let name = d_Name dev in
      case openAndStart e dev a of
        (rt, a) \<Rightarrow>
          let a = put_device name rt a in
          if rt_state rt \<noteq> StateServing then (False, scheduleRetry e dev a)
          else
            let a = set_retry name ((retryFor name a)\<lparr>rs_settleAt := en_clock e name + retrySettle\<rparr>) a;
                paths = faultedPaths a name
            in if length paths = 0 then (False, a)
               else
                 let msg = ''Encoding failed earlier on '' @ concat (case paths of [] \<Rightarrow> [] | p # ps \<Rightarrow> p # map (\<lambda>x. '', '' @ x) ps)
                       @ ''; the device serves again, and this clears once a client plays it and encoding succeeds'';
                     a = replaceDown name downFailed (deviceDownOnset name ''Device failed'' msg) a;
                     a = put_device name (rt\<lparr>rt_awaitEncode := True\<rparr>) a
                 in (ap_discovery a \<and> name \<notin> set (ap_advertised a), a))"

definition restartFaulted :: "env \<Rightarrow> device \<Rightarrow> bool \<Rightarrow> appliance \<Rightarrow> bool \<times> appliance" where
  "restartFaulted e dev resetBackoff a =
     (let name = d_Name dev in
      if openRefused a dev then
        let a = (if resetBackoff then a\<lparr>ap_retries := AList.delete name (ap_retries a)\<rparr> else a) in
        case openAndStart e dev a of
          (rt, a) \<Rightarrow> (False, scheduleRetry e dev (put_device name rt a))
      else
        let st = (retryFor name a)\<lparr>rs_next := 0\<rparr>;
            st = (if resetBackoff then st\<lparr>rs_attempts := 0, rs_failures := 0, rs_recoveredAt := 0\<rparr> else st)
        in attemptRetry e dev (set_retry name st a))"

section \<open>The advertisement\<close>

definition Atoi :: "string \<Rightarrow> int option" where
  "Atoi s =
     (let (neg, ds) = (case s of c # cs \<Rightarrow> if c = CHR ''-'' then (True, cs) else if c = CHR ''+'' then (False, cs) else (False, s)
                              | [] \<Rightarrow> (False, []));
          v = foldl (\<lambda>n c. 10 * n + (int (of_char c) - 48)) 0 ds;
          v = (if neg then - v else v)
      in if ds = [] \<or> \<not> list_all is_digit ds \<or> v < - (2 ^ 63) \<or> 2 ^ 63 \<le> v then None else Some v)"

definition listen_port :: "string \<Rightarrow> int option" where
  "listen_port listen =
     (if SplitHostPort_ok listen
      then (case last_index (CHR '':'') listen of Some i \<Rightarrow> Atoi (drop (i + 1) listen) | None \<Rightarrow> None)
      else None)"

definition announceInfos :: "string \<Rightarrow> string \<Rightarrow> runtime list \<Rightarrow> bool \<Rightarrow> info list option" where
  "announceInfos version listen devices authRequired =
     (case listen_port listen of
        None \<Rightarrow> None
      | Some port \<Rightarrow>
          Some (concat (map (\<lambda>rt.
            let multi = length (d_Streams (rt_dev rt)) > 1 in
            map (\<lambda>s. \<lparr>in_Name = instanceLabel (d_Name (rt_dev rt))
                         (if multi then '' '' @ (if HasPrefix (s_Path s) ''/'' then drop 1 (s_Path s) else s_Path s) else ''''),
                      in_Path = s_Path s, in_Port = port, in_Codec = CodecName (s_Mode s), in_Rate = rt_rate rt,
                      in_Channels = int (length (s_Channels s)), in_Version = version,
                      in_AuthRequired = authRequired\<rparr>)
              (d_Streams (rt_dev rt))) devices)))"

definition records_in_order :: "config \<Rightarrow> appliance \<Rightarrow> runtime list" where
  "records_in_order cfg a = List.map_filter (\<lambda>d. map_of (ap_devices a) (d_Name d)) (c_Devices cfg)"

definition publish :: "config \<Rightarrow> appliance \<Rightarrow> appliance" where
  "publish cfg a = a\<lparr>ap_published := records_in_order cfg a\<rparr>"

definition servingInOrder :: "appliance \<Rightarrow> runtime list" where
  "servingInOrder a = filter (\<lambda>rt. rt_state rt = StateServing) (records_in_order (ap_cfg a) a)"

definition restartAnnounce :: "string \<Rightarrow> appliance \<Rightarrow> appliance" where
  "restartAnnounce version a =
     (let a = a\<lparr>ap_announcing := False, ap_advertised := [], ap_announced := []\<rparr> in
      if \<not> ap_discovery a then a
      else let serving = servingInOrder a in
        if length serving = 0 then a
        else a\<lparr>ap_advertised := map (\<lambda>rt. d_Name (rt_dev rt)) serving,
               ap_announced := (case announceInfos version (c_Listen (ap_cfg a)) serving (ap_authRequired a) of
                                  Some infos \<Rightarrow> infos | None \<Rightarrow> []),
               ap_announcing := True, ap_announceGen := ap_announceGen a + 1\<rparr>)"

definition announceStale :: "string \<Rightarrow> appliance \<Rightarrow> bool" where
  "announceStale version a =
     (if \<not> ap_discovery a then ap_announcing a \<or> length (ap_advertised a) > 0
      else case announceInfos version (c_Listen (ap_cfg a)) (servingInOrder a) (ap_authRequired a) of
        None \<Rightarrow> True
      | Some infos \<Rightarrow> infos \<noteq> ap_announced a)"

definition refreshAnnounce :: "string \<Rightarrow> appliance \<Rightarrow> appliance" where
  "refreshAnnounce version a = (if announceStale version a then restartAnnounce version a else a)"

section \<open>The reload\<close>

definition runningParams :: "appliance \<Rightarrow> (string \<times> device) list" where
  "runningParams a =
     map (\<lambda>(name, rt). (name, rt_dev rt)) (filter (\<lambda>(name, rt). rt_state rt = StateServing) (ap_devices a))"

definition config_order :: "config \<Rightarrow> string \<Rightarrow> nat" where
  "config_order cfg name =
     (case map_of (rev (zip (map d_Name (c_Devices cfg)) [0..<length (c_Devices cfg)])) name of
        Some i \<Rightarrow> i | None \<Rightarrow> 0)"

definition forget_device :: "string \<Rightarrow> string \<Rightarrow> appliance \<Rightarrow> appliance" where
  "forget_device name reason a =
     (let a = emit [PResolve (deviceDownKey name) reason] a
      in dropGeometry name reason
           (a\<lparr>ap_downReason := AList.delete name (ap_downReason a), ap_retries := AList.delete name (ap_retries a),
              ap_encodeFaults := AList.delete name (ap_encodeFaults a)\<rparr>))"

definition disabled_record :: "device \<Rightarrow> hardware \<Rightarrow> runtime" where
  "disabled_record dev hw = (down_record dev hw '''' '''')\<lparr>rt_state := StateDisabled\<rparr>"

definition disable_device :: "device \<Rightarrow> appliance \<Rightarrow> appliance" where
  "disable_device d a =
     (if IsEnabled d then a
      else let a = forget_device (d_Name d) ''device disabled'' a
        in put_device (d_Name d) (disabled_record d (hw_found a (d_Device d))) a)"

definition remove_device :: "env \<Rightarrow> string list \<Rightarrow> string \<times> runtime \<Rightarrow> appliance \<Rightarrow> appliance" where
  "remove_device e want entry a =
     (case entry of (name, rt) \<Rightarrow>
       if name \<in> set want then a
       else let a = (if rt_state rt = StateServing \<and> \<not> rt_superseded rt then stop_device e name rt a else a);
                a = forget_device name ''device removed from the configuration'' a
         in a\<lparr>ap_devices := AList.delete name (ap_devices a)\<rparr>)"

definition reconcileRecords :: "env \<Rightarrow> config \<Rightarrow> appliance \<Rightarrow> appliance" where
  "reconcileRecords e newCfg a =
     (let a = fold disable_device (c_Devices newCfg) a;
          a = fold (remove_device e (map d_Name (c_Devices newCfg))) (ap_devices a) a
      in armRetryTimer a)"

text \<open>A device of the plan's start list: after an encode fault it keeps its condition.\<close>

definition start_planned :: "env \<Rightarrow> device \<Rightarrow> appliance \<Rightarrow> appliance" where
  "start_planned e d a =
     (case map_of (ap_encodeFaults a) (d_Name d) of
        Some f \<Rightarrow> if CaptureParamsEqual (ef_dev f) d then snd (restartFaulted e d True a) else startDevice e d a
      | None \<Rightarrow> startDevice e d a)"

definition run_plan :: "env \<Rightarrow> config \<Rightarrow> plan \<Rightarrow> appliance \<Rightarrow> appliance" where
  "run_plan e newCfg plan a =
     (let starts = sort_key (\<lambda>d. config_order newCfg (d_Name d)) (p_Start plan);
          restarts = sort_key (\<lambda>d. config_order newCfg (d_Name d)) (p_Restart plan);
          a = fold (stop_serving e) (p_Stop plan) a;
          a = fold (stop_serving e) (map d_Name restarts) a;
          a = fold (startDevice e) restarts a
      in fold (start_planned e) starts a)"

definition reconcile :: "string \<Rightarrow> env \<Rightarrow> config \<Rightarrow> appliance \<Rightarrow> appliance" where
  "reconcile version e newCfg a =
     (let prevDiscovery = ap_discovery a; prevAuth = ap_authRequired a;
          a = a\<lparr>ap_token := c_Token newCfg, ap_authRequired := AuthRequired newCfg\<rparr>;
          a = refreshHardware e newCfg a;
          plan = Reconcile (runningParams a) newCfg;
          a = reconcileRecords e newCfg (run_plan e newCfg plan a);
          a = publish newCfg (a\<lparr>ap_cfg := newCfg, ap_discovery := DiscoveryEnabled newCfg\<rparr>);
          a = a\<lparr>ap_enumTrigger := True\<rparr>;
          a = (if \<not> plan_Empty plan \<or> DiscoveryEnabled newCfg \<noteq> prevDiscovery \<or> AuthRequired newCfg \<noteq> prevAuth
               then restartAnnounce version a else a)
      in a\<lparr>ap_monitors := Some (SettingsFrom newCfg)\<rparr>)"

section \<open>The retry timer\<close>

text \<open>What one pass has done: attempted a restart, recovered a device, asked for a rebuild.\<close>

record pass =
  ps_attempted :: bool
  ps_recovered :: bool
  ps_reannounce :: bool

definition settle_due :: "env \<Rightarrow> device \<Rightarrow> retryState \<Rightarrow> pass \<times> appliance \<Rightarrow> pass \<times> appliance" where
  "settle_due e d st pa =
     (case pa of (p, a) \<Rightarrow>
       let name = d_Name d; st = st\<lparr>rs_settleAt := 0\<rparr>; a = set_retry name st a in
       case map_of (ap_devices a) name of
         None \<Rightarrow> (p, a)
       | Some rt \<Rightarrow>
           if rt_state rt \<noteq> StateServing then (p, a)
           else let paths = faultedPaths a name in
             if length paths > 0 \<and> \<not> rs_encodeSeen st then
               (p, set_retry name (if encodedAll rt paths then settleFromEncode (en_now e) st
                                   else st\<lparr>rs_awaitEncode := True\<rparr>) a)
             else
               (p\<lparr>ps_recovered := True\<rparr>,
                finishRecovery name rt
                  (set_retry name (st\<lparr>rs_recoveredAt := en_now e, rs_encodeSeen := False\<rparr>)
                    (a\<lparr>ap_encodeFaults := AList.delete name (ap_encodeFaults a)\<rparr>))))"

definition attempt_due :: "env \<Rightarrow> device \<Rightarrow> retryState \<Rightarrow> pass \<times> appliance \<Rightarrow> pass \<times> appliance" where
  "attempt_due e d st pa =
     (case pa of (p, a) \<Rightarrow>
       let name = d_Name d; a = set_retry name (st\<lparr>rs_next := 0\<rparr>) a in
       case map_of (ap_devices a) name of
         None \<Rightarrow> (p, a)
       | Some rt \<Rightarrow>
           if \<not> isDown (rt_state rt) then (p, a)
           else let a = (if ps_attempted p then a else refreshHardware e (ap_cfg a) a) in
             case attemptRetry e d a of
               (again, a) \<Rightarrow> (p\<lparr>ps_attempted := True, ps_reannounce := ps_reannounce p \<or> again\<rparr>, a))"

definition retry_device :: "env \<Rightarrow> device \<Rightarrow> pass \<times> appliance \<Rightarrow> pass \<times> appliance" where
  "retry_device e d pa =
     (case pa of (p, a) \<Rightarrow>
       let name = d_Name d in
       case map_of (ap_retries a) name of
         None \<Rightarrow> (p, a)
       | Some st \<Rightarrow>
           if rs_awaitEncode st then
             (case map_of (ap_devices a) name of
                None \<Rightarrow> (p, a)
              | Some rt \<Rightarrow>
                  if rt_state rt \<noteq> StateServing \<or> \<not> encodedAll rt (faultedPaths a name) then (p, a)
                  else (p, set_retry name (settleFromEncode (en_now e) st) a))
           else if \<not> is_zero (rs_settleAt st) \<and> \<not> en_now e < rs_settleAt st then settle_due e d st (p, a)
           else if \<not> is_zero (rs_next st) \<and> \<not> en_now e < rs_next st then attempt_due e d st (p, a)
           else (p, a))"

definition drop_unconfigured :: "appliance \<Rightarrow> appliance" where
  "drop_unconfigured a =
     pruneGeometry (a\<lparr>ap_retries := filter (\<lambda>(name, _). enabledInConfig a name) (ap_retries a),
       ap_encodeFaults := filter (\<lambda>(name, _). enabledInConfig a name) (ap_encodeFaults a)\<rparr>)"

definition onRetryDue :: "string \<Rightarrow> env \<Rightarrow> appliance \<Rightarrow> appliance" where
  "onRetryDue version e a =
     (let a = drop_unconfigured (a\<lparr>ap_retryAt := 0\<rparr>);
          p = \<lparr>ps_attempted = False, ps_recovered = False, ps_reannounce = False\<rparr>
      in case fold (retry_device e) (c_Devices (ap_cfg a)) (p, a) of
        (p, a) \<Rightarrow>
          let a = (if ps_attempted p then publish (ap_cfg a) a else a);
              a = (if ps_recovered p \<or> ps_reannounce p then refreshAnnounce version a else a)
          in armRetryTimer a)"

section \<open>A pump that ended, and a hardware change\<close>

definition markFailed :: "string \<Rightarrow> string \<Rightarrow> runtime \<Rightarrow> runtime" where
  "markFailed msg cause rt = rt\<lparr>rt_state := StateFailed, rt_downCause := cause, rt_err := msg\<rparr>"

definition record_fault :: "device \<Rightarrow> string \<Rightarrow> appliance \<Rightarrow> appliance" where
  "record_fault dev path a =
     (let f = (case map_of (ap_encodeFaults a) (d_Name dev) of Some f \<Rightarrow> f | None \<Rightarrow> \<lparr>ef_dev = dev, ef_paths = []\<rparr>);
          f = f\<lparr>ef_dev := dev\<rparr>;
          f = (if path \<in> set (ef_paths f) then f else f\<lparr>ef_paths := ef_paths f @ [path]\<rparr>)
      in a\<lparr>ap_encodeFaults := AList.update (d_Name dev) f (ap_encodeFaults a)\<rparr>)"

definition device_lost :: "runtime \<Rightarrow> capture_error \<Rightarrow> appliance \<Rightarrow> appliance" where
  "device_lost rt err a =
     (let dev = rt_dev rt; name = d_Name dev;
          a = put_device name (markFailed (ce_Msg err) downDisconnected rt) (a\<lparr>ap_retryArmed := True\<rparr>);
          msg = (if IsCardIndexID (d_Device dev)
                 then ''Capture stopped because the device was disconnected; it restarts on the next config save (its card index may name different hardware after a reconnect)''
                 else ''Capture stopped because the device was disconnected; it starts again when the device is reconnected'')
      in dropRetry name (markDown name downDisconnected (deviceDownOnset name ''Device disconnected'' msg) a))"

definition device_failed :: "env \<Rightarrow> runtime \<Rightarrow> capture_error \<Rightarrow> string \<Rightarrow> appliance \<Rightarrow> appliance" where
  "device_failed e rt err faultPath a =
     (let dev = rt_dev rt; name = d_Name dev; stalled = ce_Stalled err;
          msg = (if stalled then ''Capture stalled: the device stopped delivering audio ('' @ ce_Msg err
                   @ ''); the RTSP path(s) return 404 until '' @ restartHint dev
                 else ''Capture stopped: '' @ ce_Msg err @ ''; the RTSP path(s) return 404 until '' @ restartHint dev);
          title = (if stalled then ''Device stalled'' else ''Device failed'');
          a = markDown name (if stalled then downStalled else downFailed) (deviceDownOnset name title msg) a;
          a = scheduleRetry e dev a;
          a = (if ce_Shortfall err \<and> map_of (ap_retries a) name \<noteq> None then geometryShortfall dev (rt_geoStep rt) a else a)
      in if faultPath \<noteq> '''' \<and> map_of (ap_retries a) name \<noteq> None then record_fault dev faultPath a else a)"

text \<open>
  The pump of the runtime with identity \<open>gen\<close> ended; a runtime no longer on record was superseded.
  \<open>ap_pumps\<close> are the pump goroutines that have not reported yet.
\<close>

definition live_record :: "string \<Rightarrow> nat \<Rightarrow> appliance \<Rightarrow> runtime option" where
  "live_record name gen a =
     (case map_of (ap_devices a) name of
        Some rt \<Rightarrow> if rt_gen rt = gen \<and> \<not> rt_superseded rt then Some rt else None
      | None \<Rightarrow> None)"

definition onPumpDone :: "env \<Rightarrow> string \<Rightarrow> nat \<Rightarrow> capture_error option \<Rightarrow> string \<Rightarrow> appliance \<Rightarrow> appliance" where
  "onPumpDone e name gen err faultPath a =
     (let a = a\<lparr>ap_alive := ap_alive a - 1\<rparr> in
      case live_record name gen a of
        None \<Rightarrow> a
      | Some rt \<Rightarrow>
          let a = a\<lparr>ap_tracks := remove_tracks (rt_paths rt) (ap_tracks a),
                    ap_meters := remove1 (d_Name (rt_dev rt)) (ap_meters a)\<rparr>;
              a = (case err of
                     None \<Rightarrow> a
                   | Some err \<Rightarrow>
                       if en_shutdown e then a
                       else
                         let a = a\<lparr>ap_lastPumpErr := Some (ce_Msg err)\<rparr>;
                             rt = markFailed (ce_Msg err) (if ce_Stalled err then downStalled else downFailed) rt;
                             a = geometryRunEnded e rt (put_device name rt a);
                             lost = (ce_Gone err \<or> en_resolve e (d_Device (rt_dev rt)) = Inl DeviceNotFound)
                         in if lost then device_lost rt err a else device_failed e rt err faultPath a)
          in publish (ap_cfg a) a)"

definition retry_down_device :: "env \<Rightarrow> device \<Rightarrow> bool \<times> appliance \<Rightarrow> bool \<times> appliance" where
  "retry_down_device e d sa =
     (case sa of (started, a) \<Rightarrow>
       case map_of (ap_devices a) (d_Name d) of
         None \<Rightarrow> (started, a)
       | Some rt \<Rightarrow>
           if \<not> IsEnabled d \<or> IsCardIndexID (d_Device d) \<or> \<not> isDown (rt_state rt) then (started, a)
           else
             let a = (if length (faultedPaths a (d_Name d)) > 0 then snd (restartFaulted e d False a)
                      else startDevice e d a)
             in (started \<or> (case map_of (ap_devices a) (d_Name d) of
                              Some rt \<Rightarrow> rt_state rt = StateServing | None \<Rightarrow> False), a))"

definition retryDown :: "string \<Rightarrow> env \<Rightarrow> appliance \<Rightarrow> appliance" where
  "retryDown version e a =
     (let a = refreshHardware e (ap_cfg a) a in
      case fold (retry_down_device e) (c_Devices (ap_cfg a)) (False, a) of
        (started, a) \<Rightarrow>
          let a = publish (ap_cfg a) (reconcileRecords e (ap_cfg a) a);
              a = (if started then refreshAnnounce version a else a)
          in armRetryTimer a)"

text \<open>A stream's stage emits its first encoded frame.\<close>

definition noteEncoded :: "string \<Rightarrow> nat \<Rightarrow> string \<Rightarrow> appliance \<Rightarrow> appliance" where
  "noteEncoded name gen path a =
     (case map_of (ap_devices a) name of
        Some rt \<Rightarrow>
          if rt_gen rt = gen \<and> path \<notin> set (rt_encoded rt)
          then put_device name (rt\<lparr>rt_encoded := path # rt_encoded rt\<rparr>) a else a
      | None \<Rightarrow> a)"

section \<open>The run loop\<close>

datatype loop_event =
    EvReconcile config
  | EvRetryDue
  | EvPumpDone string nat "capture_error option" string
  | EvHardwareChanged
  | EvEncoded string nat string

fun run_event :: "string \<Rightarrow> env \<times> loop_event \<Rightarrow> appliance \<Rightarrow> appliance" where
  "run_event version (e, EvReconcile cfg) a = reconcile version e cfg a"
| "run_event version (e, EvRetryDue) a = onRetryDue version e a"
| "run_event version (e, EvPumpDone name gen err path) a =
     (if (name, gen) \<in> set (ap_pumps a)
      then onPumpDone e name gen err path (a\<lparr>ap_pumps := removeAll (name, gen) (ap_pumps a)\<rparr>) else a)"
| "run_event version (e, EvHardwareChanged) a = retryDown version e a"
| "run_event version (e, EvEncoded name gen path) a = noteEncoded name gen path a"

definition run_loop :: "string \<Rightarrow> config \<Rightarrow> (env \<times> loop_event) list \<Rightarrow> appliance" where
  "run_loop version cfg evs = fold (run_event version) evs (newAppliance cfg)"

section \<open>When the process exits\<close>

definition startupExit :: "nat \<Rightarrow> bool \<Rightarrow> bool \<Rightarrow> bool \<Rightarrow> string option" where
  "startupExit serving apiServing allDisabled mgmtEnabled =
     (if serving > 0 \<or> apiServing then None
      else if allDisabled then Some ''all configured capture devices are disabled; enable at least one device, or enable the management API to keep the appliance up as a diagnostic surface''
      else if mgmtEnabled then Some ''no configured capture device could be opened, and the management API that would keep the appliance up could not start (see its error above)''
      else Some ''no configured capture device could be opened'')"

definition runExit :: "int \<Rightarrow> bool \<Rightarrow> string option \<Rightarrow> bool \<Rightarrow> bool \<times> string option" where
  "runExit alive apiUp lastPumpErr apiLost =
     (if alive > 0 \<or> apiUp then (False, None)
      else case lastPumpErr of
        Some err \<Rightarrow>
          (True, Some ((if apiLost then ''no capture device is serving and the management API that kept the appliance up is no longer retried, last device error: ''
                        else ''all capture devices stopped, last error: '') @ err))
      | None \<Rightarrow>
          (True, if apiLost then Some ''no capture device is serving and the management API that kept the appliance up is no longer retried''
                 else None))"

definition lostExit :: "bool \<Rightarrow> int \<Rightarrow> bool \<Rightarrow> string option \<Rightarrow> bool \<times> bool \<times> string option" where
  "lostExit cancelled alive apiUp lastPumpErr =
     (if cancelled then (True, True, None)
      else case runExit alive apiUp lastPumpErr True of (exit, err) \<Rightarrow> (exit, False, err))"

definition serving_count :: "appliance \<Rightarrow> nat" where
  "serving_count a = length (filter (\<lambda>(_, rt). rt_state rt = StateServing) (ap_devices a))"

definition allDisabled :: "appliance \<Rightarrow> bool" where
  "allDisabled a \<longleftrightarrow> length (ap_devices a) \<noteq> 0 \<and> list_all (\<lambda>(_, rt). rt_state rt = StateDisabled) (ap_devices a)"

end
