(* ===== verification/Appliance_Inv.thy ===== *)
theory Appliance_Inv
  imports Appliance
begin

text \<open>
  What every handler of the run loop keeps: the down condition of each device in the notification
  center, the record, the retry state and the encode fault of a device belong together. A handler
  works on one device at a time; \<open>view\<close> is everything the state holds about one device, so a step
  on one device leaves every other view alone, and the invariant is a property of the views.
\<close>

section \<open>The view of a device\<close>

record dview =
  v_rt :: "runtime option"
  v_reason :: "string option"
  v_retry :: "retryState option"
  v_fault :: "encodeFault option"

definition view :: "string \<Rightarrow> appliance \<Rightarrow> dview" where
  "view n a = \<lparr>v_rt = map_of (ap_devices a) n, v_reason = map_of (ap_downReason a) n,
     v_retry = map_of (ap_retries a) n, v_fault = map_of (ap_encodeFaults a) n\<rparr>"

text \<open>Whether the device's down condition is active in a center that started from \<open>A0\<close>.\<close>

definition act :: "string set \<Rightarrow> string \<Rightarrow> appliance \<Rightarrow> bool" where
  "act A0 n a \<longleftrightarrow> deviceDownKey n \<in> calls_effect (ap_calls a) A0"

lemma view_simps [simp]:
  "v_rt (view n a) = map_of (ap_devices a) n" "v_reason (view n a) = map_of (ap_downReason a) n"
  "v_retry (view n a) = map_of (ap_retries a) n" "v_fault (view n a) = map_of (ap_encodeFaults a) n"
  by (simp_all add: view_def)

lemma view_update_simps [simp]:
  "view n (a\<lparr>ap_retryAt := x1\<rparr>) = view n a" "view n (a\<lparr>ap_timer := x2\<rparr>) = view n a"
  "view n (a\<lparr>ap_alive := x3\<rparr>) = view n a" "view n (a\<lparr>ap_lastPumpErr := x4\<rparr>) = view n a"
  "view n (a\<lparr>ap_runtimeGen := x5\<rparr>) = view n a" "view n (a\<lparr>ap_tracks := x6\<rparr>) = view n a"
  "view n (a\<lparr>ap_meters := x7\<rparr>) = view n a" "view n (a\<lparr>ap_token := x8\<rparr>) = view n a"
  "view n (a\<lparr>ap_authRequired := x9\<rparr>) = view n a" "view n (a\<lparr>ap_discovery := x9\<rparr>) = view n a"
  "view n (a\<lparr>ap_configuredIDs := x10\<rparr>) = view n a" "view n (a\<lparr>ap_retryArmed := x9\<rparr>) = view n a"
  "view n (a\<lparr>ap_enumTrigger := x9\<rparr>) = view n a" "view n (a\<lparr>ap_published := x11\<rparr>) = view n a"
  "view n (a\<lparr>ap_announcing := x9\<rparr>) = view n a" "view n (a\<lparr>ap_advertised := x12\<rparr>) = view n a"
  "view n (a\<lparr>ap_announced := x13\<rparr>) = view n a" "view n (a\<lparr>ap_announceGen := x14\<rparr>) = view n a"
  "view n (a\<lparr>ap_monitors := x15\<rparr>) = view n a" "view n (a\<lparr>ap_calls := x16\<rparr>) = view n a"
  "view n (a\<lparr>ap_geometry := x17\<rparr>) = view n a" "view n (a\<lparr>ap_cfg := x18\<rparr>) = view n a"
  "view n (a\<lparr>ap_hw := x19\<rparr>) = view n a" "view n (a\<lparr>ap_pumps := x20\<rparr>) = view n a"
  by (simp_all add: view_def)

lemma view_emit [simp]: "view n (emit cs a) = view n a"
  by (simp add: emit_def)

lemma view_arm [simp]: "view n (armRetryTimer a) = view n a"
  by (simp add: armRetryTimer_def Let_def)

lemma view_put_device [simp]:
  "view n (put_device m rt a) = (if m = n then (view n a)\<lparr>v_rt := Some rt\<rparr> else view n a)"
  by (simp add: put_device_def view_def update_conv')

lemma view_set_reason [simp]:
  "view n (set_reason m c a) = (if m = n then (view n a)\<lparr>v_reason := Some c\<rparr> else view n a)"
  by (simp add: set_reason_def view_def update_conv')

lemma view_set_retry [simp]:
  "view n (set_retry m st a) = (if m = n then (view n a)\<lparr>v_retry := Some st\<rparr> else view n a)"
  by (simp add: set_retry_def view_def update_conv')

lemma view_delete [simp]:
  "view n (a\<lparr>ap_retries := AList.delete m (ap_retries a)\<rparr>) =
     (if m = n then (view n a)\<lparr>v_retry := None\<rparr> else view n a)"
  "view n (a\<lparr>ap_encodeFaults := AList.delete m (ap_encodeFaults a)\<rparr>) =
     (if m = n then (view n a)\<lparr>v_fault := None\<rparr> else view n a)"
  "view n (a\<lparr>ap_downReason := AList.delete m (ap_downReason a)\<rparr>) =
     (if m = n then (view n a)\<lparr>v_reason := None\<rparr> else view n a)"
  "view n (a\<lparr>ap_devices := AList.delete m (ap_devices a)\<rparr>) =
     (if m = n then (view n a)\<lparr>v_rt := None\<rparr> else view n a)"
  by (simp_all add: view_def delete_conv')

lemma view_dropRetry [simp]:
  "view n (dropRetry m a) = (if m = n then (view n a)\<lparr>v_retry := None\<rparr> else view n a)"
  by (simp add: dropRetry_def)

subsection \<open>The calls\<close>

lemma down_key_eq [simp]: "deviceDownKey n = deviceDownKey m \<longleftrightarrow> n = m"
  by (simp add: deviceDownKey_def)

lemma down_key_geometry [simp]: "deviceDownKey n \<noteq> geometryKey m" "geometryKey m \<noteq> deviceDownKey n"
proof -
  have "last (deviceDownKey n) \<noteq> last (geometryKey m)"
    by (simp add: deviceDownKey_def geometryKey_def)
  then show "deviceDownKey n \<noteq> geometryKey m" "geometryKey m \<noteq> deviceDownKey n" by metis+
qed

lemma down_key_nonempty [simp]: "deviceDownKey n \<noteq> ''''"
  by (simp add: deviceDownKey_def)

lemma act_emit: "act A0 n (emit cs a) \<longleftrightarrow> deviceDownKey n \<in> calls_effect cs (calls_effect (ap_calls a) A0)"
  by (simp add: act_def emit_def)

lemma act_emit_other [simp]:
  "\<forall>call \<in> set cs. deviceDownKey n \<notin> call_keys call \<Longrightarrow> act A0 n (emit cs a) = act A0 n a"
  using calls_effect_other[of cs "deviceDownKey n"] by (simp add: act_def emit_def)

lemma act_cong: "ap_calls b = ap_calls a \<Longrightarrow> act A0 n b = act A0 n a"
  by (simp add: act_def)

lemma calls_arm [simp]: "ap_calls (armRetryTimer a) = ap_calls a"
  by (simp add: armRetryTimer_def Let_def)

lemma calls_ops [simp]:
  "ap_calls (put_device m rt a) = ap_calls a" "ap_calls (set_reason m c a) = ap_calls a"
  "ap_calls (set_retry m st a) = ap_calls a" "ap_calls (dropRetry m a) = ap_calls a"
  by (simp_all add: put_device_def set_reason_def set_retry_def dropRetry_def)

lemma devices_ops [simp]:
  "ap_devices (set_reason m c a) = ap_devices a" "ap_devices (set_retry m st a) = ap_devices a"
  "ap_devices (emit cs a) = ap_devices a" "ap_devices (armRetryTimer a) = ap_devices a"
  "ap_devices (dropRetry m a) = ap_devices a" "ap_devices (put_device m rt a) = AList.update m rt (ap_devices a)"
  by (simp_all add: set_reason_def set_retry_def emit_def dropRetry_def put_device_def armRetryTimer_def Let_def)

lemma devices_down [simp]:
  "ap_devices (replaceDown m c t a) = ap_devices a" "ap_devices (markDown m c t a) = ap_devices a"
  by (simp_all add: markDown_def replaceDown_def split: option.split)

lemma act_ops [simp]:
  "act A0 n (put_device m rt a) = act A0 n a" "act A0 n (set_reason m c a) = act A0 n a"
  "act A0 n (set_retry m st a) = act A0 n a" "act A0 n (dropRetry m a) = act A0 n a"
  "act A0 n (armRetryTimer a) = act A0 n a"
  by (simp_all add: act_def)

lemma down_onset_key [simp]: "n_Key (deviceDownOnset n t m) = deviceDownKey n"
  by (simp add: deviceDownOnset_def)

subsection \<open>One device at a time\<close>

text \<open>
  The timer is set for the deadline it was armed for, the pumps belong to opened runtimes, and a name
  has one record and one retry state.
\<close>

definition state_ok :: "appliance \<Rightarrow> bool" where
  "state_ok a \<longleftrightarrow> (ap_retryAt a \<noteq> 0 \<longrightarrow> ap_timer a = Some (ap_retryAt a)) \<and> (\<forall>p \<in> set (ap_pumps a). 1 \<le> snd p) \<and>
     distinct (map fst (ap_devices a)) \<and> distinct (map fst (ap_retries a))"

lemma state_ok_ops [simp]:
  "state_ok (set_reason m c a) = state_ok a"
  "state_ok (emit cs a) = state_ok a"
  by (simp_all add: state_ok_def set_reason_def emit_def)

lemma state_ok_arm [simp]: "state_ok a \<Longrightarrow> state_ok (armRetryTimer a)" "state_ok a \<Longrightarrow> state_ok (dropRetry m a)"
  "state_ok a \<Longrightarrow> state_ok (put_device m rt a)" "state_ok a \<Longrightarrow> state_ok (set_retry m st a)"
  by (auto simp: state_ok_def armRetryTimer_def dropRetry_def put_device_def set_retry_def is_zero_def distinct_update
      distinct_delete Let_def)

text \<open>A step works on the device \<open>n\<close> only, and keeps the configuration.\<close>

definition works_on :: "string \<Rightarrow> appliance \<Rightarrow> appliance \<Rightarrow> bool" where
  "works_on n a b \<longleftrightarrow> (\<forall>m. m \<noteq> n \<longrightarrow> view m b = view m a \<and> (\<forall>A0. act A0 m b = act A0 m a)) \<and>
     ap_cfg b = ap_cfg a \<and> (state_ok a \<longrightarrow> state_ok b)"

lemma state_ok_cong:
  "ap_retryAt b = ap_retryAt a \<Longrightarrow> ap_timer b = ap_timer a \<Longrightarrow> ap_pumps b = ap_pumps a \<Longrightarrow> ap_devices b = ap_devices a \<Longrightarrow> ap_retries b = ap_retries a \<Longrightarrow> state_ok b = state_ok a"
  by (simp add: state_ok_def)

lemma works_on_refl [simp]: "works_on n a a"
  by (simp add: works_on_def)

lemma works_on_trans [trans]: "works_on n a b \<Longrightarrow> works_on n b c \<Longrightarrow> works_on n a c"
  by (simp add: works_on_def)

lemma works_on_other: "works_on n a b \<Longrightarrow> m \<noteq> n \<Longrightarrow> view m b = view m a \<and> act A0 m b = act A0 m a"
  by (simp add: works_on_def)

text \<open>A step on a device that changes nothing of what the views hold.\<close>

definition keeps_view :: "string \<Rightarrow> appliance \<Rightarrow> appliance \<Rightarrow> bool" where
  "keeps_view n a b \<longleftrightarrow> works_on n a b \<and> view n b = view n a \<and> (\<forall>A0. act A0 n b = act A0 n a)"

lemma keeps_view_trans [trans]: "keeps_view n a b \<Longrightarrow> keeps_view n b c \<Longrightarrow> keeps_view n a c"
  by (auto simp: keeps_view_def intro: works_on_trans)

lemma keeps_view_refl [simp]: "keeps_view n a a"
  by (simp add: keeps_view_def)

lemma keeps_view_geometry_call:
  "call_keys call \<subseteq> {geometryKey m} \<Longrightarrow> keeps_view n a (emit [call] (a\<lparr>ap_geometry := g\<rparr>))"
  "call_keys call \<subseteq> {geometryKey m} \<Longrightarrow> keeps_view n a (emit [call] a)"
proof -
  assume sub: "call_keys call \<subseteq> {geometryKey m}"
  have "deviceDownKey k \<notin> call_keys call" for k
    using sub down_key_geometry(1)[of k m] by blast
  then have "deviceDownKey k \<in> calls_effect [call] A \<longleftrightarrow> deviceDownKey k \<in> A" for k A
    by (intro calls_effect_other) simp
  then have "act A0 k (emit [call] b) = act A0 k b" for A0 k b
    by (simp only: act_emit) (simp add: act_def)
  moreover have "act A0 k (a\<lparr>ap_geometry := g\<rparr>) = act A0 k a" for A0 k
    by (simp add: act_def)
  moreover have "ap_cfg (emit [call] b) = ap_cfg b \<and> ap_hw (emit [call] b) = ap_hw b" for b
    by (simp add: emit_def)
  moreover have "state_ok (a\<lparr>ap_geometry := g\<rparr>) = state_ok a" by (simp add: state_ok_def)
  ultimately show "keeps_view n a (emit [call] (a\<lparr>ap_geometry := g\<rparr>))" "keeps_view n a (emit [call] a)"
    by (simp_all add: keeps_view_def works_on_def)
qed

lemma keeps_view_geometry [simp]: "keeps_view n a (a\<lparr>ap_geometry := g\<rparr>)"
  by (simp add: keeps_view_def works_on_def act_def state_ok_def)

lemma keeps_view_clearGeometry [simp]: "keeps_view n a (clearGeometry m msg a)"
  unfolding clearGeometry_def by (rule keeps_view_geometry_call(2)[of _ m]) simp

lemma keeps_view_dropGeometry [simp]: "keeps_view n a (dropGeometry m msg a)"
  unfolding dropGeometry_def by (rule keeps_view_geometry_call(1)[of _ m, folded emit_def]) simp

lemma keeps_view_geometryStep: "keeps_view n a (snd (geometryStep dev a))"
  by (simp add: geometryStep_def split: option.split)

lemma keeps_view_clear_after: "keeps_view n a (clearGeometry m msg (a\<lparr>ap_geometry := g\<rparr>))"
  by (rule keeps_view_trans[OF keeps_view_geometry keeps_view_clearGeometry])

lemma keeps_view_geometryRunEnded: "keeps_view n a (geometryRunEnded e rt a)"
  by (simp add: geometryRunEnded_def Let_def keeps_view_clear_after split: option.split)

lemma keeps_view_geometryRefuse: "keeps_view n a (geometryRefuse m r a)"
  by (simp add: geometryRefuse_def Let_def keeps_view_clear_after split: option.split)

lemma keeps_view_geometryShortfall: "keeps_view n a (geometryShortfall dev k a)"
  by (simp add: geometryShortfall_def Let_def split: option.split)

lemma keeps_view_geometryOpened: "keeps_view n a (geometryOpened m rt k a)"
proof -
  have "keeps_view n a (emit [POnset (geometryOnset m g r), PUpdate t u v] a)" for g r t u v
    by (auto simp: keeps_view_def works_on_def emit_def act_def geometryOnset_def state_ok_def)
  then show ?thesis by (simp add: geometryOpened_def Let_def split: option.split)
qed

section \<open>Marking a device down, scheduling its retry\<close>

definition agree :: "string set \<Rightarrow> string \<Rightarrow> appliance \<Rightarrow> bool" where
  "agree A0 n a \<longleftrightarrow> (act A0 n a \<longleftrightarrow> v_reason (view n a) \<noteq> None)"

definition marked :: "dview \<Rightarrow> string \<Rightarrow> string" where
  "marked v cause =
     (case v_reason v of
        Some prev \<Rightarrow>
          if \<not> sameCondition prev cause \<and> (\<exists>st. v_retry v = Some st \<and> rs_recoveredAt st = 0)
             \<and> retryableCause prev \<and> retryableCause cause then prev else cause
      | None \<Rightarrow> cause)"

lemma works_on_ops [simp]:
  "works_on n a (set_reason n c a)" "works_on n a (set_retry n st a)" "works_on n a (put_device n rt a)"
  "works_on n a (dropRetry n a)" "works_on n a (armRetryTimer a)"
  by (simp_all add: works_on_def) (simp_all add: set_reason_def set_retry_def put_device_def dropRetry_def
      armRetryTimer_def Let_def)

lemma works_on_emit:
  assumes "\<forall>call \<in> set cs. call_keys call \<subseteq> {deviceDownKey n}"
  shows "works_on n a (emit cs a)"
proof -
  have "act A0 m (emit cs a) = act A0 m a" if "m \<noteq> n" for m A0
    using assms that by (intro act_emit_other) force
  then show ?thesis by (simp add: works_on_def) (simp add: emit_def)
qed

lemma replaceDown_works: "works_on n a (replaceDown n c (deviceDownOnset n t m) a)"
  unfolding replaceDown_def
  by (auto intro!: works_on_trans[OF _ works_on_emit] works_on_trans[OF _ works_on_ops(1)] works_on_emit
      split: option.split)

lemma replaceDown_view: "view n (replaceDown n c note a) = (view n a)\<lparr>v_reason := Some c\<rparr>"
  by (simp add: replaceDown_def split: option.split)

lemma replaceDown_act:
  assumes "agree A0 n a"
  shows "act A0 n (replaceDown n c (deviceDownOnset n t m) a)"
  using assms by (auto simp: replaceDown_def agree_def act_emit set_reason_def act_def emit_def split: option.split)

lemma markDown_works: "works_on n a (markDown n c (deviceDownOnset n t m) a)"
  by (simp add: markDown_def replaceDown_works split: option.split)

lemma markDown_view: "view n (markDown n c note a) = (view n a)\<lparr>v_reason := Some (marked (view n a) c)\<rparr>"
  by (auto simp: markDown_def replaceDown_view marked_def retrying_def is_zero_def split: option.split)

lemma markDown_act: "agree A0 n a \<Longrightarrow> act A0 n (markDown n c (deviceDownOnset n t m) a)"
  by (auto simp: markDown_def agree_def act_def[symmetric] intro: replaceDown_act[unfolded agree_def] split: option.split)

lemma backoff_positive: "0 < backoffDelay k"
proof -
  have "list_all (\<lambda>d. 0 < d) retryBackoff" by (simp add: retryBackoff_def second_def minute_def millisecond_def)
  moreover have "nat (min (max i 0) (int (length retryBackoff) - 1)) < length retryBackoff" for i
    by (simp add: retryBackoff_def min_def) linarith
  ultimately show ?thesis by (simp add: backoffDelay_def backoffAt_def list_all_length)
qed

definition scheduled :: "env \<Rightarrow> device \<Rightarrow> dview \<Rightarrow> retryState option" where
  "scheduled e dev v =
     (if IsCardIndexID (d_Device dev) \<or> \<not> (\<exists>c. v_reason v = Some c \<and> retryableCause c) then None
      else Some (retry_failed (en_clock e (d_Name dev)) (case v_retry v of Some st \<Rightarrow> st | None \<Rightarrow> zero_retry)))"

lemma scheduleRetry_works: "d_Name dev = n \<Longrightarrow> works_on n a (scheduleRetry e dev a)"
  by (auto simp: scheduleRetry_def Let_def intro: works_on_trans[OF works_on_ops(2) works_on_ops(5)])

lemma scheduleRetry_calls [simp]: "ap_calls (scheduleRetry e dev a) = ap_calls a"
  by (simp add: scheduleRetry_def Let_def)

lemma empty_not_retryable [simp]: "\<not> retryableCause ''''"
  by (simp add: retryableCause_def down_causes)

lemma scheduleRetry_view:
  "d_Name dev = n \<Longrightarrow> view n (scheduleRetry e dev a) = (view n a)\<lparr>v_retry := scheduled e dev (view n a)\<rparr>"
  by (auto simp: scheduleRetry_def Let_def scheduled_def down_cause_def retryFor_def split: option.splits)

lemma retry_failed_fields:
  "rs_settleAt (retry_failed now st) = 0" "\<not> rs_awaitEncode (retry_failed now st)"
  "rs_recoveredAt (retry_failed now st) = 0" "now < rs_next (retry_failed now st)"
  by (simp_all add: retry_failed_def Let_def backoff_positive)

section \<open>Opening a device\<close>

text \<open>What \<open>openAndStart\<close> leaves: a record of the device it was given, and its condition when it is down.\<close>

definition opened :: "device \<Rightarrow> appliance \<Rightarrow> runtime \<Rightarrow> appliance \<Rightarrow> bool" where
  "opened dev a rt b \<longleftrightarrow>
     (let n = d_Name dev in
      works_on n a b \<and> rt_dev rt = dev \<and> \<not> rt_superseded rt \<and>
      (if rt_state rt = StateServing
       then view n b = view n a \<and> (\<forall>A0. act A0 n b = act A0 n a)
       else rt_state rt = StateSkipped \<and>
         (\<exists>c. view n b = (view n a)\<lparr>v_reason := Some (marked (view n a) c)\<rparr>) \<and>
         (\<forall>A0. agree A0 n a \<longrightarrow> act A0 n b)))"

lemma opened_down:
  assumes "keeps_view (d_Name dev) a a1"
  shows "opened dev a (down_record dev hw c msg) (markDown (d_Name dev) c' (deviceDownOnset (d_Name dev) t m) a1)"
proof -
  let ?n = "d_Name dev"
  have works: "works_on ?n a (markDown ?n c' (deviceDownOnset ?n t m) a1)"
    using assms markDown_works works_on_trans unfolding keeps_view_def by blast
  have "view ?n a1 = view ?n a" "agree A0 ?n a \<Longrightarrow> agree A0 ?n a1" for A0
    using assms by (simp_all add: keeps_view_def agree_def)
  then have view: "view ?n (markDown ?n c' (deviceDownOnset ?n t m) a1) =
      (view ?n a)\<lparr>v_reason := Some (marked (view ?n a) c')\<rparr>"
    and act: "\<And>A0. agree A0 ?n a \<Longrightarrow> act A0 ?n (markDown ?n c' (deviceDownOnset ?n t m) a1)"
    by (simp_all add: markDown_view markDown_act)
  from works view act show ?thesis by (auto simp: opened_def Let_def down_record_def)
qed

lemma keeps_view_fields:
  "keeps_view n a b \<Longrightarrow> keeps_view n a (b\<lparr>ap_runtimeGen := g, ap_meters := m\<rparr>)"
  "keeps_view n a b \<Longrightarrow> keeps_view n a (b\<lparr>ap_tracks := t, ap_alive := l, ap_pumps := (m', Suc k) # ap_pumps b\<rparr>)"
  by (simp_all add: keeps_view_def works_on_def act_def) (simp_all add: state_ok_def)

lemma opened_open_device:
  assumes "keeps_view (d_Name dev) a a1" "open_device e dev hw asked a1 = (rt, b)"
  shows "opened dev a rt b"
proof -
  obtain result step refusedAt where ladder: "open_ladder (en_open e dev) asked None = (result, step, refusedAt)"
    by (metis prod_cases3)
  let ?r = "case refusedAt of None \<Rightarrow> a1 | Some r \<Rightarrow> geometryRefuse (d_Name dev) r a1"
  have r: "keeps_view (d_Name dev) a ?r"
    using assms(1) keeps_view_geometryRefuse keeps_view_trans by (cases refusedAt) (simp, fastforce)
  show ?thesis
  proof (cases result)
    case (Inl err)
    then show ?thesis using assms(2) ladder opened_down[OF r] by (auto simp: open_device_def Let_def)
  next
    case (Inr g)
    let ?rt = "serving_record e dev hw (ap_runtimeGen ?r + 1) step g"
    let ?m = "?r\<lparr>ap_runtimeGen := ap_runtimeGen ?r + 1, ap_meters := ap_meters ?r @ [d_Name dev]\<rparr>"
    let ?g = "if asked > 0 then geometryOpened (d_Name dev) ?rt asked ?m else ?m"
    have "keeps_view (d_Name dev) a ?m" using keeps_view_fields(1)[OF r] .
    then have "keeps_view (d_Name dev) a ?g"
      using keeps_view_trans[OF _ keeps_view_geometryOpened] by simp
    then have "keeps_view (d_Name dev) a b"
      using assms(2) ladder Inr keeps_view_fields(2)[of "d_Name dev" a ?g]
      by (auto simp: open_device_def serving_record_def Let_def)
    moreover have "rt = ?rt" using assms(2) ladder Inr by (simp add: open_device_def Let_def)
    ultimately show ?thesis by (auto simp: opened_def keeps_view_def serving_record_def Let_def)
  qed
qed

lemma opened_openAndStart:
  assumes "openAndStart e dev a = (rt, b)"
  shows "opened dev a rt b"
proof -
  obtain asked a1 where step: "geometryStep dev a = (asked, a1)" by fastforce
  then have keep: "keeps_view (d_Name dev) a a1" using keeps_view_geometryStep[of _ a dev] by (metis snd_conv)
  show ?thesis
    using assms step opened_open_device[OF keep] opened_down[OF keep]
    by (auto simp: openAndStart_def skipDevice_def Let_def split: option.splits prod.splits if_splits)
qed

section \<open>The invariant of a device\<close>

definition retry_serving :: "string option \<Rightarrow> retryState option \<Rightarrow> bool" where
  "retry_serving reason r =
     (case r of
        None \<Rightarrow> reason = None
      | Some st \<Rightarrow> (reason = None \<longleftrightarrow> rs_recoveredAt st \<noteq> 0) \<and> rs_next st = 0 \<and>
          (rs_awaitEncode st \<longrightarrow> rs_settleAt st = 0) \<and>
          (reason \<noteq> None \<longrightarrow> rs_settleAt st \<noteq> 0 \<or> rs_awaitEncode st))"

definition retry_down :: "string option \<Rightarrow> device \<Rightarrow> retryState option \<Rightarrow> bool" where
  "retry_down reason dev r \<longleftrightarrow>
     (\<exists>c. reason = Some c \<and>
       (case r of
          None \<Rightarrow> IsCardIndexID (d_Device dev) \<or> \<not> retryableCause c
        | Some st \<Rightarrow> rs_next st \<noteq> 0 \<and> rs_settleAt st = 0 \<and> \<not> rs_awaitEncode st \<and> rs_recoveredAt st = 0 \<and>
            retryableCause c))"

definition dev_inv :: "string \<Rightarrow> dview \<Rightarrow> bool" where
  "dev_inv n v \<longleftrightarrow>
     (\<forall>f. v_fault v = Some f \<longrightarrow> \<not> IsCardIndexID (d_Device (ef_dev f))) \<and>
     (case v_rt v of
        None \<Rightarrow> v_reason v = None \<and> v_retry v = None \<and> v_fault v = None
      | Some rt \<Rightarrow>
          d_Name (rt_dev rt) = n \<and>
          (v_retry v \<noteq> None \<longrightarrow> \<not> IsCardIndexID (d_Device (rt_dev rt))) \<and>
          (case rt_state rt of
             StateServing \<Rightarrow> retry_serving (v_reason v) (v_retry v)
           | StateDisabled \<Rightarrow> rt_gen rt = 0 \<and> v_reason v = None \<and> v_retry v = None \<and> v_fault v = None
           | _ \<Rightarrow> retry_down (v_reason v) (rt_dev rt) (v_retry v)))"

definition sound :: "string set \<Rightarrow> string \<Rightarrow> appliance \<Rightarrow> bool" where
  "sound A0 n a \<longleftrightarrow> dev_inv n (view n a) \<and> agree A0 n a"

lemma sound_cong: "view n b = view n a \<Longrightarrow> act A0 n b = act A0 n a \<Longrightarrow> sound A0 n b = sound A0 n a"
  by (simp add: sound_def agree_def)

lemma sound_other: "works_on m a b \<Longrightarrow> n \<noteq> m \<Longrightarrow> sound A0 n b = sound A0 n a"
  using works_on_other sound_cong by metis

text \<open>The configured device and its record: same hardware id, disabled exactly when configured so.\<close>

definition matches :: "device \<Rightarrow> appliance \<Rightarrow> bool" where
  "matches d a \<longleftrightarrow> (\<exists>rt. map_of (ap_devices a) (d_Name d) = Some rt \<and> d_Device (rt_dev rt) = d_Device d \<and>
     (rt_state rt = StateDisabled \<longleftrightarrow> \<not> IsEnabled d) \<and> \<not> rt_superseded rt)"

text \<open>
  What a handler leaves of a device it started: a sound record of that device, and no deadline that
  is due already.
\<close>

definition quiet :: "instant \<Rightarrow> dview \<Rightarrow> bool" where
  "quiet now v \<longleftrightarrow> (\<forall>st. v_retry v = Some st \<longrightarrow>
     (rs_next st = 0 \<or> now < rs_next st) \<and> (rs_settleAt st = 0 \<or> now < rs_settleAt st))"

definition started :: "string set \<Rightarrow> env \<Rightarrow> device \<Rightarrow> appliance \<Rightarrow> appliance \<Rightarrow> bool" where
  "started A0 e d a b \<longleftrightarrow> works_on (d_Name d) a b \<and> sound A0 (d_Name d) b \<and>
     quiet (en_clock e (d_Name d)) (view (d_Name d) b) \<and>
     (\<exists>rt. map_of (ap_devices b) (d_Name d) = Some rt \<and> rt_dev rt = d \<and> rt_state rt \<noteq> StateDisabled \<and>
        \<not> rt_superseded rt)"

lemma started_after: "works_on (d_Name d) a a' \<Longrightarrow> started A0 e d a' b \<Longrightarrow> started A0 e d a b"
  by (auto simp: started_def intro: works_on_trans)

lemma startedI:
  assumes "works_on (d_Name d) a b" "dev_inv (d_Name d) (view (d_Name d) b)" "agree A0 (d_Name d) b"
    and "map_of (ap_devices b) (d_Name d) = Some rt" "rt_dev rt = d" "rt_state rt = StateServing" "\<not> rt_superseded rt"
    and "quiet (en_clock e (d_Name d)) (view (d_Name d) b)"
  shows "started A0 e d a b"
  using assms by (simp add: started_def sound_def)

text \<open>A device that is down after an attempt, its retry scheduled.\<close>

lemma down_scheduled:
  assumes opened: "opened d a rt b" and down: "rt_state rt \<noteq> StateServing" and agree: "agree A0 (d_Name d) a"
    and clock: "0 \<le> en_clock e (d_Name d)"
    and fault: "\<forall>f. v_fault (view (d_Name d) a) = Some f \<longrightarrow> \<not> IsCardIndexID (d_Device (ef_dev f))"
  shows "started A0 e d a (scheduleRetry e d (put_device (d_Name d) rt b))"
proof -
  let ?n = "d_Name d" and ?b = "put_device (d_Name d) rt b"
  let ?c = "scheduleRetry e d ?b"
  from opened down obtain c where works: "works_on ?n a b" and dev: "rt_dev rt = d" "\<not> rt_superseded rt"
    and state: "rt_state rt = StateSkipped" and view: "view ?n b = (view ?n a)\<lparr>v_reason := Some c\<rparr>"
    and act: "act A0 ?n b"
    using agree by (auto simp: opened_def Let_def)
  have view: "view ?n ?c = (view ?n a)\<lparr>v_rt := Some rt, v_reason := Some c, v_retry := scheduled e d (view ?n ?b)\<rparr>"
    using view by (simp add: scheduleRetry_view)
  have reason: "v_reason (view ?n ?b) = Some c" using \<open>view ?n b = _\<close> by simp
  have "retry_down (Some c) d (scheduled e d (view ?n ?b))"
  proof -
    have "rs_next (retry_failed (en_clock e ?n) st) \<noteq> 0" for st
      using clock retry_failed_fields(4)[of "en_clock e ?n" st] by linarith
    then show ?thesis using reason by (auto simp: retry_down_def scheduled_def retry_failed_fields)
  qed
  moreover have "scheduled e d (view ?n ?b) \<noteq> None \<longrightarrow> \<not> IsCardIndexID (d_Device d)"
    by (simp add: scheduled_def)
  ultimately have "dev_inv ?n (view ?n ?c)"
    using view dev state fault by (simp add: dev_inv_def)
  moreover have "agree A0 ?n ?c"
  proof -
    have "act A0 ?n ?c" using act by (simp add: act_def)
    then show ?thesis using view by (simp add: agree_def)
  qed
  moreover have "works_on ?n a ?c"
    using works works_on_trans[OF works_on_ops(3) scheduleRetry_works] works_on_trans by blast
  moreover have "v_rt (view ?n ?c) = Some rt" using view by simp
  moreover have "quiet (en_clock e ?n) (view ?n ?c)"
    using retry_failed_fields(1,4) unfolding view by (auto simp: quiet_def scheduled_def)
  ultimately show ?thesis using dev state by (simp add: started_def sound_def)
qed

section \<open>Starting and restarting a device\<close>

lemma finishRecovery_view: "view n (finishRecovery n rt a) = (view n a)\<lparr>v_reason := None\<rparr>"
  by (simp add: finishRecovery_def split: option.split)

lemma finishRecovery_works: "works_on n a (finishRecovery n rt a)"
proof -
  have "works_on n a (emit [PClear (deviceDownKey n) m] (a\<lparr>ap_downReason := AList.delete n (ap_downReason a)\<rparr>))" for m
    by (rule works_on_trans[OF _ works_on_emit]) (simp_all add: works_on_def act_def state_ok_def)
  then show ?thesis by (simp add: finishRecovery_def split: option.split)
qed

lemma finishRecovery_agree: "agree A0 n a \<Longrightarrow> agree A0 n (finishRecovery n rt a)"
  by (simp add: agree_def finishRecovery_view) (auto simp: finishRecovery_def act_emit split: option.split)

lemma finishRecovery_devices [simp]: "ap_devices (finishRecovery n rt a) = ap_devices a"
  by (simp add: finishRecovery_def emit_def split: option.split)

lemma scheduleRetry_devices [simp]: "ap_devices (scheduleRetry e d a) = ap_devices a"
  by (simp add: scheduleRetry_def Let_def dropRetry_def set_retry_def armRetryTimer_def)

lemma start_started:
  assumes "agree A0 (d_Name d) a" "0 \<le> en_clock e (d_Name d)"
  shows "started A0 e d a (startDevice e d a)"
proof -
  let ?n = "d_Name d"
  let ?a = "a\<lparr>ap_retries := AList.delete ?n (ap_retries a), ap_encodeFaults := AList.delete ?n (ap_encodeFaults a)\<rparr>"
  obtain rt b where op: "openAndStart e d ?a = (rt, b)" by fastforce
  have opened: "opened d ?a rt b" using op by (rule opened_openAndStart)
  have works: "works_on ?n a ?a" by (auto simp: works_on_def view_def act_def delete_conv' state_ok_def distinct_delete)
  have view: "view ?n ?a = (view ?n a)\<lparr>v_retry := None, v_fault := None\<rparr>" by (simp add: view_def delete_conv')
  have agree: "agree A0 ?n ?a" using assms(1) view by (simp add: agree_def act_def)
  show ?thesis
  proof (cases "rt_state rt = StateServing")
    case False
    have "started A0 e d ?a (startDevice e d a)"
      using down_scheduled[OF opened False agree assms(2)] view op False by (simp add: startDevice_def Let_def)
    then show ?thesis using works works_on_trans by (auto simp: started_def)
  next
    case True
    let ?b = "armRetryTimer (put_device ?n rt b)"
    let ?c = "finishRecovery ?n rt ?b"
    have c: "startDevice e d a = ?c" using op True by (simp add: startDevice_def Let_def)
    have b: "works_on ?n ?a b" "rt_dev rt = d" "\<not> rt_superseded rt" "view ?n b = view ?n ?a" "act A0 ?n b = act A0 ?n ?a"
      using opened True by (simp_all add: opened_def Let_def)
    have vb: "view ?n ?b = (view ?n a)\<lparr>v_rt := Some rt, v_retry := None, v_fault := None\<rparr>"
      using b(4) view by simp
    have vc: "view ?n ?c = (view ?n a)\<lparr>v_rt := Some rt, v_retry := None, v_fault := None, v_reason := None\<rparr>"
      by (simp only: finishRecovery_view vb)
    have "agree A0 ?n ?b"
      using agree b(4,5) by (simp add: agree_def view)
    then have "agree A0 ?n ?c" by (rule finishRecovery_agree)
    moreover have "dev_inv ?n (view ?n ?c)" using vc b(2) True by (simp add: dev_inv_def retry_serving_def)
    moreover have "works_on ?n a ?c"
      by (rule works_on_trans[OF works_on_trans[OF works_on_trans[OF works_on_trans[OF works b(1)] works_on_ops(3)]
            works_on_ops(5)] finishRecovery_works])
    moreover have "v_rt (view ?n ?c) = Some rt" using vc by simp
    moreover have "quiet (en_clock e ?n) (view ?n ?c)" unfolding vc by (simp add: quiet_def)
    ultimately show ?thesis using b(2,3) True c by (simp add: started_def sound_def)
  qed
qed

text \<open>The retry state of a device about to be attempted.\<close>

definition ready :: "retryState option \<Rightarrow> bool" where
  "ready r \<longleftrightarrow> (\<exists>st. r = Some st \<and> rs_next st = 0 \<and> rs_settleAt st = 0 \<and> \<not> rs_awaitEncode st \<and> rs_recoveredAt st = 0)"

lemma attempt_started:
  assumes agree: "agree A0 (d_Name d) a" and clock: "0 \<le> en_clock e (d_Name d)"
    and ready: "ready (v_retry (view (d_Name d) a))" and reason: "v_reason (view (d_Name d) a) \<noteq> None"
    and stable: "\<not> IsCardIndexID (d_Device d)"
    and fault: "\<forall>f. v_fault (view (d_Name d) a) = Some f \<longrightarrow> \<not> IsCardIndexID (d_Device (ef_dev f))"
  shows "started A0 e d a (snd (attemptRetry e d a))"
proof -
  let ?n = "d_Name d"
  obtain rt b where op: "openAndStart e d a = (rt, b)" by fastforce
  have opened: "opened d a rt b" using op by (rule opened_openAndStart)
  show ?thesis
  proof (cases "rt_state rt = StateServing")
    case False
    then show ?thesis
      using down_scheduled[OF opened False agree clock fault] op by (simp add: attemptRetry_def Let_def)
  next
    case True
    let ?p = "put_device ?n rt b"
    let ?st = "(retryFor ?n ?p)\<lparr>rs_settleAt := en_clock e ?n + retrySettle\<rparr>"
    let ?c = "set_retry ?n ?st ?p"
    have b: "works_on ?n a b" "rt_dev rt = d" "\<not> rt_superseded rt" "view ?n b = view ?n a" "act A0 ?n b = act A0 ?n a"
      using opened True by (simp_all add: opened_def Let_def)
    obtain st where st: "v_retry (view ?n a) = Some st" "rs_next st = 0" "\<not> rs_awaitEncode st" "rs_recoveredAt st = 0"
      using ready by (auto simp: ready_def)
    have "v_retry (view ?n ?p) = Some st" using st b(4) by simp
    then have "retryFor ?n ?p = st" by (simp add: retryFor_def put_device_def)
    then have vc: "view ?n ?c = (view ?n a)\<lparr>v_rt := Some rt, v_retry := Some (st\<lparr>rs_settleAt := en_clock e ?n + retrySettle\<rparr>)\<rparr>"
      using b(4) by simp
    have settle: "en_clock e ?n + retrySettle \<noteq> 0"
      using clock by (simp add: retrySettle_def second_def millisecond_def)
    have later: "0 < retrySettle"
      by (simp add: retrySettle_def second_def millisecond_def)
    have wc: "works_on ?n a ?c" by (rule works_on_trans[OF works_on_trans[OF b(1) works_on_ops(3)] works_on_ops(2)])
    have inv: "dev_inv ?n ((view ?n a)\<lparr>v_rt := Some rt', v_reason := r, v_retry := Some (st\<lparr>rs_settleAt := en_clock e ?n + retrySettle\<rparr>)\<rparr>)"
      if "rt_dev rt' = d" "rt_state rt' = StateServing" "r \<noteq> None" for rt' r
      using that st settle stable fault by (simp add: dev_inv_def retry_serving_def)
    show ?thesis
    proof (cases "faultedPaths ?c ?n = []")
      case paths: True
      have "snd (attemptRetry e d a) = ?c" using op True paths by (simp add: attemptRetry_def Let_def)
      moreover have "view ?n ?c = (view ?n a)\<lparr>v_rt := Some rt, v_reason := v_reason (view ?n a),
          v_retry := Some (st\<lparr>rs_settleAt := en_clock e ?n + retrySettle\<rparr>)\<rparr>"
        unfolding vc by (simp add: view_def)
      then have "dev_inv ?n (view ?n ?c)"
        using inv[OF b(2) True reason] by (simp only:)
      moreover have "agree A0 ?n ?c" using agree b(4,5) vc by (simp add: agree_def)
      moreover have "map_of (ap_devices ?c) ?n = Some rt" by (simp add: update_conv')
      moreover have "quiet (en_clock e ?n) (view ?n ?c)" unfolding vc by (simp add: quiet_def later st)
      ultimately show ?thesis using wc b(2,3) True by (simp add: started_def sound_def)
    next
      case paths: False
      obtain m where snd: "snd (attemptRetry e d a) =
          put_device ?n (rt\<lparr>rt_awaitEncode := True\<rparr>) (replaceDown ?n downFailed (deviceDownOnset ?n ''Device failed'' m) ?c)"
        using op True paths by (simp add: attemptRetry_def Let_def)
      let ?d = "snd (attemptRetry e d a)"
      have "agree A0 ?n ?c" using agree b(4,5) vc by (simp add: agree_def)
      then have "act A0 ?n ?d" by (simp add: snd replaceDown_act)
      have vd: "view ?n ?d = (view ?n ?c)\<lparr>v_rt := Some (rt\<lparr>rt_awaitEncode := True\<rparr>), v_reason := Some downFailed\<rparr>"
        by (simp add: snd replaceDown_view)
      have inv: "dev_inv ?n (view ?n ?d)"
      proof -
        have "view ?n ?d = (view ?n a)\<lparr>v_rt := Some (rt\<lparr>rt_awaitEncode := True\<rparr>), v_reason := Some downFailed,
            v_retry := Some (st\<lparr>rs_settleAt := en_clock e ?n + retrySettle\<rparr>)\<rparr>"
          unfolding vd vc by (rule dview.equality) simp_all
        then show ?thesis using inv[of "rt\<lparr>rt_awaitEncode := True\<rparr>" "Some downFailed"] b(2) True by simp
      qed
      have works: "works_on ?n a ?d"
        unfolding snd by (rule works_on_trans[OF works_on_trans[OF wc replaceDown_works] works_on_ops(3)])
      have rt: "map_of (ap_devices ?d) ?n = Some (rt\<lparr>rt_awaitEncode := True\<rparr>)"
        by (simp add: snd update_conv')
      have agree: "agree A0 ?n ?d" unfolding agree_def vd using \<open>act A0 ?n ?d\<close> by simp
      have "quiet (en_clock e ?n) (view ?n ?d)" unfolding vd vc by (simp add: quiet_def later st)
      then show ?thesis by (intro startedI[OF works inv agree rt]) (simp_all add: b(2,3) True)
    qed
  qed
qed

lemma geometryStep_keeps: "ap_hw (snd (geometryStep d a)) = ap_hw a" "ap_devices (snd (geometryStep d a)) = ap_devices a"
  by (simp_all add: geometryStep_def dropGeometry_def emit_def split: option.split)

lemma refused_hw_cong:
  assumes "ap_hw b = ap_hw a" "ap_devices b = ap_devices a"
  shows "resolveRefused b d = resolveRefused a d" "hw_error b i = hw_error a i" "hw_found b i = hw_found a i"
    "hardwareOwner b addr m = hardwareOwner a addr m"
  using assms by (simp_all add: resolveRefused_def hw_error_def hw_found_def hardwareOwner_def)

lemma refused_not_serving:
  assumes "openRefused a d" "openAndStart e d a = (rt, b)"
  shows "rt_state rt \<noteq> StateServing"
proof -
  obtain asked a1 where step: "geometryStep d a = (asked, a1)" by fastforce
  then have keep: "ap_hw a1 = ap_hw a" "ap_devices a1 = ap_devices a" using geometryStep_keeps by (metis snd_conv)+
  show ?thesis
  proof (cases "resolveRefused a d")
    case True
    then obtain err where "hw_error a1 (d_Device d) = Some err"
      by (auto simp: resolveRefused_def refused_hw_cong(2)[OF keep] split: option.splits)
    then show ?thesis
      using assms(2) step True
      by (auto simp: openAndStart_def skipDevice_def down_record_def refused_hw_cong[OF keep] Let_def split: prod.splits)
  next
    case False
    then obtain o' where "hardwareOwner a (hw_HWAddr (hw_found a (d_Device d))) (d_Name d) = Some o'"
      using assms(1) by (auto simp: openRefused_def)
    then show ?thesis
      using assms(2) step False
      by (auto simp: openAndStart_def skipDevice_def down_record_def refused_hw_cong[OF keep] Let_def split: prod.splits)
  qed
qed

text \<open>What the invariant says of a device that is down.\<close>

lemma down_facts:
  assumes "sound A0 n a" "map_of (ap_devices a) n = Some rt" "isDown (rt_state rt)"
  shows "retry_down (v_reason (view n a)) (rt_dev rt) (v_retry (view n a))" "agree A0 n a" "d_Name (rt_dev rt) = n"
    "\<forall>f. v_fault (view n a) = Some f \<longrightarrow> \<not> IsCardIndexID (d_Device (ef_dev f))" "v_reason (view n a) \<noteq> None"
    "v_retry (view n a) \<noteq> None \<longrightarrow> \<not> IsCardIndexID (d_Device (rt_dev rt))"
proof -
  from assms show "retry_down (v_reason (view n a)) (rt_dev rt) (v_retry (view n a))"
    by (cases "rt_state rt") (simp_all add: sound_def dev_inv_def isDown_def)
  then show "v_reason (view n a) \<noteq> None" by (auto simp: retry_down_def)
  from assms show "agree A0 n a" "d_Name (rt_dev rt) = n"
    "\<forall>f. v_fault (view n a) = Some f \<longrightarrow> \<not> IsCardIndexID (d_Device (ef_dev f))"
    "v_retry (view n a) \<noteq> None \<longrightarrow> \<not> IsCardIndexID (d_Device (rt_dev rt))"
    by (simp_all add: sound_def dev_inv_def)
qed

lemma restart_started:
  assumes sound: "sound A0 (d_Name d) a" and rec: "map_of (ap_devices a) (d_Name d) = Some rt" "isDown (rt_state rt)"
    and stable: "\<not> IsCardIndexID (d_Device d)" and clock: "0 \<le> en_clock e (d_Name d)"
  shows "started A0 e d a (snd (restartFaulted e d reset a))"
proof -
  let ?n = "d_Name d"
  note down = down_facts[OF sound rec]
  show ?thesis
  proof (cases "openRefused a d")
    case True
    let ?a = "if reset then a\<lparr>ap_retries := AList.delete ?n (ap_retries a)\<rparr> else a"
    obtain rt' b where op: "openAndStart e d ?a = (rt', b)" by fastforce
    have "openRefused ?a d"
      using True refused_hw_cong[where b = ?a and a = a] by (simp add: openRefused_def)
    then have ns: "rt_state rt' \<noteq> StateServing" using op by (rule refused_not_serving)
    have works: "works_on ?n a ?a" by (auto simp: works_on_def view_def act_def delete_conv' state_ok_def distinct_delete)
    have "agree A0 ?n ?a" using down(2) by (simp add: agree_def act_def)
    moreover have "\<forall>f. v_fault (view ?n ?a) = Some f \<longrightarrow> \<not> IsCardIndexID (d_Device (ef_dev f))"
      using down(4) by simp
    ultimately have "started A0 e d ?a (scheduleRetry e d (put_device ?n rt' b))"
      by (intro down_scheduled[OF opened_openAndStart[OF op] ns _ clock])
    then have "started A0 e d a (scheduleRetry e d (put_device ?n rt' b))" by (rule started_after[OF works])
    moreover have "snd (restartFaulted e d reset a) = scheduleRetry e d (put_device ?n rt' b)"
      using op True by (simp add: restartFaulted_def Let_def)
    ultimately show ?thesis by simp
  next
    case False
    define st where "st = (retryFor ?n a)\<lparr>rs_next := 0\<rparr>"
    define st' where "st' = (if reset then st\<lparr>rs_attempts := 0, rs_failures := 0, rs_recoveredAt := 0\<rparr> else st)"
    let ?a = "set_retry ?n st' a"
    have "rs_settleAt (retryFor ?n a) = 0 \<and> \<not> rs_awaitEncode (retryFor ?n a) \<and> rs_recoveredAt (retryFor ?n a) = 0"
      using down(1) by (auto simp: retryFor_def zero_retry_def retry_down_def split: option.splits)
    then have "ready (Some st')" by (simp add: ready_def st'_def st_def)
    then have "ready (v_retry (view ?n ?a))" by simp
    moreover have "agree A0 ?n ?a" using down(2) by (simp add: agree_def)
    ultimately have "started A0 e d ?a (snd (attemptRetry e d ?a))"
      using down(4,5) stable clock by (intro attempt_started) simp_all
    moreover have "snd (restartFaulted e d reset a) = snd (attemptRetry e d ?a)"
      using False by (simp add: restartFaulted_def st'_def st_def Let_def)
    ultimately show ?thesis using started_after[OF works_on_ops(2)] by simp
  qed
qed

end
