(* ===== verification/Appliance_Loop.thy ===== *)
theory Appliance_Loop
  imports Appliance_Inv
begin

text \<open>
  The invariant of the run loop over any sequence of events, and what follows from it: the
  notification center mirrors the device records, every outage has a pending retry, no two devices
  capture from the same hardware, and no unattended event opens a device by card index.
\<close>

section \<open>Handlers that go over several devices\<close>

definition works_in :: "string set \<Rightarrow> appliance \<Rightarrow> appliance \<Rightarrow> bool" where
  "works_in N a b \<longleftrightarrow> (\<forall>m. m \<notin> N \<longrightarrow> view m b = view m a \<and> (\<forall>A0. act A0 m b = act A0 m a)) \<and>
     ap_cfg b = ap_cfg a \<and> (state_ok a \<longrightarrow> state_ok b)"

lemma works_on_in: "works_on n a b \<longleftrightarrow> works_in {n} a b"
  by (simp add: works_on_def works_in_def)

lemma works_in_refl [simp]: "works_in N a a"
  by (simp add: works_in_def)

lemma works_in_trans: "works_in N a b \<Longrightarrow> works_in M b c \<Longrightarrow> works_in (N \<union> M) a c"
  by (simp add: works_in_def)

lemma works_in_mono: "works_in N a b \<Longrightarrow> N \<subseteq> M \<Longrightarrow> works_in M a b"
  by (auto simp: works_in_def)

text \<open>A property of one device: it depends on the device's view and condition, and on the configuration.\<close>

definition local_prop :: "string \<Rightarrow> (appliance \<Rightarrow> bool) \<Rightarrow> bool" where
  "local_prop n P \<longleftrightarrow> (\<forall>a b. view n b = view n a \<longrightarrow> (\<forall>A0. act A0 n b = act A0 n a) \<longrightarrow> ap_cfg b = ap_cfg a \<longrightarrow> P b = P a)"

lemma local_works: "local_prop n P \<Longrightarrow> works_in N a b \<Longrightarrow> n \<notin> N \<Longrightarrow> P b = P a"
  unfolding local_prop_def works_in_def by blast

lemma local_sound: "local_prop n (sound A0 n)"
  unfolding local_prop_def using sound_cong by blast

lemma local_agree: "local_prop n (agree A0 n)"
  unfolding local_prop_def agree_def by metis

lemma local_view: "local_prop n (\<lambda>a. P (view n a))"
  unfolding local_prop_def by metis

lemma local_conj: "local_prop n P \<Longrightarrow> local_prop n Q \<Longrightarrow> local_prop n (\<lambda>a. P a \<and> Q a)"
  unfolding local_prop_def by metis

lemma local_matches: "local_prop (d_Name d) (matches d)"
proof -
  have "matches d a \<longleftrightarrow> (\<exists>rt. v_rt (view (d_Name d) a) = Some rt \<and> d_Device (rt_dev rt) = d_Device d \<and>
     (rt_state rt = StateDisabled \<longleftrightarrow> \<not> IsEnabled d) \<and> \<not> rt_superseded rt)" for a
    by (simp add: matches_def)
  then show ?thesis unfolding local_prop_def by presburger
qed

lemma fold_local:
  fixes app :: "'s \<Rightarrow> appliance"
  assumes "distinct (map nm xs)"
    and step: "\<And>x s. x \<in> set xs \<Longrightarrow> pre x (app s) \<Longrightarrow> works_on (nm x) (app s) (app (f x s)) \<and> post x (app (f x s))"
    and loc: "\<And>x. x \<in> set xs \<Longrightarrow> local_prop (nm x) (pre x)" "\<And>x. x \<in> set xs \<Longrightarrow> local_prop (nm x) (post x)"
    and "\<And>x. x \<in> set xs \<Longrightarrow> pre x (app s)"
  shows "works_in (nm ` set xs) (app s) (app (fold f xs s)) \<and> (\<forall>x \<in> set xs. post x (app (fold f xs s)))"
  using assms
proof (induction xs arbitrary: s)
  case Nil
  then show ?case by simp
next
  case (Cons x xs)
  have x: "works_on (nm x) (app s) (app (f x s))" "post x (app (f x s))"
    using Cons.prems(2)[of x s] Cons.prems(5)[of x] by simp_all
  have notin: "nm x \<notin> nm ` set xs" using Cons.prems(1) by auto
  have pre: "pre y (app (f x s))" if "y \<in> set xs" for y
  proof -
    have "nm y \<notin> {nm x}" using notin that by (metis imageI singletonD)
    then show ?thesis
      using local_works[OF Cons.prems(3)[of y], of "{nm x}" "app s" "app (f x s)"] x(1) Cons.prems(5)[of y] that
      by (simp add: works_on_in)
  qed
  have IH: "works_in (nm ` set xs) (app (f x s)) (app (fold f xs (f x s))) \<and>
      (\<forall>y \<in> set xs. post y (app (fold f xs (f x s))))"
    by (rule Cons.IH) (use Cons.prems pre in auto)
  have "post x (app (fold f xs (f x s)))"
    using local_works[OF Cons.prems(4)[of x] _ notin, of "app (f x s)" "app (fold f xs (f x s))"] IH x(2) by simp
  moreover have "works_in (nm ` set (x # xs)) (app s) (app (fold f xs (f x s)))"
    using works_in_trans[of "{nm x}" "app s" "app (f x s)" "nm ` set xs"] x(1) IH by (simp add: works_on_in)
  ultimately show ?case using IH by simp
qed

section \<open>The invariant\<close>

definition armed :: "appliance \<Rightarrow> bool" where
  "armed a \<longleftrightarrow> ap_retryAt a = foldl (\<lambda>due (_, st). foldl earlier_deadline due [rs_next st, rs_settleAt st]) 0 (ap_retries a)"

definition configured :: "appliance \<Rightarrow> bool" where
  "configured a \<longleftrightarrow> distinct (map d_Name (c_Devices (ap_cfg a))) \<and>
     (\<forall>d \<in> set (c_Devices (ap_cfg a)). matches d a) \<and>
     (\<forall>n. map_of (ap_devices a) n \<noteq> None \<longrightarrow> n \<in> d_Name ` set (c_Devices (ap_cfg a)))"

definition base_inv :: "string set \<Rightarrow> appliance \<Rightarrow> bool" where
  "base_inv A0 a \<longleftrightarrow> (\<forall>n. sound A0 n a) \<and> configured a \<and> state_ok a"

definition inv :: "string set \<Rightarrow> appliance \<Rightarrow> bool" where
  "inv A0 a \<longleftrightarrow> base_inv A0 a \<and> armed a"

definition valid_env :: "env \<Rightarrow> bool" where
  "valid_env e \<longleftrightarrow> 0 < en_now e \<and> (\<forall>n. en_now e \<le> en_clock e n)"

lemma valid_clock: "valid_env e \<Longrightarrow> 0 \<le> en_clock e n"
  unfolding valid_env_def by (meson order.strict_implies_order order_trans)

lemma armed_arm: "armed (armRetryTimer a)"
  by (simp add: armed_def armRetryTimer_def Let_def)

lemma armed_cong: "ap_retryAt b = ap_retryAt a \<Longrightarrow> ap_retries b = ap_retries a \<Longrightarrow> armed b = armed a"
  by (simp add: armed_def)

text \<open>A step on some configured devices keeps the others as they were.\<close>

lemma inv_after:
  assumes inv: "base_inv A0 a" and works: "works_in (d_Name ` set (c_Devices (ap_cfg a))) a b"
    and each: "\<And>d. d \<in> set (c_Devices (ap_cfg a)) \<Longrightarrow> sound A0 (d_Name d) b \<and> matches d b"
  shows "base_inv A0 b"
proof -
  have cfg: "ap_cfg b = ap_cfg a" using works by (simp add: works_in_def)
  have "sound A0 n b" for n
  proof (cases "n \<in> d_Name ` set (c_Devices (ap_cfg a))")
    case True
    then show ?thesis using each by auto
  next
    case False
    then show ?thesis using local_works[OF local_sound works] inv by (simp add: base_inv_def)
  qed
  moreover have "map_of (ap_devices b) n = map_of (ap_devices a) n" if "n \<notin> d_Name ` set (c_Devices (ap_cfg a))" for n
  proof -
    have "view n b = view n a" using works that by (simp add: works_in_def)
    then have "v_rt (view n b) = v_rt (view n a)" by simp
    then show ?thesis by simp
  qed
  then have "configured b" using inv each cfg by (fastforce simp: base_inv_def configured_def)
  ultimately show ?thesis using works inv by (simp add: works_in_def base_inv_def)
qed

section \<open>The retry pass\<close>

lemma started_matches:
  assumes "started A0 e d a b" "IsEnabled d"
  shows "sound A0 (d_Name d) b" "matches d b"
  using assms by (auto simp: started_def matches_def)

lemma works_on_refresh: "works_on n a (refreshHardware e cfg a)"
  by (simp add: works_on_def refreshHardware_def Let_def act_def state_ok_def)

lemma view_refresh [simp]: "view n (refreshHardware e cfg a) = view n a"
  by (simp add: refreshHardware_def Let_def)

lemma act_refresh [simp]: "act A0 n (refreshHardware e cfg a) = act A0 n a"
  by (simp add: refreshHardware_def Let_def act_def)

lemma cfg_refresh [simp]: "ap_cfg (refreshHardware e cfg a) = ap_cfg a"
  by (simp add: refreshHardware_def Let_def)

definition due_done :: "string set \<Rightarrow> env \<Rightarrow> device \<Rightarrow> appliance \<Rightarrow> bool" where
  "due_done A0 e d a \<longleftrightarrow> sound A0 (d_Name d) a \<and> matches d a \<and> quiet (en_now e) (view (d_Name d) a)"

lemma quiet_mono: "quiet t v \<Longrightarrow> t' \<le> t \<Longrightarrow> quiet t' v"
  by (fastforce simp: quiet_def)

lemma started_due_done:
  "started A0 e d a b \<Longrightarrow> IsEnabled d \<Longrightarrow> valid_env e \<Longrightarrow> due_done A0 e d b"
  using started_matches quiet_mono unfolding due_done_def started_def valid_env_def by blast

text \<open>A device with a retry state is configured and enabled, its id is stable, and it serves or is down.\<close>

lemma retry_facts:
  assumes "sound A0 (d_Name d) a" "matches d a" "map_of (ap_retries a) (d_Name d) = Some st"
  obtains rt where "map_of (ap_devices a) (d_Name d) = Some rt" "IsEnabled d" "\<not> IsCardIndexID (d_Device d)"
    "d_Device (rt_dev rt) = d_Device d" "\<not> rt_superseded rt"
    "rt_state rt = StateServing \<and> retry_serving (map_of (ap_downReason a) (d_Name d)) (Some st) \<or>
     isDown (rt_state rt) \<and> retry_down (map_of (ap_downReason a) (d_Name d)) (rt_dev rt) (Some st)"
proof -
  obtain rt where rt: "map_of (ap_devices a) (d_Name d) = Some rt" "d_Device (rt_dev rt) = d_Device d"
      "rt_state rt = StateDisabled \<longleftrightarrow> \<not> IsEnabled d" "\<not> rt_superseded rt"
    using assms(2) by (auto simp: matches_def)
  show ?thesis
    using assms(1,3) rt by (cases "rt_state rt") (auto simp: sound_def dev_inv_def isDown_def intro!: that)
qed

lemma matches_keep:
  "v_rt (view (d_Name d) b) = v_rt (view (d_Name d) a) \<Longrightarrow> matches d b = matches d a"
  by (simp add: matches_def)

lemma retry_put:
  assumes sound: "sound A0 (d_Name d) a" and matches: "matches d a"
    and st: "map_of (ap_retries a) (d_Name d) = Some st"
    and serving: "map_of (ap_devices a) (d_Name d) = Some rt" "rt_state rt = StateServing"
    and st': "retry_serving (map_of (ap_downReason a) (d_Name d)) (Some st')"
    and quiet: "rs_settleAt st' = 0 \<or> en_now e < rs_settleAt st'"
  shows "works_on (d_Name d) a (set_retry (d_Name d) st' a) \<and> due_done A0 e d (set_retry (d_Name d) st' a)"
proof -
  have "rs_next st' = 0" using st' by (simp add: retry_serving_def)
  moreover have "agree A0 (d_Name d) (set_retry (d_Name d) st' a)" using sound by (simp add: sound_def agree_def)
  ultimately show ?thesis
    using sound matches st serving st' quiet
    by (simp add: due_done_def sound_def dev_inv_def quiet_def matches_keep[of d "set_retry (d_Name d) st' a" a])
qed

lemma set_retry_twice [simp]: "view n (set_retry m st (set_retry m st' a)) = view n (set_retry m st a)"
  by simp

lemma settled_done:
  assumes sound: "sound A0 (d_Name d) a" and matches: "matches d a"
    and st: "map_of (ap_retries a) (d_Name d) = Some st"
    and rt: "map_of (ap_devices a) (d_Name d) = Some rt" "rt_state rt = StateServing"
    and serving: "retry_serving (map_of (ap_downReason a) (d_Name d)) (Some st)"
    and now: "0 < en_now e" and st': "rs_recoveredAt st' = en_now e" "rs_settleAt st' = 0" "rs_next st' = 0"
    and b: "b = set_retry (d_Name d) st' (c\<lparr>ap_encodeFaults := AList.delete (d_Name d) (ap_encodeFaults c)\<rparr>)"
    and c: "works_on (d_Name d) a c" "v_rt (view (d_Name d) c) = Some rt" "agree A0 (d_Name d) c"
  shows "works_on (d_Name d) a (finishRecovery (d_Name d) rt b) \<and> due_done A0 e d (finishRecovery (d_Name d) rt b)"
proof -
  let ?n = "d_Name d" and ?c = "finishRecovery (d_Name d) rt b"
  have "works_on ?n c (c\<lparr>ap_encodeFaults := AList.delete ?n (ap_encodeFaults c)\<rparr>)"
    by (auto simp: works_on_def view_def act_def delete_conv' state_ok_def distinct_delete)
  then have "works_on ?n a (c\<lparr>ap_encodeFaults := AList.delete ?n (ap_encodeFaults c)\<rparr>)"
    by (rule works_on_trans[OF c(1)])
  then have works: "works_on ?n a ?c"
    unfolding b by (rule works_on_trans[OF works_on_trans[OF _ works_on_ops(2)] finishRecovery_works])
  have vb: "view ?n b = (view ?n c)\<lparr>v_retry := Some st', v_fault := None\<rparr>"
    unfolding b by (simp add: view_def update_conv' delete_conv' set_retry_def)
  have vc: "view ?n ?c = (view ?n c)\<lparr>v_retry := Some st', v_fault := None, v_reason := None\<rparr>"
    by (simp only: finishRecovery_view vb)
  have "agree A0 ?n b"
  proof -
    have "act A0 ?n b = act A0 ?n c" unfolding b by (simp add: act_def set_retry_def)
    then show ?thesis using c(3) unfolding agree_def vb by simp
  qed
  then have agree: "agree A0 ?n ?c" by (rule finishRecovery_agree)
  have "d_Name (rt_dev rt) = ?n" "\<not> IsCardIndexID (d_Device (rt_dev rt))"
    using sound rt st by (simp_all add: sound_def dev_inv_def)
  then have "dev_inv ?n (view ?n ?c)"
    unfolding dev_inv_def vc using c(2) rt now st' by (simp add: retry_serving_def)
  then have "sound A0 ?n ?c" using agree by (simp add: sound_def)
  moreover have "matches d ?c"
    using matches rt(1) c(2) matches_keep[of d ?c a] unfolding vc by simp
  moreover have "quiet (en_now e) (view ?n ?c)" unfolding vc using st' by (simp add: quiet_def)
  ultimately show ?thesis using works by (simp add: due_done_def)
qed

lemma settle_due_done:
  assumes sound: "sound A0 (d_Name d) a" and matches: "matches d a"
    and st: "map_of (ap_retries a) (d_Name d) = Some st"
    and due: "\<not> rs_awaitEncode st" "rs_settleAt st \<noteq> 0" and now: "0 < en_now e"
  shows "works_on (d_Name d) a (snd (settle_due e d st (p, a))) \<and> due_done A0 e d (snd (settle_due e d st (p, a)))"
proof -
  let ?n = "d_Name d" and ?st = "st\<lparr>rs_settleAt := 0\<rparr>"
  let ?a = "set_retry ?n ?st a"
  obtain rt where rt0: "map_of (ap_devices a) ?n = Some rt"
    and state: "rt_state rt = StateServing \<and> retry_serving (map_of (ap_downReason a) ?n) (Some st) \<or>
      isDown (rt_state rt) \<and> retry_down (map_of (ap_downReason a) ?n) (rt_dev rt) (Some st)"
    by (rule retry_facts[OF sound matches st])
  have rt: "map_of (ap_devices a) ?n = Some rt" "rt_state rt = StateServing"
      "retry_serving (map_of (ap_downReason a) ?n) (Some st)"
    using rt0 state due(2) by (auto simp: retry_down_def)
  have devs: "map_of (ap_devices ?a) ?n = Some rt" using rt(1) by simp
  have twice: "set_retry ?n s ?a = set_retry ?n s a" for s
    by (simp add: set_retry_def)
  let ?enc = "settleFromEncode (en_now e) ?st" and ?aw = "?st\<lparr>rs_awaitEncode := True\<rparr>"
  let ?fin = "?st\<lparr>rs_recoveredAt := en_now e, rs_encodeSeen := False\<rparr>"
  have later: "0 < retrySettle" by (simp add: retrySettle_def second_def millisecond_def)
  have enc: "retry_serving (map_of (ap_downReason a) ?n) (Some ?enc)" "rs_settleAt ?enc = 0 \<or> en_now e < rs_settleAt ?enc"
    and aw: "retry_serving (map_of (ap_downReason a) ?n) (Some ?aw)"
    using rt(3) now later by (simp_all add: retry_serving_def settleFromEncode_def)
  note put_enc = retry_put[OF sound matches st rt(1,2) enc] and put_aw = retry_put[OF sound matches st rt(1,2) aw]
  have next0: "rs_next ?fin = 0" using rt(3) by (simp add: retry_serving_def)
  have agree: "agree A0 ?n ?a" using sound by (simp add: sound_def agree_def)
  note finished = settled_done[OF sound matches st rt now, of ?fin, OF _ _ next0 refl, of ?a, OF _ _ works_on_ops(2) _ agree]
  have split: "snd (settle_due e d st (p, a)) =
      (if faultedPaths ?a ?n \<noteq> [] \<and> \<not> rs_encodeSeen st
       then if encodedAll rt (faultedPaths ?a ?n) then set_retry ?n ?enc a else set_retry ?n ?aw a
       else finishRecovery ?n rt (set_retry ?n ?fin (?a\<lparr>ap_encodeFaults := AList.delete ?n (ap_encodeFaults ?a)\<rparr>)))"
    by (simp add: settle_due_def twice Let_def rt(1,2))
  have "works_on ?n a (finishRecovery ?n rt (set_retry ?n ?fin (?a\<lparr>ap_encodeFaults := AList.delete ?n (ap_encodeFaults ?a)\<rparr>)))
      \<and> due_done A0 e d (finishRecovery ?n rt (set_retry ?n ?fin (?a\<lparr>ap_encodeFaults := AList.delete ?n (ap_encodeFaults ?a)\<rparr>)))"
    by (rule finished) (simp_all add: rt(1))
  then show ?thesis unfolding split using put_enc put_aw by simp
qed

lemma attempt_due_done:
  assumes sound: "sound A0 (d_Name d) a" and matches: "matches d a"
    and st: "map_of (ap_retries a) (d_Name d) = Some st" and due: "rs_next st \<noteq> 0" and env: "valid_env e"
  shows "works_on (d_Name d) a (snd (attempt_due e d st (p, a))) \<and> due_done A0 e d (snd (attempt_due e d st (p, a)))"
proof -
  let ?n = "d_Name d"
  let ?a = "set_retry ?n (st\<lparr>rs_next := 0\<rparr>) a"
  let ?b = "if ps_attempted p then ?a else refreshHardware e (ap_cfg ?a) ?a"
  obtain rt where rt0: "map_of (ap_devices a) ?n = Some rt" "IsEnabled d" "\<not> IsCardIndexID (d_Device d)"
    and state: "rt_state rt = StateServing \<and> retry_serving (map_of (ap_downReason a) ?n) (Some st) \<or>
      isDown (rt_state rt) \<and> retry_down (map_of (ap_downReason a) ?n) (rt_dev rt) (Some st)"
    by (rule retry_facts[OF sound matches st])
  have down: "isDown (rt_state rt)" "retry_down (map_of (ap_downReason a) ?n) (rt_dev rt) (Some st)"
    using state due by (auto simp: retry_serving_def)
  have vb: "view ?n ?b = (view ?n a)\<lparr>v_retry := Some (st\<lparr>rs_next := 0\<rparr>)\<rparr>" by simp
  have "agree A0 ?n ?b"
    using sound unfolding agree_def vb by (simp add: sound_def agree_def)
  moreover have "ready (v_retry (view ?n ?b))" "v_reason (view ?n ?b) \<noteq> None"
    unfolding vb using down(2) by (auto simp: ready_def retry_down_def)
  moreover have "\<forall>f. v_fault (view ?n ?b) = Some f \<longrightarrow> \<not> IsCardIndexID (d_Device (ef_dev f))"
    unfolding vb using sound by (simp add: sound_def dev_inv_def)
  ultimately have attempt: "started A0 e d ?b (snd (attemptRetry e d ?b))"
    by (intro attempt_started valid_clock[OF env] rt0(3))
  have works: "works_on ?n a ?b"
    using works_on_trans[OF works_on_ops(2) works_on_refresh] by simp
  have started: "started A0 e d a (snd (attemptRetry e d ?b))" by (rule started_after[OF works attempt])
  have eq: "snd (attempt_due e d st (p, a)) = snd (attemptRetry e d ?b)"
    using rt0(1) down(1) by (simp add: attempt_due_def Let_def split: prod.split)
  have "works_on ?n a (snd (attemptRetry e d ?b))" using started unfolding started_def by blast
  then show ?thesis using started_due_done[OF started rt0(2) env] unfolding eq by blast
qed

lemma retry_device_done:
  assumes sound: "sound A0 (d_Name d) a" and matches: "matches d a" and env: "valid_env e"
  shows "works_on (d_Name d) a (snd (retry_device e d (p, a))) \<and> due_done A0 e d (snd (retry_device e d (p, a)))"
proof (cases "map_of (ap_retries a) (d_Name d)")
  case None
  then show ?thesis using sound matches by (simp add: retry_device_def due_done_def quiet_def)
next
  case (Some st)
  have now: "0 < en_now e" using env by (simp add: valid_env_def)
  obtain rt where rt0: "map_of (ap_devices a) (d_Name d) = Some rt"
    and state: "rt_state rt = StateServing \<and> retry_serving (map_of (ap_downReason a) (d_Name d)) (Some st) \<or>
      isDown (rt_state rt) \<and> retry_down (map_of (ap_downReason a) (d_Name d)) (rt_dev rt) (Some st)"
    by (rule retry_facts[OF sound matches Some])
  show ?thesis
  proof (cases "rs_awaitEncode st")
    case True
    then have serving: "rt_state rt = StateServing" "retry_serving (map_of (ap_downReason a) (d_Name d)) (Some st)"
      using state by (auto simp: retry_down_def)
    let ?enc = "settleFromEncode (en_now e) st"
    have later: "0 < retrySettle" by (simp add: retrySettle_def second_def millisecond_def)
    have enc: "retry_serving (map_of (ap_downReason a) (d_Name d)) (Some ?enc)" "rs_settleAt ?enc = 0 \<or> en_now e < rs_settleAt ?enc"
      using serving(2) now later by (simp_all add: retry_serving_def settleFromEncode_def)
    have "quiet (en_now e) (view (d_Name d) a)"
      using Some True serving(2) by (simp add: quiet_def retry_serving_def)
    then show ?thesis
      using retry_put[OF sound matches Some rt0 serving(1) enc] Some True rt0 serving(1) sound matches
      by (simp add: retry_device_def due_done_def Let_def)
  next
    case False
    consider (settle) "rs_settleAt st \<noteq> 0" "\<not> en_now e < rs_settleAt st"
      | (attempt) "\<not> (rs_settleAt st \<noteq> 0 \<and> \<not> en_now e < rs_settleAt st)" "rs_next st \<noteq> 0" "\<not> en_now e < rs_next st"
      | (none) "rs_settleAt st = 0 \<or> en_now e < rs_settleAt st" "rs_next st = 0 \<or> en_now e < rs_next st" by blast
    then show ?thesis
    proof cases
      case settle
      then show ?thesis
        using settle_due_done[OF sound matches Some False settle(1) now] Some False
        by (simp add: retry_device_def is_zero_def)
    next
      case attempt
      have "retry_device e d (p, a) = attempt_due e d st (p, a)"
        using attempt Some False by (auto simp: retry_device_def is_zero_def)
      then show ?thesis using attempt_due_done[OF sound matches Some attempt(2) env] by simp
    next
      case none
      have "retry_device e d (p, a) = (p, a)" using none Some False by (auto simp: retry_device_def is_zero_def)
      then show ?thesis using sound matches none Some by (simp add: due_done_def quiet_def)
    qed
  qed
qed

subsection \<open>The pass as a whole\<close>

lemma works_in_keeps: "(\<And>n. keeps_view n a b) \<Longrightarrow> works_in {} a b"
  by (simp add: keeps_view_def works_on_def works_in_def)

lemma pruneGeometry_keeps: "works_in {} a (pruneGeometry a)"
proof -
  have "works_in {} a (fold (\<lambda>m a. if \<not> enabledInConfig a m then dropGeometry m r a else a) ms a)" for ms r
  proof (induction ms arbitrary: a)
    case (Cons m ms)
    have "works_in {} a (if \<not> enabledInConfig a m then dropGeometry m r a else a)"
      by (simp add: works_in_keeps)
    from works_in_trans[OF this Cons.IH] show ?case by simp
  qed simp
  then show ?thesis by (simp add: pruneGeometry_def)
qed

lemma map_of_filter_name:
  "map_of (filter (\<lambda>(n, _). P n) xs) k = (if P k then map_of xs k else None)"
  by (induction xs) auto

lemma enabledInConfig_iff:
  assumes "distinct (map d_Name (c_Devices (ap_cfg a)))" "d \<in> set (c_Devices (ap_cfg a))"
  shows "enabledInConfig a (d_Name d) = IsEnabled d"
proof -
  have "distinct (map d_Name ds) \<Longrightarrow> d \<in> set ds \<Longrightarrow> List.find (\<lambda>x. d_Name x = d_Name d) ds = Some d" for ds
    by (induction ds) force+
  from this[OF assms] show ?thesis by (simp add: enabledInConfig_def)
qed

lemma held_enabled:
  assumes "base_inv A0 a" "v_retry (view n a) \<noteq> None \<or> v_fault (view n a) \<noteq> None"
  shows "enabledInConfig a n"
proof -
  have inv: "dev_inv n (view n a)" using assms(1) by (simp add: base_inv_def sound_def)
  have "v_rt (view n a) \<noteq> None"
  proof
    assume "v_rt (view n a) = None"
    then show False using inv assms(2) by (auto simp: dev_inv_def)
  qed
  then obtain rt where rt: "map_of (ap_devices a) n = Some rt" by auto
  then obtain d where d: "d \<in> set (c_Devices (ap_cfg a))" "d_Name d = n" "matches d a"
    using assms(1) by (fastforce simp: base_inv_def configured_def)
  have "rt_state rt \<noteq> StateDisabled" using inv rt assms(2) by (cases "rt_state rt") (auto simp: dev_inv_def)
  then have "IsEnabled d" using d rt by (simp add: matches_def)
  then show ?thesis using enabledInConfig_iff[of a d] assms(1) d by (simp add: base_inv_def configured_def)
qed

lemma drop_unconfigured_keeps:
  assumes "base_inv A0 a"
  shows "works_in {} a (drop_unconfigured a)"
proof -
  let ?b = "a\<lparr>ap_retries := filter (\<lambda>(n, _). enabledInConfig a n) (ap_retries a),
     ap_encodeFaults := filter (\<lambda>(n, _). enabledInConfig a n) (ap_encodeFaults a)\<rparr>"
  have "view n ?b = view n a" for n
  proof (cases "enabledInConfig a n")
    case False
    then have "map_of (ap_retries a) n = None" "map_of (ap_encodeFaults a) n = None"
      using held_enabled[OF assms, of n] by (auto simp del: not_None_eq)
    then show ?thesis by (simp add: view_def map_of_filter_name)
  qed (simp add: view_def map_of_filter_name)
  then have "works_in {} a ?b" by (simp add: works_in_def act_def state_ok_def map_fst_filter_distinct)
  from works_in_trans[OF this pruneGeometry_keeps] show ?thesis by (simp add: drop_unconfigured_def)
qed

lemma local_due_done: "local_prop (d_Name d) (due_done A0 e d)"
  unfolding due_done_def by (intro local_conj local_sound local_matches local_view)

text \<open>What follows the pass touches neither devices nor retries.\<close>

lemma publish_keeps: "works_in {} a (publish cfg a)"
  by (simp add: works_in_def publish_def act_def state_ok_def)

lemma restartAnnounce_keeps: "works_in {} a (restartAnnounce v a)"
  by (simp add: works_in_def restartAnnounce_def act_def state_ok_def Let_def)

lemma refreshAnnounce_keeps: "works_in {} a (refreshAnnounce v a)"
  using restartAnnounce_keeps by (simp add: refreshAnnounce_def)

lemma arm_keeps: "works_in {} a (armRetryTimer a)"
  by (simp add: works_in_def) (simp add: armRetryTimer_def Let_def)

lemma same_views:
  assumes "works_in {} a b"
  shows "sound A0 n b = sound A0 n a" "matches d b = matches d a" "view n b = view n a" "ap_cfg b = ap_cfg a"
    "state_ok a \<Longrightarrow> state_ok b"
  using local_works[OF local_sound assms] local_works[OF local_matches assms] assms
  by (simp_all add: works_in_def)

lemma configured_same:
  assumes "works_in {} a b"
  shows "configured b = configured a"
proof -
  have "map_of (ap_devices b) n = map_of (ap_devices a) n" for n
    using same_views(3)[OF assms, of n] view_simps(1) by metis
  then show ?thesis using same_views[OF assms] by (simp add: configured_def)
qed

lemma base_inv_same: "works_in {} a b \<Longrightarrow> base_inv A0 a \<Longrightarrow> base_inv A0 b"
  by (simp add: base_inv_def same_views configured_same)

lemma inv_arm: "base_inv A0 a \<Longrightarrow> inv A0 (armRetryTimer a)"
  by (simp add: inv_def armed_arm base_inv_same[OF arm_keeps])

lemma onRetryDue_inv:
  assumes inv: "inv A0 a" and env: "valid_env e"
  shows "inv A0 (onRetryDue v e a) \<and> (\<forall>d \<in> set (c_Devices (ap_cfg a)). quiet (en_now e) (view (d_Name d) (onRetryDue v e a))) \<and>
    ap_cfg (onRetryDue v e a) = ap_cfg a"
proof -
  let ?z = "a\<lparr>ap_retryAt := 0\<rparr>"
  let ?a = "drop_unconfigured ?z" and ?p = "\<lparr>ps_attempted = False, ps_recovered = False, ps_reannounce = False\<rparr>"
  let ?ds = "c_Devices (ap_cfg a)"
  have z: "works_in {} a ?z" by (simp add: works_in_def act_def state_ok_def)
  then have "base_inv A0 ?z" using inv base_inv_same by (simp add: inv_def)
  then have a: "works_in {} a ?a" using works_in_trans[OF z drop_unconfigured_keeps] by simp
  then have ok: "base_inv A0 ?a" using inv base_inv_same by (simp add: inv_def)
  have cfg: "ap_cfg ?a = ap_cfg a" by (rule same_views(4)[OF a])
  obtain p b where pass: "fold (retry_device e) ?ds (?p, ?a) = (p, b)" by fastforce
  have "works_in (d_Name ` set ?ds) (snd (?p, ?a)) (snd (fold (retry_device e) ?ds (?p, ?a))) \<and>
    (\<forall>d \<in> set ?ds. due_done A0 e d (snd (fold (retry_device e) ?ds (?p, ?a))))"
  proof (rule fold_local[where pre = "\<lambda>d s. sound A0 (d_Name d) s \<and> matches d s"])
    fix d and s :: "pass \<times> appliance" assume "sound A0 (d_Name d) (snd s) \<and> matches d (snd s)"
    then show "works_on (d_Name d) (snd s) (snd (retry_device e d s)) \<and> due_done A0 e d (snd (retry_device e d s))"
      using retry_device_done[of A0 d "snd s" e "fst s"] env by simp
  qed (use ok cfg in \<open>simp_all add: base_inv_def configured_def local_conj local_sound local_matches local_due_done\<close>)
  then have works: "works_in (d_Name ` set ?ds) ?a b" and each: "\<forall>d \<in> set ?ds. due_done A0 e d b"
    using pass by simp_all
  have b: "base_inv A0 b" using inv_after[OF ok, of b] works each cfg by (simp add: due_done_def)
  let ?q = "if ps_attempted p then publish (ap_cfg b) b else b"
  let ?r = "if ps_recovered p \<or> ps_reannounce p then refreshAnnounce v ?q else ?q"
  have r: "works_in {} b ?r"
    using works_in_trans[OF publish_keeps refreshAnnounce_keeps] publish_keeps refreshAnnounce_keeps by simp
  have eq: "onRetryDue v e a = armRetryTimer ?r" using pass cfg by (simp add: onRetryDue_def Let_def)
  have "inv A0 (armRetryTimer ?r)" by (rule inv_arm[OF base_inv_same[OF r b]])
  moreover have "view n (armRetryTimer ?r) = view n b" for n using same_views(3)[OF r] by simp
  moreover have "ap_cfg (armRetryTimer ?r) = ap_cfg a"
    using same_views(4)[OF arm_keeps] same_views(4)[OF r] works cfg by (simp add: works_in_def)
  ultimately show ?thesis using each unfolding eq by (simp add: due_done_def)
qed

section \<open>Stopping, disabling and removing devices\<close>

lemma stop_device_works:
  "works_on n a (stop_device e n rt a)"
    "view n (stop_device e n rt a) = (view n a)\<lparr>v_rt := Some (rt\<lparr>rt_superseded := True\<rparr>)\<rparr>"
    "act A0 n (stop_device e n rt a) = act A0 n a"
proof -
  let ?p = "put_device n (rt\<lparr>rt_superseded := True\<rparr>) a"
  have keep: "keeps_view n ?p (geometryRunEnded e rt ?p)" by (rule keeps_view_geometryRunEnded)
  let ?g = "geometryRunEnded e rt ?p"
  have "works_on n a ?g" by (rule works_on_trans[OF works_on_ops(3) conjunct1[OF keep[unfolded keeps_view_def]]])
  then show "works_on n a (stop_device e n rt a)"
    by (simp add: stop_device_def Let_def works_on_def act_def state_ok_def)
  show "view n (stop_device e n rt a) = (view n a)\<lparr>v_rt := Some (rt\<lparr>rt_superseded := True\<rparr>)\<rparr>"
    using keep by (simp add: stop_device_def Let_def keeps_view_def)
  have "act A0 n ?g = act A0 n a" using keep by (simp add: keeps_view_def)
  then show "act A0 n (stop_device e n rt a) = act A0 n a"
    by (simp add: stop_device_def Let_def act_def)
qed

lemma stop_device_agree: "agree A0 n (stop_device e n rt a) = agree A0 n a"
  by (simp only: agree_def stop_device_works) simp

lemma stop_device_sound:
  assumes "map_of (ap_devices a) n = Some rt" "sound A0 n a"
  shows "sound A0 n (stop_device e n rt a)"
proof -
  have "dev_inv n (view n (stop_device e n rt a))"
    using assms stop_device_works(2)[of n e rt a] by (cases "rt_state rt") (simp_all add: sound_def dev_inv_def)
  moreover have "agree A0 n (stop_device e n rt a)"
    using assms stop_device_works(2)[of n e rt a] stop_device_works(3)[of A0 n e rt a] by (simp add: sound_def agree_def)
  ultimately show ?thesis by (simp add: sound_def)
qed

text \<open>A device the appliance holds nothing about.\<close>

definition blank :: "string set \<Rightarrow> string \<Rightarrow> appliance \<Rightarrow> bool" where
  "blank A0 n a \<longleftrightarrow> view n a = \<lparr>v_rt = None, v_reason = None, v_retry = None, v_fault = None\<rparr> \<and> \<not> act A0 n a"

lemma local_blank: "local_prop n (blank A0 n)"
  unfolding local_prop_def blank_def by metis

lemma blank_iff: "blank A0 n a \<longleftrightarrow> sound A0 n a \<and> map_of (ap_devices a) n = None"
  unfolding blank_def sound_def agree_def dev_inv_def
  by (cases "map_of (ap_devices a) n") (auto simp: view_def)

lemma forget_device_works:
  assumes "agree A0 n a"
  shows "works_on n a (forget_device n r a)"
    "view n (forget_device n r a) = (view n a)\<lparr>v_reason := None, v_retry := None, v_fault := None\<rparr>"
    "\<not> act A0 n (forget_device n r a)"
proof -
  let ?e = "emit [PResolve (deviceDownKey n) r] a"
  let ?d = "?e\<lparr>ap_downReason := AList.delete n (ap_downReason ?e), ap_retries := AList.delete n (ap_retries ?e),
      ap_encodeFaults := AList.delete n (ap_encodeFaults ?e)\<rparr>"
  have "works_on n a ?e" by (rule works_on_emit) simp
  moreover have "works_on n ?e ?d" by (auto simp: works_on_def view_def act_def delete_conv' state_ok_def distinct_delete)
  ultimately have d: "works_on n a ?d" by (rule works_on_trans)
  have keep: "keeps_view n ?d (forget_device n r a)" by (simp add: forget_device_def Let_def)
  show "works_on n a (forget_device n r a)" using keep works_on_trans[OF d] by (simp add: keeps_view_def)
  show "view n (forget_device n r a) = (view n a)\<lparr>v_reason := None, v_retry := None, v_fault := None\<rparr>"
    using keep by (simp add: keeps_view_def) (simp add: view_def emit_def delete_conv')
  have "act A0 n ?d = act A0 n ?e" by (simp add: act_def)
  then show "\<not> act A0 n (forget_device n r a)" using keep by (simp add: keeps_view_def act_emit)
qed

lemma disable_device_done:
  assumes agree: "agree A0 (d_Name d) a" and enabled: "IsEnabled d \<longrightarrow> sound A0 (d_Name d) a \<and> matches d a"
  shows "works_on (d_Name d) a (disable_device d a) \<and> sound A0 (d_Name d) (disable_device d a) \<and> matches d (disable_device d a)"
proof (cases "IsEnabled d")
  case True
  then show ?thesis using enabled by (simp add: disable_device_def)
next
  case False
  let ?n = "d_Name d"
  obtain hw r where eq: "disable_device d a = put_device ?n (disabled_record d hw) (forget_device ?n r a)"
    using False by (simp add: disable_device_def Let_def)
  note f = forget_device_works[OF agree, of r]
  have "agree A0 ?n (forget_device ?n r a)" using f(2,3) by (simp add: agree_def)
  then have "sound A0 ?n (disable_device d a)"
    using f(2) by (simp add: eq sound_def dev_inv_def agree_def disabled_record_def down_record_def)
  moreover have "matches d (disable_device d a)"
    using False by (simp add: eq matches_def update_conv' disabled_record_def down_record_def)
  moreover have "works_on ?n a (disable_device d a)" unfolding eq by (rule works_on_trans[OF f(1) works_on_ops(3)])
  ultimately show ?thesis by simp
qed

lemma remove_device_done:
  assumes sound: "sound A0 n a" and out: "n \<notin> set want"
  shows "works_on n a (remove_device e want (n, rt) a) \<and> blank A0 n (remove_device e want (n, rt) a)"
proof -
  let ?s = "if rt_state rt = StateServing \<and> \<not> rt_superseded rt then stop_device e n rt a else a"
  obtain r where eq: "remove_device e want (n, rt) a = (let b = forget_device n r ?s in b\<lparr>ap_devices := AList.delete n (ap_devices b)\<rparr>)"
    using out by (simp add: remove_device_def Let_def)
  have s: "works_on n a ?s" "agree A0 n ?s"
    using sound stop_device_works(1)[of n a e rt] by (simp_all add: sound_def stop_device_agree)
  note f = forget_device_works[OF s(2), of r]
  let ?b = "forget_device n r ?s"
  have "works_on n ?b (?b\<lparr>ap_devices := AList.delete n (ap_devices ?b)\<rparr>)"
    by (auto simp: works_on_def view_def act_def delete_conv' state_ok_def distinct_delete)
  then have "works_on n a (?b\<lparr>ap_devices := AList.delete n (ap_devices ?b)\<rparr>)"
    by (rule works_on_trans[OF works_on_trans[OF s(1) f(1)]])
  moreover have "act A0 n (?b\<lparr>ap_devices := AList.delete n (ap_devices ?b)\<rparr>) = act A0 n ?b" by (simp add: act_def)
  then have "blank A0 n (?b\<lparr>ap_devices := AList.delete n (ap_devices ?b)\<rparr>)"
    using f(2,3) by (simp add: blank_def)
  ultimately show ?thesis unfolding eq Let_def by (rule conjI)
qed

lemma remove_fold:
  assumes "\<forall>n. n \<notin> set want \<longrightarrow> sound A0 n a"
  shows "works_in (- set want) a (fold (remove_device e want) entries a) \<and>
    (\<forall>n. n \<notin> set want \<longrightarrow> sound A0 n (fold (remove_device e want) entries a)) \<and>
    (\<forall>n. n \<notin> set want \<and> (n \<in> fst ` set entries \<or> map_of (ap_devices a) n = None) \<longrightarrow>
       map_of (ap_devices (fold (remove_device e want) entries a)) n = None)"
  using assms
proof (induction entries arbitrary: a)
  case Nil
  then show ?case by simp
next
  case (Cons x entries)
  obtain m rt where x: "x = (m, rt)" by fastforce
  show ?case
  proof (cases "m \<in> set want")
    case True
    then have "remove_device e want x a = a" by (simp add: x remove_device_def)
    then show ?thesis using Cons.IH[OF Cons.prems] True x by auto
  next
    case False
    let ?b = "remove_device e want x a"
    have b: "works_on m a ?b" "blank A0 m ?b"
      using remove_device_done[of A0 m a want e rt] Cons.prems False x by auto
    have sound: "sound A0 n ?b" if "n \<notin> set want" for n
    proof (cases "n = m")
      case True
      then show ?thesis using b(2) by (simp add: blank_iff)
    next
      case False
      then show ?thesis using sound_other[OF b(1)] Cons.prems that by auto
    qed
    have none: "map_of (ap_devices ?b) n = None" if "n = m \<or> map_of (ap_devices a) n = None" for n
    proof (cases "n = m")
      case True
      then show ?thesis using b(2) by (simp add: blank_iff)
    next
      case False
      then have "v_rt (view n ?b) = v_rt (view n a)" using works_on_other[OF b(1)] by metis
      then show ?thesis using that False by simp
    qed
    have "works_in (- set want) a ?b"
      using b(1) False works_in_mono[of "{m}" a ?b "- set want"] by (simp add: works_on_in)
    then have "works_in (- set want) a (fold (remove_device e want) entries ?b)"
      using works_in_trans[of "- set want" a ?b "- set want"] Cons.IH[of ?b] sound by simp
    then show ?thesis using Cons.IH[of ?b] sound none x by auto
  qed
qed

lemma reconcileRecords_done:
  assumes distinct: "distinct (map d_Name (c_Devices cfg))" and agree: "\<forall>n. agree A0 n a" and timer: "state_ok a"
    and outside: "\<forall>n. n \<notin> d_Name ` set (c_Devices cfg) \<longrightarrow> sound A0 n a"
    and enabled: "\<forall>d \<in> set (c_Devices cfg). IsEnabled d \<longrightarrow> sound A0 (d_Name d) a \<and> matches d a"
  shows "inv A0 ((reconcileRecords e cfg a)\<lparr>ap_cfg := cfg\<rparr>)"
proof -
  let ?ds = "c_Devices cfg" and ?N = "d_Name ` set (c_Devices cfg)"
  let ?b = "fold disable_device ?ds a"
  let ?c = "fold (remove_device e (map d_Name ?ds)) (ap_devices ?b) ?b"
  have b: "works_in ?N a ?b" "\<forall>d \<in> set ?ds. sound A0 (d_Name d) ?b \<and> matches d ?b"
  proof -
    have "works_in ?N (id a) (id ?b) \<and> (\<forall>d \<in> set ?ds. sound A0 (d_Name d) (id ?b) \<and> matches d (id ?b))"
    proof (rule fold_local[where pre = "\<lambda>d s. agree A0 (d_Name d) s \<and> (IsEnabled d \<longrightarrow> sound A0 (d_Name d) s \<and> matches d s)"])
      show "local_prop (d_Name d) (\<lambda>s. agree A0 (d_Name d) s \<and> (IsEnabled d \<longrightarrow> sound A0 (d_Name d) s \<and> matches d s))" for d
        using local_agree local_sound local_matches unfolding local_prop_def by blast
      show "local_prop (d_Name d) (\<lambda>s. sound A0 (d_Name d) s \<and> matches d s)" for d
        by (intro local_conj local_sound local_matches)
    qed (use distinct agree enabled disable_device_done in auto)
    then show "works_in ?N a ?b" "\<forall>d \<in> set ?ds. sound A0 (d_Name d) ?b \<and> matches d ?b" by simp_all
  qed
  have "\<forall>n. n \<notin> set (map d_Name ?ds) \<longrightarrow> sound A0 n ?b"
    using local_works[OF local_sound b(1)] outside by simp
  note c = remove_fold[OF this, of e "ap_devices ?b"]
  have works: "works_in (- ?N) ?b ?c" using c by simp
  have each: "sound A0 (d_Name d) ?c \<and> matches d ?c" if "d \<in> set ?ds" for d
    using b(2) that local_works[OF local_sound works] local_works[OF local_matches works] by simp
  have sound: "sound A0 n ?c" for n
  proof (cases "n \<in> ?N")
    case True
    then show ?thesis using each by auto
  qed (use c in simp)
  have gone: "map_of (ap_devices ?c) n = None" if "n \<notin> ?N" for n
  proof -
    have "n \<in> fst ` set (ap_devices ?b) \<or> map_of (ap_devices ?b) n = None" by (simp add: map_of_eq_None_iff)
    then show ?thesis using c that by simp
  qed
  let ?d = "(armRetryTimer ?c)\<lparr>ap_cfg := cfg\<rparr>"
  have views: "view n ?d = view n ?c" "act A0 n ?d = act A0 n ?c" for n by (simp_all add: act_def)
  have "matches d ?d" if "d \<in> set ?ds" for d using each[OF that] by (simp add: matches_def)
  moreover have "n \<in> ?N" if "map_of (ap_devices ?d) n \<noteq> None" for n
  proof (rule ccontr)
    assume "n \<notin> ?N"
    from gone[OF this] that show False by simp
  qed
  ultimately have "configured ?d" using distinct by (simp add: configured_def)
  moreover have "\<forall>n. sound A0 n ?d" using sound sound_cong[OF views] by simp
  moreover have "state_ok ?d"
    using timer b(1) works state_ok_arm(1)[of ?c] by (simp add: works_in_def state_ok_def)
  moreover have "armed ?d" using armed_arm[of ?c] by (simp add: armed_def)
  ultimately show ?thesis by (simp add: inv_def base_inv_def reconcileRecords_def Let_def)
qed

lemma fold_keeps: "(\<And>x a. x \<in> set xs \<Longrightarrow> g (f x a) = g a) \<Longrightarrow> g (fold f xs a) = g a"
  by (induction xs arbitrary: a) simp_all

lemma cfg_ops [simp]:
  "ap_cfg (put_device m rt a) = ap_cfg a" "ap_cfg (emit cs a) = ap_cfg a" "ap_cfg (armRetryTimer a) = ap_cfg a"
  "ap_cfg (set_reason m c a) = ap_cfg a" "ap_cfg (set_retry m st a) = ap_cfg a" "ap_cfg (dropRetry m a) = ap_cfg a"
  by (simp_all add: put_device_def emit_def armRetryTimer_def set_reason_def set_retry_def dropRetry_def Let_def)

lemma cfg_geometry [simp]: "ap_cfg (dropGeometry m r a) = ap_cfg a" "ap_cfg (clearGeometry m r a) = ap_cfg a"
  "ap_cfg (geometryRunEnded e rt a) = ap_cfg a"
  by (simp_all add: dropGeometry_def clearGeometry_def geometryRunEnded_def Let_def split: option.split)

lemma cfg_forget [simp]: "ap_cfg (forget_device m r a) = ap_cfg a" "ap_cfg (stop_device e m rt a) = ap_cfg a"
  by (simp_all add: forget_device_def stop_device_def Let_def)

lemma reconcileRecords_cfg: "ap_cfg (reconcileRecords e cfg a) = ap_cfg a"
proof -
  have "ap_cfg (disable_device d a) = ap_cfg a" for d a by (simp add: disable_device_def Let_def)
  moreover have "ap_cfg (remove_device e want x a) = ap_cfg a" for want x a
    by (cases x) (simp add: remove_device_def Let_def)
  ultimately show ?thesis by (simp add: reconcileRecords_def Let_def fold_keeps)
qed

section \<open>A hardware change\<close>

lemma retry_down_device_done:
  assumes sound: "sound A0 (d_Name d) a" and matches: "matches d a" and env: "valid_env e"
  shows "works_on (d_Name d) a (snd (retry_down_device e d (s, a))) \<and>
    sound A0 (d_Name d) (snd (retry_down_device e d (s, a))) \<and> matches d (snd (retry_down_device e d (s, a)))"
proof -
  let ?b = "snd (retry_down_device e d (s, a))"
  obtain rt where rt: "map_of (ap_devices a) (d_Name d) = Some rt" using matches by (auto simp: matches_def)
  show ?thesis
  proof (cases "\<not> IsEnabled d \<or> IsCardIndexID (d_Device d) \<or> \<not> isDown (rt_state rt)")
    case True
    then show ?thesis using sound matches rt by (auto simp: retry_down_device_def)
  next
    case False
    have agree: "agree A0 (d_Name d) a" using sound by (simp add: sound_def)
    have "started A0 e d a ?b"
    proof (cases "length (faultedPaths a (d_Name d)) > 0")
      case True
      then have "?b = snd (restartFaulted e d False a)" using rt False by (simp add: retry_down_device_def Let_def)
      then show ?thesis using restart_started[OF sound rt, of e False] False valid_clock[OF env] by simp
    next
      case paths: False
      then have "?b = startDevice e d a" using rt False by (simp add: retry_down_device_def Let_def)
      then show ?thesis using start_started[OF agree valid_clock[OF env]] by simp
    qed
    then show ?thesis using started_matches False unfolding started_def by blast
  qed
qed

lemma retryDown_inv:
  assumes inv: "inv A0 a" and env: "valid_env e"
  shows "inv A0 (retryDown v e a) \<and> ap_cfg (retryDown v e a) = ap_cfg a"
proof -
  let ?ds = "c_Devices (ap_cfg a)"
  let ?a = "refreshHardware e (ap_cfg a) a"
  have a: "works_in {} a ?a" by (simp add: works_in_def state_ok_def) (simp add: refreshHardware_def Let_def)
  then have ok: "base_inv A0 ?a" using inv base_inv_same by (simp add: inv_def)
  obtain s b where pass: "fold (retry_down_device e) ?ds (False, ?a) = (s, b)" by fastforce
  have "works_in (d_Name ` set ?ds) (snd (False, ?a)) (snd (fold (retry_down_device e) ?ds (False, ?a))) \<and>
    (\<forall>d \<in> set ?ds. sound A0 (d_Name d) (snd (fold (retry_down_device e) ?ds (False, ?a))) \<and>
       matches d (snd (fold (retry_down_device e) ?ds (False, ?a))))"
  proof (rule fold_local[where pre = "\<lambda>d s. sound A0 (d_Name d) s \<and> matches d s"])
    fix d and s :: "bool \<times> appliance" assume "sound A0 (d_Name d) (snd s) \<and> matches d (snd s)"
    then show "works_on (d_Name d) (snd s) (snd (retry_down_device e d s)) \<and>
        sound A0 (d_Name d) (snd (retry_down_device e d s)) \<and> matches d (snd (retry_down_device e d s))"
      using retry_down_device_done[of A0 d "snd s" e "fst s"] env by simp
  qed (use ok in \<open>simp_all add: base_inv_def configured_def local_conj local_sound local_matches\<close>)
  then have works: "works_in (d_Name ` set ?ds) ?a b" and each: "\<forall>d \<in> set ?ds. sound A0 (d_Name d) b \<and> matches d b"
    using pass by simp_all
  have b: "base_inv A0 b" using inv_after[OF ok, of b] works each by simp
  have cfg: "ap_cfg b = ap_cfg a" using works by (simp add: works_in_def)
  let ?c = "reconcileRecords e (ap_cfg b) b"
  have "inv A0 (?c\<lparr>ap_cfg := ap_cfg b\<rparr>)"
    by (rule reconcileRecords_done) (use b in \<open>simp_all add: base_inv_def configured_def sound_def\<close>)
  moreover have "?c\<lparr>ap_cfg := ap_cfg b\<rparr> = ?c" using reconcileRecords_cfg[of e "ap_cfg b" b] by simp
  ultimately have c: "base_inv A0 ?c" by (simp add: inv_def)
  let ?p = "publish (ap_cfg b) ?c"
  let ?r = "if s then refreshAnnounce v ?p else ?p"
  have r: "works_in {} ?c ?r"
    using works_in_trans[OF publish_keeps refreshAnnounce_keeps] publish_keeps by simp
  have "retryDown v e a = armRetryTimer ?r" using pass cfg by (simp add: retryDown_def Let_def reconcileRecords_cfg)
  moreover have "ap_cfg ?r = ap_cfg a" using same_views(4)[OF r] reconcileRecords_cfg cfg by simp
  ultimately show ?thesis using inv_arm[OF base_inv_same[OF r c]] by simp
qed

section \<open>A reload\<close>

lemma running_iff:
  assumes "distinct (map fst (ap_devices a))"
  shows "map_of (runningParams a) n = Some dev \<longleftrightarrow>
    (\<exists>rt. map_of (ap_devices a) n = Some rt \<and> rt_state rt = StateServing \<and> rt_dev rt = dev)"
proof -
  have "map_of (map (\<lambda>(n, rt). (n, rt_dev rt)) (filter (\<lambda>(n, rt). rt_state rt = StateServing) xs)) n = Some dev \<longleftrightarrow>
      (\<exists>rt. map_of xs n = Some rt \<and> rt_state rt = StateServing \<and> rt_dev rt = dev)"
    if "distinct (map fst xs)" for xs
    using that
  proof (induction xs)
    case (Cons x xs)
    obtain m rt where x: "x = (m, rt)" by fastforce
    have "map_of xs m = None" using Cons.prems x by (simp add: map_of_eq_None_iff)
    then show ?case using Cons x by auto
  qed simp
  from this[OF assms] show ?thesis by (simp add: runningParams_def)
qed

lemma running_distinct: "distinct (map fst (ap_devices a)) \<Longrightarrow> distinct (map fst (runningParams a))"
proof -
  have "map fst (map (\<lambda>(n, rt). (n, rt_dev rt)) xs) = map fst xs" for xs :: "(string \<times> runtime) list"
    by (induction xs) auto
  then show "distinct (map fst (ap_devices a)) \<Longrightarrow> distinct (map fst (runningParams a))"
    by (simp only: runningParams_def map_fst_filter_distinct)
qed

lemma stop_serving_works:
  "works_on n a (stop_serving e n a)" "sound A0 n a \<Longrightarrow> sound A0 n (stop_serving e n a)"
  using stop_device_works(1) stop_device_sound by (simp_all add: stop_serving_def split: option.split)

lemma stop_all:
  assumes "\<forall>n. sound A0 n a"
  shows "works_in (set ns) a (fold (stop_serving e) ns a) \<and> (\<forall>n. sound A0 n (fold (stop_serving e) ns a))"
  using assms
proof (induction ns arbitrary: a)
  case (Cons n ns)
  have "sound A0 m (stop_serving e n a)" for m
    using stop_serving_works sound_other[OF stop_serving_works(1)] Cons.prems by (cases "m = n") auto
  moreover have "works_in {n} a (stop_serving e n a)" using stop_serving_works(1) by (simp add: works_on_in)
  ultimately show ?case
    using works_in_trans[of "{n}" a "stop_serving e n a" "set ns"] Cons.IH[of "stop_serving e n a"] by simp
qed simp

lemma start_planned_done:
  assumes sound: "sound A0 (d_Name d) a" and enabled: "IsEnabled d" and env: "valid_env e"
    and idle: "\<forall>rt. map_of (ap_devices a) (d_Name d) = Some rt \<longrightarrow> rt_state rt \<noteq> StateServing"
  shows "works_on (d_Name d) a (start_planned e d a) \<and> sound A0 (d_Name d) (start_planned e d a) \<and> matches d (start_planned e d a)"
proof -
  have "agree A0 (d_Name d) a" using sound by (simp add: sound_def)
  note start = start_started[OF this valid_clock[OF env]]
  have "started A0 e d a (start_planned e d a)"
  proof (cases "map_of (ap_encodeFaults a) (d_Name d)")
    case None
    then show ?thesis using start by (simp add: start_planned_def)
  next
    case (Some f)
    show ?thesis
    proof (cases "CaptureParamsEqual (ef_dev f) d")
      case True
      have inv: "dev_inv (d_Name d) (view (d_Name d) a)" using sound by (simp add: sound_def)
      then have "map_of (ap_devices a) (d_Name d) \<noteq> None"
        using Some by (cases "map_of (ap_devices a) (d_Name d)") (simp_all add: dev_inv_def)
      then obtain rt where rt: "map_of (ap_devices a) (d_Name d) = Some rt" by auto
      have down: "isDown (rt_state rt)"
        using inv rt idle Some by (cases "rt_state rt") (auto simp: dev_inv_def isDown_def)
      have "\<not> IsCardIndexID (d_Device d)"
        using inv Some True by (simp add: dev_inv_def CaptureParamsEqual_def)
      then show ?thesis
        using restart_started[OF sound rt down _ valid_clock[OF env], of True] Some True by (simp add: start_planned_def)
    next
      case False
      then show ?thesis using start Some by (simp add: start_planned_def)
    qed
  qed
  then show ?thesis using started_matches enabled unfolding started_def by blast
qed

lemma distinct_sort_names: "distinct (map d_Name (sort_key k ds)) \<longleftrightarrow> distinct (map d_Name ds)"
  by (simp add: distinct_map)

lemma sound_all:
  assumes "works_in (d_Name ` set ds) a b" "\<forall>n. sound A0 n a" "\<forall>d \<in> set ds. sound A0 (d_Name d) b"
  shows "sound A0 n b"
  using assms local_works[OF local_sound assms(1)] by (cases "n \<in> d_Name ` set ds") auto

lemma start_all:
  assumes "distinct (map d_Name ds)" "\<forall>d \<in> set ds. IsEnabled d" and sound: "\<forall>n. sound A0 n a" and env: "valid_env e"
  shows "works_in (d_Name ` set ds) a (fold (startDevice e) ds a) \<and> (\<forall>n. sound A0 n (fold (startDevice e) ds a)) \<and>
    (\<forall>d \<in> set ds. matches d (fold (startDevice e) ds a))"
proof -
  let ?b = "fold (startDevice e) ds a"
  have "works_in (d_Name ` set ds) (id a) (id ?b) \<and> (\<forall>d \<in> set ds. sound A0 (d_Name d) (id ?b) \<and> matches d (id ?b))"
  proof (rule fold_local[where pre = "\<lambda>d s. agree A0 (d_Name d) s"])
    fix d s assume "d \<in> set ds" "agree A0 (d_Name d) (id s)"
    then have "started A0 e d s (startDevice e d s)" "IsEnabled d" using start_started valid_clock[OF env] assms(2) by simp_all
    then show "works_on (d_Name d) (id s) (id (startDevice e d s)) \<and>
        sound A0 (d_Name d) (id (startDevice e d s)) \<and> matches d (id (startDevice e d s))"
      using started_matches unfolding started_def id_def by blast
  qed (use assms(1) sound in \<open>simp_all add: local_conj local_sound local_matches local_agree, simp_all add: sound_def\<close>)
  then have b: "works_in (d_Name ` set ds) a ?b" "\<forall>d \<in> set ds. sound A0 (d_Name d) ?b \<and> matches d ?b" by simp_all
  show ?thesis using b sound_all[OF b(1) sound] by blast
qed

lemma start_planned_all:
  assumes "distinct (map d_Name ds)" "\<forall>d \<in> set ds. IsEnabled d" and sound: "\<forall>n. sound A0 n a" and env: "valid_env e"
    and idle: "\<forall>d \<in> set ds. \<forall>rt. v_rt (view (d_Name d) a) = Some rt \<longrightarrow> rt_state rt \<noteq> StateServing"
  shows "works_in (d_Name ` set ds) a (fold (start_planned e) ds a) \<and> (\<forall>n. sound A0 n (fold (start_planned e) ds a)) \<and>
    (\<forall>d \<in> set ds. matches d (fold (start_planned e) ds a))"
proof -
  let ?b = "fold (start_planned e) ds a"
  let ?pre = "\<lambda>d s. sound A0 (d_Name d) s \<and> (\<forall>rt. v_rt (view (d_Name d) s) = Some rt \<longrightarrow> rt_state rt \<noteq> StateServing)"
  have "works_in (d_Name ` set ds) (id a) (id ?b) \<and> (\<forall>d \<in> set ds. sound A0 (d_Name d) (id ?b) \<and> matches d (id ?b))"
  proof (rule fold_local[where pre = ?pre])
    fix d s assume "d \<in> set ds" "?pre d (id s)"
    then show "works_on (d_Name d) (id s) (id (start_planned e d s)) \<and>
        sound A0 (d_Name d) (id (start_planned e d s)) \<and> matches d (id (start_planned e d s))"
      using start_planned_done[of A0 d s e] assms(2) env by simp
  next
    fix d assume "d \<in> set ds"
    then show "?pre d (id a)" using idle sound by simp
    show "local_prop (d_Name d) (?pre d)"
      by (intro local_conj local_sound local_view[of "d_Name d" "\<lambda>v. \<forall>rt. v_rt v = Some rt \<longrightarrow> rt_state rt \<noteq> StateServing"])
  qed (use assms(1) in \<open>simp_all add: local_conj local_sound local_matches\<close>)
  then have b: "works_in (d_Name ` set ds) a ?b" "\<forall>d \<in> set ds. sound A0 (d_Name d) ?b \<and> matches d ?b" by simp_all
  show ?thesis using b sound_all[OF b(1) sound] by blast
qed

lemma served_matches:
  assumes "base_inv A0 a" "map_of (ap_devices a) (d_Name d) = Some rt" "rt_state rt = StateServing"
    "d_Device (rt_dev rt) = d_Device d" "IsEnabled d"
  shows "matches d a"
proof -
  obtain d' where "d' \<in> set (c_Devices (ap_cfg a))" "d_Name d' = d_Name d" "matches d' a"
    using assms(1,2) by (fastforce simp: base_inv_def configured_def)
  then show ?thesis using assms by (auto simp: matches_def)
qed

lemma run_plan_done:
  assumes ok: "base_inv A0 a" and env: "valid_env e" and names: "distinct (map d_Name (c_Devices cfg))"
  defines "plan \<equiv> Reconcile (runningParams a) cfg"
  shows "(\<forall>n. sound A0 n (run_plan e cfg plan a)) \<and> state_ok (run_plan e cfg plan a) \<and>
    (\<forall>d \<in> set (c_Devices cfg). IsEnabled d \<longrightarrow> matches d (run_plan e cfg plan a))"
proof -
  let ?starts = "sort_key (\<lambda>d. config_order cfg (d_Name d)) (p_Start plan)"
  let ?restarts = "sort_key (\<lambda>d. config_order cfg (d_Name d)) (p_Restart plan)"
  let ?run = "runningParams a" and ?b = "run_plan e cfg plan a"
  have keys: "distinct (map fst (ap_devices a))" using ok by (simp add: base_inv_def state_ok_def)
  note running = running_iff[OF keys] and dr = running_distinct[OF keys]
  note start = set_Start[OF dr, of _ cfg, folded plan_def] and restart = set_Restart[OF dr, of _ cfg, folded plan_def]
    and stop = set_Stop[of _ ?run cfg, folded plan_def] and desired = desiredEnabled_map[OF names]
  have distinct: "distinct (map d_Name ?starts)" "distinct (map d_Name ?restarts)"
    using plan_sorted[OF dr, of cfg] sorted_wrt_less_distinct unfolding distinct_sort_names plan_def by blast+
  have enabled: "\<forall>d \<in> set ?starts. IsEnabled d" "\<forall>d \<in> set ?restarts. IsEnabled d" using start restart desired by simp_all
  let ?R = "d_Name ` set (p_Restart plan)"
  let ?a1 = "fold (stop_serving e) (p_Stop plan) a"
  let ?a2 = "fold (stop_serving e) (map d_Name ?restarts) ?a1"
  let ?a3 = "fold (startDevice e) ?restarts ?a2"
  have b: "?b = fold (start_planned e) ?starts ?a3" by (simp add: run_plan_def Let_def)
  have a1: "works_in (set (p_Stop plan)) a ?a1" "\<forall>n. sound A0 n ?a1"
    using stop_all[of A0 a "p_Stop plan" e] ok by (simp_all add: base_inv_def)
  have a2: "works_in ?R ?a1 ?a2" "\<forall>n. sound A0 n ?a2"
    using stop_all[OF a1(2), of "map d_Name ?restarts" e] by simp_all
  have a3: "works_in ?R ?a2 ?a3" "\<forall>n. sound A0 n ?a3" "\<forall>d \<in> set (p_Restart plan). matches d ?a3"
    using start_all[OF distinct(2) enabled(2) a2(2) env] by simp_all
  have untouched: "view n ?a3 = view n a" if "n \<notin> set (p_Stop plan) \<union> ?R" for n
    using that a1(1) a2(1) a3(1) by (simp add: works_in_def)
  have touched: "map_of ?run n \<noteq> None" if "n \<in> set (p_Stop plan) \<union> ?R" for n
  proof (cases "n \<in> set (p_Stop plan)")
    case True
    then have "n \<in> fst ` set ?run" using stop by simp
    then show ?thesis by (metis map_of_eq_None_iff)
  next
    case False
    then show ?thesis using that restart by auto
  qed
  have idle: "\<forall>d \<in> set ?starts. \<forall>rt. v_rt (view (d_Name d) ?a3) = Some rt \<longrightarrow> rt_state rt \<noteq> StateServing"
  proof (intro ballI allI impI)
    fix d rt assume d: "d \<in> set ?starts" and rt: "v_rt (view (d_Name d) ?a3) = Some rt"
    have none: "map_of ?run (d_Name d) = None" using d start by simp
    have "d_Name d \<notin> set (p_Stop plan) \<union> ?R" using touched none by blast
    then have "map_of (ap_devices a) (d_Name d) = Some rt" using untouched rt by (metis view_simps(1))
    then show "rt_state rt \<noteq> StateServing" using running[of "d_Name d" "rt_dev rt"] none by auto
  qed
  have a4: "works_in (d_Name ` set (p_Start plan)) ?a3 ?b" "\<forall>n. sound A0 n ?b" "\<forall>d \<in> set (p_Start plan). matches d ?b"
    using start_planned_all[OF distinct(1) enabled(1) a3(2) env idle] unfolding b by simp_all
  moreover have "state_ok ?b" using ok a1(1) a2(1) a3(1) a4(1) by (simp add: works_in_def base_inv_def)
  moreover have "matches d ?b" if d: "d \<in> set (c_Devices cfg)" "IsEnabled d" for d
  proof -
    have want: "map_of (desiredEnabled cfg) (d_Name d) = Some d" using d desired by simp
    have here: "d' = d" if "map_of (desiredEnabled cfg) (d_Name d') = Some d'" "d_Name d' = d_Name d" for d'
      using that want by simp
    show ?thesis
    proof (cases "map_of ?run (d_Name d)")
      case None
      then show ?thesis using a4(3) start want by simp
    next
      case (Some cur)
      then have notin: "d_Name d \<notin> d_Name ` set (p_Start plan)" using start here by auto
      then have eq: "matches d ?b = matches d ?a3" using local_works[OF local_matches a4(1)] by blast
      show ?thesis
      proof (cases "CaptureParamsEqual cur d")
        case False
        then show ?thesis using a3(3) restart want Some eq by simp
      next
        case True
        have "d_Name d \<notin> ?R"
        proof
          assume "d_Name d \<in> ?R"
          then obtain d' where "d' \<in> set (p_Restart plan)" "d_Name d' = d_Name d" by auto
          then have "d \<in> set (p_Restart plan)" using here restart by auto
          then show False using restart Some True by simp
        qed
        moreover have "d_Name d \<notin> set (p_Stop plan)" using stop want by simp
        ultimately have "v_rt (view (d_Name d) ?a3) = v_rt (view (d_Name d) a)" using untouched by simp
        then have "matches d ?a3 = matches d a" by (rule matches_keep)
        then show ?thesis using served_matches[OF ok, of d] running True Some d(2) eq by (auto simp: CaptureParamsEqual_def)
      qed
    qed
  qed
  ultimately show ?thesis by simp
qed

lemma inv_same:
  assumes "works_in {} a b" "ap_retryAt b = ap_retryAt a" "ap_retries b = ap_retries a" "inv A0 a"
  shows "inv A0 b"
  using base_inv_same[OF assms(1)] armed_cong[OF assms(2,3)] assms(4) unfolding inv_def by blast

lemma restartAnnounce_retries [simp]:
  "ap_retryAt (restartAnnounce v a) = ap_retryAt a" "ap_retries (restartAnnounce v a) = ap_retries a"
  by (simp_all add: restartAnnounce_def Let_def)

lemma publish_retries [simp]: "ap_retryAt (publish c a) = ap_retryAt a" "ap_retries (publish c a) = ap_retries a"
  by (simp_all add: publish_def)

lemma reconcile_inv:
  assumes inv: "base_inv A0 a" and env: "valid_env e" and names: "distinct (map d_Name (c_Devices cfg))"
  shows "inv A0 (reconcile v e cfg a)"
proof -
  let ?t = "a\<lparr>ap_token := c_Token cfg, ap_authRequired := AuthRequired cfg\<rparr>"
  let ?a = "refreshHardware e cfg ?t"
  have a: "works_in {} a ?a" by (simp add: works_in_def state_ok_def) (simp add: refreshHardware_def act_def Let_def)
  have ok: "base_inv A0 ?a" using inv base_inv_same[OF a] by simp
  let ?plan = "Reconcile (runningParams ?a) cfg"
  let ?b = "run_plan e cfg ?plan ?a"
  have b: "(\<forall>n. sound A0 n ?b) \<and> state_ok ?b \<and> (\<forall>d \<in> set (c_Devices cfg). IsEnabled d \<longrightarrow> matches d ?b)"
    by (rule run_plan_done[OF ok env names])
  let ?c = "reconcileRecords e cfg ?b"
  have c: "inv A0 (?c\<lparr>ap_cfg := cfg\<rparr>)"
    using reconcileRecords_done[OF names, of A0 ?b e] b by (simp add: sound_def)
  let ?p = "(publish cfg (?c\<lparr>ap_cfg := cfg, ap_discovery := DiscoveryEnabled cfg\<rparr>))\<lparr>ap_enumTrigger := True\<rparr>"
  have "works_in {} (?c\<lparr>ap_cfg := cfg\<rparr>) ?p" by (simp add: works_in_def publish_def act_def state_ok_def)
  then have p: "inv A0 ?p" by (rule inv_same) (simp_all add: c)
  define upd where "upd \<longleftrightarrow> \<not> plan_Empty ?plan \<or> DiscoveryEnabled cfg \<noteq> ap_discovery a \<or> AuthRequired cfg \<noteq> ap_authRequired a"
  have eq: "reconcile v e cfg a = (if upd then restartAnnounce v ?p else ?p)\<lparr>ap_monitors := Some (SettingsFrom cfg)\<rparr>"
    by (simp only: reconcile_def Let_def upd_def)
  let ?r = "if upd then restartAnnounce v ?p else ?p"
  have r: "inv A0 ?r" using p inv_same[OF restartAnnounce_keeps] by simp
  have "inv A0 (x\<lparr>ap_monitors := m\<rparr>)" if "inv A0 x" for x m
    by (rule inv_same[OF _ _ _ that]) (simp_all add: works_in_def act_def state_ok_def)
  then show ?thesis unfolding eq using r by blast
qed

section \<open>A pump that ended\<close>

lemma live_record_serving:
  assumes "live_record n g a = Some rt"
  shows "map_of (ap_devices a) n = Some rt" "rt_gen rt = g" "\<not> rt_superseded rt"
  using assms by (auto simp: live_record_def split: option.splits if_splits)

lemma device_lost_done:
  assumes agree: "agree A0 (d_Name (rt_dev rt)) a"
    and fault: "\<forall>f. v_fault (view (d_Name (rt_dev rt)) a) = Some f \<longrightarrow> \<not> IsCardIndexID (d_Device (ef_dev f))"
  shows "works_on (d_Name (rt_dev rt)) a (device_lost rt err a) \<and> sound A0 (d_Name (rt_dev rt)) (device_lost rt err a) \<and>
    (\<exists>rt'. map_of (ap_devices (device_lost rt err a)) (d_Name (rt_dev rt)) = Some rt' \<and>
       rt_dev rt' = rt_dev rt \<and> rt_superseded rt' = rt_superseded rt \<and> isDown (rt_state rt'))"
proof -
  let ?n = "d_Name (rt_dev rt)" and ?rt = "markFailed (ce_Msg err) downDisconnected rt"
  let ?a = "put_device ?n ?rt (a\<lparr>ap_retryArmed := True\<rparr>)"
  obtain m where eq: "device_lost rt err a = dropRetry ?n (markDown ?n downDisconnected (deviceDownOnset ?n ''Device disconnected'' m) ?a)"
    by (simp add: device_lost_def Let_def)
  let ?m = "markDown ?n downDisconnected (deviceDownOnset ?n ''Device disconnected'' m) ?a"
  have "marked (view ?n ?a) downDisconnected = downDisconnected"
    by (auto simp: marked_def retryableCause_def down_causes split: option.split)
  then have vm: "view ?n ?m = (view ?n a)\<lparr>v_rt := Some ?rt, v_reason := Some downDisconnected\<rparr>"
    unfolding markDown_view by simp
  have vb: "view ?n (device_lost rt err a) = (view ?n a)\<lparr>v_rt := Some ?rt, v_reason := Some downDisconnected, v_retry := None\<rparr>"
    unfolding eq view_dropRetry vm by simp
  have not: "\<not> retryableCause downDisconnected" by (simp add: retryableCause_def down_causes)
  have inv: "dev_inv ?n (view ?n (device_lost rt err a))"
    unfolding vb using fault not by (simp add: dev_inv_def markFailed_def retry_down_def)
  have "agree A0 ?n ?a" using agree by (simp add: agree_def act_def put_device_def)
  then have "act A0 ?n (device_lost rt err a)" unfolding eq by (simp add: markDown_act)
  then have "agree A0 ?n (device_lost rt err a)" unfolding agree_def vb by simp
  moreover have "works_on ?n a (a\<lparr>ap_retryArmed := True\<rparr>)" by (simp add: works_on_def act_def state_ok_def)
  then have "works_on ?n a (device_lost rt err a)"
    unfolding eq by (rule works_on_trans[OF works_on_trans[OF works_on_trans[OF _ works_on_ops(3)] markDown_works] works_on_ops(4)])
  moreover have "map_of (ap_devices (device_lost rt err a)) ?n = Some ?rt" by (simp add: eq update_conv')
  ultimately show ?thesis using inv by (simp add: sound_def markFailed_def isDown_def)
qed

lemma record_fault_works:
  "works_on (d_Name dev) a (record_fault dev path a)" "act A0 (d_Name dev) (record_fault dev path a) = act A0 (d_Name dev) a"
  "\<exists>f. ef_dev f = dev \<and> view (d_Name dev) (record_fault dev path a) = (view (d_Name dev) a)\<lparr>v_fault := Some f\<rparr>"
proof -
  obtain f where f: "ef_dev f = dev" and
      eq: "record_fault dev path a = a\<lparr>ap_encodeFaults := AList.update (d_Name dev) f (ap_encodeFaults a)\<rparr>"
    by (rule that[OF _ record_fault_def[of dev path a, unfolded Let_def]]) simp
  show "works_on (d_Name dev) a (record_fault dev path a)"
    by (simp add: eq works_on_def view_def act_def state_ok_def update_conv')
  show "act A0 (d_Name dev) (record_fault dev path a) = act A0 (d_Name dev) a" by (simp add: eq act_def)
  have "view (d_Name dev) (record_fault dev path a) = (view (d_Name dev) a)\<lparr>v_fault := Some f\<rparr>"
    by (simp add: eq view_def update_conv')
  with f show "\<exists>f. ef_dev f = dev \<and> view (d_Name dev) (record_fault dev path a) = (view (d_Name dev) a)\<lparr>v_fault := Some f\<rparr>"
    by blast
qed

lemma dev_inv_failed:
  assumes "rt_state rt = StateFailed" "0 \<le> en_clock e (d_Name (rt_dev rt))"
    and "\<forall>f. v_fault v = Some f \<longrightarrow> \<not> IsCardIndexID (d_Device (ef_dev f))"
    and "v_rt v = Some rt" "v_reason v = Some c"
  shows "dev_inv (d_Name (rt_dev rt)) (v\<lparr>v_retry := scheduled e (rt_dev rt) v\<rparr>)"
proof -
  have "rs_next (retry_failed (en_clock e (d_Name (rt_dev rt))) st) \<noteq> 0" for st
    using assms(2) retry_failed_fields(4)[of "en_clock e (d_Name (rt_dev rt))" st] by linarith
  then show ?thesis
    using assms by (auto simp: dev_inv_def retry_down_def scheduled_def retry_failed_fields)
qed

lemma device_failed_done:
  assumes agree: "agree A0 (d_Name (rt_dev rt)) a" and rt: "map_of (ap_devices a) (d_Name (rt_dev rt)) = Some rt"
    and state: "rt_state rt = StateFailed" and env: "valid_env e"
    and fault: "\<forall>f. v_fault (view (d_Name (rt_dev rt)) a) = Some f \<longrightarrow> \<not> IsCardIndexID (d_Device (ef_dev f))"
  shows "works_on (d_Name (rt_dev rt)) a (device_failed e rt err path a) \<and>
    sound A0 (d_Name (rt_dev rt)) (device_failed e rt err path a) \<and>
    map_of (ap_devices (device_failed e rt err path a)) (d_Name (rt_dev rt)) = Some rt"
proof -
  let ?n = "d_Name (rt_dev rt)"
  obtain c t m where def: "device_failed e rt err path a =
      (let a = scheduleRetry e (rt_dev rt) (markDown ?n c (deviceDownOnset ?n t m) a);
           a = (if ce_Shortfall err \<and> map_of (ap_retries a) ?n \<noteq> None then geometryShortfall (rt_dev rt) (rt_geoStep rt) a else a)
       in if path \<noteq> '''' \<and> map_of (ap_retries a) ?n \<noteq> None then record_fault (rt_dev rt) path a else a)"
    by (rule that, unfold device_failed_def Let_def, rule refl)
  let ?m = "markDown ?n c (deviceDownOnset ?n t m) a"
  let ?s = "scheduleRetry e (rt_dev rt) ?m"
  let ?g = "if ce_Shortfall err \<and> map_of (ap_retries ?s) ?n \<noteq> None then geometryShortfall (rt_dev rt) (rt_geoStep rt) ?s else ?s"
  have vm: "view ?n ?m = (view ?n a)\<lparr>v_reason := Some (marked (view ?n a) c)\<rparr>" by (rule markDown_view)
  have vs: "view ?n ?s = (view ?n ?m)\<lparr>v_retry := scheduled e (rt_dev rt) (view ?n ?m)\<rparr>"
    by (rule scheduleRetry_view) simp
  have keep: "keeps_view ?n ?s ?g" using keeps_view_geometryShortfall by simp
  then have vg: "view ?n ?g = view ?n ?s" and wg: "works_on ?n ?s ?g" and ag: "act A0 ?n ?g = act A0 ?n ?s"
    unfolding keeps_view_def by blast+
  have "act A0 ?n ?s" using markDown_act[OF agree] by (simp add: act_def)
  then have act: "act A0 ?n ?g" using ag by simp
  have inv: "dev_inv ?n (view ?n ?g)"
    unfolding vg vs by (rule dev_inv_failed[OF state valid_clock[OF env]]) (use rt fault in \<open>simp_all add: vm\<close>)
  have reason: "v_reason (view ?n ?g) \<noteq> None" unfolding vg vs vm by simp
  have rtg: "v_rt (view ?n ?g) = Some rt" unfolding vg vs vm using rt by simp
  have works: "works_on ?n a ?g" by (rule works_on_trans[OF works_on_trans[OF markDown_works scheduleRetry_works] wg]) simp
  show ?thesis
  proof (cases "path \<noteq> '''' \<and> map_of (ap_retries ?g) ?n \<noteq> None")
    case False
    have eq: "device_failed e rt err path a = ?g" unfolding def Let_def by (rule if_not_P[OF False])
    have "agree A0 ?n ?g" unfolding agree_def using act reason by blast
    then show ?thesis unfolding eq sound_def view_simps(1)[symmetric] using works inv rtg by blast
  next
    case True
    have eq: "device_failed e rt err path a = record_fault (rt_dev rt) path ?g" unfolding def Let_def by (rule if_P[OF True])
    obtain f where f: "ef_dev f = rt_dev rt" "view ?n (record_fault (rt_dev rt) path ?g) = (view ?n ?g)\<lparr>v_fault := Some f\<rparr>"
      using record_fault_works(3) by blast
    have "v_retry (view ?n ?g) \<noteq> None" using True by simp
    then have "\<not> IsCardIndexID (d_Device (rt_dev rt))" using inv rtg by (simp add: dev_inv_def)
    then have "dev_inv ?n ((view ?n ?g)\<lparr>v_fault := Some f\<rparr>)"
      using inv rtg f(1) state by (simp add: dev_inv_def)
    moreover have "agree A0 ?n (record_fault (rt_dev rt) path ?g)"
      unfolding agree_def record_fault_works(2) f(2) using act reason by simp
    moreover have "works_on ?n a (record_fault (rt_dev rt) path ?g)" by (rule works_on_trans[OF works record_fault_works(1)])
    moreover have "v_rt (view ?n (record_fault (rt_dev rt) path ?g)) = Some rt" unfolding f(2) using rtg by simp
    ultimately show ?thesis unfolding eq sound_def f(2) view_simps(1)[symmetric] by blast
  qed
qed

lemma armed_schedule: "armed (scheduleRetry e d a)" "armed (dropRetry n a)"
  by (simp_all add: scheduleRetry_def dropRetry_def armed_arm Let_def)

lemma armed_ops [simp]:
  "armed (geometryShortfall d k a) = armed a" "armed (record_fault d p a) = armed a" "armed (geometryRunEnded e rt a) = armed a"
  by (simp_all add: armed_def geometryShortfall_def record_fault_def geometryRunEnded_def clearGeometry_def emit_def Let_def
      split: option.split)

lemma armed_device_failed: "armed (device_failed e rt err path a)"
  by (simp add: device_failed_def armed_schedule Let_def)

lemma armed_device_lost: "armed (device_lost rt err a)"
  by (simp add: device_lost_def armed_schedule Let_def)

lemma failed_done:
  assumes inv: "base_inv A0 a" and rt: "map_of (ap_devices a) n = Some rt" "\<not> rt_superseded rt" "rt_gen rt \<noteq> 0"
    and env: "valid_env e"
    and b: "b = (if lost then device_lost rt' err c else device_failed e rt' err path c)"
    and rt': "rt' = markFailed msg cause rt" and c: "c = geometryRunEnded e rt' (put_device n rt' a)"
  shows "base_inv A0 b"
proof -
  have sound: "sound A0 n a" using inv by (simp add: base_inv_def)
  then have name: "d_Name (rt_dev rt) = n" using rt(1) by (simp add: sound_def dev_inv_def)
  obtain d where d: "d \<in> set (c_Devices (ap_cfg a))" "d_Name d = n" "matches d a"
    using inv rt(1) by (fastforce simp: base_inv_def configured_def)
  have keep: "keeps_view n (put_device n rt' a) c" unfolding c by (rule keeps_view_geometryRunEnded)
  have vc: "view n c = (view n a)\<lparr>v_rt := Some rt'\<rparr>" using keep by (simp add: keeps_view_def)
  have wc: "works_on n a c" by (rule works_on_trans[OF works_on_ops(3) conjunct1[OF keep[unfolded keeps_view_def]]])
  have "act A0 n c = act A0 n a" using keep by (simp add: keeps_view_def)
  then have agree: "agree A0 n c" using sound unfolding sound_def agree_def vc by simp
  have fault: "\<forall>f. v_fault (view n c) = Some f \<longrightarrow> \<not> IsCardIndexID (d_Device (ef_dev f))"
    unfolding vc using sound by (simp add: sound_def dev_inv_def)
  have name': "d_Name (rt_dev rt') = n" "rt_state rt' = StateFailed" "rt_dev rt' = rt_dev rt" "\<not> rt_superseded rt'"
    using name rt(2) by (simp_all add: rt' markFailed_def)
  have rtc: "map_of (ap_devices c) n = Some rt'" unfolding view_simps(1)[symmetric] vc by simp
  have b': "works_on n c b \<and> sound A0 n b \<and> (\<exists>r. map_of (ap_devices b) n = Some r \<and> rt_dev r = rt_dev rt \<and>
      \<not> rt_superseded r \<and> isDown (rt_state r))"
  proof (cases lost)
    case True
    then show ?thesis using device_lost_done[of A0 rt' c err] agree fault name' b by simp
  next
    case False
    then show ?thesis
      using device_failed_done[of A0 rt' c e err path] agree fault name' rtc env b by (simp add: isDown_def)
  qed
  have "rt_state rt \<noteq> StateDisabled" using sound rt by (cases "rt_state rt") (auto simp: sound_def dev_inv_def)
  then have "matches d b" using b' d rt(1) by (auto simp: matches_def isDown_def)
  have works: "works_on n a b" using works_on_trans[OF wc] b' by blast
  show ?thesis
  proof (rule inv_after[OF inv])
    show "works_in (d_Name ` set (c_Devices (ap_cfg a))) a b"
      using works works_in_mono d by (auto simp: works_on_in)
    fix d' assume d': "d' \<in> set (c_Devices (ap_cfg a))"
    show "sound A0 (d_Name d') b \<and> matches d' b"
    proof (cases "d_Name d' = n")
      case True
      then have "d' = d" using d d' inv by (auto simp: base_inv_def configured_def distinct_map inj_on_def)
      then show ?thesis using b' d(2) \<open>matches d b\<close> by simp
    next
      case False
      then show ?thesis
        using sound_other[OF works] local_works[OF local_matches, of "{n}" a b d'] works inv d'
        by (simp add: works_on_in base_inv_def configured_def)
    qed
  qed
qed

lemma onPumpDone_inv:
  assumes inv: "inv A0 a" and gen: "g \<noteq> 0" and env: "valid_env e"
  shows "inv A0 (onPumpDone e n g err path a)"
proof -
  let ?a = "a\<lparr>ap_alive := ap_alive a - 1\<rparr>"
  have "works_in {} a ?a" by (simp add: works_in_def act_def state_ok_def)
  then have a: "inv A0 ?a" by (rule inv_same) (simp_all add: inv)
  have pub: "inv A0 x \<Longrightarrow> inv A0 (publish c x)" for x c by (rule inv_same[OF publish_keeps]) simp_all
  show ?thesis
  proof (cases "live_record n g ?a")
    case None
    then show ?thesis using a by (simp add: onPumpDone_def Let_def)
  next
    case (Some rt)
    let ?b = "?a\<lparr>ap_tracks := remove_tracks (rt_paths rt) (ap_tracks ?a), ap_meters := remove1 (d_Name (rt_dev rt)) (ap_meters ?a)\<rparr>"
    have "works_in {} ?a ?b" by (simp add: works_in_def act_def state_ok_def)
    then have b: "inv A0 ?b" by (rule inv_same) (simp_all add: a)
    show ?thesis
    proof (cases "err = None \<or> en_shutdown e")
      case True
      then have "onPumpDone e n g err path a = publish (ap_cfg ?b) ?b"
        using Some by (auto simp: onPumpDone_def Let_def split: option.split)
      then show ?thesis using pub[OF b] by simp
    next
      case False
      then obtain er where er: "err = Some er" by auto
      let ?c = "?b\<lparr>ap_lastPumpErr := Some (ce_Msg er)\<rparr>"
      let ?rt = "markFailed (ce_Msg er) (if ce_Stalled er then downStalled else downFailed) rt"
      let ?d = "geometryRunEnded e ?rt (put_device n ?rt ?c)"
      define lost where "lost \<longleftrightarrow> ce_Gone er \<or> en_resolve e (d_Device (rt_dev ?rt)) = Inl DeviceNotFound"
      let ?f = "if lost then device_lost ?rt er ?d else device_failed e ?rt er path ?d"
      have "works_in {} ?b ?c" by (simp add: works_in_def act_def state_ok_def)
      then have c: "base_inv A0 ?c" using base_inv_same b by (simp add: inv_def)
      have rt: "map_of (ap_devices ?c) n = Some rt" "\<not> rt_superseded rt" "rt_gen rt \<noteq> 0"
        using live_record_serving[OF Some] gen by simp_all
      have "base_inv A0 ?f" by (rule failed_done[OF c rt env refl refl refl])
      moreover have "armed ?f" using armed_device_failed armed_device_lost by simp
      ultimately have "inv A0 ?f" by (simp add: inv_def)
      moreover have "onPumpDone e n g err path a = publish (ap_cfg ?f) ?f"
        using Some False er by (simp add: onPumpDone_def Let_def lost_def)
      ultimately show ?thesis using pub by simp
    qed
  qed
qed

section \<open>The run loop keeps the invariant\<close>

lemma noteEncoded_inv:
  assumes inv: "inv A0 a"
  shows "inv A0 (noteEncoded n g path a)"
proof -
  have "inv A0 (put_device n (rt\<lparr>rt_encoded := ps\<rparr>) a)" if rt: "map_of (ap_devices a) n = Some rt" for rt ps
  proof -
    let ?b = "put_device n (rt\<lparr>rt_encoded := ps\<rparr>) a"
    have works: "works_on n a ?b" by simp
    have ok: "base_inv A0 a" using inv by (simp add: inv_def)
    have sound: "dev_inv n (view n a)" using ok by (simp add: base_inv_def sound_def)
    then have "dev_inv n (view n ?b)" using rt by (cases "rt_state rt") (simp_all add: dev_inv_def)
    then have n: "sound A0 n ?b" using ok by (simp add: sound_def base_inv_def agree_def)
    have "base_inv A0 ?b"
    proof (rule inv_after[OF ok])
      obtain d where "d \<in> set (c_Devices (ap_cfg a))" "d_Name d = n"
        using ok rt by (fastforce simp: base_inv_def configured_def)
      then show "works_in (d_Name ` set (c_Devices (ap_cfg a))) a ?b"
        using works works_in_mono[of "{n}" a ?b "d_Name ` set (c_Devices (ap_cfg a))"] by (auto simp: works_on_in)
      fix d assume d: "d \<in> set (c_Devices (ap_cfg a))"
      have "matches d ?b = matches d a"
        using rt by (auto simp: matches_def update_conv')
      then show "sound A0 (d_Name d) ?b \<and> matches d ?b"
        using n sound_other[OF works, of "d_Name d" A0] ok d
        by (cases "d_Name d = n") (simp_all add: base_inv_def configured_def)
    qed
    moreover have "armed ?b" using inv by (simp add: inv_def armed_def put_device_def)
    ultimately show ?thesis by (simp add: inv_def)
  qed
  then show ?thesis using inv by (simp add: noteEncoded_def split: option.split)
qed

definition valid_event :: "env \<times> loop_event \<Rightarrow> bool" where
  "valid_event ev \<longleftrightarrow> valid_env (fst ev) \<and>
     (case snd ev of EvReconcile cfg \<Rightarrow> distinct (map d_Name (c_Devices cfg)) | _ \<Rightarrow> True)"

lemma run_event_inv:
  assumes inv: "inv A0 a" and ev: "valid_event ev"
  shows "inv A0 (run_event v ev a)"
proof -
  obtain e x where x: "ev = (e, x)" by fastforce
  have env: "valid_env e" using ev x by (simp add: valid_event_def)
  show ?thesis
  proof (cases x)
    case (EvReconcile cfg)
    then show ?thesis using reconcile_inv[of A0 a e cfg v] inv ev x env by (simp add: valid_event_def inv_def)
  next
    case EvRetryDue
    then show ?thesis using onRetryDue_inv[OF inv env] x by simp
  next
    case (EvPumpDone n g err path)
    let ?a = "a\<lparr>ap_pumps := removeAll (n, g) (ap_pumps a)\<rparr>"
    have "works_in {} a ?a" by (auto simp: works_in_def act_def state_ok_def)
    then have a: "inv A0 ?a" by (rule inv_same) (simp_all add: inv)
    have "g \<noteq> 0" if "(n, g) \<in> set (ap_pumps a)" using inv that by (auto simp: inv_def base_inv_def state_ok_def)
    then show ?thesis using onPumpDone_inv[OF a _ env] inv x EvPumpDone by simp
  next
    case EvHardwareChanged
    then show ?thesis using retryDown_inv[OF inv env] x by simp
  next
    case (EvEncoded n g path)
    then show ?thesis using noteEncoded_inv[OF inv] x by simp
  qed
qed

lemma newAppliance_inv:
  assumes "\<forall>n. deviceDownKey n \<notin> A0"
  shows "inv A0 (newAppliance cfg)"
proof -
  let ?a = "newAppliance cfg"
  have empty: "ap_devices ?a = []" "ap_downReason ?a = []" "ap_retries ?a = []" "ap_encodeFaults ?a = []" "ap_calls ?a = []"
    "ap_pumps ?a = []" "ap_retryAt ?a = 0" "c_Devices (ap_cfg ?a) = []"
    by (simp_all add: newAppliance_def zero_config_def)
  have "sound A0 n ?a" for n
    using assms by (simp add: sound_def agree_def act_def dev_inv_def empty)
  then show ?thesis by (simp add: inv_def base_inv_def configured_def state_ok_def armed_def empty)
qed

lemma run_loop_inv:
  assumes "list_all valid_event evs"
  shows "inv {} (run_loop v cfg evs)"
proof -
  have "inv {} a \<Longrightarrow> inv {} (fold (run_event v) evs a)" for a
    using assms by (induction evs arbitrary: a) (simp_all add: run_event_inv)
  then show ?thesis using newAppliance_inv by (simp add: run_loop_def)
qed

end
