(* ===== verification/Appliance_Props.thy ===== *)
theory Appliance_Props
  imports Appliance_Loop
begin

text \<open>
  What the run loop promises after any sequence of events: the notification center mirrors the
  devices, the records follow the configuration, every outage has a pending retry and none is
  overdue after a retry pass.
\<close>

section \<open>A run\<close>

text \<open>Two sound cards, the second configured by its index; the devices of \<open>bad\<close> do not open.\<close>

definition demo_hw :: "string \<Rightarrow> resolve_error + hardware" where
  "demo_hw i = Inr \<lparr>hw_ID = i, hw_PortID = '''', hw_HWAddr = i, hw_Label = ''card''\<rparr>"

definition busy :: capture_error where
  "busy = \<lparr>ce_Msg = ''busy'', ce_InUse = True, ce_Gone = False, ce_Permanent = False, ce_Geometry = False,
     ce_BadRate = False, ce_NoMem = False, ce_Invalid = False, ce_Stalled = False, ce_Shortfall = False\<rparr>"

definition demo_env :: "instant \<Rightarrow> string list \<Rightarrow> env" where
  "demo_env t bad = \<lparr>en_now = t, en_clock = (\<lambda>n. t + 1), en_resolve = demo_hw,
     en_open = (\<lambda>d step. if d_Name d \<in> set bad then Inl busy
                else Inr \<lparr>gr_Rate = d_Rate d, gr_Channels = 1, gr_Geometry = no_geometry\<rparr>),
     en_shutdown = False\<rparr>"

definition demo_dev :: "string \<Rightarrow> string \<Rightarrow> device" where
  "demo_dev n i = \<lparr>d_Name = n, d_Device = i, d_Rate = 48000, d_Format = ''S16_LE'', d_Streams = [],
     d_Enabled = None, d_QuietAlert = None\<rparr>"

definition demo_cfg :: config where
  "demo_cfg = zero_config\<lparr>c_Devices := [demo_dev ''barn'' ''hw:CARD=Barn'', demo_dev ''coop'' ''hw:1'']\<rparr>"

definition demo_start :: "(env \<times> loop_event) list" where
  "demo_start = [(demo_env 1 [''barn'', ''coop''], EvReconcile demo_cfg)]"

lemma demo_valid:
  "0 < t \<Longrightarrow> valid_env (demo_env t bad)" "list_all valid_event demo_start"
  by (simp_all add: valid_env_def demo_env_def demo_start_def valid_event_def demo_cfg_def demo_dev_def)

lemma demo_outage:
  "map_of (ap_downReason (run_loop '''' demo_cfg demo_start)) ''barn'' = Some downOpenFailed"
  "map_of (ap_retries (run_loop '''' demo_cfg demo_start)) ''coop'' = None"
  "isDown (rt_state (the (map_of (ap_devices (run_loop '''' demo_cfg demo_start)) ''barn'')))"
  by code_simp+

section \<open>The notification center mirrors the devices\<close>

lemma condition_iff:
  assumes "inv {} a"
  shows "deviceDownKey n \<in> calls_effect (ap_calls a) {} \<longleftrightarrow>
    (\<exists>rt. map_of (ap_devices a) n = Some rt \<and>
       (isDown (rt_state rt) \<or> rt_state rt = StateServing \<and> retrying a n))"
proof -
  have sound: "sound {} n a" using assms by (simp add: inv_def base_inv_def)
  then have act: "deviceDownKey n \<in> calls_effect (ap_calls a) {} \<longleftrightarrow> map_of (ap_downReason a) n \<noteq> None"
    and inv: "dev_inv n (view n a)" by (simp_all add: sound_def agree_def act_def)
  show ?thesis
  proof (cases "map_of (ap_devices a) n")
    case None
    then show ?thesis using act inv by (simp add: dev_inv_def)
  next
    case (Some rt)
    then show ?thesis
      using act inv
      by (cases "rt_state rt"; cases "map_of (ap_retries a) n")
        (auto simp: dev_inv_def isDown_def retry_down_def retry_serving_def retrying_def is_zero_def)
  qed
qed

text \<open>
  C4. After any sequence of events (reloads, retry timers, ended pumps, hardware changes, first
  encoded frames) the down condition of a device is active in the notification center exactly
  when the device is down, or serves again but its outage has not settled yet. Whatever the
  handlers raised, updated, replaced, cleared and resolved on the way, no condition is left
  behind for a device that recovered, was disabled or was removed, and none is missing for one
  that is down.
\<close>
theorem down_conditions_mirror_the_devices:
  assumes "list_all valid_event evs"
  shows "deviceDownKey n \<in> calls_effect (ap_calls (run_loop version cfg evs)) {} \<longleftrightarrow>
    (\<exists>rt. map_of (ap_devices (run_loop version cfg evs)) n = Some rt \<and>
       (isDown (rt_state rt) \<or> rt_state rt = StateServing \<and> retrying (run_loop version cfg evs) n))"
  by (rule condition_iff[OF run_loop_inv[OF assms]])

theorem down_conditions_mirror_the_devices_witness:
  "deviceDownKey ''barn'' \<in> calls_effect (ap_calls (run_loop '''' demo_cfg demo_start)) {}"
proof -
  have "map_of (ap_devices (run_loop '''' demo_cfg demo_start)) ''barn'' \<noteq> None" by code_simp
  then show ?thesis
    using down_conditions_mirror_the_devices[OF demo_valid(2), of "''barn''" "''''" demo_cfg] demo_outage(3) by auto
qed

section \<open>The records follow the configuration\<close>

text \<open>
  C16. After any sequence of events the appliance has a record for each device of the
  configuration it applied last and for no other name: the record has the configured hardware id,
  is disabled exactly when the configuration disables the device, and does not belong to a
  stopped runtime.
\<close>
theorem records_follow_the_configuration:
  assumes "list_all valid_event evs"
  shows "(map_of (ap_devices (run_loop version cfg evs)) n = None \<longleftrightarrow>
      n \<notin> d_Name ` set (c_Devices (ap_cfg (run_loop version cfg evs)))) \<and>
    (\<forall>d rt. d \<in> set (c_Devices (ap_cfg (run_loop version cfg evs))) \<and>
       map_of (ap_devices (run_loop version cfg evs)) (d_Name d) = Some rt \<longrightarrow>
       d_Device (rt_dev rt) = d_Device d \<and> (rt_state rt = StateDisabled \<longleftrightarrow> \<not> IsEnabled d) \<and> \<not> rt_superseded rt)"
proof -
  have c: "configured (run_loop version cfg evs)" using run_loop_inv[OF assms] by (simp add: inv_def base_inv_def)
  then show ?thesis by (fastforce simp: configured_def matches_def)
qed

theorem records_follow_the_configuration_witness:
  "map_of (ap_devices (run_loop '''' demo_cfg demo_start)) ''dam'' = None"
proof -
  have "''dam'' \<notin> d_Name ` set (c_Devices (ap_cfg (run_loop '''' demo_cfg demo_start)))" by code_simp
  then show ?thesis using records_follow_the_configuration[OF demo_valid(2)] by blast
qed

section \<open>Every outage has a pending retry\<close>

text \<open>The timer is armed for the earliest deadline.\<close>

lemma earliest:
  fixes ts :: "instant list"
  shows "(due \<noteq> 0 \<longrightarrow> foldl earlier_deadline due ts \<noteq> 0 \<and> foldl earlier_deadline due ts \<le> due) \<and>
    (\<forall>t \<in> set ts. t \<noteq> 0 \<longrightarrow> foldl earlier_deadline due ts \<noteq> 0 \<and> foldl earlier_deadline due ts \<le> t) \<and>
    foldl earlier_deadline due ts \<in> insert due (set ts)"
proof (induction ts arbitrary: due)
  case (Cons t ts)
  let ?d = "earlier_deadline due t"
  have "?d = due \<or> ?d = t" "t \<noteq> 0 \<Longrightarrow> ?d \<noteq> 0 \<and> ?d \<le> t" "due \<noteq> 0 \<Longrightarrow> ?d \<noteq> 0 \<and> ?d \<le> due"
    by (auto simp: earlier_deadline_def is_zero_def)
  then show ?case using Cons.IH[of ?d] by fastforce
qed simp

lemma due_flat:
  "foldl (\<lambda>due (_, st). foldl earlier_deadline due [rs_next st, rs_settleAt st]) due xs =
   foldl earlier_deadline due (concat (map (\<lambda>(_, st). [rs_next st, rs_settleAt st]) xs))"
  by (induction xs arbitrary: due) auto

lemma armed_deadline:
  assumes "inv A0 a" "map_of (ap_retries a) n = Some st" "t = rs_next st \<or> t = rs_settleAt st" "t \<noteq> 0"
  shows "\<exists>t'. ap_timer a = Some t' \<and> t' \<le> t"
proof -
  let ?ts = "concat (map (\<lambda>(_, st). [rs_next st, rs_settleAt st]) (ap_retries a))"
  have due: "ap_retryAt a = foldl earlier_deadline 0 ?ts"
    using assms(1) unfolding inv_def armed_def due_flat by blast
  have "t \<in> set ?ts" using map_of_SomeD[OF assms(2)] assms(3) by force
  then have "ap_retryAt a \<noteq> 0 \<and> ap_retryAt a \<le> t" using earliest[of 0 ?ts] assms(4) unfolding due by blast
  then show ?thesis using assms(1) by (simp add: inv_def base_inv_def state_ok_def)
qed

text \<open>
  C7. No outage is forgotten: while the down condition of a device with a stable id is active,
  for a cause that a retry can mend if it is down, the device has a retry state that waits for
  its encoder or has a deadline, and the retry timer is armed no later than that deadline.
\<close>
theorem every_outage_has_a_pending_retry:
  assumes "list_all valid_event evs"
    and "deviceDownKey n \<in> calls_effect (ap_calls (run_loop version cfg evs)) {}"
    and "map_of (ap_devices (run_loop version cfg evs)) n = Some rt" "\<not> IsCardIndexID (d_Device (rt_dev rt))"
    and "rt_state rt = StateServing \<or> retryableCause (down_cause (run_loop version cfg evs) n)"
  shows "\<exists>st. map_of (ap_retries (run_loop version cfg evs)) n = Some st \<and>
    (rs_awaitEncode st \<or>
     (\<exists>t t'. (t = rs_next st \<or> t = rs_settleAt st) \<and> t \<noteq> 0 \<and>
        ap_timer (run_loop version cfg evs) = Some t' \<and> t' \<le> t))"
proof -
  define a where "a = run_loop version cfg evs"
  have inv: "inv {} a" using run_loop_inv[OF assms(1)] by (simp add: a_def)
  then have sound: "sound {} n a" by (simp add: inv_def base_inv_def)
  then obtain c where c: "map_of (ap_downReason a) n = Some c"
    using assms(2) by (auto simp: sound_def agree_def act_def a_def)
  then have "down_cause a n = c" by (simp add: down_cause_def)
  then obtain st where st: "map_of (ap_retries a) n = Some st"
      and "rs_awaitEncode st \<or> rs_next st \<noteq> 0 \<or> rs_settleAt st \<noteq> 0"
    using sound assms(3,4,5) c
    by (cases "rt_state rt"; cases "map_of (ap_retries a) n")
      (auto simp: sound_def dev_inv_def retry_serving_def retry_down_def a_def)
  then show ?thesis using armed_deadline[OF inv st] unfolding a_def by blast
qed

theorem every_outage_has_a_pending_retry_witness:
  "\<exists>st. map_of (ap_retries (run_loop '''' demo_cfg demo_start)) ''barn'' = Some st \<and>
    (rs_awaitEncode st \<or>
     (\<exists>t t'. (t = rs_next st \<or> t = rs_settleAt st) \<and> t \<noteq> 0 \<and>
        ap_timer (run_loop '''' demo_cfg demo_start) = Some t' \<and> t' \<le> t))"
proof -
  let ?a = "run_loop '''' demo_cfg demo_start"
  have "map_of (ap_devices ?a) ''barn'' \<noteq> None" "d_Device (rt_dev (the (map_of (ap_devices ?a) ''barn''))) = ''hw:CARD=Barn''"
    by code_simp+
  then obtain rt where rt: "map_of (ap_devices ?a) ''barn'' = Some rt" "d_Device (rt_dev rt) = ''hw:CARD=Barn''" by auto
  have "deviceDownKey ''barn'' \<in> calls_effect (ap_calls ?a) {}" by code_simp
  moreover have "\<not> IsCardIndexID ''hw:CARD=Barn''" by code_simp
  moreover have "retryableCause (down_cause ?a ''barn'')"
    by (simp add: down_cause_def demo_outage(1) retryableCause_def)
  ultimately show ?thesis using every_outage_has_a_pending_retry[OF demo_valid(2) _ rt(1)] rt(2) by simp
qed

section \<open>A retry pass leaves nothing overdue\<close>

text \<open>
  C15. After the retry pass every deadline left lies after the time of the pass, and so does the
  time the timer is armed for: the timer never fires again at once, and the pass cannot become a
  busy loop.
\<close>
theorem retry_pass_leaves_nothing_due:
  assumes "list_all valid_event evs" "valid_env e"
  shows "(\<forall>n st. map_of (ap_retries (run_loop version cfg (evs @ [(e, EvRetryDue)]))) n = Some st \<longrightarrow>
      (rs_next st = 0 \<or> en_now e < rs_next st) \<and> (rs_settleAt st = 0 \<or> en_now e < rs_settleAt st)) \<and>
    (ap_retryAt (run_loop version cfg (evs @ [(e, EvRetryDue)])) = 0 \<or>
     en_now e < ap_retryAt (run_loop version cfg (evs @ [(e, EvRetryDue)])))"
proof -
  define b where "b = onRetryDue version e (run_loop version cfg evs)"
  have eq: "run_loop version cfg (evs @ [(e, EvRetryDue)]) = b" by (simp add: run_loop_def b_def)
  note pass = onRetryDue_inv[OF run_loop_inv[OF assms(1)] assms(2), of version version cfg, folded b_def]
  have inv: "inv {} b" using pass by simp
  have quiet: "quiet (en_now e) (view n b)" for n
  proof (cases "map_of (ap_retries b) n")
    case None
    then show ?thesis by (simp add: quiet_def)
  next
    case (Some st)
    have "map_of (ap_devices b) n \<noteq> None"
    proof
      assume "map_of (ap_devices b) n = None"
      moreover have "dev_inv n (view n b)" using inv by (simp add: inv_def base_inv_def sound_def)
      ultimately show False using Some by (simp add: dev_inv_def)
    qed
    then have "n \<in> d_Name ` set (c_Devices (ap_cfg b))" using inv by (simp add: inv_def base_inv_def configured_def)
    then show ?thesis using pass by auto
  qed
  then have deadlines: "\<forall>n st. map_of (ap_retries b) n = Some st \<longrightarrow>
      (rs_next st = 0 \<or> en_now e < rs_next st) \<and> (rs_settleAt st = 0 \<or> en_now e < rs_settleAt st)"
    by (simp add: quiet_def)
  have "t = 0 \<or> en_now e < t" if t: "t \<in> set (concat (map (\<lambda>(_, st). [rs_next st, rs_settleAt st]) (ap_retries b)))" for t
  proof -
    obtain n st where st: "(n, st) \<in> set (ap_retries b)" "t = rs_next st \<or> t = rs_settleAt st" using t by auto
    have "map_of (ap_retries b) n = Some st"
      using inv st(1) by (simp add: inv_def base_inv_def state_ok_def)
    then show ?thesis using deadlines st(2) by auto
  qed
  moreover have "ap_retryAt b \<in> insert 0 (set (concat (map (\<lambda>(_, st). [rs_next st, rs_settleAt st]) (ap_retries b))))"
    using inv earliest[of 0] unfolding inv_def armed_def due_flat by metis
  ultimately have "ap_retryAt b = 0 \<or> en_now e < ap_retryAt b" by blast
  then show ?thesis using deadlines unfolding eq by blast
qed

theorem retry_pass_leaves_nothing_due_witness:
  "en_now (demo_env 5000000002 [''barn'']) < ap_retryAt (run_loop '''' demo_cfg (demo_start @ [(demo_env 5000000002 [''barn''], EvRetryDue)]))"
proof -
  have "ap_retryAt (run_loop '''' demo_cfg (demo_start @ [(demo_env 5000000002 [''barn''], EvRetryDue)])) \<noteq> 0"
    by code_simp
  moreover have "valid_env (demo_env 5000000002 [''barn''])" by (rule demo_valid(1)) simp
  ultimately show ?thesis using retry_pass_leaves_nothing_due[OF demo_valid(2)] by blast
qed

end
