(* ===== verification/Appliance_Cards.thy ===== *)
theory Appliance_Cards
  imports Appliance_Props
begin

text \<open>
  Which sound card a device captures from: two devices never capture from one card, and a device
  configured by its card index, which may name other hardware after a reboot, is opened by a reload
  only.
\<close>

section \<open>One device per sound card\<close>

definition exclusive :: "appliance \<Rightarrow> bool" where
  "exclusive a \<longleftrightarrow> (\<forall>n m rt rt'. n \<noteq> m \<and> map_of (ap_devices a) n = Some rt \<and> map_of (ap_devices a) m = Some rt' \<and>
     rt_state rt = StateServing \<and> rt_state rt' = StateServing \<and> \<not> rt_superseded rt \<and> \<not> rt_superseded rt' \<and>
     rt_hwAddr rt = rt_hwAddr rt' \<longrightarrow> rt_hwAddr rt = '''')"

text \<open>A record may be put that does not serve, keeps its address, or whose card has no other owner.\<close>

definition may_put :: "appliance \<Rightarrow> string \<Rightarrow> runtime \<Rightarrow> bool" where
  "may_put a n rt \<longleftrightarrow> rt_state rt \<noteq> StateServing \<or> rt_superseded rt \<or> hardwareOwner a (rt_hwAddr rt) n = None"

lemma owner_none:
  assumes "hardwareOwner a addr n = None" "addr \<noteq> ''''" "m \<noteq> n" "map_of (ap_devices a) m = Some rt"
    "\<not> rt_superseded rt" "rt_state rt = StateServing"
  shows "rt_hwAddr rt \<noteq> addr"
  using assms map_of_SomeD[OF assms(4)] by (auto simp: hardwareOwner_def find_None_iff)

lemma exclusive_put:
  assumes ex: "exclusive a" and may: "may_put a n rt" and devs: "ap_devices b = AList.update n rt (ap_devices a)"
  shows "exclusive b"
  unfolding exclusive_def
proof (intro allI impI)
  fix k m r r'
  assume h: "k \<noteq> m \<and> map_of (ap_devices b) k = Some r \<and> map_of (ap_devices b) m = Some r' \<and>
     rt_state r = StateServing \<and> rt_state r' = StateServing \<and> \<not> rt_superseded r \<and> \<not> rt_superseded r' \<and>
     rt_hwAddr r = rt_hwAddr r'"
  then have km: "k \<noteq> m" "(if k = n then Some rt else map_of (ap_devices a) k) = Some r"
    "(if m = n then Some rt else map_of (ap_devices a) m) = Some r'"
    by (auto simp: devs update_conv' split: if_splits)
  show "rt_hwAddr r = ''''"
  proof (cases "k = n \<or> m = n")
    case False
    then have "map_of (ap_devices a) k = Some r" "map_of (ap_devices a) m = Some r'" using km by simp_all
    then show ?thesis using ex h unfolding exclusive_def by blast
  next
    case True
    have "rt_hwAddr r = ''''" if "rt = r" "m \<noteq> n" "map_of (ap_devices a) m = Some r'"
      using that may h owner_none[of a "rt_hwAddr r" n m r'] by (auto simp: may_put_def)
    moreover have "rt_hwAddr r = ''''" if "rt = r'" "k \<noteq> n" "map_of (ap_devices a) k = Some r"
      using that may h owner_none[of a "rt_hwAddr r'" n k r] by (auto simp: may_put_def)
    ultimately show ?thesis using True km by (auto split: if_splits)
  qed
qed

lemma exclusive_cong: "ap_devices b = ap_devices a \<Longrightarrow> exclusive b = exclusive a"
  by (simp add: exclusive_def)

lemma devices_same [simp]:
  "ap_devices (geometryRunEnded e rt a) = ap_devices a" "ap_devices (geometryRefuse m k a) = ap_devices a"
  "ap_devices (geometryOpened m rt k a) = ap_devices a" "ap_devices (geometryShortfall d k a) = ap_devices a"
  "ap_devices (dropGeometry m r a) = ap_devices a" "ap_devices (clearGeometry m r a) = ap_devices a"
  by (simp_all add: geometryRunEnded_def geometryRefuse_def geometryOpened_def geometryShortfall_def dropGeometry_def
      clearGeometry_def emit_def Let_def split: option.split)

lemma devices_same2 [simp]:
  "ap_devices (refreshHardware e c a) = ap_devices a" "ap_devices (publish c a) = ap_devices a"
  "ap_devices (restartAnnounce v a) = ap_devices a" "ap_devices (refreshAnnounce v a) = ap_devices a"
  "ap_devices (record_fault d p a) = ap_devices a" "ap_devices (pruneGeometry a) = ap_devices a"
  by (simp_all add: refreshHardware_def publish_def restartAnnounce_def refreshAnnounce_def record_fault_def
      pruneGeometry_def fold_keeps Let_def)

lemma open_devices:
  assumes "openAndStart e d a = (rt, b)"
  shows "ap_devices b = ap_devices a" "may_put a (d_Name d) rt"
proof -
  obtain asked a1 where step: "geometryStep d a = (asked, a1)" by fastforce
  then have a1: "ap_devices a1 = ap_devices a" using geometryStep_keeps by (metis snd_conv)
  have opened: "ap_devices b' = ap_devices a1 \<and> (rt_state rt' \<noteq> StateServing \<or> rt_hwAddr rt' = hw_HWAddr hw)"
    if "open_device e d hw asked a1 = (rt', b')" for hw rt' b'
    using that by (auto simp: open_device_def down_record_def serving_record_def Let_def
        split: prod.splits sum.splits option.splits if_splits)
  show "ap_devices b = ap_devices a"
    using assms step opened a1
    by (auto simp: openAndStart_def skipDevice_def Let_def split: option.splits prod.splits if_splits)
  have owner: "hardwareOwner a1 x n = hardwareOwner a x n" for x n by (simp add: hardwareOwner_def a1)
  show "may_put a (d_Name d) rt"
    using assms step opened[of "hw_found a1 (d_Device d)" rt b]
    by (auto simp: openAndStart_def skipDevice_def may_put_def owner Let_def down_record_def
        split: option.splits prod.splits if_splits)
qed

lemma may_put_cong: "ap_devices b = ap_devices a \<Longrightarrow> may_put b n rt = may_put a n rt"
  by (simp add: may_put_def hardwareOwner_def)

lemma exclusive_start:
  assumes "exclusive a"
  shows "exclusive (startDevice e d a)"
proof -
  let ?a = "a\<lparr>ap_retries := AList.delete (d_Name d) (ap_retries a), ap_encodeFaults := AList.delete (d_Name d) (ap_encodeFaults a)\<rparr>"
  obtain rt b where op: "openAndStart e d ?a = (rt, b)" by fastforce
  have "may_put a (d_Name d) rt" using open_devices(2)[OF op] may_put_cong[of ?a a] by simp
  then show ?thesis
    by (rule exclusive_put[OF assms]) (simp add: startDevice_def op open_devices(1)[OF op] Let_def)
qed

lemma exclusive_attempt:
  assumes "exclusive a"
  shows "exclusive (snd (attemptRetry e d a))"
proof -
  obtain rt b where op: "openAndStart e d a = (rt, b)" by fastforce
  have may: "may_put a (d_Name d) rt" "may_put a (d_Name d) (rt\<lparr>rt_awaitEncode := True\<rparr>)"
    using open_devices(2)[OF op] by (simp_all add: may_put_def)
  have "ap_devices (snd (attemptRetry e d a)) = AList.update (d_Name d) rt (ap_devices a) \<or>
      ap_devices (snd (attemptRetry e d a)) = AList.update (d_Name d) (rt\<lparr>rt_awaitEncode := True\<rparr>) (ap_devices a)"
    by (simp add: attemptRetry_def op open_devices(1)[OF op] Let_def)
  then show ?thesis using exclusive_put[OF assms may(1)] exclusive_put[OF assms may(2)] by blast
qed

lemma exclusive_restart:
  assumes "exclusive a"
  shows "exclusive (snd (restartFaulted e d reset a))"
proof (cases "openRefused a d")
  case False
  then show ?thesis
    using exclusive_attempt exclusive_cong[of _ a] assms by (simp add: restartFaulted_def Let_def)
next
  case True
  let ?a = "if reset then a\<lparr>ap_retries := AList.delete (d_Name d) (ap_retries a)\<rparr> else a"
  obtain rt b where op: "openAndStart e d ?a = (rt, b)" by fastforce
  have "may_put a (d_Name d) rt" using open_devices(2)[OF op] may_put_cong[of ?a a] by simp
  then show ?thesis
    by (rule exclusive_put[OF assms]) (use True op open_devices(1)[OF op] in \<open>simp add: restartFaulted_def Let_def\<close>)
qed

lemma exclusive_off: "exclusive a \<Longrightarrow> rt_state rt \<noteq> StateServing \<or> rt_superseded rt \<Longrightarrow> exclusive (put_device n rt a)"
  by (rule exclusive_put) (auto simp: may_put_def)

lemma exclusive_delete: "exclusive a \<Longrightarrow> exclusive (a\<lparr>ap_devices := AList.delete n (ap_devices a)\<rparr>)"
  by (auto simp: exclusive_def delete_conv')

lemma exclusive_fold: "(\<And>x a. exclusive a \<Longrightarrow> exclusive (f x a)) \<Longrightarrow> exclusive a \<Longrightarrow> exclusive (fold f xs a)"
  by (induction xs arbitrary: a) simp_all

lemma exclusive_fold_snd:
  "(\<And>x p a. exclusive a \<Longrightarrow> exclusive (snd (f x (p, a)))) \<Longrightarrow> exclusive (snd s) \<Longrightarrow> exclusive (snd (fold f xs s))"
  by (induction xs arbitrary: s) (simp_all, metis prod.collapse)

lemma exclusive_same:
  assumes "exclusive a" "map_of (ap_devices a) n = Some rt" "rt_state rt' = rt_state rt" "rt_superseded rt' = rt_superseded rt"
    "rt_hwAddr rt' = rt_hwAddr rt" "ap_devices b = AList.update n rt' (ap_devices a)"
  shows "exclusive b"
  unfolding exclusive_def
proof (intro allI impI)
  fix k m r r'
  assume h: "k \<noteq> m \<and> map_of (ap_devices b) k = Some r \<and> map_of (ap_devices b) m = Some r' \<and>
     rt_state r = StateServing \<and> rt_state r' = StateServing \<and> \<not> rt_superseded r \<and> \<not> rt_superseded r' \<and>
     rt_hwAddr r = rt_hwAddr r'"
  have old: "\<exists>q. map_of (ap_devices a) x = Some q \<and> rt_state q = rt_state y \<and> rt_superseded q = rt_superseded y \<and>
      rt_hwAddr q = rt_hwAddr y" if "map_of (ap_devices b) x = Some y" for x y
    using that assms(2-6) by (cases "x = n") (auto simp: update_conv')
  obtain q q' where "map_of (ap_devices a) k = Some q \<and> rt_state q = rt_state r \<and> rt_superseded q = rt_superseded r \<and>
      rt_hwAddr q = rt_hwAddr r" "map_of (ap_devices a) m = Some q' \<and> rt_state q' = rt_state r' \<and>
      rt_superseded q' = rt_superseded r' \<and> rt_hwAddr q' = rt_hwAddr r'" using old h by blast
  then show "rt_hwAddr r = ''''" using assms(1) h unfolding exclusive_def by metis
qed

subsection \<open>Every handler keeps the cards exclusive\<close>

lemma devices_settle [simp]: "ap_devices (snd (settle_due e d st (p, a))) = ap_devices a"
  by (auto simp: settle_due_def Let_def split: option.split)

lemma exclusive_retry_device: "exclusive a \<Longrightarrow> exclusive (snd (retry_device e d (p, a)))"
proof -
  assume ex: "exclusive a"
  have att: "exclusive (snd (attempt_due e d st (p, a)))" for st
  proof -
    let ?a = "set_retry (d_Name d) (st\<lparr>rs_next := 0\<rparr>) a"
    let ?b = "if ps_attempted p then ?a else refreshHardware e (ap_cfg ?a) ?a"
    have b: "exclusive ?a" "exclusive ?b" using exclusive_cong[of _ a] ex by simp_all
    have "snd (attempt_due e d st (p, a)) \<in> {?a, snd (attemptRetry e d ?b)}"
      by (auto simp: attempt_due_def Let_def split: option.split prod.split)
    then show ?thesis using b exclusive_attempt[OF b(2)] by auto
  qed
  have "exclusive (snd (settle_due e d st (p, a)))" "exclusive (set_retry n st a)" for st n
    using exclusive_cong[of _ a] ex by simp_all
  then show ?thesis using ex att by (simp add: retry_device_def Let_def split: option.split)
qed

lemma exclusive_onRetryDue:
  assumes "exclusive a"
  shows "exclusive (onRetryDue v e a)"
proof -
  let ?a = "drop_unconfigured (a\<lparr>ap_retryAt := 0\<rparr>)" and ?p = "\<lparr>ps_attempted = False, ps_recovered = False, ps_reannounce = False\<rparr>"
  obtain p b where pass: "fold (retry_device e) (c_Devices (ap_cfg ?a)) (?p, ?a) = (p, b)" by fastforce
  have "exclusive ?a" using assms exclusive_cong[of ?a a] by (simp add: drop_unconfigured_def)
  then have "exclusive (snd (fold (retry_device e) (c_Devices (ap_cfg ?a)) (?p, ?a)))"
    by (intro exclusive_fold_snd exclusive_retry_device) simp_all
  then have "exclusive b" using pass by simp
  moreover have "ap_devices (onRetryDue v e a) = ap_devices b"
    using pass by (simp add: onRetryDue_def Let_def)
  ultimately show ?thesis using exclusive_cong by blast
qed

lemma exclusive_stop: "exclusive a \<Longrightarrow> exclusive (stop_device e n rt a)" "exclusive a \<Longrightarrow> exclusive (stop_serving e n a)"
proof -
  have "exclusive a \<Longrightarrow> exclusive (stop_device e n rt a)" for n rt
    using exclusive_off[of a "rt\<lparr>rt_superseded := True\<rparr>" n]
      exclusive_cong[of "stop_device e n rt a" "put_device n (rt\<lparr>rt_superseded := True\<rparr>) a"]
    by (simp add: stop_device_def Let_def)
  then show "exclusive a \<Longrightarrow> exclusive (stop_device e n rt a)" "exclusive a \<Longrightarrow> exclusive (stop_serving e n a)"
    by (simp_all add: stop_serving_def split: option.split)
qed

lemma devices_forget [simp]: "ap_devices (forget_device m r a) = ap_devices a"
  by (simp add: forget_device_def Let_def)

lemma exclusive_disable: "exclusive a \<Longrightarrow> exclusive (disable_device d a)"
  using exclusive_cong[of "forget_device (d_Name d) ''device disabled'' a" a]
  by (auto simp: disable_device_def disabled_record_def down_record_def Let_def intro!: exclusive_off)

lemma exclusive_remove: "exclusive a \<Longrightarrow> exclusive (remove_device e want x a)"
proof -
  assume ex: "exclusive a"
  obtain n rt where x: "x = (n, rt)" by fastforce
  let ?s = "if rt_state rt = StateServing \<and> \<not> rt_superseded rt then stop_device e n rt a else a"
  have "exclusive (forget_device n r ?s)" for r
    using exclusive_cong[of "forget_device n r ?s" ?s] exclusive_stop(1)[OF ex] ex by simp
  then have "exclusive ((forget_device n r ?s)\<lparr>ap_devices := AList.delete n (ap_devices (forget_device n r ?s))\<rparr>)" for r
    by (rule exclusive_delete)
  then show ?thesis using ex by (simp add: x remove_device_def Let_def)
qed

lemma exclusive_reconcileRecords: "exclusive a \<Longrightarrow> exclusive (reconcileRecords e c a)"
  using exclusive_cong[of "armRetryTimer b" b for b]
  by (simp add: reconcileRecords_def Let_def exclusive_fold exclusive_disable exclusive_remove)

lemma exclusive_run_plan: "exclusive a \<Longrightarrow> exclusive (run_plan e c p a)"
proof -
  have "exclusive (start_planned e d a)" if "exclusive a" for d a
    using that exclusive_start exclusive_restart by (simp add: start_planned_def split: option.split)
  then show "exclusive a \<Longrightarrow> exclusive (run_plan e c p a)"
    by (simp add: run_plan_def Let_def exclusive_fold exclusive_stop(2) exclusive_start)
qed

lemma exclusive_reconcile: "exclusive a \<Longrightarrow> exclusive (reconcile v e c a)"
proof -
  assume ex: "exclusive a"
  let ?a = "refreshHardware e c (a\<lparr>ap_token := c_Token c, ap_authRequired := AuthRequired c\<rparr>)"
  let ?b = "reconcileRecords e c (run_plan e c (Reconcile (runningParams ?a) c) ?a)"
  have "exclusive ?a" using ex exclusive_cong[of ?a a] by simp
  then have "exclusive ?b" by (intro exclusive_reconcileRecords exclusive_run_plan)
  moreover have "ap_devices (reconcile v e c a) = ap_devices ?b" by (simp add: reconcile_def Let_def)
  ultimately show ?thesis using exclusive_cong by blast
qed

lemma exclusive_retry_down: "exclusive a \<Longrightarrow> exclusive (snd (retry_down_device e d (p, a)))"
  using exclusive_start[of a e d] exclusive_restart[of a e d False]
  by (simp add: retry_down_device_def Let_def split: option.split)

lemma exclusive_retryDown: "exclusive a \<Longrightarrow> exclusive (retryDown v e a)"
proof -
  assume ex: "exclusive a"
  let ?a = "refreshHardware e (ap_cfg a) a"
  obtain s b where pass: "fold (retry_down_device e) (c_Devices (ap_cfg a)) (False, ?a) = (s, b)" by fastforce
  have "exclusive ?a" using ex exclusive_cong[of ?a a] by simp
  then have "exclusive (snd (fold (retry_down_device e) (c_Devices (ap_cfg a)) (False, ?a)))"
    by (intro exclusive_fold_snd exclusive_retry_down) simp_all
  then have "exclusive (reconcileRecords e (ap_cfg b) b)" using pass exclusive_reconcileRecords by simp
  moreover have "ap_devices (retryDown v e a) = ap_devices (reconcileRecords e (ap_cfg b) b)"
    using pass by (simp add: retryDown_def Let_def)
  ultimately show ?thesis using exclusive_cong by blast
qed

lemma devices_lost: "ap_devices (device_lost rt err a) =
    AList.update (d_Name (rt_dev rt)) (markFailed (ce_Msg err) downDisconnected rt) (ap_devices a)"
  by (simp add: device_lost_def Let_def)

lemma devices_failed: "ap_devices (device_failed e rt err p a) = ap_devices a"
  by (simp add: device_failed_def Let_def)

lemma exclusive_onPumpDone: "exclusive a \<Longrightarrow> exclusive (onPumpDone e n g err path a)"
proof -
  assume ex: "exclusive a"
  have "\<exists>b. exclusive b \<and> ap_devices (onPumpDone e n g err path a) = ap_devices b"
  proof (cases "live_record n g (a\<lparr>ap_alive := ap_alive a - 1\<rparr>)")
    case None
    then show ?thesis using ex by (intro exI[of _ a]) (simp add: onPumpDone_def Let_def)
  next
    case (Some rt)
    show ?thesis
    proof (cases "err = None \<or> en_shutdown e")
      case True
      then show ?thesis
        using ex Some by (intro exI[of _ a]) (auto simp: onPumpDone_def Let_def split: option.split)
    next
      case False
      then obtain er where er: "err = Some er" by auto
      let ?rt = "markFailed (ce_Msg er) (if ce_Stalled er then downStalled else downFailed) rt"
      let ?lost = "ce_Gone er \<or> en_resolve e (d_Device (rt_dev ?rt)) = Inl DeviceNotFound"
      have off: "rt_state (markFailed m c r) \<noteq> StateServing" for m c r by (simp add: markFailed_def)
      have put: "exclusive (put_device n ?rt a)" using ex off by (intro exclusive_off) simp_all
      let ?lostrt = "markFailed (ce_Msg er) downDisconnected ?rt"
      have lost: "exclusive (put_device (d_Name (rt_dev ?rt)) ?lostrt (put_device n ?rt a))"
        by (rule exclusive_off[OF put]) (simp add: off)
      have "ap_devices (onPumpDone e n g err path a) =
          (if ?lost then ap_devices (put_device (d_Name (rt_dev ?rt)) ?lostrt (put_device n ?rt a))
           else ap_devices (put_device n ?rt a))"
        using Some er False by (simp add: onPumpDone_def Let_def devices_lost devices_failed)
      then show ?thesis using put lost by auto
    qed
  qed
  then show ?thesis using exclusive_cong by blast
qed

lemma exclusive_noteEncoded: "exclusive a \<Longrightarrow> exclusive (noteEncoded n g p a)"
proof -
  assume ex: "exclusive a"
  have "exclusive (put_device n (rt\<lparr>rt_encoded := ps\<rparr>) a)" if "map_of (ap_devices a) n = Some rt" for rt ps
    by (rule exclusive_same[OF ex that]) simp_all
  then show ?thesis using ex by (simp add: noteEncoded_def split: option.split)
qed

lemma exclusive_event: "exclusive a \<Longrightarrow> exclusive (run_event v ev a)"
proof -
  assume ex: "exclusive a"
  obtain e x where x: "ev = (e, x)" by fastforce
  have "exclusive (a\<lparr>ap_pumps := ps\<rparr>)" for ps using ex exclusive_cong[of "a\<lparr>ap_pumps := ps\<rparr>" a] by simp
  then show ?thesis
    using ex x by (cases x) (simp_all add: exclusive_reconcile exclusive_onRetryDue exclusive_onPumpDone
        exclusive_retryDown exclusive_noteEncoded)
qed

text \<open>
  C14. After any sequence of events no two devices capture from the same sound card: two records
  that serve and were not superseded have different hardware addresses, unless the platform gives
  none. Two configuration entries that resolve to one card cannot both open it, in whatever order
  the devices fail, return and are retried.
\<close>
theorem no_two_devices_on_one_card:
  assumes "n \<noteq> m" "map_of (ap_devices (run_loop version cfg evs)) n = Some rt"
    "map_of (ap_devices (run_loop version cfg evs)) m = Some rt'"
    "rt_state rt = StateServing" "rt_state rt' = StateServing" "\<not> rt_superseded rt" "\<not> rt_superseded rt'"
    "rt_hwAddr rt \<noteq> ''''"
  shows "rt_hwAddr rt \<noteq> rt_hwAddr rt'"
proof -
  have "exclusive (newAppliance cfg)" by (simp add: exclusive_def newAppliance_def)
  then have "exclusive (run_loop version cfg evs)"
    unfolding run_loop_def by (intro exclusive_fold exclusive_event)
  then show ?thesis using assms unfolding exclusive_def by blast
qed

theorem no_two_devices_on_one_card_witness:
  "rt_hwAddr (the (map_of (ap_devices (run_loop '''' demo_cfg [(demo_env 1 [], EvReconcile demo_cfg)])) ''barn'')) \<noteq>
   rt_hwAddr (the (map_of (ap_devices (run_loop '''' demo_cfg [(demo_env 1 [], EvReconcile demo_cfg)])) ''coop''))"
proof -
  let ?d = "ap_devices (run_loop '''' demo_cfg [(demo_env 1 [], EvReconcile demo_cfg)])"
  have some: "map_of ?d ''barn'' \<noteq> None" "map_of ?d ''coop'' \<noteq> None" by code_simp+
  have serving: "rt_state (the (map_of ?d ''barn'')) = StateServing" "rt_state (the (map_of ?d ''coop'')) = StateServing"
    "\<not> rt_superseded (the (map_of ?d ''barn''))" "\<not> rt_superseded (the (map_of ?d ''coop''))"
    "rt_hwAddr (the (map_of ?d ''barn'')) \<noteq> ''''" by code_simp+
  show ?thesis
    by (rule no_two_devices_on_one_card[of "''barn''" "''coop''"]) (use some serving in auto)
qed

end
