(* ===== verification/Appliance_Unattended.thy ===== *)
theory Appliance_Unattended
  imports Appliance_Cards
begin

text \<open>
  A device configured by its card index may name other hardware after a reboot or a reconnect, so
  only a reload, which a person asked for, may open it. That an event opens no such device is stated
  as what the event does not depend on: what opening a card-index device would answer.
\<close>

section \<open>Events that do not open a card-index device\<close>

definition same_stable :: "env \<Rightarrow> (device \<Rightarrow> nat \<Rightarrow> capture_error + granted) \<Rightarrow> bool" where
  "same_stable e f \<longleftrightarrow> (\<forall>d. \<not> IsCardIndexID (d_Device d) \<longrightarrow> f d = en_open e d)"

abbreviation with_open :: "env \<Rightarrow> (device \<Rightarrow> nat \<Rightarrow> capture_error + granted) \<Rightarrow> env" where
  "with_open e f \<equiv> e\<lparr>en_open := f\<rparr>"

lemma fields_same:
  "en_clock (with_open e f) = en_clock e" "en_now (with_open e f) = en_now e"
  "en_resolve (with_open e f) = en_resolve e" "en_shutdown (with_open e f) = en_shutdown e"
  by simp_all

lemma open_same: "f d = en_open e d \<Longrightarrow> openAndStart (with_open e f) d a = openAndStart e d a"
  proof -
  assume "f d = en_open e d"
  then have answer: "en_open (with_open e f) d = en_open e d" by simp
  have serving: "serving_record (with_open e f) = serving_record e" by (simp add: fun_eq_iff serving_record_def)
  have "open_device (with_open e f) d hw k b = open_device e d hw k b" for hw k b
    by (simp only: open_device_def serving answer)
  then show ?thesis by (simp only: openAndStart_def)
qed

lemma schedule_same [simp]: "scheduleRetry (with_open e f) d a = scheduleRetry e d a"
  by (simp only: scheduleRetry_def fields_same)

lemma attempt_same: "f d = en_open e d \<Longrightarrow> attemptRetry (with_open e f) d a = attemptRetry e d a"
  by (simp only: attemptRetry_def open_same schedule_same fields_same)

lemma start_same: "f d = en_open e d \<Longrightarrow> startDevice (with_open e f) d a = startDevice e d a"
  by (simp only: startDevice_def open_same schedule_same fields_same)

lemma restart_same: "f d = en_open e d \<Longrightarrow> restartFaulted (with_open e f) d r a = restartFaulted e d r a"
  by (simp only: restartFaulted_def attempt_same open_same schedule_same fields_same)

lemma geometryRunEnded_same [simp]: "geometryRunEnded (with_open e f) rt a = geometryRunEnded e rt a"
  by (simp only: geometryRunEnded_def fields_same)

lemma refresh_same [simp]: "refreshHardware (with_open e f) c a = refreshHardware e c a"
  by (simp only: refreshHardware_def fields_same)

lemma records_same [simp]: "reconcileRecords (with_open e f) c a = reconcileRecords e c a"
proof -
  have "stop_device (with_open e f) n rt b = stop_device e n rt b" for n rt b by (simp only: stop_device_def geometryRunEnded_same)
  then have "remove_device (with_open e f) w = remove_device e w" for w by (simp add: remove_device_def fun_eq_iff)
  then show ?thesis by (simp add: reconcileRecords_def)
qed

lemma retry_down_same: "same_stable e f \<Longrightarrow> retry_down_device (with_open e f) d = retry_down_device e d"
  by (cases "IsCardIndexID (d_Device d)")
    (auto simp: same_stable_def retry_down_device_def restart_same start_same fun_eq_iff split: option.split)

lemma retryDown_same: "same_stable e f \<Longrightarrow> retryDown v (with_open e f) a = retryDown v e a"
proof -
  assume "same_stable e f"
  then have "retry_down_device (with_open e f) = retry_down_device e" using retry_down_same by blast
  then show ?thesis by (simp only: retryDown_def refresh_same records_same)
qed

lemma onPumpDone_same: "onPumpDone (with_open e f) n g err p a = onPumpDone e n g err p a"
  by (simp only: onPumpDone_def device_failed_def fields_same schedule_same geometryRunEnded_same)

lemma retry_device_same:
  assumes "same_stable e f" "sound A0 (d_Name d) (snd s)" "matches d (snd s)"
  shows "retry_device (with_open e f) d s = retry_device e d s"
proof (cases "map_of (ap_retries (snd s)) (d_Name d)")
  case None
  then show ?thesis by (cases s) (simp add: retry_device_def)
next
  case (Some st)
  have "\<not> IsCardIndexID (d_Device d)" using retry_facts[OF assms(2,3) Some] by blast
  then have "f d = en_open e d" using assms(1) by (simp add: same_stable_def)
  then show ?thesis by (simp only: retry_device_def settle_due_def attempt_due_def attempt_same fields_same refresh_same)
qed

lemma retry_fold_same:
  assumes "same_stable e f" "valid_env e" "distinct (map d_Name ds)"
    "\<forall>d \<in> set ds. sound A0 (d_Name d) (snd s) \<and> matches d (snd s)"
  shows "fold (retry_device (with_open e f)) ds s = fold (retry_device e) ds s"
  using assms(3,4)
proof (induction ds arbitrary: s)
  case (Cons d ds)
  have d: "sound A0 (d_Name d) (snd s)" "matches d (snd s)" using Cons.prems(2) by simp_all
  have works: "works_in {d_Name d} (snd s) (snd (retry_device e d s))"
    using retry_device_done[OF d assms(2), of "fst s"] by (simp add: works_on_in)
  have "sound A0 (d_Name x) (snd (retry_device e d s)) \<and> matches x (snd (retry_device e d s))" if "x \<in> set ds" for x
  proof -
    have "d_Name x \<notin> {d_Name d}" using Cons.prems(1) that by (metis distinct.simps(2) imageI list.set_map list.simps(9) singletonD)
    then show ?thesis
      using local_works[OF local_sound works] local_works[OF local_matches works] Cons.prems(2) that by simp
  qed
  then show ?case using Cons.IH[of "retry_device e d s"] Cons.prems(1) retry_device_same[OF assms(1) d] by simp
qed simp

text \<open>
  C8. A retry, a hardware change and an ended pump never open a device that is configured by its
  card index: after any history, the state such an event leaves does not depend on what opening a
  card-index device would have answered.
\<close>
theorem unattended_events_open_no_card_index:
  assumes "list_all valid_event evs" "valid_env e"
    and "\<And>d. \<not> IsCardIndexID (d_Device d) \<Longrightarrow> f d = en_open e d"
    and "ev = EvRetryDue \<or> ev = EvHardwareChanged \<or> ev = EvPumpDone n g err path"
  shows "run_event version (e\<lparr>en_open := f\<rparr>, ev) (run_loop version cfg evs) =
    run_event version (e, ev) (run_loop version cfg evs)"
proof -
  define a where "a = run_loop version cfg evs"
  have same: "same_stable e f" using assms(3) by (simp add: same_stable_def)
  have inv: "base_inv {} a" using run_loop_inv[OF assms(1)] by (simp add: a_def inv_def)
  let ?z = "a\<lparr>ap_retryAt := 0\<rparr>"
  have z: "works_in {} a ?z" by (simp add: works_in_def act_def state_ok_def)
  have "base_inv {} ?z" using inv base_inv_same[OF z] by simp
  then have "base_inv {} (drop_unconfigured ?z)" using base_inv_same[OF drop_unconfigured_keeps] by blast
  then have "fold (retry_device (with_open e f)) (c_Devices (ap_cfg (drop_unconfigured ?z))) (p, drop_unconfigured ?z) =
      fold (retry_device e) (c_Devices (ap_cfg (drop_unconfigured ?z))) (p, drop_unconfigured ?z)" for p
    by (intro retry_fold_same[OF same assms(2), where ?A0.0 = "{}"]) (simp_all add: base_inv_def configured_def)
  then have "onRetryDue version (with_open e f) a = onRetryDue version e a" by (simp add: onRetryDue_def Let_def)
  then show ?thesis
    using assms(4) retryDown_same[OF same, of version a] onPumpDone_same
    unfolding a_def by auto
qed

theorem unattended_events_open_no_card_index_witness:
  "run_event '''' ((demo_env 9 [])\<lparr>en_open := (\<lambda>d step. if IsCardIndexID (d_Device d) then Inl busy else en_open (demo_env 9 []) d step)\<rparr>,
     EvHardwareChanged) (run_loop '''' demo_cfg demo_start) =
   run_event '''' (demo_env 9 [], EvHardwareChanged) (run_loop '''' demo_cfg demo_start)"
proof -
  have env: "valid_env (demo_env 9 [])" by (rule demo_valid(1)) simp
  show ?thesis by (rule unattended_events_open_no_card_index[OF demo_valid(2) env]) auto
qed

end
