(* ===== verification/Monitor_Host.thy ===== *)
theory Monitor_Host
  imports Monitor_Conditions
begin

text \<open>
  \<open>internal/monitor/host.go\<close>: the host monitor. A poll reads the host and the loss counters of the
  serving devices and drives five host conditions and two conditions per device. A reading that is
  not available is \<open>None\<close>; readings are exact (float64 values are reals, and a percentage is the exact
  quotient). Log lines are dropped, except those that report capture overruns, which are the
  journal's only record of them: they are values of \<open>overrun_line\<close>.
\<close>

section \<open>Conditions\<close>

definition cpuEnterAfter :: duration where "cpuEnterAfter = 60 * second"
definition cpuClearAfter :: duration where "cpuClearAfter = 60 * second"
definition memEnterAfter :: duration where "memEnterAfter = 60 * second"
definition memClearAfter :: duration where "memClearAfter = 60 * second"
definition tempEnterAfter :: duration where "tempEnterAfter = 30 * second"
definition tempClearAfter :: duration where "tempClearAfter = 60 * second"
definition diskEnterAfter :: duration where "diskEnterAfter = 60 * second"
definition diskClearAfter :: duration where "diskClearAfter = 60 * second"
definition voltEnterAfter :: duration where "voltEnterAfter = 10 * second"
definition voltClearAfter :: duration where "voltClearAfter = 60 * second"
definition dropsEnterAfter :: duration where "dropsEnterAfter = 30 * second"
definition dropsClearAfter :: duration where "dropsClearAfter = 60 * second"
definition memClearGapDivisor :: int where "memClearGapDivisor = 4"
definition dropsPerSecond :: real where "dropsPerSecond = 1"
definition overrunWindow :: duration where "overrunWindow = 5 * minute"
definition overrunOnsetCount :: int where "overrunOnsetCount = 5"
definition overrunClearAfter :: duration where "overrunClearAfter = 5 * minute"

definition hostCPUKey :: string where "hostCPUKey = ''system:cpu''"
definition hostMemKey :: string where "hostMemKey = ''system:mem''"
definition hostTempKey :: string where "hostTempKey = ''system:temp''"
definition hostDiskKey :: string where "hostDiskKey = ''system:disk''"
definition hostVoltKey :: string where "hostVoltKey = ''system:volt''"

definition streamDropsKey :: "string \<Rightarrow> string" where
  "streamDropsKey name = ''stream:'' @ name @ '':drops''"

definition deviceOverrunsKey :: "string \<Rightarrow> string" where
  "deviceOverrunsKey name = ''device:'' @ name @ '':overruns''"

record hostCond =
  hc_key :: string
  hc_h :: hysteresis
  hc_clearAfter :: duration
  hc_lastOK :: instant

definition newHostCond :: "string \<Rightarrow> duration \<Rightarrow> duration \<Rightarrow> hostCond" where
  "newHostCond key enterAfter clearAfter =
     \<lparr>hc_key = key, hc_h = NewHysteresis enterAfter clearAfter, hc_clearAfter = clearAfter, hc_lastOK = 0\<rparr>"

record counterState =
  cn_h :: hysteresis
  cn_prev :: u64
  cn_prevAt :: instant
  cn_gen :: u64
  cn_missed :: int
  cn_seen :: bool
  cn_ovPrev :: u64
  cn_ov :: flap
  cn_ovLogAt :: instant
  cn_ovUnlogged :: u64
  cn_ovEpisode :: u64

section \<open>Readings\<close>

text \<open>\<open>HostReader\<close>: tot and available memory, the temperature, tot, used and available disk bytes.\<close>

record hostReading =
  hr_CPU :: "real option"
  hr_Mem :: "(int \<times> int) option"
  hr_Temp :: "real option"
  hr_Disk :: "(int \<times> int \<times> int) option"
  hr_Undervoltage :: "bool option"

record deviceCounters =
  dc_Name :: string
  dc_Gen :: u64
  dc_Dropped :: u64
  dc_Overruns :: u64

section \<open>Texts\<close>

text \<open>\<open>%.0f\<close> and \<open>%.1f\<close>: the nearest decimal, a tie to the even digit.\<close>

definition round_even :: "real \<Rightarrow> int" where
  "round_even x =
     (let f = \<lfloor>x\<rfloor>; r = x - real_of_int f
      in if r < 1 / 2 then f else if 1 / 2 < r then f + 1 else if even f then f else f + 1)"

definition fixed0 :: "real \<Rightarrow> string" where
  "fixed0 x = (if x < 0 then ''-'' else '''') @ Itoa (round_even \<bar>x\<bar>)"

definition fixed1 :: "real \<Rightarrow> string" where
  "fixed1 x =
     (let t = round_even (10 * \<bar>x\<bar>)
      in (if x < 0 then ''-'' else '''') @ Itoa (t div 10) @ ''.'' @ Itoa (t mod 10))"

definition hostOnset :: "string \<Rightarrow> string \<Rightarrow> string \<Rightarrow> severity \<Rightarrow> notification" where
  "hostOnset key title msg sev = zero_notification\<lparr>n_Severity := sev, n_Category := CategorySystem,
     n_Key := key, n_Source := ''host'', n_Title := title, n_Message := msg\<rparr>"

definition cpuOnset :: "int \<Rightarrow> notification" where
  "cpuOnset threshold = hostOnset hostCPUKey ''High CPU load''
     (''CPU usage has read at or above '' @ Itoa threshold @ ''% at every check for ''
        @ humanDuration (cpuEnterAfter div second)) SeverityWarning"

definition memOnset :: "int \<Rightarrow> int \<Rightarrow> notification" where
  "memOnset avail tot = hostOnset hostMemKey ''Low memory''
     (''Available memory is low: '' @ fixed0 (real_of_int avail * 100 / real_of_int tot) @ ''% (''
        @ Itoa (avail div 2 ^ 20) @ '' MiB) free'') SeverityWarning"

definition celsius :: string where "celsius = '' '' @ [CHR 0xC2, CHR 0xB0] @ ''C''"

definition tempOnset :: "real \<Rightarrow> int \<Rightarrow> notification" where
  "tempOnset c threshold = hostOnset hostTempKey ''High temperature''
     (''SoC temperature is '' @ fixed0 c @ celsius @ '', at or above the '' @ Itoa threshold @ celsius
        @ '' threshold (check cooling)'') SeverityWarning"

definition diskOnset :: "real \<Rightarrow> notification" where
  "diskOnset pct = hostOnset hostDiskKey ''Disk almost full'' (''Disk is '' @ fixed0 pct @ ''% full'') SeverityWarning"

definition voltOnset :: notification where
  "voltOnset = hostOnset hostVoltKey ''Undervoltage'' ''Undervoltage detected: check the power supply'' SeverityError"

definition dropsOnset :: "string \<Rightarrow> real \<Rightarrow> notification" where
  "dropsOnset name rate = zero_notification\<lparr>n_Severity := SeverityWarning, n_Category := CategoryStream,
     n_Key := streamDropsKey name, n_Source := name, n_Title := ''Client not keeping up'',
     n_Message := ''Client not keeping up: '' @ name @ '' is dropping '' @ fixed1 rate @ '' frames/s''\<rparr>"

definition dropsClearFor :: "string \<Rightarrow> notification" where
  "dropsClearFor name = conditionClear ''Client keeping up'' (name @ '' is no longer dropping frames'')"

definition overrunsOnset :: "string \<Rightarrow> notification" where
  "overrunsOnset name = zero_notification\<lparr>n_Severity := SeverityWarning, n_Category := CategoryDevice,
     n_Key := deviceOverrunsKey name, n_Source := name, n_Title := ''Capture overruns'',
     n_Message := name @ '' lost audio to at least '' @ Itoa overrunOnsetCount @ '' capture overruns within ''
       @ humanDuration (overrunWindow div second) @ ''; the host may be too busy or the USB connection unstable''\<rparr>"

definition overrunsClearFor :: "string \<Rightarrow> notification" where
  "overrunsClearFor name = conditionClear ''Capture overruns stopped''
     (name @ '' has had no capture overruns for '' @ humanDuration (overrunClearAfter div second))"

section \<open>Host conditions\<close>

definition overWithGap :: "bool \<Rightarrow> real \<Rightarrow> real \<Rightarrow> real \<Rightarrow> bool" where
  "overWithGap active v onsetLevel clearLevel = (if active then v > clearLevel else v \<ge> onsetLevel)"

text \<open>A 64-bit result, which wraps.\<close>

abbreviation i64 :: "int \<Rightarrow> int" where
  "i64 x \<equiv> sint (word_of_int x :: 64 word)"

definition mem_limit :: "hostAlerts \<Rightarrow> int \<Rightarrow> int" where
  "mem_limit hs tot =
     (let mibFloor = min (i64 (intVal (ha_MemFreeMiB hs) * 2 ^ 20)) (go_quot tot 2)
      in max (i64 (go_quot tot 100 * intVal (ha_MemFreePercent hs))) mibFloor)"

definition mem_over :: "hostAlerts \<Rightarrow> bool \<Rightarrow> int \<Rightarrow> int \<Rightarrow> bool" where
  "mem_over hs active tot avail =
     (let limit = mem_limit hs tot in
      if active
      then avail < min (i64 (limit + go_quot limit memClearGapDivisor))
                       (i64 (limit + go_quot (i64 (tot - limit)) 2))
      else avail < limit)"

text \<open>\<open>hostCond.observe\<close>; \<open>over\<close> is the judgement of an available reading.\<close>

definition cond_observe ::
  "instant \<Rightarrow> bool option \<Rightarrow> notification \<Rightarrow> notification \<Rightarrow> hostCond \<Rightarrow> pub_call list \<times> hostCond" where
  "cond_observe now over onset clear c =
     (case over of
        None \<Rightarrow>
          if h_active (hc_h c) then
            if \<not> is_zero (hc_lastOK c) \<and> time_sub now (hc_lastOK c) \<ge> hc_clearAfter c
            then ([PResolve (hc_key c) ''sensor reading unavailable''], c\<lparr>hc_h := hys_Reset (hc_h c)\<rparr>)
            else ([], c\<lparr>hc_h := hys_ResetRun (hc_h c)\<rparr>)
          else ([], c\<lparr>hc_h := hys_Reset (hc_h c)\<rparr>)
      | Some v \<Rightarrow>
          (case hys_Observe now v (hc_h c) of
             (tr, h) \<Rightarrow> (on_transition tr onset (hc_key c) clear, c\<lparr>hc_h := h, hc_lastOK := now\<rparr>)))"



text \<open>The five conditions of the monitor and its devices.\<close>

record host =
  ho_set :: settings
  ho_applied :: "settings option"
  ho_cpu :: hostCond
  ho_mem :: hostCond
  ho_temp :: hostCond
  ho_disk :: hostCond
  ho_vt :: hostCond
  ho_devs :: "(string \<times> counterState) list"

definition NewHost :: "settings \<Rightarrow> host" where
  "NewHost s =
     \<lparr>ho_set = s, ho_applied = None,
      ho_cpu = newHostCond hostCPUKey cpuEnterAfter cpuClearAfter,
      ho_mem = newHostCond hostMemKey memEnterAfter memClearAfter,
      ho_temp = newHostCond hostTempKey tempEnterAfter tempClearAfter,
      ho_disk = newHostCond hostDiskKey diskEnterAfter diskClearAfter,
      ho_vt = newHostCond hostVoltKey voltEnterAfter voltClearAfter, ho_devs = []\<rparr>"

definition host_Apply :: "settings \<Rightarrow> host \<Rightarrow> host" where
  "host_Apply s h = h\<lparr>ho_set := s\<rparr>"

definition evaluate_cpu :: "instant \<Rightarrow> hostAlerts \<Rightarrow> hostReading \<Rightarrow> hostCond \<Rightarrow> pub_call list \<times> hostCond" where
  "evaluate_cpu now hs r c =
     cond_observe now
       (map_option (\<lambda>pct. overWithGap (h_active (hc_h c)) pct (real_of_int (intVal (ha_CPUPercent hs)))
          (real_of_int (intVal (ha_CPUClearPercent hs)))) (hr_CPU r))
       (cpuOnset (intVal (ha_CPUPercent hs)))
       (conditionClear ''CPU load back to normal''
          (''CPU usage is back at or below '' @ Itoa (intVal (ha_CPUClearPercent hs)) @ ''%'')) c"

definition evaluate_mem :: "instant \<Rightarrow> hostAlerts \<Rightarrow> hostReading \<Rightarrow> hostCond \<Rightarrow> pub_call list \<times> hostCond" where
  "evaluate_mem now hs r c =
     (let (tot, avail) = (case hr_Mem r of Some ta \<Rightarrow> ta | None \<Rightarrow> (0, 0))
      in cond_observe now
           (if tot > 0 then Some (mem_over hs (h_active (hc_h c)) tot avail) else None)
           (memOnset avail tot)
           (conditionClear ''Memory recovered'' ''Available memory is back above the low-memory threshold'') c)"

definition evaluate_temp :: "instant \<Rightarrow> hostAlerts \<Rightarrow> hostReading \<Rightarrow> hostCond \<Rightarrow> pub_call list \<times> hostCond" where
  "evaluate_temp now hs r c =
     cond_observe now
       (map_option (\<lambda>t. overWithGap (h_active (hc_h c)) t (real_of_int (intVal (ha_TempCelsius hs)))
          (real_of_int (intVal (ha_TempClearCelsius hs)))) (hr_Temp r))
       (tempOnset (case hr_Temp r of Some t \<Rightarrow> t | None \<Rightarrow> 0) (intVal (ha_TempCelsius hs)))
       (conditionClear ''Temperature back to normal''
          (''SoC temperature is back at or below '' @ Itoa (intVal (ha_TempClearCelsius hs)) @ celsius)) c"

definition disk_used :: "hostReading \<Rightarrow> real option" where
  "disk_used r =
     (case hr_Disk r of
        None \<Rightarrow> None
      | Some (dTotal, used, avail) \<Rightarrow>
          let usable = i64 (used + avail) in
          if dTotal > 0 \<and> usable > 0 then Some (real_of_int used * 100 / real_of_int usable) else None)"

definition evaluate_disk :: "instant \<Rightarrow> hostAlerts \<Rightarrow> hostReading \<Rightarrow> hostCond \<Rightarrow> pub_call list \<times> hostCond" where
  "evaluate_disk now hs r c =
     cond_observe now
       (map_option (\<lambda>pct. overWithGap (h_active (hc_h c)) pct (real_of_int (intVal (ha_DiskPercent hs)))
          (real_of_int (intVal (ha_DiskClearPercent hs)))) (disk_used r))
       (diskOnset (case disk_used r of Some p \<Rightarrow> p | None \<Rightarrow> 0))
       (conditionClear ''Disk space recovered''
          (''Disk usage is back at or below '' @ Itoa (intVal (ha_DiskClearPercent hs)) @ ''%'')) c"

definition evaluate_volt :: "instant \<Rightarrow> hostReading \<Rightarrow> hostCond \<Rightarrow> pub_call list \<times> hostCond" where
  "evaluate_volt now r c =
     cond_observe now (hr_Undervoltage r) voltOnset
       (conditionClear ''Power supply recovered''
          ''No undervoltage detected recently; the supply looks stable again'') c"

definition evaluateHost :: "instant \<Rightarrow> settings \<Rightarrow> hostReading \<Rightarrow> host \<Rightarrow> pub_call list \<times> host" where
  "evaluateHost now s r h =
     (case evaluate_cpu now (st_Host s) r (ho_cpu h) of (k1, cpu) \<Rightarrow>
      case evaluate_mem now (st_Host s) r (ho_mem h) of (k2, mem) \<Rightarrow>
      case evaluate_temp now (st_Host s) r (ho_temp h) of (k3, temp) \<Rightarrow>
      case evaluate_disk now (st_Host s) r (ho_disk h) of (k4, disk) \<Rightarrow>
      case evaluate_volt now r (ho_vt h) of (k5, vt) \<Rightarrow>
        (k1 @ k2 @ k3 @ k4 @ k5,
         h\<lparr>ho_cpu := cpu, ho_mem := mem, ho_temp := temp, ho_disk := disk, ho_vt := vt\<rparr>))"

section \<open>Device counters\<close>

text \<open>
  The log lines that report overruns: the running total of a capture first seen, the overruns held
  back until a warning is raised, those reported while there is none, and those of a warning that
  cleared, or that a stopped device or the shutdown ended.
\<close>

datatype overrun_line =
  LineTotal u64 | LineRaised u64 | LineShort u64 | LineCleared u64 | LineEnded u64 | LineStill u64

fun line_count :: "overrun_line \<Rightarrow> u64" where
  "line_count (LineTotal n) = 0"
| "line_count (LineRaised n) = n"
| "line_count (LineShort n) = n"
| "line_count (LineCleared n) = n"
| "line_count (LineEnded n) = n"
| "line_count (LineStill n) = n"

definition observeDrops :: "instant \<Rightarrow> string \<Rightarrow> u64 \<Rightarrow> bool \<Rightarrow> counterState \<Rightarrow> pub_call list \<times> counterState" where
  "observeDrops now name dropped restarted st =
     (let prev = cn_prev st; prevAt = cn_prevAt st; st = st\<lparr>cn_prev := dropped, cn_prevAt := now\<rparr>;
          observe = (\<lambda>over rate. case hys_Observe now over (cn_h st) of
            (tr, h) \<Rightarrow> (on_transition tr (dropsOnset name rate) (streamDropsKey name) (dropsClearFor name),
                        st\<lparr>cn_h := h\<rparr>))
      in if restarted then observe False 0
         else
           let delta = dropped - prev; elapsed = time_sub now prevAt in
           if elapsed \<le> 0 then ([], st)
           else
             let rate = real (unat delta) / (real_of_int elapsed / real_of_int second);
                 over = (if h_active (cn_h st) then delta > 0 else rate > dropsPerSecond)
             in observe over rate)"

definition logOverruns :: "instant \<Rightarrow> u64 \<Rightarrow> counterState \<Rightarrow> overrun_line list \<times> counterState" where
  "logOverruns now delta st =
     (let st = st\<lparr>cn_ovUnlogged := cn_ovUnlogged st + delta\<rparr> in
      if cn_ovUnlogged st = 0 then ([], st)
      else if is_zero (cn_ovLogAt st) \<or> time_sub now (cn_ovLogAt st) \<ge> overrunWindow
      then ([LineShort (cn_ovUnlogged st)], st\<lparr>cn_ovUnlogged := 0, cn_ovLogAt := now\<rparr>)
      else ([], st))"

text \<open>The loop over the new overruns: whether one of them raised the warning, which ends it.\<close>

fun overrun_events :: "instant \<Rightarrow> nat \<Rightarrow> flap \<Rightarrow> bool \<times> flap" where
  "overrun_events now 0 f = (False, f)"
| "overrun_events now (Suc k) f =
     (case flap_Event now f of
        (tr, f) \<Rightarrow> if tr = TransitionOnset then (True, f) else overrun_events now k f)"

definition new_overruns :: "u64 \<Rightarrow> bool \<Rightarrow> counterState \<Rightarrow> u64" where
  "new_overruns tot restarted st = (if restarted then tot else tot - cn_ovPrev st)"

definition observeOverruns ::
  "instant \<Rightarrow> string \<Rightarrow> u64 \<Rightarrow> bool \<Rightarrow> counterState \<Rightarrow> overrun_line list \<times> pub_call list \<times> counterState" where
  "observeOverruns now name tot restarted st =
     (let delta = new_overruns tot restarted st; st = st\<lparr>cn_ovPrev := tot\<rparr>
      in case flap_Sweep now (cn_ov st) of (tr, f) \<Rightarrow>
         let cleared = (tr = TransitionClear);
             lines = (if cleared then [LineCleared (cn_ovEpisode st)] else []);
             calls = (if cleared then [PClear (deviceOverrunsKey name) (overrunsClearFor name)] else []);
             st = (if cleared then st\<lparr>cn_ovEpisode := 0\<rparr> else st)
         in case overrun_events now (nat (min (uint delta) overrunOnsetCount)) f of (raised, f) \<Rightarrow>
            let st = st\<lparr>cn_ov := f\<rparr> in
            if raised then
              (lines @ [LineRaised (cn_ovUnlogged st)], calls @ [POnset (overrunsOnset name)],
               st\<lparr>cn_ovUnlogged := 0, cn_ovLogAt := 0, cn_ovEpisode := delta\<rparr>)
            else if f_active f then (lines, calls, st\<lparr>cn_ovEpisode := cn_ovEpisode st + delta\<rparr>)
            else (case logOverruns now delta st of (short, st) \<Rightarrow> (lines @ short, calls, st)))"

definition endOverruns :: "counterState \<Rightarrow> overrun_line list" where
  "endOverruns st =
     (if f_active (cn_ov st) then [LineEnded (cn_ovEpisode st)]
      else if cn_ovUnlogged st > 0 then [LineEnded (cn_ovUnlogged st)] else [])"

definition endDevice :: "string \<Rightarrow> string \<Rightarrow> counterState \<Rightarrow> overrun_line list \<times> pub_call list" where
  "endDevice name reason st =
     (endOverruns st,
      resolve_if (h_active (cn_h st)) (streamDropsKey name) reason
        @ resolve_if (f_active (cn_ov st)) (deviceOverrunsKey name) reason)"

definition new_counterState :: "instant \<Rightarrow> deviceCounters \<Rightarrow> overrun_line list \<times> counterState" where
  "new_counterState now d =
     (let st = \<lparr>cn_h = NewHysteresis dropsEnterAfter dropsClearAfter, cn_prev = dc_Dropped d, cn_prevAt = now,
                cn_gen = dc_Gen d, cn_missed = 0, cn_seen = True, cn_ovPrev = dc_Overruns d,
                cn_ov = NewFlap (overrunOnsetCount - 1) overrunWindow overrunClearAfter,
                cn_ovLogAt = 0, cn_ovUnlogged = 0, cn_ovEpisode = 0\<rparr>
      in if dc_Overruns d > 0 then ([LineTotal (dc_Overruns d)], st\<lparr>cn_ovLogAt := now\<rparr>) else ([], st))"

text \<open>One device of a poll. Lines carry the device's name.\<close>

definition count_device ::
  "instant \<Rightarrow> deviceCounters \<Rightarrow> counterState \<Rightarrow> overrun_line list \<times> pub_call list \<times> counterState" where
  "count_device now d st =
     (let restarted = (dc_Gen d \<noteq> cn_gen st \<or> dc_Dropped d < cn_prev st \<or> dc_Overruns d < cn_ovPrev st);
          st = st\<lparr>cn_seen := True, cn_missed := 0, cn_gen := dc_Gen d\<rparr>
      in case observeDrops now (dc_Name d) (dc_Dropped d) restarted st of (calls1, st) \<Rightarrow>
         case observeOverruns now (dc_Name d) (dc_Overruns d) restarted st of (lines, calls2, st) \<Rightarrow>
           (lines, calls1 @ calls2, st))"

type_synonym journal = "(string \<times> overrun_line) list"

abbreviation named :: "string \<Rightarrow> overrun_line list \<Rightarrow> journal" where
  "named name \<equiv> map (Pair name)"

fun count_devices ::
  "instant \<Rightarrow> deviceCounters list \<Rightarrow> (string \<times> counterState) list \<Rightarrow>
     journal \<times> pub_call list \<times> (string \<times> counterState) list" where
  "count_devices now [] devs = ([], [], devs)"
| "count_devices now (d # ds) devs =
     (case (case map_of devs (dc_Name d) of
              None \<Rightarrow> (case new_counterState now d of (lines, st) \<Rightarrow> (lines, [], st))
            | Some st \<Rightarrow> count_device now d st) of
        (lines, calls, st) \<Rightarrow>
          (case count_devices now ds (AList.update (dc_Name d) st devs) of
             (lines', calls', devs) \<Rightarrow> (named (dc_Name d) lines @ lines', calls @ calls', devs)))"

text \<open>A device not seen in the poll: kept within the presence grace, else ended.\<close>

definition age_counter :: "string \<Rightarrow> counterState \<Rightarrow> (overrun_line list \<times> pub_call list) \<times> counterState option" where
  "age_counter name st =
     (if cn_seen st then (([], []), Some st)
      else let st = st\<lparr>cn_missed := cn_missed st + 1\<rparr> in
        if cn_missed st < devicePresenceGrace
        then (([], []), Some (if h_active (cn_h st) then st else st\<lparr>cn_h := hys_Reset (cn_h st)\<rparr>))
        else (endDevice name ''device stopped'' st, None))"

definition age_calls :: "string \<Rightarrow> counterState \<Rightarrow> pub_call list \<times> counterState option" where
  "age_calls name st = (case age_counter name st of ((lines, calls), r) \<Rightarrow> (calls, r))"

definition age_lines :: "(string \<times> counterState) list \<Rightarrow> journal" where
  "age_lines devs = concat (map (\<lambda>(name, st). named name (fst (fst (age_counter name st)))) devs)"

definition evaluateCounters ::
  "instant \<Rightarrow> deviceCounters list \<Rightarrow> (string \<times> counterState) list \<Rightarrow>
     journal \<times> pub_call list \<times> (string \<times> counterState) list" where
  "evaluateCounters now counters devs =
     (let devs = map (\<lambda>(name, st). (name, st\<lparr>cn_seen := False\<rparr>)) devs in
      case count_devices now counters devs of (lines1, calls1, devs) \<Rightarrow>
      case sweep age_calls devs of (calls2, devs') \<Rightarrow>
        (lines1 @ age_lines devs, calls1 @ calls2, devs'))"

section \<open>A poll\<close>

definition cond_off :: "string \<Rightarrow> hostCond \<Rightarrow> pub_call list \<times> hostCond" where
  "cond_off reason c =
     (resolve_if (h_active (hc_h c)) (hc_key c) reason, c\<lparr>hc_h := hys_Reset (hc_h c), hc_lastOK := 0\<rparr>)"

definition host_resolveAll :: "string \<Rightarrow> host \<Rightarrow> journal \<times> pub_call list \<times> host" where
  "host_resolveAll reason h =
     (case cond_off reason (ho_cpu h) of (k1, cpu) \<Rightarrow>
      case cond_off reason (ho_mem h) of (k2, mem) \<Rightarrow>
      case cond_off reason (ho_temp h) of (k3, temp) \<Rightarrow>
      case cond_off reason (ho_disk h) of (k4, disk) \<Rightarrow>
      case cond_off reason (ho_vt h) of (k5, vt) \<Rightarrow>
        (concat (map (\<lambda>(name, st). named name (fst (endDevice name reason st))) (ho_devs h)),
         k1 @ k2 @ k3 @ k4 @ k5 @ concat (map (\<lambda>(name, st). snd (endDevice name reason st)) (ho_devs h)),
         h\<lparr>ho_cpu := cpu, ho_mem := mem, ho_temp := temp, ho_disk := disk, ho_vt := vt, ho_devs := []\<rparr>))"

text \<open>A monitor without a reader or a counter source skips that half; both are read only when enabled.\<close>

definition poll :: "instant \<Rightarrow> hostReading option \<Rightarrow> deviceCounters list option \<Rightarrow> host \<Rightarrow>
    journal \<times> pub_call list \<times> host" where
  "poll now reader counters h =
     (let s = ho_set h; prev = ho_applied h; h = h\<lparr>ho_applied := Some s\<rparr> in
      if \<not> st_Enabled s then
        (if (case prev of None \<Rightarrow> True | Some p \<Rightarrow> st_Enabled p)
         then host_resolveAll ''notifications disabled'' h else ([], [], h))
      else
        case (case reader of None \<Rightarrow> ([], h) | Some r \<Rightarrow> evaluateHost now s r h) of (calls1, h) \<Rightarrow>
        case (case counters of None \<Rightarrow> ([], [], ho_devs h) | Some cs \<Rightarrow> evaluateCounters now cs (ho_devs h)) of
          (lines, calls2, devs) \<Rightarrow> (lines, calls1 @ calls2, h\<lparr>ho_devs := devs\<rparr>))"

definition flushOverruns :: "host \<Rightarrow> journal" where
  "flushOverruns h =
     concat (map (\<lambda>(name, st). named name
       (if f_active (cn_ov st) then [LineStill (cn_ovEpisode st)] else endOverruns st)) (ho_devs h))"

section \<open>Runs\<close>

text \<open>
  What happens to a monitor: a settings change, a poll with what the reader and the counter source
  return to it, and a change of the iteration order of the device map, which Go leaves open.
\<close>

datatype host_op =
    HApply settings
  | HPoll instant "hostReading option" "deviceCounters list option"
  | HOrder "(string \<times> counterState) list"

fun host_step :: "host_op \<Rightarrow> host \<Rightarrow> journal \<times> pub_call list \<times> host" where
  "host_step (HApply s) h = ([], [], host_Apply s h)"
| "host_step (HPoll now r cs) h = poll now r cs h"
| "host_step (HOrder devs) h = ([], [], if mset devs = mset (ho_devs h) then h\<lparr>ho_devs := devs\<rparr> else h)"

text \<open>The journal, the publisher calls of every poll, and the monitor at the end.\<close>

record host_sys =
  hs_host :: host
  hs_journal :: journal
  hs_calls :: "(instant \<times> pub_call list) list"

fun batch :: "host_op \<Rightarrow> pub_call list \<Rightarrow> (instant \<times> pub_call list) list" where
  "batch (HPoll now r cs) calls = [(now, calls)]"
| "batch _ calls = []"

definition host_sys_step :: "host_op \<Rightarrow> host_sys \<Rightarrow> host_sys" where
  "host_sys_step op y =
     (case host_step op (hs_host y) of (lines, calls, h) \<Rightarrow>
        \<lparr>hs_host = h, hs_journal = hs_journal y @ lines, hs_calls = hs_calls y @ batch op calls\<rparr>)"

definition host_run :: "settings \<Rightarrow> host_op list \<Rightarrow> host_sys" where
  "host_run s ops = fold host_sys_step ops \<lparr>hs_host = NewHost s, hs_journal = [], hs_calls = []\<rparr>"

section \<open>No overrun is lost from the journal\<close>

definition journal_count :: "string \<Rightarrow> journal \<Rightarrow> u64" where
  "journal_count name lines = sum_list (map (\<lambda>(n, l). if n = name then line_count l else 0) lines)"

text \<open>The overruns a poll finds new for a tracked device: its whole count after a restart.\<close>

definition overrun_delta :: "deviceCounters \<Rightarrow> counterState \<Rightarrow> u64" where
  "overrun_delta d st =
     (if dc_Gen d \<noteq> cn_gen st \<or> dc_Dropped d < cn_prev st \<or> dc_Overruns d < cn_ovPrev st
      then dc_Overruns d else dc_Overruns d - cn_ovPrev st)"

definition found :: "string \<Rightarrow> deviceCounters list \<Rightarrow> (string \<times> counterState) list \<Rightarrow> u64" where
  "found name cs devs =
     (case map_of devs name of
        None \<Rightarrow> 0
      | Some st \<Rightarrow> (case filter (\<lambda>d. dc_Name d = name) cs of [] \<Rightarrow> 0 | d # _ \<Rightarrow> overrun_delta d st))"

fun step_found :: "string \<Rightarrow> host_op \<Rightarrow> host \<Rightarrow> u64" where
  "step_found name (HPoll now r (Some cs)) h = (if st_Enabled (ho_set h) then found name cs (ho_devs h) else 0)"
| "step_found name _ h = 0"

fun run_found :: "string \<Rightarrow> host_op list \<Rightarrow> host \<Rightarrow> u64" where
  "run_found name [] h = 0"
| "run_found name (op # ops) h =
     step_found name op h + run_found name ops (snd (snd (host_step op h)))"

text \<open>A counter source lists a device once.\<close>

fun lists_once :: "host_op \<Rightarrow> bool" where
  "lists_once (HPoll now r (Some cs)) = distinct (map dc_Name cs)"
| "lists_once _ = True"

text \<open>The overruns not yet in a line.\<close>

definition owed :: "counterState \<Rightarrow> u64" where
  "owed st = (if f_active (cn_ov st) then cn_ovEpisode st else cn_ovUnlogged st)"

definition ov_ok :: "counterState \<Rightarrow> bool" where [inv_defs]:
  "ov_ok st \<longleftrightarrow> (f_active (cn_ov st) \<longrightarrow> cn_ovUnlogged st = 0) \<and> 0 < f_quiet (cn_ov st)"

definition owed_in :: "(string \<times> counterState) list \<Rightarrow> string \<Rightarrow> u64" where
  "owed_in devs name = (case map_of devs name of None \<Rightarrow> 0 | Some st \<Rightarrow> owed st)"

definition devs_ok :: "(string \<times> counterState) list \<Rightarrow> bool" where [inv_defs]:
  "devs_ok devs \<longleftrightarrow> distinct (map fst devs) \<and> (\<forall>n st. map_of devs n = Some st \<longrightarrow> ov_ok st)"

abbreviation lines_sum :: "overrun_line list \<Rightarrow> u64" where
  "lines_sum ls \<equiv> sum_list (map line_count ls)"

lemma flap_Event_quiet:
  assumes "\<not> quietGapElapsed now f" "0 < f_quiet f" "flap_Event now f = (tr, f')"
  shows "f_active f' = (f_active f \<or> tr = TransitionOnset) \<and> (tr = TransitionOnset \<longrightarrow> \<not> f_active f) \<and>
    \<not> quietGapElapsed now f' \<and> f_quiet f' = f_quiet f"
  using assms by (auto simp: flap_defs Let_def time_sub_def min_duration_def max_duration_def split: if_splits)

lemma overrun_events_active:
  "\<not> quietGapElapsed now f \<Longrightarrow> 0 < f_quiet f \<Longrightarrow> overrun_events now k f = (raised, f') \<Longrightarrow>
     f_active f' = (f_active f \<or> raised) \<and> (raised \<longrightarrow> \<not> f_active f) \<and> f_quiet f' = f_quiet f"
proof (induction k arbitrary: f)
  case (Suc k)
  obtain tr g where e: "flap_Event now f = (tr, g)" by fastforce
  note ev = flap_Event_quiet[OF Suc.prems(1,2) e]
  show ?case
  proof (cases "tr = TransitionOnset")
    case False
    then show ?thesis using Suc.IH[of g] Suc.prems ev e by auto
  qed (use Suc.prems ev e in auto)
qed simp

lemma flap_Sweep_quiet:
  "flap_Sweep now f = (tr, f') \<Longrightarrow>
     f_quiet f' = f_quiet f \<and> \<not> quietGapElapsed now f' \<and>
     (tr = TransitionClear \<and> f_active f \<and> \<not> f_active f' \<or> tr = TransitionNone \<and> f' = f)"
  by (auto simp: flap_defs split: if_splits)

lemma logOverruns_owes:
  "logOverruns now delta st = (lines, st') \<Longrightarrow>
     lines_sum lines + cn_ovUnlogged st' = cn_ovUnlogged st + delta \<and> cn_ov st' = cn_ov st"
  by (auto simp: logOverruns_def Let_def split: if_splits)

lemma observeOverruns_owes:
  assumes "ov_ok st" "observeOverruns now name tot restarted st = (lines, calls, st')"
  shows "ov_ok st' \<and> lines_sum lines + owed st' = owed st + new_overruns tot restarted st"
proof -
  define delta where "delta = new_overruns tot restarted st"
  obtain tr f where s: "flap_Sweep now (cn_ov st) = (tr, f)" by fastforce
  obtain raised g where e: "overrun_events now (nat (min (uint delta) overrunOnsetCount)) f = (raised, g)"
    by fastforce
  note sw = flap_Sweep_quiet[OF s]
  have g: "f_active g = (f_active f \<or> raised)" "raised \<longrightarrow> \<not> f_active f" "0 < f_quiet g"
    using overrun_events_active[OF _ _ e] sw assms(1) by (auto simp: ov_ok_def)
  let ?st = "(if tr = TransitionClear then st\<lparr>cn_ovPrev := tot, cn_ovEpisode := 0\<rparr> else st\<lparr>cn_ovPrev := tot\<rparr>)"
  let ?ls = "if tr = TransitionClear then [LineCleared (cn_ovEpisode st)] else []"
  have before: "owed st = lines_sum ?ls + (if f_active f then cn_ovEpisode st else cn_ovUnlogged st)"
    using sw assms(1) by (auto simp: owed_def ov_ok_def)
  have unl: "f_active f \<Longrightarrow> cn_ovUnlogged st = 0" using sw assms(1) by (auto simp: ov_ok_def)
  note obs = assms(2)[unfolded observeOverruns_def Let_def, folded delta_def]
  have "raised \<or> \<not> raised \<and> f_active f \<or> \<not> raised \<and> \<not> f_active f" by blast
  then have "ov_ok st' \<and> lines_sum lines + owed st' = owed st + delta"
  proof (elim disjE conjE)
    assume raised
    with obs s e have "lines = ?ls @ [LineRaised (cn_ovUnlogged st)]"
      "cn_ovUnlogged st' = 0" "cn_ovEpisode st' = delta" "cn_ov st' = g" by auto
    then show ?thesis using before g \<open>raised\<close> by (simp add: ov_ok_def owed_def)
  next
    assume active: "\<not> raised" "f_active f"
    then have "tr = TransitionNone" using sw by auto
    with active obs s e g(1) have "lines = []" "cn_ovUnlogged st' = cn_ovUnlogged st"
        "cn_ovEpisode st' = cn_ovEpisode st + delta" "cn_ov st' = g" by auto
    then show ?thesis using before g active unl \<open>tr = TransitionNone\<close> by (simp add: ov_ok_def owed_def)
  next
    assume quiet: "\<not> raised" "\<not> f_active f"
    obtain short st2 where l: "logOverruns now delta (?st\<lparr>cn_ov := g\<rparr>) = (short, st2)" by fastforce
    have "lines = ?ls @ short" "st' = st2" using obs s e g(1) quiet l by (auto split: if_splits)
    then show ?thesis using logOverruns_owes[OF l] before g quiet by (auto simp: ov_ok_def owed_def)
  qed
  then show ?thesis by (simp add: delta_def)
qed

lemma observeDrops_keeps:
  "observeDrops now name dropped restarted st = (calls, st') \<Longrightarrow>
     cn_ov st' = cn_ov st \<and> cn_ovUnlogged st' = cn_ovUnlogged st \<and> cn_ovEpisode st' = cn_ovEpisode st \<and>
     cn_ovPrev st' = cn_ovPrev st"
  by (auto simp: observeDrops_def Let_def split: prod.splits if_splits)

lemma owed_cong:
  "cn_ov st' = cn_ov st \<Longrightarrow> cn_ovUnlogged st' = cn_ovUnlogged st \<Longrightarrow> cn_ovEpisode st' = cn_ovEpisode st \<Longrightarrow>
     owed st' = owed st \<and> ov_ok st' = ov_ok st"
  by (simp add: owed_def ov_ok_def)

lemma count_device_owes:
  assumes "ov_ok st" "count_device now d st = (lines, calls, st')"
  shows "ov_ok st' \<and> lines_sum lines + owed st' = owed st + overrun_delta d st"
proof -
  define restarted where "restarted = (dc_Gen d \<noteq> cn_gen st \<or> dc_Dropped d < cn_prev st \<or> dc_Overruns d < cn_ovPrev st)"
  let ?st = "st\<lparr>cn_seen := True, cn_missed := 0, cn_gen := dc_Gen d\<rparr>"
  obtain c1 s1 where 1: "observeDrops now (dc_Name d) (dc_Dropped d) restarted ?st = (c1, s1)" by fastforce
  obtain ls c2 s2 where 2: "observeOverruns now (dc_Name d) (dc_Overruns d) restarted s1 = (ls, c2, s2)"
    by (metis prod_cases3)
  have res: "lines = ls" "st' = s2"
    using assms(2) unfolding count_device_def restarted_def[symmetric] by (simp_all add: 1 2)
  have same: "owed s1 = owed st" "ov_ok s1 = ov_ok st" "cn_ovPrev s1 = cn_ovPrev st"
    using observeDrops_keeps[OF 1] owed_cong[of s1 st] by simp_all
  have "overrun_delta d st = new_overruns (dc_Overruns d) restarted s1"
    by (simp add: overrun_delta_def new_overruns_def restarted_def same(3))
  then show ?thesis using observeOverruns_owes[OF _ 2] assms(1) same res by simp
qed

lemma new_counterState_owes:
  "new_counterState now d = (lines, st) \<Longrightarrow> ov_ok st \<and> lines_sum lines = 0 \<and> owed st = 0"
  by (auto simp: new_counterState_def Let_def ov_ok_def owed_def NewFlap_def overrunClearAfter_def minute_def
      second_def millisecond_def split: if_splits)

lemma journal_count_append [simp]:
  "journal_count name [] = 0"
  "journal_count name (xs @ ys) = journal_count name xs + journal_count name ys"
  by (simp_all add: journal_count_def)

lemma journal_count_named [simp]:
  "journal_count name (named n ls) = (if n = name then lines_sum ls else 0)"
  by (simp add: journal_count_def comp_def)

lemma devs_ok_update: "devs_ok devs \<Longrightarrow> ov_ok st \<Longrightarrow> devs_ok (AList.update n st devs)"
  by (auto simp: devs_ok_def update_conv' distinct_update split: if_splits)

lemma count_devices_owes:
  "devs_ok devs \<Longrightarrow> distinct (map dc_Name cs) \<Longrightarrow> count_devices now cs devs = (lines, calls, devs') \<Longrightarrow>
     devs_ok devs' \<and>
     journal_count name lines + owed_in devs' name = owed_in devs name + found name cs devs"
proof (induction cs arbitrary: devs lines calls devs')
  case (Cons d ds)
  let ?n = "dc_Name d"
  obtain ls c1 st where one: "(case map_of devs ?n of
        None \<Rightarrow> (case new_counterState now d of (lines, st) \<Rightarrow> (lines, [], st))
      | Some st \<Rightarrow> count_device now d st) = (ls, c1, st)" by (metis prod_cases3)
  define devs1 where "devs1 = AList.update ?n st devs"
  obtain ls2 c2 devs2 where rest: "count_devices now ds devs1 = (ls2, c2, devs2)" by (metis prod_cases3)
  have res: "lines = named ?n ls @ ls2" "devs' = devs2"
    using Cons.prems(3) rest by (simp_all add: one devs1_def)
  have st: "ov_ok st \<and> lines_sum ls + owed st = owed_in devs ?n + found ?n [d] devs"
  proof (cases "map_of devs ?n")
    case None
    then have "new_counterState now d = (ls, st)" using one by (auto split: prod.splits)
    from new_counterState_owes[OF this] None show ?thesis by (simp add: owed_in_def found_def)
  next
    case (Some st0)
    then have "ov_ok st0" "count_device now d st0 = (ls, c1, st)"
      using Cons.prems(1) one by (auto simp: devs_ok_def)
    from count_device_owes[OF this] Some show ?thesis by (simp add: owed_in_def found_def)
  qed
  have "devs_ok devs1" using Cons.prems(1) st by (simp add: devs1_def devs_ok_update)
  from Cons.IH[OF this _ rest] Cons.prems(2)
  have IH: "devs_ok devs2 \<and> journal_count name ls2 + owed_in devs2 name = owed_in devs1 name + found name ds devs1"
    by simp
  show ?case
  proof (cases "?n = name")
    case True
    have "filter (\<lambda>d. dc_Name d = name) ds = []"
      using Cons.prems(2) True unfolding filter_empty_conv by (metis distinct.simps(2) image_eqI list.simps(9) list.set_map)
    then have "found name ds devs1 = 0" "found name (d # ds) devs = found name [d] devs"
      using True by (simp_all add: found_def split: option.split)
    moreover have "owed_in devs1 name = owed st" by (simp add: devs1_def owed_in_def update_conv' True)
    ultimately show ?thesis using IH st True by (simp add: res add.assoc)
  next
    case False
    then have "map_of devs1 name = map_of devs name" by (simp add: devs1_def update_conv')
    then have "found name ds devs1 = found name (d # ds) devs" "owed_in devs1 name = owed_in devs name"
      using False by (cases "map_of devs name"; simp add: found_def owed_in_def)+
    then show ?thesis using IH False by (simp add: res)
  qed
qed (simp add: found_def split: option.split)

lemma endOverruns_owes: "lines_sum (endOverruns st) = owed st"
  by (simp add: endOverruns_def owed_def word_gt_0)

lemma age_counter_owes:
  assumes "age_counter name st = ((lines, calls), r)"
  shows "lines_sum lines + (case r of None \<Rightarrow> 0 | Some st' \<Rightarrow> owed st') = owed st \<and>
    (\<forall>st'. r = Some st' \<longrightarrow> ov_ok st' = ov_ok st)"
proof -
  have same: "owed (st\<lparr>cn_missed := m\<rparr>) = owed st" "owed (st\<lparr>cn_missed := m, cn_h := g\<rparr>) = owed st"
    "ov_ok (st\<lparr>cn_missed := m\<rparr>) = ov_ok st" "ov_ok (st\<lparr>cn_missed := m, cn_h := g\<rparr>) = ov_ok st" for m g
    by (simp_all add: owed_def ov_ok_def)
  show ?thesis
    using assms by (auto simp: age_counter_def Let_def endDevice_def endOverruns_owes same split: if_splits)
qed

lemma journal_count_concat:
  "distinct (map fst xs) \<Longrightarrow>
     journal_count name (concat (map (\<lambda>(n, st). named n (f n st)) xs)) =
       (case map_of xs name of None \<Rightarrow> 0 | Some st \<Rightarrow> lines_sum (f name st))"
proof (induction xs)
  case (Cons x xs)
  then have "fst x = name \<Longrightarrow> map_of xs name = None" by (auto simp: map_of_eq_None_iff)
  with Cons show ?case by (cases x) (auto split: option.split)
qed simp

lemma aging_owes:
  assumes "devs_ok devs" "sweep age_calls devs = (calls, devs')"
  shows "devs_ok devs' \<and> journal_count name (age_lines devs) + owed_in devs' name = owed_in devs name"
proof -
  have dist: "distinct (map fst devs)" using assms(1) by (simp add: devs_ok_def)
  have look: "map_of devs' n = (case map_of devs n of None \<Rightarrow> None | Some st \<Rightarrow> snd (age_counter n st))" for n
    using sweep_map_of[OF dist, of age_calls n] assms(2)
    by (simp add: age_calls_def case_prod_unfold split: option.splits)
  have owes: "lines_sum (fst (fst (age_counter n st))) + (case snd (age_counter n st) of None \<Rightarrow> 0 | Some st' \<Rightarrow> owed st') = owed st \<and>
      (\<forall>st'. snd (age_counter n st) = Some st' \<longrightarrow> ov_ok st' = ov_ok st)" for n st
    by (rule age_counter_owes[of n st _ "snd (fst (age_counter n st))"]) simp
  have "distinct (map fst devs')" using sweep_distinct[OF dist, of age_calls] assms(2) by simp
  moreover have "ov_ok st" if "map_of devs' n = Some st" for n st
    using that owes[of n] assms(1) by (auto simp: look devs_ok_def split: option.splits)
  moreover have "journal_count name (age_lines devs) + owed_in devs' name = owed_in devs name"
    unfolding age_lines_def journal_count_concat[OF dist] owed_in_def look
    using owes[of name] by (cases "map_of devs name") simp_all
  ultimately show ?thesis by (simp add: devs_ok_def)
qed

text \<open>What every tracked device owes after a step, and what the step wrote.\<close>

lemma evaluateCounters_owes:
  assumes "devs_ok devs" "distinct (map dc_Name cs)" "evaluateCounters now cs devs = (lines, calls, devs')"
  shows "devs_ok devs' \<and> journal_count name lines + owed_in devs' name = owed_in devs name + found name cs devs"
proof -
  define u where "u = map (\<lambda>(name, st). (name, st\<lparr>cn_seen := False\<rparr>)) devs"
  have look: "map_of u n = map_option (\<lambda>st. st\<lparr>cn_seen := False\<rparr>) (map_of devs n)" for n
    unfolding u_def by (induction devs) auto
  have seen: "owed (st\<lparr>cn_seen := False\<rparr>) = owed st" "ov_ok (st\<lparr>cn_seen := False\<rparr>) = ov_ok st"
    "overrun_delta d (st\<lparr>cn_seen := False\<rparr>) = overrun_delta d st" for st d
    by (simp_all add: owed_def ov_ok_def overrun_delta_def)
  have u: "devs_ok u" "owed_in u name = owed_in devs name" "found name cs u = found name cs devs"
    using assms(1) look seen
    by (auto simp: devs_ok_def owed_in_def found_def split: option.split list.split)
      (simp add: u_def comp_def case_prod_unfold)
  obtain l1 c1 d1 where 1: "count_devices now cs u = (l1, c1, d1)" by (metis prod_cases3)
  obtain c2 d2 where 2: "sweep age_calls d1 = (c2, d2)" by fastforce
  have "lines = l1 @ age_lines d1" "devs' = d2"
    using assms(3) by (simp_all add: evaluateCounters_def u_def[symmetric] 1 2)
  with count_devices_owes[OF u(1) assms(2) 1, of name] aging_owes[OF _ 2, of name] u
  show ?thesis by (simp add: algebra_simps)
qed

lemma evaluateHost_devs: "evaluateHost now s r h = (calls, h') \<Longrightarrow> ho_devs h' = ho_devs h \<and> ho_set h' = ho_set h"
  by (auto simp: evaluateHost_def split: prod.splits)

lemma host_resolveAll_writes:
  assumes "devs_ok (ho_devs h)" "host_resolveAll reason h = (lines, calls, h')"
  shows "ho_devs h' = [] \<and> journal_count name lines = owed_in (ho_devs h) name"
proof -
  have "distinct (map fst (ho_devs h))" using assms(1) by (simp add: devs_ok_def)
  note count = journal_count_concat[OF this, of name "\<lambda>name st. fst (endDevice name reason st)"]
  have "ho_devs h' = []"
      "lines = concat (map (\<lambda>(name, st). named name (fst (endDevice name reason st))) (ho_devs h))"
    using assms(2) by (auto simp: host_resolveAll_def split: prod.splits)
  with count show ?thesis by (cases "map_of (ho_devs h) name") (simp_all add: endDevice_def endOverruns_owes owed_in_def)
qed

lemma step_owes:
  assumes "devs_ok (ho_devs h)" "lists_once op" "host_step op h = (lines, calls, h')"
  shows "devs_ok (ho_devs h') \<and>
    journal_count name lines + owed_in (ho_devs h') name = owed_in (ho_devs h) name + step_found name op h"
proof (cases op)
  case (HApply s)
  then show ?thesis using assms by (auto simp: host_Apply_def)
next
  case (HOrder devs)
  have "devs_ok devs \<and> owed_in devs name = owed_in (ho_devs h) name" if "mset devs = mset (ho_devs h)"
    using map_of_mset[of "ho_devs h" devs] that assms(1) by (auto simp: devs_ok_def owed_in_def)
  then show ?thesis using assms HOrder by auto
next
  case (HPoll now r cs)
  have nil: "devs_ok []" "owed_in [] name = 0" by (simp_all add: devs_ok_def owed_in_def)
  show ?thesis
  proof (cases "st_Enabled (ho_set h)")
    case False
    then have idle: "step_found name op h = 0" using HPoll by (cases cs) simp_all
    show ?thesis
    proof (cases "case ho_applied h of None \<Rightarrow> True | Some p \<Rightarrow> st_Enabled p")
      case True
      obtain ls c g where r: "host_resolveAll ''notifications disabled'' (h\<lparr>ho_applied := Some (ho_set h)\<rparr>) = (ls, c, g)"
        by (metis prod_cases3)
      have "lines = ls" "h' = g" using assms(3) HPoll False True r by (simp_all add: poll_def Let_def)
      with host_resolveAll_writes[OF _ r, of name] assms(1) nil idle show ?thesis by simp
    next
      case False
      then have "lines = []" "h' = h\<lparr>ho_applied := Some (ho_set h)\<rparr>"
        using assms(3) HPoll \<open>\<not> st_Enabled (ho_set h)\<close> by (simp_all add: poll_def Let_def)
      with assms(1) idle show ?thesis by simp
    qed
  next
    case True
    let ?h = "h\<lparr>ho_applied := Some (ho_set h)\<rparr>"
    obtain c1 h1 where 1: "(case r of None \<Rightarrow> ([], ?h) | Some r \<Rightarrow> evaluateHost now (ho_set h) r ?h) = (c1, h1)"
      by fastforce
    then have h1: "ho_devs h1 = ho_devs h" using evaluateHost_devs[of now "ho_set h" _ ?h c1 h1]
      by (auto split: option.splits)
    obtain ls c2 ds where 2: "(case cs of None \<Rightarrow> ([], [], ho_devs h1)
        | Some cs \<Rightarrow> evaluateCounters now cs (ho_devs h1)) = (ls, c2, ds)" by (metis prod_cases3)
    have res: "lines = ls" "h' = h1\<lparr>ho_devs := ds\<rparr>"
      using assms(3) HPoll True 1 2 by (simp_all add: poll_def Let_def)
    show ?thesis
    proof (cases cs)
      case None
      then show ?thesis using res 2 h1 assms(1) HPoll by simp
    next
      case (Some ds0)
      then show ?thesis
        using evaluateCounters_owes[of "ho_devs h" ds0 now ls c2 ds name] res 2 h1 assms HPoll True by simp
    qed
  qed
qed

lemma run_owes:
  "devs_ok (ho_devs (hs_host y)) \<Longrightarrow> list_all lists_once ops \<Longrightarrow> y' = fold host_sys_step ops y \<Longrightarrow>
     devs_ok (ho_devs (hs_host y')) \<and>
     journal_count name (hs_journal y') + owed_in (ho_devs (hs_host y')) name =
       journal_count name (hs_journal y) + owed_in (ho_devs (hs_host y)) name + run_found name ops (hs_host y)"
proof (induction ops arbitrary: y)
  case (Cons op ops)
  obtain ls c h where s: "host_step op (hs_host y) = (ls, c, h)" by (metis prod_cases3)
  note one = step_owes[OF Cons.prems(1) _ s, of name]
  have y: "host_sys_step op y = \<lparr>hs_host = h, hs_journal = hs_journal y @ ls, hs_calls = hs_calls y @ batch op c\<rparr>"
    by (simp add: host_sys_step_def s)
  from Cons.IH[of "host_sys_step op y"] Cons.prems one show ?case by (simp add: y s algebra_simps)
qed simp

lemma flushOverruns_writes: "devs_ok (ho_devs h) \<Longrightarrow> journal_count name (flushOverruns h) = owed_in (ho_devs h) name"
  unfolding flushOverruns_def devs_ok_def
  by (subst journal_count_concat) (auto simp: owed_in_def owed_def endOverruns_owes split: option.split)


section \<open>The conditions in the center\<close>

datatype host_cond = CCpu | CMem | CTemp | CDisk | CVolt

fun cond_of :: "host_cond \<Rightarrow> host \<Rightarrow> hostCond" where
  "cond_of CCpu h = ho_cpu h"
| "cond_of CMem h = ho_mem h"
| "cond_of CTemp h = ho_temp h"
| "cond_of CDisk h = ho_disk h"
| "cond_of CVolt h = ho_vt h"

fun cond_key :: "host_cond \<Rightarrow> string" where
  "cond_key CCpu = hostCPUKey"
| "cond_key CMem = hostMemKey"
| "cond_key CTemp = hostTempKey"
| "cond_key CDisk = hostDiskKey"
| "cond_key CVolt = hostVoltKey"

text \<open>The keys the monitor owns, and those of the conditions it holds raised.\<close>

definition host_owned :: "string set" where
  "host_owned = range cond_key \<union> range streamDropsKey \<union> range deviceOverrunsKey"

definition host_keys :: "host \<Rightarrow> string set" where
  "host_keys h = {k. (\<exists>c. h_active (hc_h (cond_of c h)) \<and> k = cond_key c) \<or>
     (\<exists>name st. map_of (ho_devs h) name = Some st \<and>
        (h_active (cn_h st) \<and> k = streamDropsKey name \<or> f_active (cn_ov st) \<and> k = deviceOverrunsKey name))}"

subsection \<open>Device conditions\<close>

datatype dev_cond = CDrops | COverruns

fun dev_key :: "string \<Rightarrow> dev_cond \<Rightarrow> string" where
  "dev_key name CDrops = streamDropsKey name"
| "dev_key name COverruns = deviceOverrunsKey name"

fun dev_raised :: "dev_cond \<Rightarrow> counterState \<Rightarrow> bool" where
  "dev_raised CDrops st = h_active (cn_h st)"
| "dev_raised COverruns st = f_active (cn_ov st)"

interpretation cnt: subject_conditions dev_key dev_raised
proof
  show "dev_key n c = dev_key n' c' \<Longrightarrow> n = n' \<and> c = c'" for n c n' c'
    by (cases c; cases c') (simp_all add: streamDropsKey_def deviceOverrunsKey_def)
  show "dev_key n c \<noteq> ''''" for n c by (cases c) (simp_all add: streamDropsKey_def deviceOverrunsKey_def)
qed

lemma all_dev_cond: "(\<forall>c. P c) \<longleftrightarrow> P CDrops \<and> P COverruns"
  by (metis dev_cond.exhaust)

lemma ex_dev_cond: "(\<exists>c. P c) \<longleftrightarrow> P CDrops \<or> P COverruns"
  by (metis dev_cond.exhaust)

lemma dev_key_simps [simp]:
  "streamDropsKey n \<noteq> deviceOverrunsKey m" "deviceOverrunsKey n \<noteq> streamDropsKey m"
  "streamDropsKey n \<noteq> ''''" "deviceOverrunsKey n \<noteq> ''''"
  "n_Key (dropsOnset n r) = streamDropsKey n" "n_Key (overrunsOnset n) = deviceOverrunsKey n"
  by (simp_all add: streamDropsKey_def deviceOverrunsKey_def dropsOnset_def overrunsOnset_def)

lemmas agree_cnt = cnt.dev_agree_def all_dev_cond dev_key.simps dev_raised.simps

lemma dev_calls_cnt:
  "n_Key onset = streamDropsKey n \<Longrightarrow> cnt.dev_calls n (on_transition tr onset (streamDropsKey n) clear)"
  "cnt.dev_calls n (resolve_if b (streamDropsKey n) reason)"
  "cnt.dev_calls n (resolve_if b (deviceOverrunsKey n) reason)"
  "cnt.dev_calls n [PClear (deviceOverrunsKey n) clear]"
  "cnt.dev_calls n [POnset (overrunsOnset n)]"
  using cnt.dev_calls_transition[of onset n CDrops] cnt.dev_calls_resolve[of n b CDrops]
    cnt.dev_calls_resolve[of n b COverruns]
  by simp_all (auto simp: cnt.dev_calls_def intro: range_eqI[of _ _ COverruns])

lemmas effect_cnt = effect_on_transition effect_resolve_if fold_append comp_def

text \<open>A step of one device keeps its state and the center in agreement.\<close>

definition cnt_ok :: "string \<Rightarrow> string set \<Rightarrow> pub_call list \<times> counterState \<Rightarrow> bool" where
  "cnt_ok n A r \<longleftrightarrow> cnt.dev_calls n (fst r) \<and> cnt.dev_agree n (calls_effect (fst r) A) (snd r)"

lemma observeDrops_ok:
  assumes "cnt.dev_agree n A st"
  shows "cnt_ok n A (observeDrops now n dropped restarted st)"
proof -
  let ?st = "st\<lparr>cn_prev := dropped, cn_prevAt := now\<rparr>"
  have "cnt_ok n A (on_transition tr (dropsOnset n rate) (streamDropsKey n) (dropsClearFor n), ?st\<lparr>cn_h := h\<rparr>)"
    if "hys_Observe now over (cn_h st) = (tr, h)" for over rate tr h
  proof -
    have "h_active h = (case tr of TransitionNone \<Rightarrow> h_active (cn_h st) | TransitionOnset \<Rightarrow> True
        | TransitionClear \<Rightarrow> False)"
      using hys_Observe_active[of now over "cn_h st"] that by simp
    then show ?thesis
      using assms unfolding cnt_ok_def fst_conv snd_conv
      by (intro conjI dev_calls_cnt) (cases tr; auto simp: agree_cnt effect_cnt)+
  qed
  moreover have "cnt_ok n A ([], ?st)" using assms by (simp add: cnt_ok_def agree_cnt)
  ultimately show ?thesis by (simp add: observeDrops_def Let_def split: prod.split)
qed

lemma observeOverruns_ok:
  assumes "cnt.dev_agree n A st" "ov_ok st" "observeOverruns now n tot restarted st = (lines, calls, st')"
  shows "cnt_ok n A (calls, st')"
proof -
  define delta where "delta = new_overruns tot restarted st"
  obtain tr f where s: "flap_Sweep now (cn_ov st) = (tr, f)" by fastforce
  obtain raised g where e: "overrun_events now (nat (min (uint delta) overrunOnsetCount)) f = (raised, g)"
    by fastforce
  note sw = flap_Sweep_quiet[OF s]
  have g: "f_active g = (f_active f \<or> raised)"
    using overrun_events_active[OF _ _ e] sw assms(2) by (auto simp: ov_ok_def)
  have logs: "logOverruns now delta u = (short, v) \<Longrightarrow> cn_h v = cn_h u \<and> cn_ov v = cn_ov u" for u short v
    by (auto simp: logOverruns_def Let_def split: if_splits)
  have "calls = (if tr = TransitionClear then [PClear (deviceOverrunsKey n) (overrunsClearFor n)] else [])
        @ (if raised then [POnset (overrunsOnset n)] else [])"
      "cn_h st' = cn_h st" "cn_ov st' = g"
    using assms(3)[unfolded observeOverruns_def Let_def, folded delta_def] s e
    by (auto split: if_splits prod.splits dest!: logs)
  then show ?thesis
    using assms(1) sw g by (auto simp: cnt_ok_def agree_cnt dev_calls_cnt)
qed

lemma count_device_ok:
  assumes "cnt.dev_agree (dc_Name d) A st" "ov_ok st" "count_device now d st = (lines, calls, st')"
  shows "cnt_ok (dc_Name d) A (calls, st')"
proof -
  define restarted where "restarted = (dc_Gen d \<noteq> cn_gen st \<or> dc_Dropped d < cn_prev st \<or> dc_Overruns d < cn_ovPrev st)"
  let ?st = "st\<lparr>cn_seen := True, cn_missed := 0, cn_gen := dc_Gen d\<rparr>"
  obtain c1 s1 where 1: "observeDrops now (dc_Name d) (dc_Dropped d) restarted ?st = (c1, s1)" by fastforce
  obtain ls c2 s2 where 2: "observeOverruns now (dc_Name d) (dc_Overruns d) restarted s1 = (ls, c2, s2)"
    by (metis prod_cases3)
  have res: "calls = c1 @ c2" "st' = s2"
    using assms(3) unfolding count_device_def restarted_def[symmetric] by (simp_all add: 1 2)
  have "cnt.dev_agree (dc_Name d) A ?st" using assms(1) by (simp add: agree_cnt)
  from observeDrops_ok[OF this, of now "dc_Dropped d" restarted] have ok1: "cnt_ok (dc_Name d) A (c1, s1)"
    by (simp add: 1)
  have "ov_ok s1" using observeDrops_keeps[OF 1] owed_cong[of s1 st] assms(2) by simp
  moreover have "cnt.dev_agree (dc_Name d) (calls_effect c1 A) s1" using ok1 by (simp add: cnt_ok_def)
  ultimately have "cnt_ok (dc_Name d) (calls_effect c1 A) (c2, s2)" using observeOverruns_ok[OF _ _ 2] by blast
  with ok1 show ?thesis by (simp add: cnt_ok_def res)
qed

lemma count_devices_agree:
  "devs_ok devs \<Longrightarrow> cnt.all_agree devs A \<Longrightarrow> count_devices now cs devs = (lines, calls, devs') \<Longrightarrow>
     devs_ok devs' \<and> cnt.all_agree devs' (calls_effect calls A) \<and>
     (\<forall>call \<in> set calls. call_keys call \<subseteq> cnt.owned)"
proof (induction cs arbitrary: devs A lines calls devs')
  case (Cons d ds)
  let ?n = "dc_Name d"
  obtain ls c1 st where one: "(case map_of devs ?n of
        None \<Rightarrow> (case new_counterState now d of (lines, st) \<Rightarrow> (lines, [], st))
      | Some st \<Rightarrow> count_device now d st) = (ls, c1, st)" by (metis prod_cases3)
  define devs1 where "devs1 = AList.update ?n st devs"
  obtain ls2 c2 devs2 where rest: "count_devices now ds devs1 = (ls2, c2, devs2)" by (metis prod_cases3)
  have res: "calls = c1 @ c2" "devs' = devs2"
    using Cons.prems(3) rest by (simp_all add: one devs1_def)
  have st: "ov_ok st \<and> cnt_ok ?n A (c1, st)"
  proof (cases "map_of devs ?n")
    case None
    then have new: "new_counterState now d = (ls, st)" "c1 = []" using one by (auto split: prod.splits)
    then have "\<forall>c. \<not> dev_raised c st"
      by (auto simp: all_dev_cond new_counterState_def Let_def NewFlap_def split: if_splits)
    with cnt.dev_agree_fresh[OF Cons.prems(2) None] new_counterState_owes[OF new(1)] new(2)
    show ?thesis by (simp add: cnt_ok_def)
  next
    case (Some st0)
    then have "ov_ok st0" "count_device now d st0 = (ls, c1, st)"
      using Cons.prems(1) one by (auto simp: devs_ok_def)
    from count_device_owes[OF this] count_device_ok[OF cnt.dev_agree_lookup[OF Cons.prems(2) Some] this]
    show ?thesis by simp
  qed
  have "devs_ok devs1" using Cons.prems(1) st by (simp add: devs1_def devs_ok_update)
  moreover have "cnt.all_agree devs1 (calls_effect c1 A)"
    unfolding devs1_def using st Cons.prems(2) by (intro cnt.all_agree_update) (simp_all add: cnt_ok_def)
  moreover have "\<forall>call \<in> set c1. call_keys call \<subseteq> cnt.owned"
    using st by (intro cnt.dev_calls_owned[of ?n]) (simp add: cnt_ok_def)
  ultimately show ?case using Cons.IH[OF _ _ rest] by (auto simp: res)
qed simp

lemma endDevice_calls:
  assumes "cnt.dev_agree n A st"
  shows "cnt.dev_calls n (snd (endDevice n reason st)) \<and>
    (\<forall>c. dev_key n c \<notin> calls_effect (snd (endDevice n reason st)) A)"
  using assms by (auto simp: endDevice_def all_dev_cond agree_cnt effect_resolve_if dev_calls_cnt)

lemma age_calls_effect:
  assumes "cnt.dev_agree n A st"
  shows "cnt.dev_calls n (fst (age_calls n st)) \<and>
    (\<forall>c. dev_key n c \<in> calls_effect (fst (age_calls n st)) A \<longleftrightarrow>
      (\<exists>st'. snd (age_calls n st) = Some st' \<and> dev_raised c st'))"
proof -
  have "cnt.dev_agree n A (st\<lparr>cn_missed := cn_missed st + 1\<rparr>)" using assms by (simp add: agree_cnt)
  note endDevice_calls[OF this, of "''device stopped''"]
  then show ?thesis
    using assms by (auto simp: age_calls_def age_counter_def Let_def all_dev_cond agree_cnt split: prod.splits)
qed

lemma evaluateCounters_agree:
  assumes "devs_ok devs" "cnt.all_agree devs A" "evaluateCounters now cs devs = (lines, calls, devs')"
  shows "devs_ok devs' \<and> cnt.all_agree devs' (calls_effect calls A) \<and>
    (\<forall>call \<in> set calls. call_keys call \<subseteq> cnt.owned)"
proof -
  define u where "u = map (\<lambda>(name, st). (name, st\<lparr>cn_seen := False\<rparr>)) devs"
  have look: "map_of u n = map_option (\<lambda>st. st\<lparr>cn_seen := False\<rparr>) (map_of devs n)" for n
    unfolding u_def by (induction devs) auto
  have "ov_ok (st\<lparr>cn_seen := False\<rparr>) = ov_ok st" "dev_raised c (st\<lparr>cn_seen := False\<rparr>) = dev_raised c st" for st c
    by (simp add: ov_ok_def) (cases c; simp)
  then have u: "devs_ok u" "cnt.all_agree u A"
    using assms(1,2) look by (auto simp: devs_ok_def cnt.all_agree_def) (simp add: u_def comp_def case_prod_unfold)
  obtain l1 c1 d1 where 1: "count_devices now cs u = (l1, c1, d1)" by (metis prod_cases3)
  obtain c2 d2 where 2: "sweep age_calls d1 = (c2, d2)" by fastforce
  have res: "calls = c1 @ c2" "devs' = d2"
    using assms(3) by (simp_all add: evaluateCounters_def u_def[symmetric] 1 2)
  note ok1 = count_devices_agree[OF u 1]
  have "distinct (map fst d1)" using ok1 by (simp add: devs_ok_def)
  from cnt.all_agree_sweep[OF _ this, of _ age_calls] ok1 age_calls_effect
  have "cnt.all_agree d2 (calls_effect c2 (calls_effect c1 A))" using 2 by (metis fst_conv snd_conv)
  moreover have "\<forall>call \<in> set c2. call_keys call \<subseteq> cnt.owned"
  proof -
    have "cnt.dev_calls n (fst (age_calls n st))" for n st
      by (simp add: age_calls_def age_counter_def Let_def endDevice_def dev_calls_cnt)
    from cnt.sweep_owned[of age_calls d1, OF this] show ?thesis by (simp add: 2)
  qed
  ultimately show ?thesis using ok1 aging_owes[OF _ 2, of "[]"] by (auto simp: res)
qed

subsection \<open>Host conditions\<close>

text \<open>What a step of one host condition does to its key, whatever else is active.\<close>

definition cond_ok :: "hostCond \<Rightarrow> pub_call list \<times> hostCond \<Rightarrow> bool" where
  "cond_ok c r \<longleftrightarrow> hc_key (snd r) = hc_key c \<and> (\<forall>call \<in> set (fst r). call_keys call = {hc_key c}) \<and>
     (\<forall>A. (hc_key c \<in> A \<longleftrightarrow> h_active (hc_h c)) \<longrightarrow>
        (hc_key c \<in> calls_effect (fst r) A \<longleftrightarrow> h_active (hc_h (snd r))))"

lemma cond_observe_ok:
  assumes "n_Key onset = hc_key c" "hc_key c \<noteq> ''''"
  shows "cond_ok c (cond_observe now over onset clear c)"
proof (cases over)
  case (Some v)
  obtain tr h where o: "hys_Observe now v (hc_h c) = (tr, h)" by fastforce
  have "h_active h = (case tr of TransitionNone \<Rightarrow> h_active (hc_h c) | TransitionOnset \<Rightarrow> True
      | TransitionClear \<Rightarrow> False)"
    using hys_Observe_active[of now v "hc_h c"] o by simp
  then show ?thesis
    using assms by (cases tr) (simp_all add: cond_ok_def cond_observe_def Some o on_transition_def)
qed (use assms in \<open>simp add: cond_ok_def cond_observe_def\<close>)

lemma cond_off_ok: "cond_ok c (cond_off reason c)"
  by (simp add: cond_ok_def cond_off_def resolve_if_def)

text \<open>Steps of conditions with different keys, one after the other.\<close>

lemma cond_steps:
  assumes "\<forall>(c, r) \<in> set xs. cond_ok c r" "distinct (map (hc_key \<circ> fst) xs)"
    "\<forall>(c, r) \<in> set xs. hc_key c \<in> A \<longleftrightarrow> h_active (hc_h c)"
  shows "\<forall>(c, r) \<in> set xs. hc_key c \<in> calls_effect (concat (map (fst \<circ> snd) xs)) A \<longleftrightarrow> h_active (hc_h (snd r))"
  using assms
proof (induction xs arbitrary: A)
  case (Cons x xs)
  obtain c r where x: "x = (c, r)" by (cases x)
  have ok: "cond_ok c r" and A: "hc_key c \<in> A \<longleftrightarrow> h_active (hc_h c)" using Cons.prems by (simp_all add: x)
  let ?A = "calls_effect (fst r) A"
  have other: "k \<in> ?A \<longleftrightarrow> k \<in> A" if "k \<noteq> hc_key c" for k
    using ok that by (intro calls_effect_other) (auto simp: cond_ok_def)
  have "\<forall>(c', r') \<in> set xs. hc_key c' \<in> ?A \<longleftrightarrow> h_active (hc_h c')"
  proof (intro ballI, clarify)
    fix c' r1 r2 assume m: "(c', r1, r2) \<in> set xs"
    then have "hc_key c' \<noteq> hc_key c" using Cons.prems(2) by (force simp: x)
    with m Cons.prems(3) other show "hc_key c' \<in> ?A \<longleftrightarrow> h_active (hc_h c')" by fastforce
  qed
  from Cons.IH[OF _ _ this] Cons.prems have
    IH: "\<forall>(c, r) \<in> set xs. hc_key c \<in> calls_effect (concat (map (fst \<circ> snd) xs)) ?A \<longleftrightarrow> h_active (hc_h (snd r))"
    by (simp add: comp_def)
  have "hc_key c \<in> calls_effect (concat (map (fst \<circ> snd) xs)) ?A \<longleftrightarrow> hc_key c \<in> ?A"
  proof (rule calls_effect_other, intro ballI)
    fix call assume "call \<in> set (concat (map (fst \<circ> snd) xs))"
    then obtain c' r' where m: "(c', r') \<in> set xs" "call \<in> set (fst r')" by auto
    then have "call_keys call = {hc_key c'}" using Cons.prems(1) by (fastforce simp: cond_ok_def)
    moreover have "hc_key c' \<noteq> hc_key c" using Cons.prems(2) m(1) by (force simp: x)
    ultimately show "hc_key c \<notin> call_keys call" by simp
  qed
  also have "\<dots> \<longleftrightarrow> h_active (hc_h (snd r))" using ok A by (simp add: cond_ok_def)
  finally show ?case using IH by (simp add: x comp_def)
qed simp

lemma all_host_cond: "(\<forall>c. P c) \<longleftrightarrow> P CCpu \<and> P CMem \<and> P CTemp \<and> P CDisk \<and> P CVolt"
  by (metis host_cond.exhaust)

lemmas cond_keys = hostCPUKey_def hostMemKey_def hostTempKey_def hostDiskKey_def hostVoltKey_def

definition conds_agree :: "string set \<Rightarrow> host \<Rightarrow> bool" where
  "conds_agree A h \<longleftrightarrow> (\<forall>c. hc_key (cond_of c h) = cond_key c \<and> (cond_key c \<in> A \<longleftrightarrow> h_active (hc_h (cond_of c h))))"

text \<open>A step of all five.\<close>

lemma five_conds:
  assumes "conds_agree A h" "\<forall>c. cond_ok (cond_of c h) (r c) \<and> cond_of c h' = snd (r c)"
    "calls = fst (r CCpu) @ fst (r CMem) @ fst (r CTemp) @ fst (r CDisk) @ fst (r CVolt)"
  shows "conds_agree (calls_effect calls A) h' \<and> (\<forall>call \<in> set calls. call_keys call \<subseteq> range cond_key)"
proof -
  let ?xs = "map (\<lambda>c. (cond_of c h, r c)) [CCpu, CMem, CTemp, CDisk, CVolt]"
  have key: "hc_key (cond_of c h) = cond_key c" for c using assms(1) by (simp add: conds_agree_def)
  have "calls = concat (map (fst \<circ> snd) ?xs)" by (simp add: assms(3))
  moreover have "\<forall>(c, r) \<in> set ?xs. hc_key c \<in> calls_effect (concat (map (fst \<circ> snd) ?xs)) A \<longleftrightarrow> h_active (hc_h (snd r))"
  proof (rule cond_steps)
    show "\<forall>(c, r) \<in> set ?xs. cond_ok c r" using assms(2) by (simp del: cond_of.simps)
    show "distinct (map (hc_key \<circ> fst) ?xs)" by (simp add: key cond_keys del: cond_of.simps)
    show "\<forall>(c, r) \<in> set ?xs. hc_key c \<in> A \<longleftrightarrow> h_active (hc_h c)"
      using assms(1) key by (simp add: conds_agree_def del: cond_of.simps cond_key.simps)
  qed
  moreover have "cond_ok (cond_of c h) (r c)" "cond_of c h' = snd (r c)" for c using assms(2) by simp_all
  moreover have "call_keys call \<subseteq> range cond_key" if "call \<in> set (fst (r c))" for call c
    using \<open>cond_ok (cond_of c h) (r c)\<close> that key[of c] by (auto simp: cond_ok_def)
  ultimately show ?thesis
    unfolding conds_agree_def using assms(3)
    by (auto simp: all_host_cond cond_ok_def key simp del: cond_of.simps cond_key.simps)
qed

lemma evaluate_conds_ok:
  "hc_key c = hostCPUKey \<Longrightarrow> cond_ok c (evaluate_cpu now hs r c)"
  "hc_key c = hostMemKey \<Longrightarrow> cond_ok c (evaluate_mem now hs r c)"
  "hc_key c = hostTempKey \<Longrightarrow> cond_ok c (evaluate_temp now hs r c)"
  "hc_key c = hostDiskKey \<Longrightarrow> cond_ok c (evaluate_disk now hs r c)"
  "hc_key c = hostVoltKey \<Longrightarrow> cond_ok c (evaluate_volt now r c)"
  unfolding evaluate_cpu_def evaluate_mem_def evaluate_temp_def evaluate_disk_def evaluate_volt_def Let_def
    case_prod_unfold
  by (rule cond_observe_ok; simp add: hostOnset_def cpuOnset_def memOnset_def tempOnset_def diskOnset_def
      voltOnset_def cond_keys)+

lemma evaluateHost_agree:
  assumes "conds_agree A h" "evaluateHost now s r h = (calls, h')"
  shows "conds_agree (calls_effect calls A) h' \<and> (\<forall>call \<in> set calls. call_keys call \<subseteq> range cond_key)"
proof -
  let ?f = "\<lambda>c. case c of CCpu \<Rightarrow> evaluate_cpu now (st_Host s) r (ho_cpu h)
    | CMem \<Rightarrow> evaluate_mem now (st_Host s) r (ho_mem h) | CTemp \<Rightarrow> evaluate_temp now (st_Host s) r (ho_temp h)
    | CDisk \<Rightarrow> evaluate_disk now (st_Host s) r (ho_disk h) | CVolt \<Rightarrow> evaluate_volt now r (ho_vt h)"
  have key: "hc_key (cond_of c h) = cond_key c" for c using assms(1) by (simp add: conds_agree_def)
  note keys = key[of CCpu] key[of CMem] key[of CTemp] key[of CDisk] key[of CVolt]
  show ?thesis
  proof (rule five_conds[OF assms(1)])
    show "\<forall>c. cond_ok (cond_of c h) (?f c) \<and> cond_of c h' = snd (?f c)"
      using assms(2) keys evaluate_conds_ok
      by (auto simp: all_host_cond evaluateHost_def case_prod_unfold)
    show "calls = fst (?f CCpu) @ fst (?f CMem) @ fst (?f CTemp) @ fst (?f CDisk) @ fst (?f CVolt)"
      using assms(2) by (auto simp: evaluateHost_def split: prod.splits)
  qed
qed

lemma host_resolveAll_agree:
  assumes "conds_agree A h" "devs_ok (ho_devs h)" "cnt.all_agree (ho_devs h) A"
    "host_resolveAll reason h = (lines, calls, h')"
  shows "conds_agree (calls_effect calls A) h' \<and> cnt.all_agree [] (calls_effect calls A) \<and> ho_devs h' = [] \<and>
    (\<forall>c. \<not> h_active (hc_h (cond_of c h'))) \<and> (\<forall>call \<in> set calls. call_keys call \<subseteq> host_owned)"
proof -
  let ?f = "\<lambda>c. cond_off reason (cond_of c h)"
  let ?h = "fst (?f CCpu) @ fst (?f CMem) @ fst (?f CTemp) @ fst (?f CDisk) @ fst (?f CVolt)"
  let ?e = "\<lambda>name st. (snd (endDevice name reason st), None :: counterState option)"
  have "concat (map (\<lambda>(name, st). snd (endDevice name reason st)) devs) = fst (sweep ?e devs)" for devs
    by (induction devs) (auto split: prod.splits)
  then have calls: "calls = ?h @ fst (sweep ?e (ho_devs h))"
    using assms(4) by (auto simp: host_resolveAll_def split: prod.splits)
  have h': "cond_of c h' = snd (?f c)" "ho_devs h' = []" for c
    using assms(4) by (cases c; auto simp: host_resolveAll_def split: prod.splits)+
  have hosts: "conds_agree (calls_effect ?h A) h' \<and> (\<forall>call \<in> set ?h. call_keys call \<subseteq> range cond_key)"
    by (rule five_conds[OF assms(1), of ?f]) (simp_all add: cond_off_ok h')
  have foreign: "k \<in> calls_effect cs B \<longleftrightarrow> k \<in> B"
    if "\<forall>call \<in> set cs. call_keys call \<subseteq> K" "k \<notin> K" for cs B K and k :: string
    using that by (intro calls_effect_other) auto
  have apart: "cond_key c \<noteq> dev_key n d" for c n d
    by (cases c; cases d) (simp_all add: cond_keys streamDropsKey_def deviceOverrunsKey_def)
  have "cnt.all_agree (ho_devs h) (calls_effect ?h A)"
    using assms(3) foreign[OF conjunct2[OF hosts]] apart unfolding cnt.all_agree_def by (metis rangeE)
  moreover have "distinct (map fst (ho_devs h))" using assms(2) by (simp add: devs_ok_def)
  ultimately have devs: "cnt.all_agree (snd (sweep ?e (ho_devs h))) (calls_effect (fst (sweep ?e (ho_devs h))) (calls_effect ?h A))"
    by (rule cnt.all_agree_sweep) (use endDevice_calls in simp)
  have nil: "snd (sweep ?e devs) = []" for devs by (induction devs) (auto split: prod.splits)
  have owned: "\<forall>call \<in> set (fst (sweep ?e (ho_devs h))). call_keys call \<subseteq> cnt.owned"
    by (rule cnt.sweep_owned) (simp add: endDevice_def dev_calls_cnt)
  have "cond_key c \<notin> cnt.owned" for c using apart by (auto simp: cnt.owned_def)
  with hosts foreign[OF owned] have "conds_agree (calls_effect calls A) h'"
    by (simp add: conds_agree_def calls fold_append)
  moreover have "cnt.owned \<subseteq> host_owned"
  proof
    fix k assume "k \<in> cnt.owned"
    then obtain n c where "k = dev_key n c" by (auto simp: cnt.owned_def)
    then show "k \<in> host_owned" by (cases c) (auto simp: host_owned_def)
  qed
  moreover have "range cond_key \<subseteq> host_owned" by (auto simp: host_owned_def)
  ultimately have "\<forall>call \<in> set (?h @ fst (sweep ?e (ho_devs h))). call_keys call \<subseteq> host_owned"
    using conjunct2[OF hosts] owned unfolding set_append by blast
  moreover have "cnt.all_agree [] (calls_effect calls A)"
    using devs by (simp only: nil calls fold_append comp_def)
  moreover have "\<not> h_active (hc_h (cond_of c h'))" for c by (simp add: h' cond_off_def)
  ultimately show ?thesis using \<open>conds_agree (calls_effect calls A) h'\<close> h'(2) unfolding calls by blast
qed

definition host_inv :: "string set \<Rightarrow> host \<Rightarrow> bool" where [inv_defs]:
  "host_inv A h \<longleftrightarrow> conds_agree A h \<and> cnt.all_agree (ho_devs h) A \<and> devs_ok (ho_devs h) \<and>
     (case ho_applied h of Some s \<Rightarrow> st_Enabled s | None \<Rightarrow> False) \<or>
     conds_agree A h \<and> cnt.all_agree [] A \<and> ho_devs h = [] \<and> (\<forall>c. \<not> h_active (hc_h (cond_of c h)))"

lemma cond_of_frame [simp]:
  "cond_of c (h\<lparr>ho_applied := a\<rparr>) = cond_of c h" "cond_of c (h\<lparr>ho_set := s\<rparr>) = cond_of c h"
  "cond_of c (h\<lparr>ho_devs := d\<rparr>) = cond_of c h"
  by (cases c; simp)+

lemma conds_agree_frame [simp]:
  "conds_agree A (h\<lparr>ho_applied := a\<rparr>) = conds_agree A h" "conds_agree A (h\<lparr>ho_set := s\<rparr>) = conds_agree A h"
  "conds_agree A (h\<lparr>ho_devs := d\<rparr>) = conds_agree A h"
  by (simp_all add: conds_agree_def)

lemma owned_split:
  "host_owned = range cond_key \<union> cnt.owned" "range cond_key \<inter> cnt.owned = {}"
proof -
  show "host_owned = range cond_key \<union> cnt.owned"
    by (auto simp: host_owned_def cnt.owned_def ex_dev_cond)
  show "range cond_key \<inter> cnt.owned = {}"
  proof -
    have "cond_key c \<noteq> dev_key n d" for c n d
      by (cases c; cases d) (simp_all add: cond_keys streamDropsKey_def deviceOverrunsKey_def)
    then show ?thesis by (auto simp: cnt.owned_def)
  qed
qed

lemma poll_inv:
  assumes "host_inv A h" "poll now r cs h = (lines, calls, h')"
  shows "host_inv (calls_effect calls A) h' \<and> (\<forall>call \<in> set calls. call_keys call \<subseteq> host_owned)"
proof -
  have inv: "conds_agree A h" "cnt.all_agree (ho_devs h) A" "devs_ok (ho_devs h)"
    using assms(1) by (auto simp: host_inv_def devs_ok_def)
  let ?h = "h\<lparr>ho_applied := Some (ho_set h)\<rparr>"
  show ?thesis
  proof (cases "st_Enabled (ho_set h)")
    case False
    show ?thesis
    proof (cases "case ho_applied h of None \<Rightarrow> True | Some p \<Rightarrow> st_Enabled p")
      case True
      then have "host_resolveAll ''notifications disabled'' ?h = (lines, calls, h')"
        using assms(2) False by (simp add: poll_def Let_def)
      from host_resolveAll_agree[OF _ _ _ this, of A] inv show ?thesis by (simp add: host_inv_def)
    next
      case off: False
      then have "calls = []" "h' = ?h" using assms(2) False by (simp_all add: poll_def Let_def)
      moreover have "cnt.all_agree [] A \<and> ho_devs h = [] \<and> (\<forall>c. \<not> h_active (hc_h (cond_of c h)))"
        using assms(1) off by (auto simp: host_inv_def split: option.splits)
      ultimately show ?thesis using inv by (simp add: host_inv_def)
    qed
  next
    case True
    obtain c1 h1 where 1: "(case r of None \<Rightarrow> ([], ?h) | Some r \<Rightarrow> evaluateHost now (ho_set h) r ?h) = (c1, h1)"
      by fastforce
    obtain ls c2 ds where 2: "(case cs of None \<Rightarrow> ([], [], ho_devs h1)
        | Some cs \<Rightarrow> evaluateCounters now cs (ho_devs h1)) = (ls, c2, ds)" by (metis prod_cases3)
    have res: "calls = c1 @ c2" "h' = h1\<lparr>ho_devs := ds\<rparr>"
      using assms(2) True 1 2 by (simp_all add: poll_def Let_def)
    have ok1: "conds_agree (calls_effect c1 A) h1 \<and> (\<forall>call \<in> set c1. call_keys call \<subseteq> range cond_key) \<and>
        ho_devs h1 = ho_devs h \<and> ho_applied h1 = Some (ho_set h)"
    proof (cases r)
      case (Some rd)
      with 1 have e: "evaluateHost now (ho_set h) rd ?h = (c1, h1)" by simp
      then have "ho_applied h1 = Some (ho_set h)" by (auto simp: evaluateHost_def split: prod.splits)
      with evaluateHost_agree[OF _ e, of A] evaluateHost_devs[OF e] inv show ?thesis by simp
    qed (use 1 inv in auto)
    have apart: "k \<in> range cond_key \<Longrightarrow> k \<in> cnt.owned \<Longrightarrow> False" for k using owned_split(2) by blast
    have "cnt.all_agree (ho_devs h) (calls_effect c1 A)"
      unfolding cnt.all_agree_def
    proof (intro allI)
      fix n c
      have "dev_key n c \<in> cnt.owned" by (auto simp: cnt.owned_def)
      then have "dev_key n c \<in> calls_effect c1 A \<longleftrightarrow> dev_key n c \<in> A"
        using ok1 apart by (intro calls_effect_other) blast
      then show "dev_key n c \<in> calls_effect c1 A \<longleftrightarrow> (\<exists>st. map_of (ho_devs h) n = Some st \<and> dev_raised c st)"
        using inv(2) by (simp add: cnt.all_agree_def)
    qed
    note counted = evaluateCounters_agree[OF inv(3) this]
    have ok2: "devs_ok ds \<and> cnt.all_agree ds (calls_effect c2 (calls_effect c1 A)) \<and>
        (\<forall>call \<in> set c2. call_keys call \<subseteq> cnt.owned)"
    proof (cases cs)
      case None
      then show ?thesis using 2 ok1 inv \<open>cnt.all_agree (ho_devs h) (calls_effect c1 A)\<close> by simp
    next
      case (Some cl)
      with 2 ok1 have "evaluateCounters now cl (ho_devs h) = (ls, c2, ds)" by simp
      from counted[OF this] show ?thesis .
    qed
    have "conds_agree (calls_effect c2 (calls_effect c1 A)) h1"
    proof -
      have "cond_key c \<in> calls_effect c2 (calls_effect c1 A) \<longleftrightarrow> cond_key c \<in> calls_effect c1 A" for c
        using ok2 apart by (intro calls_effect_other) blast
      with ok1 show ?thesis by (simp add: conds_agree_def)
    qed
    then have "host_inv (calls_effect calls A) h'" using ok1 ok2 True by (simp add: host_inv_def res)
    moreover have "\<forall>call \<in> set calls. call_keys call \<subseteq> host_owned"
      unfolding owned_split(1) res(1) set_append using ok1 ok2 by blast
    ultimately show ?thesis by blast
  qed
qed

definition hsys_inv :: "string set \<Rightarrow> host_sys \<Rightarrow> bool" where [inv_defs]:
  "hsys_inv A0 y \<longleftrightarrow> (let A = calls_effect (concat (map snd (hs_calls y))) A0 in
     host_inv A (hs_host y) \<and> (\<forall>k. k \<notin> host_owned \<longrightarrow> (k \<in> A) = (k \<in> A0)))"

lemma hsys_inv_step:
  assumes "hsys_inv A0 y"
  shows "hsys_inv A0 (host_sys_step op y)"
proof (cases op)
  case (HPoll now r cs)
  obtain ls c h where p: "poll now r cs (hs_host y) = (ls, c, h)" by (metis prod_cases3)
  let ?A = "calls_effect (concat (map snd (hs_calls y))) A0"
  have "host_inv ?A (hs_host y)" using assms by (simp add: hsys_inv_def Let_def)
  note step = poll_inv[OF this p]
  have "k \<in> calls_effect c ?A \<longleftrightarrow> k \<in> ?A" if "k \<notin> host_owned" for k
    using step that by (intro calls_effect_other) blast
  with step assms show ?thesis
    by (simp add: host_sys_step_def HPoll p hsys_inv_def Let_def)
next
  case (HOrder devs)
  have "host_inv A (h\<lparr>ho_devs := devs\<rparr>)" if "host_inv A h" "mset devs = mset (ho_devs h)" for A h
  proof -
    have "devs_ok (ho_devs h)" using that(1) by (auto simp: host_inv_def devs_ok_def)
    then have same: "distinct (map fst devs) \<and> map_of devs = map_of (ho_devs h)"
      using map_of_mset[of "ho_devs h" devs] that(2) by (simp add: devs_ok_def)
    then show ?thesis using that by (auto simp: host_inv_def devs_ok_def cnt.all_agree_def)
  qed
  then show ?thesis using assms by (auto simp: host_sys_step_def HOrder hsys_inv_def Let_def)
next
  case (HApply s)
  then show ?thesis using assms by (auto simp: host_sys_step_def hsys_inv_def Let_def host_Apply_def host_inv_def)
qed

lemma hsys_inv_run:
  assumes "A0 \<inter> host_owned = {}"
  shows "hsys_inv A0 (host_run s ops)"
proof -
  have "hsys_inv A0 (fold host_sys_step ops y)" if "hsys_inv A0 y" for y
    using that by (induction ops arbitrary: y) (simp_all add: hsys_inv_step)
  moreover have "cond_key c \<notin> A0" "dev_key n d \<notin> A0" for c n d
    using assms owned_split(1) by (auto simp: cnt.owned_def)
  then have "hsys_inv A0 \<lparr>hs_host = NewHost s, hs_journal = [], hs_calls = []\<rparr>"
    by (simp add: hsys_inv_def host_inv_def conds_agree_def NewHost_def newHostCond_def all_host_cond
        cnt.all_agree_def Let_def del: cond_key.simps) (simp add: cond_key.simps)
  ultimately show ?thesis by (simp add: host_run_def)
qed

text \<open>
  Whatever polls, settings changes and map orders a run of the host monitor makes, the
  conditions active in the notification center under its keys are exactly the host, dropped-frame
  and overrun conditions its detectors hold raised, no other key is touched, and once a poll has
  run with the monitors off nothing is raised.
\<close>
theorem host_conditions_mirror_the_center:
  assumes "active_keys c \<inter> host_owned = {}" "y = host_run s ops"
  shows "active_keys (center_pub.run enc (hs_calls y) c) = active_keys c \<union> host_keys (hs_host y) \<and>
    (case ho_applied (hs_host y) of
       Some applied \<Rightarrow> st_Enabled applied \<or> host_keys (hs_host y) = {}
     | None \<Rightarrow> host_keys (hs_host y) = {})"
proof -
  let ?A = "calls_effect (concat (map snd (hs_calls y))) (active_keys c)" and ?h = "hs_host y"
  have inv: "host_inv ?A ?h" and other: "k \<notin> host_owned \<Longrightarrow> k \<in> ?A \<longleftrightarrow> k \<in> active_keys c" for k
    using hsys_inv_run[OF assms(1), of s ops] by (simp_all add: hsys_inv_def Let_def assms(2))
  have agree: "conds_agree ?A ?h" "cnt.all_agree (ho_devs ?h) ?A"
    using inv by (auto simp: host_inv_def)
  have keys: "host_keys ?h = {k. \<exists>c. h_active (hc_h (cond_of c ?h)) \<and> k = cond_key c} \<union> cnt.believed (ho_devs ?h)"
    by (auto simp: host_keys_def cnt.believed_def ex_dev_cond simp del: cond_of.simps cond_key.simps)
  have "k \<in> ?A \<longleftrightarrow> k \<in> active_keys c \<or> k \<in> host_keys ?h" for k
  proof (cases "k \<in> host_owned")
    case False
    then have "k \<notin> host_keys ?h" by (auto simp: host_owned_def host_keys_def)
    with False other show ?thesis by blast
  next
    case True
    then have "k \<notin> active_keys c" using assms(1) by blast
    consider (host) d where "k = cond_key d" | (dev) n d where "k = dev_key n d"
      using True unfolding owned_split(1) cnt.owned_def by blast
    then show ?thesis
    proof cases
      case host
      then have "k \<notin> cnt.believed (ho_devs ?h)" using owned_split(2) by (auto simp: cnt.believed_def cnt.owned_def)
      moreover have "cond_key d = cond_key e \<longleftrightarrow> d = e" for e by (cases d; cases e) (simp_all add: cond_keys)
      ultimately show ?thesis using host agree(1) \<open>k \<notin> active_keys c\<close>
        by (simp add: keys conds_agree_def del: cond_of.simps cond_key.simps)
    next
      case dev
      then have "k \<notin> range cond_key" using owned_split(2) by (auto simp: cnt.owned_def)
      then show ?thesis using dev agree(2) \<open>k \<notin> active_keys c\<close>
        by (auto simp: keys cnt.all_agree_def cnt.believed_def simp del: cond_of.simps cond_key.simps)
    qed
  qed
  then have "active_keys (center_pub.run enc (hs_calls y) c) = active_keys c \<union> host_keys ?h"
    unfolding center_pub.active_run by blast
  moreover have "host_keys ?h = {}" if "ho_devs ?h = []" "\<forall>c. \<not> h_active (hc_h (cond_of c ?h))"
    using that by (auto simp: host_keys_def)
  ultimately show ?thesis using inv by (auto simp: host_inv_def split: option.splits)
qed

section \<open>Concrete runs\<close>

definition demo_counters :: "u64 \<Rightarrow> u64 \<Rightarrow> deviceCounters" where
  "demo_counters gen n = \<lparr>dc_Name = ''mic'', dc_Gen = gen, dc_Dropped = 0, dc_Overruns = n\<rparr>"

definition demo_host_settings :: settings where
  "demo_host_settings =
     \<lparr>st_Enabled = True, st_Audio = nt_Audio (c_Notifications Default),
      st_Host = nt_Host (c_Notifications Default), st_QuietAlert = [], st_UpdateCheck = True\<rparr>"

text \<open>A device restarts and has already lost audio seven times: the warning is raised at once.\<close>

definition demo_ops :: "host_op list" where
  "demo_ops = [HPoll second None (Some [demo_counters 1 2]), HPoll (11 * second) None (Some [demo_counters 2 7])]"

lemma demo_poll: "run_found ''mic'' demo_ops (NewHost demo_host_settings) = 7"
  by (simp add: demo_ops_def demo_counters_def demo_host_settings_def NewHost_def poll_def evaluateCounters_def
      found_def overrun_delta_def new_counterState_def age_calls_def age_counter_def Let_def)


lemma demo_raised:
  "map_option (f_active \<circ> cn_ov) (map_of (ho_devs (hs_host (host_run demo_host_settings demo_ops))) ''mic'') = Some True"
  by code_simp

theorem host_conditions_mirror_the_center_witness:
  "\<exists>c y. y = host_run demo_host_settings demo_ops \<and>
     deviceOverrunsKey ''mic'' \<in> active_keys (center_pub.run (\<lambda>_. None) (hs_calls y) c)"
proof -
  let ?y = "host_run demo_host_settings demo_ops"
  have "active_keys (NewCenter [] ''b'' 1) \<inter> host_owned = {}"
    by (simp add: active_keys_def NewCenter_def Let_def)
  from host_conditions_mirror_the_center[OF this refl, of "\<lambda>_. None" demo_host_settings demo_ops]
  have "host_keys (hs_host ?y) \<subseteq> active_keys (center_pub.run (\<lambda>_. None) (hs_calls ?y) (NewCenter [] ''b'' 1))"
    by blast
  moreover have "deviceOverrunsKey ''mic'' \<in> host_keys (hs_host ?y)"
    using demo_raised by (auto simp: host_keys_def)
  ultimately show ?thesis by blast
qed

end
