(* ===== verification/Update_Apply.thy ===== *)
theory Update_Apply
  imports Update_Version Release_Manifest
begin

text \<open>
  \<open>internal/update/apply.go\<close>: the root updater. A run reads what it cannot trust or control (the
  staging directory, the outcome of system calls, the output of a binary, the health polls) from a
  record \<open>world\<close>; the files beside the installed binary are the \<open>bindir\<close> it changes. A run leaves
  a trace of everything it does, every intermediate state of the directory included, so a cut at any
  moment is a prefix of the trace. Directory changes reach the disk in the order they are made; one
  lost because it was not synced yet is a cut at an earlier moment. JSON, Ed25519 and SHA-256 are
  parameters. A reason is the failing step with its data, not its English text.
\<close>

section \<open>Files and results\<close>

definition maxSmallFile :: nat where "maxSmallFile = 4 * 2 ^ 10"
definition maxBinarySize :: int where "maxBinarySize = 256 * 2 ^ 20"
definition DefaultHealthTimeout :: duration where "DefaultHealthTimeout = 2 * minute"
definition DefaultHealthSettle :: duration where "DefaultHealthSettle = 10 * second"

datatype missing =
    NeverWrote | Malformed | HealthNames string | QueryFailed string | NotRunning
  | OtherProcess int int | NotSettled int

datatype cause =
    OsError string | UnsafeBinary string bool | LockError string | Stopped | DoesNotRun string
  | Reports string string | Oversize string nat | BadJSON string
  | BadManifest manifest_error | BadVersion update_error | NotNewer string string | NoTarget string
  | TooLarge int | WrongSize nat int | WrongHash string string
  | ReadInstalled | KeepInstalled string | WriteJournal string | InstallNew string
  | RestartFailed string | Unhealthy missing
  | RestoreFailed string string string | UnreadableJournal | Interrupted string
  | KeptCopyGone string string | MatchesNeither

datatype outcome = OutcomeUpdated | OutcomeRolledBack | OutcomeFailed

record result =
  rs_Outcome :: outcome
  rs_From :: string
  rs_To :: string
  rs_Installed :: string
  rs_Reason :: "cause list"
  rs_written :: bool

definition failed :: "string \<Rightarrow> string \<Rightarrow> string \<Rightarrow> cause \<Rightarrow> result" where
  "failed old new installed reason =
     \<lparr>rs_Outcome = OutcomeFailed, rs_From = old, rs_To = new, rs_Installed = installed,
      rs_Reason = [reason], rs_written = False\<rparr>"

record health =
  hl_Version :: string
  hl_PID :: int

record journal_entry =
  j_From :: string
  j_To :: string
  j_PrevSHA256 :: string
  j_NewSHA256 :: string

text \<open>The installed binary and the files beside it.\<close>

datatype bin_file = BinFile | NewFile | PrevFile | JournalFile

type_synonym bindir = "bin_file \<Rightarrow> string option"

text \<open>The staged files the updater reads: the claimed request, the manifest pair and the binary.\<close>

datatype staged = TakenFile | ManifestFile | SignatureFile | BinaryFile

section \<open>What a run depends on\<close>

record 'k upd_codec = "'k codec" +
  json_request :: "string \<Rightarrow> string option"
  json_health :: "string \<Rightarrow> health option"
  json_journal :: "string \<Rightarrow> journal_entry option"
  journal_json :: "journal_entry \<Rightarrow> string"

record applier =
  ap_Running :: string
  ap_Target :: string
  ap_Trusted :: "string \<rightharpoonup> string"
  ap_HealthTimeout :: duration
  ap_HealthSettle :: duration

text \<open>One iteration of the health wait: the health file, the unit's main process, the clock, and the stop.\<close>

record health_poll =
  hp_file :: "string option"
  hp_pid :: "string + int"
  hp_now :: instant
  hp_stop :: bool

datatype claim = Claimed | NoRequest | ClaimFailed string

text \<open>The outcome of \<open>writeFresh\<close>: removing the old file and writing the new one can each fail.\<close>

datatype write_outcome = WriteOk | RemoveFails string | WriteFails string

record world =
  w_root :: bool
  w_checkBin :: "string option"
  w_lock :: "string option"
  w_recheckBin :: "string option"
  w_Version :: "string \<Rightarrow> string + string"
  w_stopped1 :: bool
  w_stopped2 :: bool
  w_claim :: claim
  w_staged :: "staged \<Rightarrow> string + string"
  w_write :: "bin_file \<Rightarrow> write_outcome"
  w_readable :: "bin_file \<Rightarrow> bool"
  w_swap :: "string option"
  w_restart :: "string option"
  w_polls :: "health_poll list"
  w_restore :: "string option"
  w_rmNew :: bool
  w_rmJournal :: bool
  w_status :: bool

section \<open>Effects\<close>

datatype effect =
    EDisk bindir | ERestart | EStatus result | ERemoveHealth | ERemoveRequest | EClaim
  | ERemoveTaken | ERemoveStaged

record run =
  u_disk :: bindir
  u_trace :: "effect list"

definition emit :: "effect \<Rightarrow> run \<Rightarrow> run" where
  "emit e u = u\<lparr>u_trace := u_trace u @ [e]\<rparr>"

definition put_disk :: "bindir \<Rightarrow> run \<Rightarrow> run" where
  "put_disk d u = emit (EDisk d) (u\<lparr>u_disk := d\<rparr>)"

definition put_file :: "bin_file \<Rightarrow> string option \<Rightarrow> run \<Rightarrow> run" where
  "put_file f v u = put_disk ((u_disk u)(f := v)) u"

definition read_file :: "world \<Rightarrow> bin_file \<Rightarrow> run \<Rightarrow> string option" where
  "read_file w f u = (if w_readable w f then u_disk u f else None)"

definition writeFresh :: "world \<Rightarrow> bin_file \<Rightarrow> string \<Rightarrow> run \<Rightarrow> string option \<times> run" where
  "writeFresh w f data u =
     (case w_write w f of
        RemoveFails e \<Rightarrow> (Some e, u)
      | WriteFails e \<Rightarrow> (Some e, put_file f None u)
      | WriteOk \<Rightarrow> (None, put_file f (Some data) (put_file f None u)))"

text \<open>\<open>os.Rename\<close> over the installed binary.\<close>

definition rename_to_bin :: "bin_file \<Rightarrow> run \<Rightarrow> run" where
  "rename_to_bin f u = put_disk ((u_disk u)(BinFile := u_disk u f, f := None)) u"

definition remove_new :: "world \<Rightarrow> run \<Rightarrow> run" where
  "remove_new w u = (if w_rmNew w then put_file NewFile None u else u)"

definition removeJournal :: "world \<Rightarrow> run \<Rightarrow> run" where
  "removeJournal w u = (if w_rmJournal w then put_file JournalFile None u else u)"

definition writeResult :: "world \<Rightarrow> result \<Rightarrow> run \<Rightarrow> run" where
  "writeResult w r u = (if w_root w \<and> w_status w then emit (EStatus r) u else u)"

definition remove_request :: "world \<Rightarrow> run \<Rightarrow> run" where
  "remove_request w u = (if w_root w then emit ERemoveRequest u else u)"

definition remove_taken :: "world \<Rightarrow> run \<Rightarrow> run" where
  "remove_taken w u = (if w_root w then emit ERemoveTaken u else u)"

section \<open>Hashes and versions\<close>

definition sha256Hex :: "'k upd_codec \<Rightarrow> string \<Rightarrow> string" where
  "sha256Hex c b = hex_encode (sha256 c b)"

definition fileSHA256 :: "'k upd_codec \<Rightarrow> world \<Rightarrow> bin_file \<Rightarrow> run \<Rightarrow> string" where
  "fileSHA256 c w f u = (case read_file w f u of None \<Rightarrow> '''' | Some b \<Rightarrow> sha256Hex c b)"

text \<open>Running a binary's version command; the first line of the output is the contract.\<close>

definition run_version :: "world \<Rightarrow> bin_file \<Rightarrow> run \<Rightarrow> string + string" where
  "run_version w f u = (case u_disk u f of None \<Rightarrow> Inl ''no such file'' | Some b \<Rightarrow> w_Version w b)"

definition first_line :: "string \<Rightarrow> string" where
  "first_line out = TrimSpace (fst (Cut out (CHR 0x0A)))"

definition version_line :: "string \<Rightarrow> string" where
  "version_line v = ''remote-mic '' @ v"

definition revalidate :: "applier \<Rightarrow> world \<Rightarrow> run \<Rightarrow> cause option" where
  "revalidate a w u =
     (case w_recheckBin w of
        Some e \<Rightarrow> Some (UnsafeBinary e False)
      | None \<Rightarrow>
          if w_stopped1 w then Some Stopped
          else (case run_version w BinFile u of
             Inl e \<Rightarrow> Some (DoesNotRun e)
           | Inr out \<Rightarrow>
               if first_line out \<noteq> version_line (ap_Running a)
               then Some (Reports (first_line out) (version_line (ap_Running a))) else None))"

section \<open>The staged release\<close>

definition readFileIn :: "world \<Rightarrow> staged \<Rightarrow> nat \<Rightarrow> cause + string" where
  "readFileIn w f limit =
     (case w_staged w f of
        Inl e \<Rightarrow> Inl (OsError e)
      | Inr b \<Rightarrow> if length b > limit then Inl (Oversize '''' limit) else Inr b)"

definition decodeSmall :: "(string \<Rightarrow> 'a option) \<Rightarrow> string \<Rightarrow> string \<Rightarrow> cause + 'a" where
  "decodeSmall json name b =
     (if length b > maxSmallFile then Inl (Oversize name maxSmallFile)
      else case json b of None \<Rightarrow> Inl (BadJSON name) | Some v \<Rightarrow> Inr v)"

definition verifyStaged :: "'k upd_codec \<Rightarrow> applier \<Rightarrow> world \<Rightarrow> cause + manifest \<times> string" where
  "verifyStaged c a w =
     (case readFileIn w ManifestFile MaxManifestSize of Inl e \<Rightarrow> Inl e | Inr raw \<Rightarrow>
      case readFileIn w SignatureFile MaxSignatureSize of Inl e \<Rightarrow> Inl e | Inr sig \<Rightarrow>
      case Verify (codec.truncate c) raw sig (ap_Trusted a) of Inl e \<Rightarrow> Inl (BadManifest e) | Inr m \<Rightarrow>
      case Newer (mf_Version m) (ap_Running a) of Inl e \<Rightarrow> Inl (BadVersion e) | Inr newer \<Rightarrow>
      if \<not> newer then Inl (NotNewer (mf_Version m) (ap_Running a))
      else case map_of (mf_Targets m) (ap_Target a) of None \<Rightarrow> Inl (NoTarget (ap_Target a)) | Some t \<Rightarrow>
      let b = t_Binary t in
      if b_Size b > maxBinarySize then Inl (TooLarge (b_Size b))
      else case readFileIn w BinaryFile (nat (b_Size b)) of Inl e \<Rightarrow> Inl e | Inr bin \<Rightarrow>
      if int (length bin) \<noteq> b_Size b then Inl (WrongSize (length bin) (b_Size b))
      else if sha256Hex c bin \<noteq> b_SHA256 b then Inl (WrongHash (sha256Hex c bin) (b_SHA256 b))
      else Inr (m, bin))"

section \<open>Waiting for the new version\<close>

record waiting =
  wt_last :: missing
  wt_candidate :: int
  wt_since :: instant

text \<open>What one look at the health file tells; \<open>True\<close> when the wait is over.\<close>

definition health_look :: "'k upd_codec \<Rightarrow> string \<Rightarrow> duration \<Rightarrow> health_poll \<Rightarrow> waiting \<Rightarrow> bool \<times> waiting" where
  "health_look c version settle p s =
     (case hp_file p of
        None \<Rightarrow> (False, s)
      | Some b \<Rightarrow>
          if length b > maxSmallFile then (False, s)
          else case json_health c b of
            None \<Rightarrow> (False, s\<lparr>wt_last := Malformed, wt_candidate := 0\<rparr>)
          | Some h \<Rightarrow>
              if hl_Version h \<noteq> version then (False, s\<lparr>wt_last := HealthNames (hl_Version h), wt_candidate := 0\<rparr>)
              else case hp_pid p of
                Inl e \<Rightarrow> (False, s\<lparr>wt_last := QueryFailed e, wt_candidate := 0\<rparr>)
              | Inr pid \<Rightarrow>
                  if pid = 0 then (False, s\<lparr>wt_last := NotRunning, wt_candidate := 0\<rparr>)
                  else if pid \<noteq> hl_PID h then (False, s\<lparr>wt_last := OtherProcess (hl_PID h) pid, wt_candidate := 0\<rparr>)
                  else if wt_candidate s \<noteq> pid
                  then (False, s\<lparr>wt_candidate := pid, wt_since := hp_now p, wt_last := NotSettled pid\<rparr>)
                  else (time_sub (hp_now p) (wt_since s) \<ge> settle, s))"

text \<open>\<open>None\<close>: the polls so far end neither way, and the updater is still waiting.\<close>

fun await_polls :: "'k upd_codec \<Rightarrow> string \<Rightarrow> duration \<Rightarrow> instant \<Rightarrow> waiting \<Rightarrow> health_poll list \<Rightarrow> cause option option" where
  "await_polls c version settle deadline s [] = None"
| "await_polls c version settle deadline s (p # ps) =
     (case health_look c version settle p s of (healthy, s) \<Rightarrow>
        if healthy then Some None
        else if hp_now p > deadline \<and> (wt_candidate s = 0 \<or> hp_now p > deadline + settle)
        then Some (Some (Unhealthy (wt_last s)))
        else if hp_stop p then Some (Some Stopped)
        else await_polls c version settle deadline s ps)"

definition cmp_Or :: "duration \<Rightarrow> duration \<Rightarrow> duration" where
  "cmp_Or a b = (if a \<noteq> 0 then a else b)"

definition awaitHealthy :: "'k upd_codec \<Rightarrow> applier \<Rightarrow> world \<Rightarrow> string \<Rightarrow> cause option option" where
  "awaitHealthy c a w version =
     (let timeout = cmp_Or (ap_HealthTimeout a) DefaultHealthTimeout;
          settle = cmp_Or (ap_HealthSettle a) DefaultHealthSettle;
          start = (case w_polls w of [] \<Rightarrow> 0 | p # _ \<Rightarrow> hp_now p)
      in await_polls c version settle (start + timeout)
           \<lparr>wt_last = NeverWrote, wt_candidate = 0, wt_since = 0\<rparr> (w_polls w))"

section \<open>Installing, rolling back, recovering\<close>

definition rollback :: "world \<Rightarrow> result \<Rightarrow> cause \<Rightarrow> run \<Rightarrow> result \<times> run" where
  "rollback w res why u =
     (let res = res\<lparr>rs_Outcome := OutcomeRolledBack, rs_Reason := [why]\<rparr>;
          (res, u) =
            (case w_restore w of
               Some e \<Rightarrow> (res\<lparr>rs_Outcome := OutcomeFailed,
                             rs_Reason := rs_Reason res @ [RestoreFailed (rs_From res) (rs_To res) e]\<rparr>, u)
             | None \<Rightarrow> (res\<lparr>rs_Installed := rs_From res\<rparr>, rename_to_bin PrevFile u));
          u = removeJournal w u;
          u = writeResult w res u
      in (res\<lparr>rs_written := True\<rparr>, emit ERestart u))"

text \<open>From the swapped binary on. \<open>None\<close>: still waiting for the new version.\<close>

definition confirm :: "'k upd_codec \<Rightarrow> applier \<Rightarrow> world \<Rightarrow> result \<Rightarrow> run \<Rightarrow> result option \<times> run" where
  "confirm c a w res u =
     (let u = emit ERestart u in
      case w_restart w of
        Some e \<Rightarrow> apfst Some (rollback w res (RestartFailed e) u)
      | None \<Rightarrow>
          (case awaitHealthy c a w (rs_To res) of
             None \<Rightarrow> (None, u)
           | Some (Some why) \<Rightarrow> apfst Some (rollback w res why u)
           | Some None \<Rightarrow> (Some (res\<lparr>rs_Outcome := OutcomeUpdated\<rparr>), removeJournal w u)))"

text \<open>From the written \<open>.new\<close> file on; the caller removes that file.\<close>

definition install_new :: "'k upd_codec \<Rightarrow> applier \<Rightarrow> world \<Rightarrow> manifest \<Rightarrow> string \<Rightarrow> run \<Rightarrow> result option \<times> run" where
  "install_new c a w m bin u =
     (let fail = (\<lambda>why. Some (failed (ap_Running a) (mf_Version m) (ap_Running a) why)) in
      if w_stopped2 w then (fail Stopped, u)
      else case run_version w NewFile u of
        Inl e \<Rightarrow> (fail (DoesNotRun e), u)
      | Inr out \<Rightarrow>
          if first_line out \<noteq> version_line (mf_Version m)
          then (fail (Reports (first_line out) (version_line (mf_Version m))), u)
          else case read_file w BinFile u of
            None \<Rightarrow> (fail ReadInstalled, u)
          | Some prev \<Rightarrow>
              (case writeFresh w PrevFile prev u of
                 (Some e, u) \<Rightarrow> (fail (KeepInstalled e), u)
               | (None, u) \<Rightarrow>
                   (case writeFresh w JournalFile
                      (journal_json c \<lparr>j_From = ap_Running a, j_To = mf_Version m,
                         j_PrevSHA256 = sha256Hex c prev, j_NewSHA256 = sha256Hex c bin\<rparr>) u of
                      (Some e, u) \<Rightarrow> (fail (WriteJournal e), u)
                    | (None, u) \<Rightarrow>
                        (let u = emit ERemoveHealth u in
                         case w_swap w of
                           Some e \<Rightarrow> (fail (InstallNew e), removeJournal w u)
                         | None \<Rightarrow>
                             confirm c a w
                               \<lparr>rs_Outcome = OutcomeFailed, rs_From = ap_Running a, rs_To = mf_Version m,
                                rs_Installed = mf_Version m, rs_Reason = [], rs_written = False\<rparr>
                               (rename_to_bin NewFile u)))))"

definition install :: "'k upd_codec \<Rightarrow> applier \<Rightarrow> world \<Rightarrow> manifest \<Rightarrow> string \<Rightarrow> run \<Rightarrow> result option \<times> run" where
  "install c a w m bin u =
     (case writeFresh w NewFile bin u of
        (Some e, u) \<Rightarrow> (Some (failed (ap_Running a) (mf_Version m) (ap_Running a) (OsError e)), u)
      | (None, u) \<Rightarrow>
          (case install_new c a w m bin u of
             (None, u) \<Rightarrow> (None, u)
           | (Some res, u) \<Rightarrow> (Some res, remove_new w u)))"

text \<open>The decision of the recovery, before its deferred clean-up.\<close>

definition recover_binary :: "'k upd_codec \<Rightarrow> applier \<Rightarrow> world \<Rightarrow> run \<Rightarrow> result \<times> run" where
  "recover_binary c a w u =
     (let res = failed (ap_Running a) '''' (ap_Running a) UnreadableJournal in
      case read_file w JournalFile u of
        None \<Rightarrow> (res, u)
      | Some b \<Rightarrow>
          (case decodeSmall (json_journal c) ''journal'' b of
             Inl e \<Rightarrow> (res, u)
           | Inr j \<Rightarrow>
               if j_PrevSHA256 j = '''' \<or> j_NewSHA256 j = '''' then (res, u)
               else
                 let res = res\<lparr>rs_From := j_From j, rs_To := j_To j, rs_Reason := [Interrupted (j_To j)]\<rparr>;
                     installed = fileSHA256 c w BinFile u
                 in if installed = j_PrevSHA256 j
                    then (res\<lparr>rs_Outcome := OutcomeRolledBack, rs_Installed := j_From j\<rparr>, u)
                    else if installed = j_NewSHA256 j \<and> fileSHA256 c w PrevFile u = j_PrevSHA256 j
                    then (case w_restore w of
                            Some e \<Rightarrow> (res\<lparr>rs_Installed := j_To j,
                              rs_Reason := rs_Reason res @ [RestoreFailed (j_From j) (j_To j) e]\<rparr>, u)
                          | None \<Rightarrow> (res\<lparr>rs_Outcome := OutcomeRolledBack, rs_Installed := j_From j\<rparr>,
                                     rename_to_bin PrevFile u))
                    else if installed = j_NewSHA256 j
                    then (res\<lparr>rs_Reason := rs_Reason res @ [KeptCopyGone (j_From j) (j_To j)]\<rparr>, u)
                    else (res\<lparr>rs_Reason := rs_Reason res @ [MatchesNeither]\<rparr>, u)))"

definition recoverInterrupted :: "'k upd_codec \<Rightarrow> applier \<Rightarrow> world \<Rightarrow> run \<Rightarrow> result \<times> run" where
  "recoverInterrupted c a w u =
     (case recover_binary c a w u of
        (res, u) \<Rightarrow>
          (res\<lparr>rs_written := True\<rparr>,
           emit ERestart (writeResult w res (removeJournal w (remove_new w u)))))"

section \<open>A run\<close>

datatype finish = NothingToDo | NoStateDir | Finished result | StillWaiting

definition finish_run :: "world \<Rightarrow> result \<Rightarrow> run \<Rightarrow> finish \<times> run" where
  "finish_run w res u = (Finished res, if rs_written res then u else writeResult w res u)"

text \<open>From the claimed request on.\<close>

definition apply_claimed :: "'k upd_codec \<Rightarrow> applier \<Rightarrow> world \<Rightarrow> run \<Rightarrow> finish \<times> run" where
  "apply_claimed c a w u =
     (let fail = (\<lambda>new why. finish_run w (failed (ap_Running a) new (ap_Running a) why) u) in
      case readFileIn w TakenFile maxSmallFile of Inl e \<Rightarrow> fail '''' e | Inr b \<Rightarrow>
      case decodeSmall (json_request c) ''request.json'' b of Inl e \<Rightarrow> fail '''' e | Inr version \<Rightarrow>
      case verifyStaged c a w of Inl e \<Rightarrow> fail version e | Inr (m, bin) \<Rightarrow>
      case install c a w m bin u of
        (None, u) \<Rightarrow> (StillWaiting, u)
      | (Some res, u) \<Rightarrow>
          finish_run w res (if rs_Outcome res = OutcomeUpdated then emit ERemoveStaged u else u))"

definition apply_locked :: "'k upd_codec \<Rightarrow> applier \<Rightarrow> world \<Rightarrow> run \<Rightarrow> finish \<times> run" where
  "apply_locked c a w u =
     (if u_disk u JournalFile \<noteq> None then
        (case recoverInterrupted c a w u of (res, u) \<Rightarrow> apsnd (remove_request w) (finish_run w res u))
      else case revalidate a w u of
        Some why \<Rightarrow>
          apsnd (remove_request w) (finish_run w (failed (ap_Running a) '''' (ap_Running a) why) u)
      | None \<Rightarrow>
          if \<not> w_root w then (NoStateDir, u)
          else (case w_claim w of
             NoRequest \<Rightarrow> (NothingToDo, u)
           | ClaimFailed e \<Rightarrow> finish_run w (failed (ap_Running a) '''' (ap_Running a) (OsError e)) u
           | Claimed \<Rightarrow> apply_claimed c a w (emit EClaim u)))"

definition Apply :: "'k upd_codec \<Rightarrow> applier \<Rightarrow> world \<Rightarrow> bindir \<Rightarrow> finish \<times> run" where
  "Apply c a w d =
     (let u = \<lparr>u_disk = d, u_trace = [EDisk d]\<rparr>;
          refuse = (\<lambda>why. apsnd (remove_request w) (finish_run w (failed (ap_Running a) '''' (ap_Running a) why) u));
          (r, u) = (case w_checkBin w of
             Some e \<Rightarrow> refuse (UnsafeBinary e (d JournalFile \<noteq> None))
           | None \<Rightarrow> (case w_lock w of Some e \<Rightarrow> refuse (LockError e) | None \<Rightarrow> apply_locked c a w u))
      in (r, if r = StillWaiting then u else remove_taken w u))"

end
