(* ===== verification/Update_Safety.thy ===== *)
theory Update_Safety
  imports Update_Apply
begin

text \<open>
  What the root updater guarantees, however its runs end: only verified binaries are ever
  installed, a cut never leaves a binary that was not confirmed healthy, and the result names the
  version that is installed.
\<close>

section \<open>Statements along a trace\<close>

text \<open>\<open>P\<close> holds of every state the directory goes through.\<close>

definition along :: "(bindir \<Rightarrow> bool) \<Rightarrow> run \<Rightarrow> bool" where
  "along P u \<longleftrightarrow> P (u_disk u) \<and> (\<forall>d. EDisk d \<in> set (u_trace u) \<longrightarrow> P d)"

lemma disk_simps [simp]:
  "u_disk (emit e u) = u_disk u" "u_disk (put_disk d u) = d"
  "u_disk (put_file f v u) = (u_disk u)(f := v)"
  "u_disk (rename_to_bin f u) = (u_disk u)(BinFile := u_disk u f, f := None)"
  "u_disk (removeJournal w u) = (if w_rmJournal w then (u_disk u)(JournalFile := None) else u_disk u)"
  "u_disk (remove_new w u) = (if w_rmNew w then (u_disk u)(NewFile := None) else u_disk u)"
  "u_disk (writeResult w r u) = u_disk u" "u_disk (remove_request w u) = u_disk u"
  "u_disk (remove_taken w u) = u_disk u"
  by (simp_all add: emit_def put_disk_def put_file_def rename_to_bin_def removeJournal_def remove_new_def
      writeResult_def remove_request_def remove_taken_def)

lemma along_emit [simp]:
  "along P (emit ERestart u) = along P u" "along P (emit (EStatus r) u) = along P u"
  "along P (emit ERemoveHealth u) = along P u" "along P (emit ERemoveRequest u) = along P u"
  "along P (emit EClaim u) = along P u" "along P (emit ERemoveTaken u) = along P u"
  "along P (emit ERemoveStaged u) = along P u"
  by (simp_all add: along_def emit_def)

lemma along_put [simp]: "along P (put_disk d u) \<longleftrightarrow> P d \<and> (\<forall>d. EDisk d \<in> set (u_trace u) \<longrightarrow> P d)"
  by (auto simp: along_def put_disk_def emit_def)

lemma along_file:
  "along P u \<Longrightarrow> P ((u_disk u)(f := v)) \<Longrightarrow> along P (put_file f v u)"
  "along P u \<Longrightarrow> P ((u_disk u)(BinFile := u_disk u f, f := None)) \<Longrightarrow> along P (rename_to_bin f u)"
  by (simp_all add: put_file_def rename_to_bin_def) (simp_all add: along_def)

lemma along_frame [simp]:
  "along P (writeResult w r u) = along P u" "along P (remove_request w u) = along P u"
  "along P (remove_taken w u) = along P u"
  by (simp_all add: writeResult_def remove_request_def remove_taken_def)

lemma along_remove:
  "along P u \<Longrightarrow> P ((u_disk u)(JournalFile := None)) \<Longrightarrow> along P (removeJournal w u)"
  "along P u \<Longrightarrow> P ((u_disk u)(NewFile := None)) \<Longrightarrow> along P (remove_new w u)"
  by (simp_all add: removeJournal_def remove_new_def along_file)

lemma along_disk: "along P u \<Longrightarrow> P (u_disk u)"
  by (simp add: along_def)

lemma writeFresh_disk:
  "writeFresh w f data u = (None, u') \<Longrightarrow> u_disk u' = (u_disk u)(f := Some data)"
  "writeFresh w f data u = (Some e, u') \<Longrightarrow> u_disk u' = u_disk u \<or> u_disk u' = (u_disk u)(f := None)"
  by (auto simp: writeFresh_def split: write_outcome.splits)

lemma writeFresh_other: "writeFresh w f data u = (r, u') \<Longrightarrow> g \<noteq> f \<Longrightarrow> u_disk u' g = u_disk u g"
  by (auto simp: writeFresh_def split: write_outcome.splits)

lemma along_writeFresh:
  assumes "writeFresh w f data u = (r, u')" "along P u" "P ((u_disk u)(f := None))"
    "P ((u_disk u)(f := Some data))"
  shows "along P u'"
  using assms by (auto simp: writeFresh_def intro!: along_file split: write_outcome.splits)

lemma finish_run_simps [simp]:
  "fst (finish_run w res u) = Finished res" "u_disk (snd (finish_run w res u)) = u_disk u"
  "along P (snd (finish_run w res u)) = along P u"
  by (simp_all add: finish_run_def)

section \<open>Only verified binaries are installed\<close>

text \<open>A run's checks pass \<open>b\<close>: signed by a trusted key, for a newer version, with the manifest's hash.\<close>

definition verified_by :: "'k upd_codec \<Rightarrow> applier \<Rightarrow> string \<Rightarrow> bool" where
  "verified_by c a b \<longleftrightarrow>
     (\<exists>raw sig m t. Verify (codec.truncate c) raw sig (ap_Trusted a) = Inr m \<and>
        Newer (mf_Version m) (ap_Running a) = Inr True \<and> map_of (mf_Targets m) (ap_Target a) = Some t \<and>
        int (length b) = b_Size (t_Binary t) \<and> sha256Hex c b = b_SHA256 (t_Binary t))"

lemma verifyStaged_ok:
  assumes "verifyStaged c a w = Inr (m, b)"
  shows "verified_by c a b \<and> w_staged w BinaryFile = Inr b"
  using assms
  by (auto simp: verifyStaged_def verified_by_def readFileIn_def Let_def split: sum.splits option.splits if_splits)

definition binaries :: "bindir \<Rightarrow> string set" where
  "binaries d = set_option (d BinFile) \<union> set_option (d NewFile) \<union> set_option (d PrevFile)"

definition within :: "string set \<Rightarrow> bindir \<Rightarrow> bool" where
  "within G d \<longleftrightarrow> binaries d \<subseteq> G"

lemma within_upd [simp]:
  "within G d \<Longrightarrow> within G (d(f := None))" "within G d \<Longrightarrow> within G (d(JournalFile := v))"
  "within G d \<Longrightarrow> b \<in> G \<Longrightarrow> within G (d(f := Some b))"
  "within G d \<Longrightarrow> f \<noteq> JournalFile \<Longrightarrow> within G (d(BinFile := d f))"
  by (cases f; auto simp: within_def binaries_def)+

lemma within_rename [simp]:
  "within G d \<Longrightarrow> f \<noteq> JournalFile \<Longrightarrow> within G (d(BinFile := d f, f := None))"
  by (cases f; auto simp: within_def binaries_def)

lemma rollback_within:
  "along (within G) u \<Longrightarrow> along (within G) (snd (rollback w res why u))"
  by (cases "w_restore w") (auto simp: rollback_def Let_def along_disk intro!: along_file along_remove)

lemma confirm_within:
  "along (within G) u \<Longrightarrow> along (within G) (snd (confirm c a w res u))"
  by (auto simp: confirm_def Let_def along_disk apfst_def map_prod_def case_prod_unfold rollback_within
      intro!: along_remove split: option.splits)

lemma install_new_within:
  assumes "along (within G) u"
  shows "along (within G) (snd (install_new c a w m bin u))"
proof -
  have fresh: "along (within G) u'" if "writeFresh w f data v = (r, u')" "along (within G) v" "f = JournalFile \<or> data \<in> G"
    for f data v r u'
    using along_writeFresh[OF that(1,2)] that(2,3) by (auto simp: along_disk)
  have prev: "b \<in> G" if "read_file w BinFile u = Some b" for b
    using assms that by (auto simp: read_file_def along_def within_def binaries_def split: if_splits)
  show ?thesis
    using assms
    by (auto simp: install_new_def Let_def along_disk prev confirm_within
        intro!: along_remove along_file confirm_within dest!: fresh split: sum.splits option.splits prod.splits)
qed

lemma install_within:
  assumes "along (within G) u" "bin \<in> G"
  shows "along (within G) (snd (install c a w m bin u))"
proof -
  obtain r v where f: "writeFresh w NewFile bin u = (r, v)" by fastforce
  have v: "along (within G) v" using along_writeFresh[OF f assms(1)] assms by (simp add: along_disk)
  obtain r' v' where i: "install_new c a w m bin v = (r', v')" by fastforce
  then have "along (within G) v'" using install_new_within[OF v, of c a w m bin] by simp
  then show ?thesis
    using v by (auto simp: install_def f i along_disk intro!: along_remove split: option.splits)
qed

lemma recover_within:
  "along (within G) u \<Longrightarrow> along (within G) (snd (recoverInterrupted c a w u))"
proof -
  assume u: "along (within G) u"
  obtain res v where r: "recover_binary c a w u = (res, v)" by fastforce
  then have "v = u \<or> v = rename_to_bin PrevFile u"
    by (auto simp: recover_binary_def Let_def split: option.splits sum.splits if_splits)
  then have "along (within G) v" using u by (auto simp: along_disk intro!: along_file)
  then show ?thesis by (auto simp: recoverInterrupted_def r along_disk intro!: along_remove)
qed

lemma apply_claimed_within:
  assumes "along (within G) u" "{b. verified_by c a b} \<subseteq> G"
  shows "along (within G) (snd (apply_claimed c a w u))"
proof (cases "verifyStaged c a w")
  case (Inr mb)
  then obtain m bin where mb: "verifyStaged c a w = Inr (m, bin)" by (cases mb) simp
  then have "bin \<in> G" using verifyStaged_ok assms(2) by blast
  note inst = install_within[OF assms(1) this, of c a w m]
  then show ?thesis
    using assms by (auto simp: apply_claimed_def mb Let_def case_prod_unfold split: sum.splits option.splits)
qed (use assms in \<open>auto simp: apply_claimed_def Let_def split: sum.splits\<close>)

lemma Apply_within:
  assumes "within G d" "{b. verified_by c a b} \<subseteq> G"
  shows "along (within G) (snd (Apply c a w d))"
proof -
  have u: "along (within G) \<lparr>u_disk = d, u_trace = [EDisk d]\<rparr>" using assms(1) by (simp add: along_def)
  then have "along (within G) (snd (apply_locked c a w \<lparr>u_disk = d, u_trace = [EDisk d]\<rparr>))"
    using recover_within[OF u, of c a w] apply_claimed_within[of G "emit EClaim \<lparr>u_disk = d, u_trace = [EDisk d]\<rparr>" c a w] assms(2)
    by (auto simp: apply_locked_def case_prod_unfold apsnd_def map_prod_def split: option.splits claim.splits)
  then show ?thesis using u
    by (auto simp: Apply_def Let_def case_prod_unfold apsnd_def map_prod_def split: option.splits)
qed

text \<open>Runs one after another, each cut after some of its effects, or not cut when there are fewer.\<close>

definition disk_after :: "nat \<Rightarrow> bindir \<Rightarrow> effect list \<Rightarrow> bindir" where
  "disk_after n d tr = foldl (\<lambda>d e. case e of EDisk d' \<Rightarrow> d' | _ \<Rightarrow> d) d (take n tr)"

fun boots :: "'k upd_codec \<Rightarrow> (applier \<times> world \<times> nat) list \<Rightarrow> bindir \<Rightarrow> bindir" where
  "boots c [] d = d"
| "boots c ((a, w, n) # rs) d = boots c rs (disk_after n d (u_trace (snd (Apply c a w d))))"

lemma disk_after_along: "along P u \<Longrightarrow> P d \<Longrightarrow> P (disk_after n d (u_trace u))"
proof -
  assume u: "along P u" and "P d"
  have "P (foldl (\<lambda>d e. case e of EDisk d' \<Rightarrow> d' | _ \<Rightarrow> d) d xs)" if "set xs \<subseteq> set (u_trace u)" for xs
    using that \<open>P d\<close>
  proof (induction xs arbitrary: d)
    case (Cons e xs)
    then show ?case using u by (cases e) (auto simp: along_def)
  qed simp
  then show ?thesis using set_take_subset[of n "u_trace u"] by (simp add: disk_after_def)
qed


section \<open>A cut never leaves an unconfirmed binary\<close>

text \<open>A run confirmed \<open>b\<close>: it installed it and the new version reported healthy.\<close>

definition confirmed_by :: "'k upd_codec \<Rightarrow> applier \<Rightarrow> world \<Rightarrow> string \<Rightarrow> bool" where
  "confirmed_by c a w b \<longleftrightarrow>
     (\<exists>m. verifyStaged c a w = Inr (m, b) \<and> awaitHealthy c a w (mf_Version m) = Some None)"

text \<open>
  What the code relies on: a journal is read back as it was written and is small, a SHA-256 is not
  empty and tells the binaries at hand apart, the root-owned files can be read and a rename over
  the installed binary succeeds.
\<close>

definition run_journal :: "'k upd_codec \<Rightarrow> applier \<Rightarrow> manifest \<Rightarrow> string \<Rightarrow> string \<Rightarrow> journal_entry" where
  "run_journal c a m prev new =
     \<lparr>j_From = ap_Running a, j_To = mf_Version m, j_PrevSHA256 = sha256Hex c prev, j_NewSHA256 = sha256Hex c new\<rparr>"

definition reads_back :: "'k upd_codec \<Rightarrow> string set \<Rightarrow> applier \<Rightarrow> world \<Rightarrow> bool" where
  "reads_back c B a w \<longleftrightarrow>
     (\<forall>prev \<in> B. \<forall>m new. verifyStaged c a w = Inr (m, new) \<longrightarrow>
        (let j = run_journal c a m prev new
         in json_journal c (journal_json c j) = Some j \<and> length (journal_json c j) \<le> maxSmallFile))"

definition tells_apart :: "'k upd_codec \<Rightarrow> string set \<Rightarrow> bool" where
  "tells_apart c B \<longleftrightarrow> inj_on (sha256Hex c) B \<and> '''' \<notin> range (sha256Hex c)"

definition benign :: "world \<Rightarrow> bool" where
  "benign w \<longleftrightarrow> w_restore w = None \<and> w_readable w BinFile \<and> w_readable w PrevFile \<and> w_readable w JournalFile"

text \<open>
  \<open>C\<close>: the confirmed binaries, \<open>B\<close>: all that may be around. Without a journal a confirmed binary is
  installed; with one, the journal names a confirmed binary that is installed or kept.
\<close>

definition recoverable :: "'k upd_codec \<Rightarrow> string set \<Rightarrow> string \<Rightarrow> string \<Rightarrow> bindir \<Rightarrow> bool" where
  "recoverable c B j prev d \<longleftrightarrow>
     (\<exists>e. json_journal c j = Some e \<and> length j \<le> maxSmallFile \<and> j_PrevSHA256 e = sha256Hex c prev \<and>
        (d BinFile = Some prev \<or>
         (\<exists>new \<in> B. j_NewSHA256 e = sha256Hex c new \<and> d BinFile = Some new \<and> d PrevFile = Some prev)) \<and>
        j_NewSHA256 e \<noteq> '''')"

definition safe :: "'k upd_codec \<Rightarrow> string set \<Rightarrow> string set \<Rightarrow> bindir \<Rightarrow> bool" where [inv_defs]:
  "safe c C B d \<longleftrightarrow> C \<subseteq> B \<and>
     (case d JournalFile of
        None \<Rightarrow> (\<exists>b \<in> C. d BinFile = Some b)
      | Some j \<Rightarrow> (\<exists>prev \<in> C. recoverable c B j prev d))"

lemma safe_files [simp]:
  "safe c C B (d(NewFile := v)) = safe c C B d"
  "d JournalFile = None \<Longrightarrow> safe c C B (d(PrevFile := v)) = safe c C B d"
  by (simp_all add: safe_def recoverable_def split: option.split)

lemma safe_mono: "safe c C B d \<Longrightarrow> C \<subseteq> C' \<Longrightarrow> C' \<subseteq> B' \<Longrightarrow> B \<subseteq> B' \<Longrightarrow> safe c C' B' d"
  by (auto simp: safe_def recoverable_def split: option.splits) blast+

lemma safe_confirmed: "C \<subseteq> B \<Longrightarrow> b \<in> C \<Longrightarrow> d BinFile = Some b \<Longrightarrow> safe c C B (d(JournalFile := None))"
  by (simp add: safe_def)

text \<open>From the swap on: the kept copy is the confirmed one, the journal names it.\<close>

definition swapped :: "'k upd_codec \<Rightarrow> string set \<Rightarrow> string set \<Rightarrow> string \<Rightarrow> string \<Rightarrow> bindir \<Rightarrow> bool" where
  "swapped c C B prev new d \<longleftrightarrow> safe c C B d \<and> prev \<in> C \<and> d BinFile = Some new \<and> d PrevFile = Some prev \<and>
     (\<exists>j e. d JournalFile = Some j \<and> json_journal c j = Some e \<and> length j \<le> maxSmallFile \<and>
        j_PrevSHA256 e = sha256Hex c prev \<and> j_NewSHA256 e \<noteq> '''')"

lemma swapped_restore:
  "swapped c C B prev new d \<Longrightarrow> safe c C B (d(BinFile := d PrevFile, PrevFile := None))"
  unfolding swapped_def safe_def by (auto simp: recoverable_def intro!: bexI[of _ prev])

lemma rollback_safe:
  assumes "along (safe c C B) u" "swapped c C B prev new (u_disk u)" "w_restore w = None"
  shows "along (safe c C B) (snd (rollback w res why u))"
proof -
  let ?v = "rename_to_bin PrevFile u"
  have v: "along (safe c C B) ?v" using along_file(2)[OF assms(1)] swapped_restore[OF assms(2)] by blast
  have "safe c C B ((u_disk ?v)(JournalFile := None))"
    using assms(2) by (intro safe_confirmed[of _ _ prev]) (auto simp: swapped_def safe_def)
  then have "along (safe c C B) (removeJournal w ?v)" by (rule along_remove(1)[OF v])
  then show ?thesis by (simp add: rollback_def assms(3) Let_def)
qed

lemma confirm_safe:
  assumes "along (safe c C B) u" "swapped c C B prev new (u_disk u)" "w_restore w = None"
    "awaitHealthy c a w (rs_To res) = Some None \<Longrightarrow> new \<in> C"
  shows "along (safe c C B) (snd (confirm c a w res u))"
proof -
  let ?u = "emit ERestart u"
  have u: "along (safe c C B) ?u" "swapped c C B prev new (u_disk ?u)" using assms(1,2) by simp_all
  note restored = rollback_safe[OF u assms(3)]
  have "along (safe c C B) (removeJournal w ?u)" if "awaitHealthy c a w (rs_To res) = Some None"
  proof (rule along_remove(1)[OF u(1)])
    show "safe c C B ((u_disk ?u)(JournalFile := None))"
      using assms(2) assms(4)[OF that] by (intro safe_confirmed[of _ _ new]) (auto simp: swapped_def safe_def)
  qed
  then show ?thesis using u(1) restored
    by (auto simp: confirm_def Let_def apfst_def map_prod_def case_prod_unfold split: option.split)
qed

lemma journal_recoverable:
  assumes "reads_back c B a w" "tells_apart c B" "verifyStaged c a w = Inr (m, new)" "prev \<in> B"
  shows "\<exists>e. json_journal c (journal_json c (run_journal c a m prev new)) = Some e \<and>
      j_PrevSHA256 e = sha256Hex c prev \<and> j_NewSHA256 e = sha256Hex c new \<and> j_NewSHA256 e \<noteq> ''''"
    "length (journal_json c (run_journal c a m prev new)) \<le> maxSmallFile"
proof -
  have "sha256Hex c new \<noteq> ''''" using assms(2) rangeI[of "sha256Hex c" new] by (metis tells_apart_def)
  moreover have "json_journal c (journal_json c (run_journal c a m prev new)) = Some (run_journal c a m prev new)"
    "length (journal_json c (run_journal c a m prev new)) \<le> maxSmallFile"
    using assms(1,3,4) unfolding reads_back_def Let_def by blast+
  ultimately show "\<exists>e. json_journal c (journal_json c (run_journal c a m prev new)) = Some e \<and>
      j_PrevSHA256 e = sha256Hex c prev \<and> j_NewSHA256 e = sha256Hex c new \<and> j_NewSHA256 e \<noteq> ''''"
    "length (journal_json c (run_journal c a m prev new)) \<le> maxSmallFile"
    by (simp_all add: run_journal_def)
qed

lemma install_new_safe:
  assumes u: "along (safe c C B) u" "u_disk u JournalFile = None" "u_disk u NewFile = Some bin"
    and c: "reads_back c B a w" "tells_apart c B" "verifyStaged c a w = Inr (m, bin)" and "benign w" "bin \<in> B"
    and conf: "awaitHealthy c a w (mf_Version m) = Some None \<Longrightarrow> bin \<in> C"
  shows "along (safe c C B) (snd (install_new c a w m bin u))"
proof (cases "read_file w BinFile u")
  case None
  then show ?thesis using u(1) by (auto simp: install_new_def Let_def split: sum.split)
next
  case (Some prev)
  let ?j = "journal_json c (run_journal c a m prev bin)"
  have d: "u_disk u BinFile = Some prev" "safe c C B (u_disk u)"
    using Some u(1) by (auto simp: read_file_def along_disk split: if_splits)
  then have prev: "prev \<in> C" "C \<subseteq> B" using u(2) by (auto simp: safe_def)
  obtain r1 u1 where 1: "writeFresh w PrevFile prev u = (r1, u1)" by fastforce
  have s1: "along (safe c C B) u1" using along_writeFresh[OF 1 u(1)] d(2) u(2) by simp
  show ?thesis
  proof (cases r1)
    case (Some e)
    then show ?thesis using u(1) s1 by (auto simp: install_new_def Let_def \<open>read_file w BinFile u = Some prev\<close> 1 split: sum.split)
  next
    case None
    then have d1: "u_disk u1 = (u_disk u)(PrevFile := Some prev)" using writeFresh_disk(1) 1 by blast
    obtain r2 u2 where 2: "writeFresh w JournalFile ?j u1 = (r2, u2)" by fastforce
    obtain e where e: "json_journal c ?j = Some e" "j_PrevSHA256 e = sha256Hex c prev"
        "j_NewSHA256 e = sha256Hex c bin" "j_NewSHA256 e \<noteq> ''''"
      using journal_recoverable(1)[OF c] prev by blast
    have len: "length ?j \<le> maxSmallFile" using journal_recoverable(2)[OF c] prev by blast
    have js: "safe c C B ((u_disk u1)(JournalFile := Some ?j))"
      using prev d e len by (auto simp: safe_def recoverable_def d1 intro!: bexI[of _ prev])
    have jn: "safe c C B ((u_disk u1)(JournalFile := None))"
      using prev d by (auto simp: safe_def d1)
    have s2: "along (safe c C B) u2" by (rule along_writeFresh[OF 2 s1 jn js])
    show ?thesis
    proof (cases r2)
      case (Some e')
      then show ?thesis using u(1) s2
        by (auto simp: install_new_def Let_def \<open>read_file w BinFile u = Some prev\<close> 1 None run_journal_def[symmetric] 2
            split: sum.split)
    next
      case none2: None
      let ?h = "emit ERemoveHealth u2"
      have d2: "u_disk u2 = (u_disk u)(PrevFile := Some prev, JournalFile := Some ?j)"
        using writeFresh_disk(1)[of w JournalFile ?j u1 u2] 2 none2 d1 by simp
      let ?d = "(u_disk u)(PrevFile := Some prev, JournalFile := Some ?j, BinFile := Some bin, NewFile := None)"
      have d3: "u_disk (rename_to_bin NewFile ?h) = ?d" using u(3) by (simp add: d2 fun_upd_def fun_eq_iff)
      have "recoverable c B ?j prev ?d"
        unfolding recoverable_def using e len \<open>bin \<in> B\<close> by (intro exI[of _ e]) auto
      then have "safe c C B ?d" using prev by (auto simp: safe_def)
      then have sw: "swapped c C B prev bin (u_disk (rename_to_bin NewFile ?h))"
        unfolding swapped_def d3 using prev(1) e len by auto
      then have s3: "along (safe c C B) (rename_to_bin NewFile ?h)"
        using s2 along_file(2)[of "safe c C B" ?h NewFile] by (simp only: swapped_def disk_simps along_emit)
      have "along (safe c C B) (removeJournal w ?h)"
        using s2 prev d(1) d2 by (intro along_remove(1) safe_confirmed[of _ _ prev]) simp_all
      moreover have "along (safe c C B) (snd (confirm c a w \<lparr>rs_Outcome = OutcomeFailed, rs_From = ap_Running a,
          rs_To = mf_Version m, rs_Installed = mf_Version m, rs_Reason = [], rs_written = False\<rparr> (rename_to_bin NewFile ?h)))"
        using conf \<open>benign w\<close> by (intro confirm_safe[OF s3 sw]) (simp_all add: benign_def)
      ultimately show ?thesis using u(1)
        by (auto simp: install_new_def Let_def \<open>read_file w BinFile u = Some prev\<close> 1 None run_journal_def[symmetric] 2 none2
            split: sum.split option.split)
    qed
  qed
qed

lemma install_safe:
  assumes u: "along (safe c C B) u" "u_disk u JournalFile = None"
    and rest: "reads_back c B a w" "tells_apart c B" "verifyStaged c a w = Inr (m, bin)" "benign w" "bin \<in> B"
      "awaitHealthy c a w (mf_Version m) = Some None \<Longrightarrow> bin \<in> C"
  shows "along (safe c C B) (snd (install c a w m bin u))"
proof -
  obtain r v where f: "writeFresh w NewFile bin u = (r, v)" by fastforce
  have v: "along (safe c C B) v" using along_writeFresh[OF f u(1)] along_disk[OF u(1)] by simp
  show ?thesis
  proof (cases r)
    case None
    then have "u_disk v = (u_disk u)(NewFile := Some bin)" using f writeFresh_disk(1) by blast
    then have "along (safe c C B) (snd (install_new c a w m bin v))"
      using v u(2) rest by (intro install_new_safe) simp_all
    then show ?thesis
      by (auto simp: install_def f None case_prod_unfold along_disk intro!: along_remove split: option.split)
  qed (use v in \<open>simp add: install_def f\<close>)
qed

text \<open>The recovery of a cut run: the confirmed binary goes back.\<close>

lemma recover_safe:
  assumes u: "along (safe c C B) u" "u_disk u JournalFile = Some j"
    and "tells_apart c B" "benign w"
  shows "along (safe c C B) (snd (recoverInterrupted c a w u)) \<and>
    (\<exists>b \<in> C. u_disk (snd (recoverInterrupted c a w u)) BinFile = Some b) \<and>
    rs_Outcome (fst (recoverInterrupted c a w u)) = OutcomeRolledBack"
proof -
  obtain prev where prev: "prev \<in> C" "C \<subseteq> B" "recoverable c B j prev (u_disk u)"
    using along_disk[OF u(1)] u(2) by (auto simp: safe_def)
  then obtain e where e: "json_journal c j = Some e" "length j \<le> maxSmallFile" "j_PrevSHA256 e = sha256Hex c prev"
      "j_NewSHA256 e \<noteq> ''''" and at: "u_disk u BinFile = Some prev \<or> (\<exists>new \<in> B. j_NewSHA256 e = sha256Hex c new \<and>
        u_disk u BinFile = Some new \<and> u_disk u PrevFile = Some prev)"
    unfolding recoverable_def by blast
  have hash: "j_PrevSHA256 e \<noteq> ''''" "\<And>x. x \<in> B \<Longrightarrow> sha256Hex c x = j_PrevSHA256 e \<longleftrightarrow> x = prev"
    using assms(3) prev e(3) rangeI[of "sha256Hex c" prev] unfolding tells_apart_def
    by metis (use assms(3) prev e(3) in \<open>auto simp: tells_apart_def dest: inj_onD\<close>)
  have read: "read_file w f u = u_disk u f" if "f \<noteq> NewFile" for f
    using assms(4) that by (cases f) (auto simp: read_file_def benign_def)
  have dec: "decodeSmall (json_journal c) ''journal'' j = Inr e" using e by (simp add: decodeSmall_def)
  obtain res v where r: "recover_binary c a w u = (res, v)" by fastforce
  have v: "u_disk v BinFile = Some prev \<and> (v = u \<or> v = rename_to_bin PrevFile u) \<and> rs_Outcome res = OutcomeRolledBack"
  proof (cases "u_disk u BinFile = Some prev")
    case True
    then show ?thesis using r e u(2) hash(1) dec
      by (auto simp: recover_binary_def Let_def read fileSHA256_def)
  next
    case False
    with at obtain new where new: "new \<in> B" "j_NewSHA256 e = sha256Hex c new" "u_disk u BinFile = Some new"
        "u_disk u PrevFile = Some prev" by blast
    then have "sha256Hex c new \<noteq> j_PrevSHA256 e" using hash(2) False by auto
    then show ?thesis using r e u(2) hash(1) dec new assms(4)
      by (auto simp: recover_binary_def Let_def read fileSHA256_def benign_def)
  qed
  then have sv: "safe c C B (u_disk v)"
  proof (cases "v = u")
    case False
    then have "v = rename_to_bin PrevFile u" using v by blast
    with v e prev u(2) show ?thesis by (auto simp: safe_def recoverable_def intro!: bexI[of _ prev])
  qed (use u(1) along_disk in simp)
  have av: "along (safe c C B) v"
  proof (cases "v = u")
    case False
    then have "v = rename_to_bin PrevFile u" using v by blast
    with sv u(1) show ?thesis by (simp only: disk_simps) (rule along_file(2))
  qed (use u(1) in simp)
  let ?v = "removeJournal w (remove_new w v)"
  have 1: "along (safe c C B) (remove_new w v)" using av sv by (intro along_remove(2)) simp_all
  have "along (safe c C B) ?v"
    using 1 prev v by (intro along_remove(1) safe_confirmed[of _ _ prev]) simp_all
  moreover have "u_disk ?v BinFile = Some prev" using v by simp
  ultimately show ?thesis using prev(1) v by (auto simp: recoverInterrupted_def r)
qed

lemma Apply_safe:
  assumes "safe c C B d" "reads_back c B a w" "tells_apart c B" "benign w"
    "{b. w_staged w BinaryFile = Inr b} \<subseteq> B" "{b. confirmed_by c a w b} \<subseteq> C"
  shows "along (safe c C B) (snd (Apply c a w d))"
proof -
  let ?u = "\<lparr>u_disk = d, u_trace = [EDisk d]\<rparr>"
  have u: "along (safe c C B) ?u" using assms(1) by (simp add: along_def)
  have claimed: "along (safe c C B) (snd (apply_claimed c a w (emit EClaim ?u)))" if none: "d JournalFile = None"
  proof (cases "verifyStaged c a w")
    case (Inr mb)
    then obtain m bin where mb: "verifyStaged c a w = Inr (m, bin)" by (cases mb) simp
    then have "bin \<in> B" using verifyStaged_ok assms(5) by blast
    moreover have "bin \<in> C" if "awaitHealthy c a w (mf_Version m) = Some None"
      using that mb assms(6) by (auto simp: confirmed_by_def)
    ultimately have "along (safe c C B) (snd (install c a w m bin (emit EClaim ?u)))"
      using u none assms(2-4) mb by (intro install_safe) simp_all
    then show ?thesis using u
      by (auto simp: apply_claimed_def mb Let_def case_prod_unfold split: sum.split option.split)
  qed (use u in \<open>auto simp: apply_claimed_def Let_def split: sum.split\<close>)
  have "along (safe c C B) (snd (apply_locked c a w ?u))"
  proof (cases "d JournalFile")
    case None
    then show ?thesis using u claimed
      by (auto simp: apply_locked_def apsnd_def map_prod_def case_prod_unfold split: option.split claim.split)
  next
    case (Some j)
    then show ?thesis using recover_safe[OF u, of j w a] assms(3,4)
      by (simp add: apply_locked_def apsnd_def map_prod_def case_prod_unfold)
  qed
  then show ?thesis using u
    by (auto simp: Apply_def Let_def case_prod_unfold apsnd_def map_prod_def split: option.splits)
qed

lemma boots_safe:
  "safe c C B d \<Longrightarrow> tells_apart c B \<Longrightarrow> list_all (\<lambda>(a, w, n). benign w \<and> reads_back c B a w) rs \<Longrightarrow>
    {b. \<exists>(a, w, n) \<in> set rs. w_staged w BinaryFile = Inr b} \<subseteq> B \<Longrightarrow>
    {b. \<exists>(a, w, n) \<in> set rs. confirmed_by c a w b} \<subseteq> C \<Longrightarrow> safe c C B (boots c rs d)"
proof (induction rs arbitrary: d)
  case (Cons r rs)
  obtain a w n where r: "r = (a, w, n)" by (cases r)
  have "along (safe c C B) (snd (Apply c a w d))"
    using Cons.prems by (intro Apply_safe) (auto simp: r)
  then have "safe c C B (disk_after n d (u_trace (snd (Apply c a w d))))"
    using Cons.prems(1) by (rule disk_after_along)
  then show ?case using Cons.IH Cons.prems by (simp add: r) blast
qed simp

lemma recovery_removes_journal:
  assumes "w_rmJournal w" "w_checkBin w = None" "w_lock w = None" "d JournalFile \<noteq> None"
  shows "u_disk (snd (Apply c a w d)) JournalFile = None"
  using assms by (simp add: Apply_def Let_def apply_locked_def recoverInterrupted_def case_prod_unfold
      apsnd_def map_prod_def)


section \<open>The result names what is installed\<close>

definition statuses :: "run \<Rightarrow> result list" where
  "statuses u = concat (map (\<lambda>e. case e of EStatus r \<Rightarrow> [r\<lparr>rs_written := True\<rparr>] | _ \<Rightarrow> []) (u_trace u))"

text \<open>The installed binary reports version \<open>v\<close>.\<close>

definition names :: "world \<Rightarrow> bindir \<Rightarrow> string \<Rightarrow> bool" where
  "names w d v \<longleftrightarrow>
     (\<exists>b out. d BinFile = Some b \<and> w_Version w b = Inr out \<and> first_line out = version_line v)"

lemma statuses_simps [simp]:
  "statuses (emit ERestart u) = statuses u" "statuses (emit (EStatus r) u) = statuses u @ [r\<lparr>rs_written := True\<rparr>]"
  "statuses (emit ERemoveHealth u) = statuses u" "statuses (emit ERemoveRequest u) = statuses u"
  "statuses (emit EClaim u) = statuses u" "statuses (emit ERemoveTaken u) = statuses u"
  "statuses (emit ERemoveStaged u) = statuses u" "statuses (put_disk d u) = statuses u"
  "statuses (put_file f v u) = statuses u" "statuses (rename_to_bin f u) = statuses u"
  "statuses (removeJournal w u) = statuses u" "statuses (remove_new w u) = statuses u"
  "statuses (remove_request w u) = statuses u" "statuses (remove_taken w u) = statuses u"
  by (simp_all add: statuses_def emit_def put_disk_def put_file_def rename_to_bin_def removeJournal_def
      remove_new_def remove_request_def remove_taken_def)

lemma writeFresh_statuses: "writeFresh w f data u = (r, u') \<Longrightarrow> statuses u' = statuses u"
  by (auto simp: writeFresh_def split: write_outcome.splits)

definition the_status :: "world \<Rightarrow> result \<Rightarrow> result list" where
  "the_status w res = (if w_root w \<and> w_status w then [res\<lparr>rs_written := True\<rparr>] else [])"

lemma writeResult_statuses: "statuses (writeResult w r u) = statuses u @ the_status w r"
  by (simp add: writeResult_def the_status_def)

text \<open>An outcome with its status written, or still to be written.\<close>

definition told :: "world \<Rightarrow> result \<Rightarrow> run \<Rightarrow> bool" where
  "told w res u \<longleftrightarrow> names w (u_disk u) (rs_Installed res) \<and>
     statuses u = (if rs_written res then the_status w res else [])"

lemma told_cong:
  "told w res u \<Longrightarrow> u_disk u' BinFile = u_disk u BinFile \<Longrightarrow> statuses u' = statuses u \<Longrightarrow> told w res u'"
  by (simp add: told_def names_def)

lemma told_finish:
  "told w res u \<Longrightarrow> finish_run w res u = (r, u') \<Longrightarrow>
     r = Finished res \<and> names w (u_disk u') (rs_Installed res) \<and> statuses u' = the_status w res"
  by (auto simp: told_def finish_run_def writeResult_statuses)

lemma rollback_told:
  assumes "rollback w res why u = (res', u')" "names w (u_disk u) (rs_Installed res)" "\<not> rs_written res"
    "names w ((u_disk u)(BinFile := u_disk u PrevFile)) (rs_From res)" "statuses u = []"
  shows "told w res' u'"
  using assms
  by (cases "w_restore w") (auto simp: rollback_def Let_def told_def names_def writeResult_statuses the_status_def)

lemma confirm_told:
  assumes "confirm c a w res u = (Some res', u')" "names w (u_disk u) (rs_Installed res)" "\<not> rs_written res"
    "names w ((u_disk u)(BinFile := u_disk u PrevFile)) (rs_From res)" "statuses u = []"
  shows "told w res' u'"
proof -
  have "told w r v" if "rollback w res why (emit ERestart u) = (r, v)" for why r v
    by (rule rollback_told[OF that]) (use assms(2-5) in simp_all)
  moreover have "told w (res\<lparr>rs_Outcome := OutcomeUpdated\<rparr>) (removeJournal w (emit ERestart u))"
    using assms(2,3,5) by (simp add: told_def names_def)
  ultimately show ?thesis using assms(1)
    by (auto simp: confirm_def Let_def apfst_def map_prod_def split: option.splits prod.splits)
qed

lemma failed_told: "names w (u_disk u) running \<Longrightarrow> statuses u = [] \<Longrightarrow> told w (failed running v running why) u"
  by (simp add: told_def failed_def)

lemma install_new_early:
  "(\<exists>why. install_new c a w m bin u = (Some (failed (ap_Running a) (mf_Version m) (ap_Running a) why), u)) \<or>
   (\<exists>out prev. run_version w NewFile u = Inr out \<and> first_line out = version_line (mf_Version m) \<and>
      read_file w BinFile u = Some prev \<and> \<not> w_stopped2 w)"
proof (cases "w_stopped2 w")
  case True
  then show ?thesis by (intro disjI1 exI[of _ Stopped]) (simp add: install_new_def Let_def)
next
  case False
  show ?thesis
  proof (cases "run_version w NewFile u")
    case (Inl e)
    then show ?thesis using False by (intro disjI1 exI[of _ "DoesNotRun e"]) (simp add: install_new_def Let_def)
  next
    case (Inr out)
    show ?thesis
    proof (cases "first_line out = version_line (mf_Version m)")
      case False
      then show ?thesis using Inr \<open>\<not> w_stopped2 w\<close>
        by (intro disjI1 exI[of _ "Reports (first_line out) (version_line (mf_Version m))"])
          (simp add: install_new_def Let_def)
    next
      case True
      show ?thesis
      proof (cases "read_file w BinFile u")
        case None
        then show ?thesis using True Inr False
          by (intro disjI1 exI[of _ ReadInstalled]) (simp add: install_new_def Let_def)
      qed (use True Inr False in blast)
    qed
  qed
qed

lemma install_new_told:
  assumes u: "names w (u_disk u) (ap_Running a)" "statuses u = []"
    and i: "install_new c a w m bin u = (Some res, u')"
  shows "told w res u'"
proof -
  have fail: "told w (failed (ap_Running a) (mf_Version m) (ap_Running a) why) v"
    if "u_disk v BinFile = u_disk u BinFile" "statuses v = []" for why v
    using that u(1) by (intro failed_told) (simp_all add: names_def)
  consider (early) why where "install_new c a w m bin u = (Some (failed (ap_Running a) (mf_Version m) (ap_Running a) why), u)"
    | (late) out prev where "run_version w NewFile u = Inr out" "first_line out = version_line (mf_Version m)"
        "read_file w BinFile u = Some prev" "\<not> w_stopped2 w"
    using install_new_early by metis
  then show ?thesis
  proof cases
    case early
    then show ?thesis using fail[of u] u(2) i by auto
  next
    case late
    let ?j = "journal_json c (run_journal c a m prev bin)"
    obtain r1 u1 where 1: "writeFresh w PrevFile prev u = (r1, u1)" by fastforce
    obtain r2 u2 where 2: "writeFresh w JournalFile ?j u1 = (r2, u2)" by fastforce
    have s: "statuses u1 = []" "statuses u2 = []" using writeFresh_statuses[OF 1] writeFresh_statuses[OF 2] u(2) by simp_all
    have bin: "u_disk u1 BinFile = u_disk u BinFile" "u_disk u2 BinFile = u_disk u BinFile"
      using writeFresh_other[OF 1] writeFresh_other[OF 2] by simp_all
    show ?thesis
    proof (cases "r1 = None \<and> r2 = None \<and> w_swap w = None")
      case False
      then consider (r1) e where "r1 = Some e" | (r2) e where "r1 = None" "r2 = Some e"
        | (swap) e where "r1 = None" "r2 = None" "w_swap w = Some e" by fastforce
      then show ?thesis
      proof cases
        case r1
        with i late have "res = failed (ap_Running a) (mf_Version m) (ap_Running a) (KeepInstalled e)" "u' = u1"
          by (simp_all add: install_new_def Let_def 1)
        then show ?thesis using fail[of u1] bin s by simp
      next
        case r2
        with i late have "res = failed (ap_Running a) (mf_Version m) (ap_Running a) (WriteJournal e)" "u' = u2"
          by (simp_all add: install_new_def Let_def 1 run_journal_def[symmetric] 2)
        then show ?thesis using fail[of u2] bin s by simp
      next
        case swap
        with i late have "res = failed (ap_Running a) (mf_Version m) (ap_Running a) (InstallNew e)"
            "u' = removeJournal w (emit ERemoveHealth u2)"
          by (simp_all add: install_new_def Let_def 1 run_journal_def[symmetric] 2)
        then show ?thesis using fail[of u'] bin s by simp
      qed
    next
      case True
      let ?r = "\<lparr>rs_Outcome = OutcomeFailed, rs_From = ap_Running a, rs_To = mf_Version m,
        rs_Installed = mf_Version m, rs_Reason = [], rs_written = False\<rparr>"
      let ?s = "rename_to_bin NewFile (emit ERemoveHealth u2)"
      have conf: "confirm c a w ?r ?s = (Some res, u')"
        using i late True by (simp add: install_new_def Let_def 1 run_journal_def[symmetric] 2)
      have "u_disk u1 PrevFile = Some prev" using writeFresh_disk(1)[of w PrevFile prev u u1] 1 True by simp
      then have files: "u_disk u2 NewFile = u_disk u NewFile" "u_disk u2 PrevFile = Some prev"
        using writeFresh_other[OF 1] writeFresh_other[OF 2] by simp_all
      show ?thesis
      proof (rule confirm_told[OF conf])
        show "names w (u_disk ?s) (rs_Installed ?r)"
          using late files by (auto simp: names_def run_version_def split: option.splits)
        show "names w ((u_disk ?s)(BinFile := u_disk ?s PrevFile)) (rs_From ?r)"
          using u(1) late(3) files by (auto simp: names_def read_file_def split: if_splits)
      qed (use s in simp_all)
    qed
  qed
qed

lemma install_told:
  assumes "names w (u_disk u) (ap_Running a)" "statuses u = []" "install c a w m bin u = (Some res, u')"
  shows "told w res u'"
proof -
  obtain r v where f: "writeFresh w NewFile bin u = (r, v)" by fastforce
  have v: "u_disk v BinFile = u_disk u BinFile" "statuses v = []"
    using writeFresh_other[OF f] writeFresh_statuses[OF f] assms(2) by simp_all
  then have n: "names w (u_disk v) (ap_Running a)" using assms(1) by (simp add: names_def)
  show ?thesis
  proof (cases r)
    case None
    obtain r' v' where i: "install_new c a w m bin v = (r', v')" by fastforce
    with assms(3) None have "r' = Some res" "u' = remove_new w v'" by (auto simp: install_def f split: option.splits)
    moreover from this have "told w res v'" using i by (intro install_new_told[OF n v(2)]) simp
    ultimately show ?thesis using told_cong[of w res v' "remove_new w v'"] by simp
  next
    case (Some e)
    then show ?thesis using assms(3) n v failed_told by (auto simp: install_def f)
  qed
qed

lemma apply_claimed_cases:
  "(\<exists>v why. apply_claimed c a w u = finish_run w (failed (ap_Running a) v (ap_Running a) why) u) \<or>
   (\<exists>m bin. apply_claimed c a w u =
      (case install c a w m bin u of
         (None, u) \<Rightarrow> (StillWaiting, u)
       | (Some res, u) \<Rightarrow>
           finish_run w res (if rs_Outcome res = OutcomeUpdated then emit ERemoveStaged u else u)))"
proof (cases "readFileIn w TakenFile maxSmallFile")
  case (Inr b)
  note taken = this
  show ?thesis
  proof (cases "decodeSmall (json_request c) ''request.json'' b")
    case (Inr v)
    then show ?thesis using taken by (cases "verifyStaged c a w") (auto simp: apply_claimed_def)
  qed (use taken in \<open>auto simp: apply_claimed_def\<close>)
qed (auto simp: apply_claimed_def)

lemma apply_claimed_told:
  assumes "names w (u_disk u) (ap_Running a)" "statuses u = []" "apply_claimed c a w u = (Finished res, u')"
  shows "names w (u_disk u') (rs_Installed res) \<and> statuses u' = the_status w res"
  using apply_claimed_cases[of c a w u]
proof (elim disjE exE)
  fix v why assume "apply_claimed c a w u = finish_run w (failed (ap_Running a) v (ap_Running a) why) u"
  then have "finish_run w (failed (ap_Running a) v (ap_Running a) why) u = (Finished res, u')" using assms(3) by simp
  from told_finish[OF failed_told[OF assms(1,2)] this] show ?thesis by simp
next
  fix m bin assume i: "apply_claimed c a w u =
      (case install c a w m bin u of
         (None, u) \<Rightarrow> (StillWaiting, u)
       | (Some res, u) \<Rightarrow>
           finish_run w res (if rs_Outcome res = OutcomeUpdated then emit ERemoveStaged u else u))"
  obtain r v where inst: "install c a w m bin u = (r, v)" by fastforce
  then obtain res' where r: "r = Some res'" using assms(3) i by (cases r) auto
  then have "told w res' v" using install_told[OF assms(1,2)] inst by simp
  then have "told w res' (if rs_Outcome res' = OutcomeUpdated then emit ERemoveStaged v else v)"
    by (auto intro: told_cong)
  note fin = told_finish[OF this]
  have "finish_run w res' (if rs_Outcome res' = OutcomeUpdated then emit ERemoveStaged v else v) = (Finished res, u')"
    using assms(3) unfolding i inst r by simp
  from fin[OF this] show ?thesis by simp
qed


section \<open>The health wait\<close>

text \<open>A look that shows process \<open>pid\<close> up on the version, and one that shows nothing at all.\<close>

definition looks_up :: "'k upd_codec \<Rightarrow> string \<Rightarrow> int \<Rightarrow> health_poll \<Rightarrow> bool" where
  "looks_up c version pid p \<longleftrightarrow>
     (\<exists>b h. hp_file p = Some b \<and> length b \<le> maxSmallFile \<and> json_health c b = Some h \<and>
        hl_Version h = version \<and> hp_pid p = Inr pid \<and> hl_PID h = pid \<and> pid \<noteq> 0)"

definition looks_blank :: "health_poll \<Rightarrow> bool" where
  "looks_blank p \<longleftrightarrow> (case hp_file p of None \<Rightarrow> True | Some b \<Rightarrow> length b > maxSmallFile)"

text \<open>The process \<open>pid\<close> is up from \<open>since\<close> to the end of \<open>ps\<close>, at least \<open>settle\<close> later.\<close>

definition settled :: "'k upd_codec \<Rightarrow> string \<Rightarrow> duration \<Rightarrow> int \<Rightarrow> instant \<Rightarrow> health_poll list \<Rightarrow> bool" where
  "settled c version settle pid since ps \<longleftrightarrow>
     (\<exists>mid q post. ps = mid @ q # post \<and> looks_up c version pid q \<and> settle \<le> time_sub (hp_now q) since \<and>
        (\<forall>r \<in> set mid. looks_blank r \<or> looks_up c version pid r))"

lemma settled_Cons:
  "settled c version settle pid since ps \<Longrightarrow> looks_blank p \<or> looks_up c version pid p \<Longrightarrow>
     settled c version settle pid since (p # ps)"
  unfolding settled_def by (metis append_Cons set_ConsD)

lemma health_look_cases:
  assumes "health_look c version settle p s = (healthy, s')"
  obtains (blank) "looks_blank p" "\<not> healthy" "s' = s"
  | (lost) "\<not> healthy" "wt_candidate s' = 0"
  | (fresh) pid where "looks_up c version pid p" "\<not> healthy" "wt_candidate s' = pid" "wt_since s' = hp_now p"
  | (same) "looks_up c version (wt_candidate s) p" "s' = s" "healthy \<longleftrightarrow> settle \<le> time_sub (hp_now p) (wt_since s)"
proof (cases "looks_blank p")
  case True
  then have "healthy = False" "s' = s" using assms by (auto simp: health_look_def looks_blank_def split: option.splits)
  with True show thesis by (intro blank) simp_all
next
  case False
  then obtain b where b: "hp_file p = Some b" "length b \<le> maxSmallFile"
    by (auto simp: looks_blank_def split: option.splits)
  note look = assms[unfolded health_look_def b(1) option.case]
  have lost': thesis if "healthy = False" "wt_candidate s' = 0" using that lost by simp
  show thesis
  proof (cases "json_health c b")
    case None
    then show thesis using look b(2) by (intro lost') auto
  next
    case (Some h)
    note h = this
    show thesis
    proof (cases "\<exists>pid. hl_Version h = version \<and> hp_pid p = Inr pid \<and> pid \<noteq> 0 \<and> hl_PID h = pid")
      case False
      then have "healthy = False" "wt_candidate s' = 0"
        using look b(2) h by (auto split: sum.splits if_splits)
      then show thesis by (rule lost')
    next
      case True
      then obtain pid where pid: "hl_Version h = version" "hp_pid p = Inr pid" "pid \<noteq> 0" "hl_PID h = pid" by blast
      then have up: "looks_up c version pid p" using b h by (auto simp: looks_up_def)
      show thesis
      proof (cases "wt_candidate s = pid")
        case True
        then have "s' = s" "healthy \<longleftrightarrow> settle \<le> time_sub (hp_now p) (wt_since s)"
          using look b(2) h pid by auto
        with up True show thesis by (intro same) simp_all
      next
        case False
        then have "\<not> healthy" "wt_candidate s' = pid" "wt_since s' = hp_now p"
          using look b(2) h pid by auto
        with up show thesis by (rule fresh)
      qed
    qed
  qed
qed

lemma await_polls_sound:
  "await_polls c version settle deadline s ps = Some None \<Longrightarrow>
     wt_candidate s \<noteq> 0 \<and> settled c version settle (wt_candidate s) (wt_since s) ps \<or>
     (\<exists>pre p rest pid. ps = pre @ p # rest \<and> looks_up c version pid p \<and>
        settled c version settle pid (hp_now p) rest)"
proof (induction ps arbitrary: s)
  case (Cons p ps)
  obtain healthy s' where look: "health_look c version settle p s = (healthy, s')" by fastforce
  have later: "\<exists>pre q rest pid. p # ps = pre @ q # rest \<and> looks_up c version pid q \<and>
      settled c version settle pid (hp_now q) rest"
    if "\<exists>pre q rest pid. ps = pre @ q # rest \<and> looks_up c version pid q \<and> settled c version settle pid (hp_now q) rest"
    using that by (metis append_Cons)
  show ?case
  proof (cases healthy)
    case True
    from look have "looks_up c version (wt_candidate s) p" "settle \<le> time_sub (hp_now p) (wt_since s)"
      by (rule health_look_cases; use True in simp)+
    then show ?thesis by (auto simp: settled_def looks_up_def intro: exI[of _ "[]"])
  next
    case False
    then have "await_polls c version settle deadline s' ps = Some None"
      using Cons.prems look by (auto split: if_splits)
    note IH = Cons.IH[OF this]
    from look show ?thesis
    proof (cases rule: health_look_cases)
      case blank
      then show ?thesis using IH later settled_Cons by metis
    next
      case lost
      then show ?thesis using IH later by auto
    next
      case (fresh pid)
      then show ?thesis using IH later by (metis append_Nil)
    next
      case same
      then show ?thesis using IH later settled_Cons by metis
    qed
  qed
qed simp

lemma await_polls_ends:
  "await_polls c version settle deadline s ps = None \<Longrightarrow> p \<in> set ps \<Longrightarrow> hp_now p \<le> deadline + max 0 settle"
proof (induction ps arbitrary: s)
  case (Cons q ps)
  obtain healthy s' where look: "health_look c version settle q s = (healthy, s')" by fastforce
  with Cons.prems(1) have "await_polls c version settle deadline s' ps = None" "hp_now q \<le> deadline + max 0 settle"
    by (auto split: if_splits)
  with Cons.IH Cons.prems(2) show ?case by auto
qed simp

text \<open>
  C26. The updater keeps an update only for a process that stays up: when the wait succeeds, one
  process wrote a health file naming the new version while it was the unit's main process, and at
  least the settle time later it still is, with no look in between showing anything else; and the
  wait ends, by then or by the timeout and the settle time.
\<close>
theorem the_health_wait_is_sound_and_ends:
  assumes settle: "settle = cmp_Or (ap_HealthSettle a) DefaultHealthSettle"
    and timeout: "timeout = cmp_Or (ap_HealthTimeout a) DefaultHealthTimeout"
    and polls: "w_polls w = p0 # ps"
  shows "case awaitHealthy c a w version of
      None \<Rightarrow> \<forall>p \<in> set (p0 # ps). hp_now p \<le> hp_now p0 + timeout + max 0 settle
    | Some None \<Rightarrow> \<exists>pre p mid q post pid. p0 # ps = pre @ p # mid @ q # post \<and>
        looks_up c version pid p \<and> looks_up c version pid q \<and> settle \<le> time_sub (hp_now q) (hp_now p) \<and>
        (\<forall>r \<in> set mid. looks_blank r \<or> looks_up c version pid r)
    | Some (Some why) \<Rightarrow> True"
proof -
  let ?s = "\<lparr>wt_last = NeverWrote, wt_candidate = 0, wt_since = 0\<rparr>"
  have aw: "awaitHealthy c a w version = await_polls c version settle (hp_now p0 + timeout) ?s (p0 # ps)"
    by (simp add: awaitHealthy_def settle timeout polls del: await_polls.simps)
  show ?thesis
  proof (cases "awaitHealthy c a w version")
    case None
    then show ?thesis using await_polls_ends[of c version settle "hp_now p0 + timeout" ?s "p0 # ps"] aw by auto
  next
    case (Some r)
    show ?thesis
    proof (cases r)
      case None
      then have "await_polls c version settle (hp_now p0 + timeout) ?s (p0 # ps) = Some None" using aw Some by simp
      from await_polls_sound[OF this] show ?thesis
        unfolding Some None settled_def option.case by simp blast
    qed (use Some in simp)
  qed
qed

section \<open>Concrete runs\<close>

text \<open>An appliance running v1.2.2 (\<open>''old''\<close>) updates to v1.2.3 (\<open>''newbin7''\<close>).\<close>

definition demo_upd_codec :: "unit upd_codec" where
  "demo_upd_codec =
     codec.extend (demo_codec\<lparr>sha256 := \<lambda>b. replicate 32 (if length b = 7 then 0xCC else 0xAA)\<rparr>)
       \<lparr>json_request = \<lambda>_. Some ''v1.2.3'',
        json_health = \<lambda>b. if b = ''up'' then Some \<lparr>hl_Version = ''v1.2.3'', hl_PID = 42\<rparr> else None,
        json_journal = \<lambda>b. Some \<lparr>j_From = ''v1.2.2'', j_To = ''v1.2.3'', j_PrevSHA256 = b,
          j_NewSHA256 = replicate 64 (CHR ''c'')\<rparr>,
        journal_json = j_PrevSHA256\<rparr>"

definition demo_applier :: applier where
  "demo_applier =
     \<lparr>ap_Running = ''v1.2.2'', ap_Target = ''linux/arm64'', ap_Trusted = [[] \<mapsto> replicate 32 (CHR ''k'')],
      ap_HealthTimeout = 0, ap_HealthSettle = 0\<rparr>"

definition demo_world :: "health_poll list \<Rightarrow> world" where
  "demo_world polls =
     \<lparr>w_root = True, w_checkBin = None, w_lock = None, w_recheckBin = None,
      w_Version = \<lambda>b. Inr (if b = ''old'' then ''remote-mic v1.2.2'' else ''remote-mic v1.2.3''),
      w_stopped1 = False, w_stopped2 = False, w_claim = Claimed,
      w_staged = \<lambda>f. Inr (case f of TakenFile \<Rightarrow> ''r'' | ManifestFile \<Rightarrow> ''{}''
        | SignatureFile \<Rightarrow> signedMessage ''{}'' | BinaryFile \<Rightarrow> ''newbin7''),
      w_write = \<lambda>_. WriteOk, w_readable = \<lambda>_. True, w_swap = None, w_restart = None, w_polls = polls,
      w_restore = None, w_rmNew = True, w_rmJournal = True, w_status = True\<rparr>"

definition demo_up :: "instant \<Rightarrow> health_poll" where
  "demo_up t = \<lparr>hp_file = Some ''up'', hp_pid = Inr 42, hp_now = t, hp_stop = False\<rparr>"

definition demo_dir :: bindir where
  "demo_dir = (\<lambda>_. None)(BinFile := Some ''old'')"


lemma demo_reads [simp]:
  "readFileIn (demo_world ps) ManifestFile MaxManifestSize = Inr ''{}''"
  "readFileIn (demo_world ps) SignatureFile MaxSignatureSize = Inr (signedMessage ''{}'')"
  "readFileIn (demo_world ps) BinaryFile 7 = Inr ''newbin7''"
  "readFileIn (demo_world ps) TakenFile maxSmallFile = Inr ''r''"
  by (simp_all add: readFileIn_def demo_world_def MaxManifestSize_def MaxSignatureSize_def maxSmallFile_def
      signedMessage_def signingContext_def)

lemma Verify_sha256: "Verify (c\<lparr>sha256 := f\<rparr>) = Verify c"
proof -
  have "Parse (c\<lparr>sha256 := f\<rparr>) = Parse c" by (simp add: Parse_def fun_eq_iff split: option.split)
  then show ?thesis by (auto simp: Verify_def fun_eq_iff split: option.split)
qed

lemma demo_verified [simp]:
  "Verify (codec.truncate demo_upd_codec) ''{}'' (signedMessage ''{}'') (ap_Trusted demo_applier) = Inr demo_manifest"
proof -
  have "codec.truncate demo_upd_codec = demo_codec\<lparr>sha256 := \<lambda>b. replicate 32 (if length b = 7 then 0xCC else 0xAA)\<rparr>"
    by (simp add: demo_upd_codec_def codec.defs)
  then have "Verify (codec.truncate demo_upd_codec) = Verify demo_codec" by (simp add: Verify_sha256)
  then show ?thesis using demo_verifies by (simp add: demo_applier_def)
qed

lemma demo_target [simp]:
  "map_of (mf_Targets demo_manifest) (ap_Target demo_applier) =
     Some \<lparr>t_URL = ''u'', t_Size = 42, t_SHA256 = replicate 64 (CHR ''a''),
        t_Binary = \<lparr>b_Path = ''remote-mic'', b_Size = 7, b_SHA256 = replicate 64 (CHR ''c'')\<rparr>\<rparr>"
  by (simp add: demo_manifest_def demo_applier_def)

lemma demo_checks [simp]:
  "Newer ''v1.2.3'' (ap_Running demo_applier) = Inr True"
  "sha256Hex demo_upd_codec ''newbin7'' = replicate 64 (CHR ''c'')"
  "first_line ''remote-mic v1.2.2'' = version_line (ap_Running demo_applier)"
  "first_line ''remote-mic v1.2.3'' = version_line ''v1.2.3''"
  by code_simp+

lemma demo_fields [simp]:
  "w_root (demo_world ps)" "w_checkBin (demo_world ps) = None" "w_lock (demo_world ps) = None"
  "w_recheckBin (demo_world ps) = None" "\<not> w_stopped1 (demo_world ps)" "\<not> w_stopped2 (demo_world ps)"
  "w_claim (demo_world ps) = Claimed" "w_write (demo_world ps) f = WriteOk" "w_readable (demo_world ps) f"
  "w_swap (demo_world ps) = None" "w_restart (demo_world ps) = None" "w_restore (demo_world ps) = None"
  "w_rmNew (demo_world ps)" "w_rmJournal (demo_world ps)"
  "w_Version (demo_world ps) ''old'' = Inr ''remote-mic v1.2.2''"
  "w_Version (demo_world ps) ''newbin7'' = Inr ''remote-mic v1.2.3''"
  "json_request demo_upd_codec b = Some ''v1.2.3''" "mf_Version demo_manifest = ''v1.2.3''"
  by (simp_all add: demo_world_def demo_upd_codec_def codec.defs demo_manifest_def)

lemma demo_staged [simp]: "verifyStaged demo_upd_codec demo_applier (demo_world ps) = Inr (demo_manifest, ''newbin7'')"
  unfolding verifyStaged_def Let_def by (simp add: maxBinarySize_def)

lemma demo_await [simp]:
  "awaitHealthy demo_upd_codec demo_applier (demo_world [demo_up second, demo_up (11 * second)]) ''v1.2.3'' = Some None"
  "awaitHealthy demo_upd_codec demo_applier (demo_world []) ''v1.2.3'' = None"
  by (simp_all add: awaitHealthy_def demo_world_def health_look_def demo_up_def demo_upd_codec_def codec.defs
      maxSmallFile_def demo_applier_def cmp_Or_def DefaultHealthSettle_def DefaultHealthTimeout_def duration_defs
      time_sub_def)

lemma demo_install:
  "u_disk u = demo_dir \<Longrightarrow> \<exists>u'. install demo_upd_codec demo_applier (demo_world [demo_up second, demo_up (11 * second)])
     demo_manifest ''newbin7'' u = (Some \<lparr>rs_Outcome = OutcomeUpdated, rs_From = ap_Running demo_applier,
       rs_To = ''v1.2.3'', rs_Installed = ''v1.2.3'', rs_Reason = [], rs_written = False\<rparr>, u')"
  by (simp add: install_def writeFresh_def install_new_def run_version_def read_file_def confirm_def demo_dir_def Let_def)

lemma demo_update:
  "\<exists>u. Apply demo_upd_codec demo_applier (demo_world [demo_up second, demo_up (11 * second)]) demo_dir =
     (Finished \<lparr>rs_Outcome = OutcomeUpdated, rs_From = ap_Running demo_applier,
       rs_To = ''v1.2.3'', rs_Installed = ''v1.2.3'', rs_Reason = [], rs_written = False\<rparr>, u)"
proof -
  let ?w = "demo_world [demo_up second, demo_up (11 * second)]"
  let ?u = "\<lparr>u_disk = demo_dir, u_trace = [EDisk demo_dir]\<rparr>"
  have "u_disk (emit EClaim ?u) = demo_dir" by simp
  then obtain u where i: "install demo_upd_codec demo_applier ?w demo_manifest ''newbin7'' (emit EClaim ?u) =
      (Some \<lparr>rs_Outcome = OutcomeUpdated, rs_From = ap_Running demo_applier,
         rs_To = ''v1.2.3'', rs_Installed = ''v1.2.3'', rs_Reason = [], rs_written = False\<rparr>, u)"
    using demo_install by blast
  have "decodeSmall (json_request demo_upd_codec) ''request.json'' ''r'' = Inr ''v1.2.3''"
    by (simp add: decodeSmall_def maxSmallFile_def)
  moreover have "revalidate demo_applier ?w ?u = None" "demo_dir JournalFile = None"
    by (simp_all add: revalidate_def run_version_def demo_dir_def)
  ultimately show ?thesis by (simp add: Apply_def apply_locked_def apply_claimed_def finish_run_def i Let_def)
qed

lemma demo_waits:
  "\<exists>u j. install demo_upd_codec demo_applier (demo_world []) demo_manifest ''newbin7''
     (emit EClaim \<lparr>u_disk = demo_dir, u_trace = [EDisk demo_dir]\<rparr>) = (None, u) \<and>
     disk_after 100 demo_dir (u_trace u) JournalFile = Some j"
  by (simp add: install_def writeFresh_def install_new_def run_version_def read_file_def confirm_def demo_dir_def
      emit_def put_file_def put_disk_def rename_to_bin_def disk_after_def Let_def)

lemma demo_cut: "\<exists>j. boots demo_upd_codec [(demo_applier, demo_world [], 100)] demo_dir JournalFile = Some j"
proof -
  let ?u = "\<lparr>u_disk = demo_dir, u_trace = [EDisk demo_dir]\<rparr>"
  obtain u j where i: "install demo_upd_codec demo_applier (demo_world []) demo_manifest ''newbin7'' (emit EClaim ?u) = (None, u)"
    and j: "disk_after 100 demo_dir (u_trace u) JournalFile = Some j" using demo_waits by blast
  have "decodeSmall (json_request demo_upd_codec) ''request.json'' ''r'' = Inr ''v1.2.3''"
    by (simp add: decodeSmall_def maxSmallFile_def)
  moreover have "revalidate demo_applier (demo_world []) ?u = None" "demo_dir JournalFile = None"
    by (simp_all add: revalidate_def run_version_def demo_dir_def)
  ultimately have "Apply demo_upd_codec demo_applier (demo_world []) demo_dir = (StillWaiting, u)"
    by (simp add: Apply_def apply_locked_def apply_claimed_def finish_run_def i Let_def)
  then show ?thesis using j by simp
qed

lemma demo_journal:
  "journal_json demo_upd_codec = j_PrevSHA256"
  "json_journal demo_upd_codec b = Some \<lparr>j_From = ''v1.2.2'', j_To = ''v1.2.3'', j_PrevSHA256 = b,
          j_NewSHA256 = replicate 64 (CHR ''c'')\<rparr>"
  by (simp_all add: demo_upd_codec_def codec.defs)


lemma demo_tells_apart: "tells_apart demo_upd_codec {''old'', ''newbin7''}"
proof -
  have "replicate 32 x = x # replicate 31 x" for x :: u8 by (simp flip: replicate_Suc)
  then have "sha256Hex demo_upd_codec b \<noteq> ''''" for b
    by (simp add: sha256Hex_def demo_upd_codec_def codec.defs hex_encode_def)
  moreover have "sha256Hex demo_upd_codec ''old'' \<noteq> sha256Hex demo_upd_codec ''newbin7''" by code_simp
  ultimately show ?thesis unfolding tells_apart_def by (simp add: image_iff) metis
qed

lemma demo_reads_back: "reads_back demo_upd_codec {''old'', ''newbin7''} demo_applier (demo_world [])"
proof -
  have "length (sha256Hex demo_upd_codec b) = 64" for b
  proof -
    have "length (hex_encode xs) = 2 * length xs" for xs by (induction xs) (simp_all add: hex_encode_def)
    then show ?thesis by (simp add: sha256Hex_def demo_upd_codec_def codec.defs)
  qed
  moreover have "ap_Running demo_applier = ''v1.2.2''" by (simp add: demo_applier_def)
  ultimately show ?thesis
    unfolding reads_back_def
    by (simp add: run_journal_def demo_journal maxSmallFile_def Let_def)
qed


theorem the_health_wait_is_sound_and_ends_witness:
  "awaitHealthy demo_upd_codec demo_applier (demo_world [demo_up second, demo_up (11 * second)]) ''v1.2.3'' = Some None \<and>
     (\<exists>p (q :: health_poll). looks_up demo_upd_codec ''v1.2.3'' 42 p \<and> 10 * second \<le> time_sub (hp_now q) (hp_now p))"
proof -
  let ?w = "demo_world [demo_up second, demo_up (11 * second)]"
  have "w_polls ?w = [demo_up second, demo_up (11 * second)]" by (simp add: demo_world_def)
  from the_health_wait_is_sound_and_ends[OF refl refl this, where c = demo_upd_codec and a = demo_applier and version = "''v1.2.3''", unfolded demo_await option.case]
  obtain pre p mid q post pid where polls: "[demo_up second, demo_up (11 * second)] = pre @ p # mid @ q # post"
    and up: "looks_up demo_upd_codec ''v1.2.3'' pid p"
      "cmp_Or (ap_HealthSettle demo_applier) DefaultHealthSettle \<le> time_sub (hp_now q) (hp_now p)" by blast
  have "p \<in> set [demo_up second, demo_up (11 * second)]" unfolding polls by simp
  then have "pid = 42" using up(1) by (auto simp: looks_up_def demo_up_def)
  then have "looks_up demo_upd_codec ''v1.2.3'' 42 p \<and> 10 * second \<le> time_sub (hp_now q) (hp_now p)"
    using up by (simp add: cmp_Or_def demo_applier_def DefaultHealthSettle_def)
  then show ?thesis using demo_await(1) by blast
qed

end
