(* ===== verification/Update_Manager.thy ===== *)
theory Update_Manager
  imports Update_Version Monitor_Conditions
begin

text \<open>
  \<open>internal/update/manager.go\<close>: the periodic check for a newer release, which is a condition monitor,
  and the one-button update it starts. An operation returns the publisher calls it makes. What a
  fetch, the staging, the staging directory and the installation give are inputs; the locked
  sections of \<open>Apply\<close>, \<open>check\<close> and \<open>apply\<close> are separate steps, so that they interleave.
\<close>

section \<open>Timing\<close>

definition hour :: duration where "hour = 60 * minute"
definition firstCheckDelay :: duration where "firstCheckDelay = 3 * minute"
definition firstCheckJitter :: duration where "firstCheckJitter = 2 * minute"
definition checkInterval :: duration where "checkInterval = 24 * hour"
definition checkJitter :: duration where "checkJitter = hour"
definition retryFirst :: duration where "retryFirst = hour"
definition retryPending :: duration where "retryPending = hour"
definition manualThrottle :: duration where "manualThrottle = 10 * second"
definition updaterStartTimeout :: duration where "updaterStartTimeout = minute"
definition awaitHealthTimeout :: duration where "awaitHealthTimeout = 2 * minute"

definition AvailableKey :: string where "AvailableKey = ''update:available''"
definition notifySource :: string where "notifySource = ''update''"

section \<open>State\<close>

datatype phase = PhaseIdle | PhaseDownloading | PhaseInstalling | PhaseFailed

record release =
  rl_Version :: string
  rl_NotesURL :: string

text \<open>An error of the fetch: what it is, and its text.\<close>

datatype error_kind = KNoManifest | KNoRelease | KStatus int | KDeadline | KNetwork | KSignature | KOther

type_synonym check_error = "error_kind \<times> string"

record manager =
  mg_running :: string
  mg_supported :: bool
  mg_errText :: "update_error \<Rightarrow> string"
  mg_enabled :: bool
  mg_offGen :: nat
  mg_latest :: "release option"
  mg_available :: bool
  mg_lastCheck :: instant
  mg_nextDeadline :: instant
  mg_lastErr :: string
  mg_lastNotice :: string
  mg_noticeLogged :: string
  mg_lastCause :: string
  mg_failures :: nat
  mg_announced :: string
  mg_phase :: phase
  mg_phaseMsg :: string
  mg_cancelApply :: "bool option"
  mg_cancelCheck :: "bool option"

text \<open>
  A registered cancel function is \<open>Some b\<close>, where \<open>b\<close> tells whether it was called with
  \<open>ErrChecksDisabled\<close>.
\<close>

definition NewManager :: "string \<Rightarrow> (update_error \<Rightarrow> string) \<Rightarrow> manager" where
  "NewManager running errText =
     \<lparr>mg_running = running, mg_supported = (BaseVersion running \<noteq> None), mg_errText = errText,
      mg_enabled = False, mg_offGen = 0, mg_latest = None, mg_available = False, mg_lastCheck = 0,
      mg_nextDeadline = 0, mg_lastErr = '''', mg_lastNotice = '''', mg_noticeLogged = '''', mg_lastCause = '''',
      mg_failures = 0, mg_announced = '''', mg_phase = PhaseIdle, mg_phaseMsg = '''',
      mg_cancelApply = None, mg_cancelCheck = None\<rparr>"

section \<open>Turning checks on and off\<close>

text \<open>\<open>Apply\<close>: the swap, which also counts the times checks were turned off, and the locked part of turning them off.\<close>

definition apply_swap :: "bool \<Rightarrow> manager \<Rightarrow> manager" where
  "apply_swap on m =
     (let was = mg_enabled m; m = m\<lparr>mg_enabled := on\<rparr> in
      if was = on \<or> on then m else m\<lparr>mg_offGen := mg_offGen m + 1\<rparr>)"

definition cancel :: "bool option \<Rightarrow> bool option" where
  "cancel c = map_option (\<lambda>_. True) c"

definition apply_off :: "manager \<Rightarrow> pub_call list \<times> manager" where
  "apply_off m =
     ([PResolve AvailableKey ''Update checks turned off''],
      m\<lparr>mg_latest := None, mg_available := False, mg_lastNotice := '''', mg_noticeLogged := '''',
        mg_lastCause := '''', mg_cancelCheck := cancel (mg_cancelCheck m),
        mg_cancelApply := cancel (mg_cancelApply m)\<rparr>)"

section \<open>Checks\<close>

definition failureCause :: "check_error \<Rightarrow> string" where
  "failureCause err =
     (case err of
        (KStatus code, text) \<Rightarrow> ''http '' @ Itoa code
      | (KDeadline, text) \<Rightarrow> ''timeout''
      | (KNetwork, text) \<Rightarrow> ''network''
      | (KSignature, text) \<Rightarrow> ''signature''
      | (_, text) \<Rightarrow> text)"

record check_result =
  cr_failures :: nat
  cr_pending :: bool

text \<open>The delay after a check; the back-off doubles at most until it reaches the interval.\<close>

fun back_off :: "nat \<Rightarrow> duration \<Rightarrow> duration" where
  "back_off 0 d = d"
| "back_off (Suc n) d = (let d = 2 * d in if d \<ge> checkInterval then checkInterval else back_off n d)"

definition nextCheck :: "check_result \<Rightarrow> (duration \<Rightarrow> duration) \<Rightarrow> duration" where
  "nextCheck r jitter =
     (if cr_pending r then retryPending
      else if cr_failures r = 0 then checkInterval - checkJitter + jitter (2 * checkJitter)
      else back_off (cr_failures r - 1) retryFirst)"

text \<open>What a check logs.\<close>

datatype check_line = LNotice string | LFailed string | LAgain | LAvailable string

text \<open>The start of a check: skipped, or registered so that turning checks off can stop it.\<close>

definition check_begin :: "bool \<Rightarrow> instant \<Rightarrow> manager \<Rightarrow> check_result option \<times> manager" where
  "check_begin manual now m =
     (if \<not> mg_enabled m \<or>
         manual \<and> \<not> is_zero (mg_lastCheck m) \<and> time_sub now (mg_lastCheck m) < manualThrottle
      then (Some \<lparr>cr_failures = mg_failures m, cr_pending = False\<rparr>, m)
      else (None, m\<lparr>mg_cancelCheck := Some False\<rparr>))"

definition available_onset :: "manager \<Rightarrow> release \<Rightarrow> notification" where
  "available_onset m rel = zero_notification\<lparr>n_Severity := SeverityInfo, n_Category := CategorySystem,
     n_Key := AvailableKey, n_Source := notifySource, n_Title := ''Update available: '' @ rl_Version rel,
     n_Message := ''remote-mic '' @ rl_Version rel @ '' is available; this appliance runs '' @ mg_running m
       @ ''. Release notes: '' @ rl_NotesURL rel\<rparr>"

text \<open>The failure, the notice and the success of a check that is recorded.\<close>

definition check_failed :: "check_error \<Rightarrow> manager \<Rightarrow> check_line list \<times> check_result \<times> manager" where
  "check_failed err m =
     (let m = m\<lparr>mg_lastErr := snd err, mg_lastNotice := ''''\<rparr>;
          new = failureCause err \<noteq> mg_lastCause m;
          m = (if new then m\<lparr>mg_lastCause := failureCause err\<rparr> else m);
          m = m\<lparr>mg_failures := mg_failures m + 1\<rparr>
      in (if new then [LFailed (snd err)] else [], \<lparr>cr_failures = mg_failures m, cr_pending = False\<rparr>, m))"

definition check_notice ::
  "check_error \<Rightarrow> manager \<Rightarrow> check_line list \<times> pub_call list \<times> check_result \<times> manager" where
  "check_notice err m =
     (let new = snd err \<noteq> mg_noticeLogged m;
          m = (if new then m\<lparr>mg_noticeLogged := snd err\<rparr> else m);
          m = m\<lparr>mg_lastErr := '''', mg_failures := 0, mg_lastNotice := snd err\<rparr>;
          lines = (if new then [LNotice (snd err)] else [])
      in if fst err = KNoRelease
         then (lines, [PResolve AvailableKey ''No release is published''], \<lparr>cr_failures = 0, cr_pending = False\<rparr>,
               m\<lparr>mg_latest := None, mg_available := False\<rparr>)
         else (lines, [], \<lparr>cr_failures = 0, cr_pending = True\<rparr>, m))"

text \<open>\<open>raised\<close>: whether the publisher raised the condition; it was raised before when not.\<close>

definition check_success ::
  "release \<Rightarrow> bool \<Rightarrow> bool \<Rightarrow> manager \<Rightarrow> check_line list \<times> pub_call list \<times> check_result \<times> manager" where
  "check_success rel newer raised m =
     (let again = (if mg_lastCause m \<noteq> '''' then [LAgain] else []);
          m = m\<lparr>mg_lastErr := '''', mg_lastNotice := '''', mg_noticeLogged := '''', mg_lastCause := '''', mg_failures := 0,
                mg_latest := Some rel, mg_available := newer\<rparr>;
          ok = \<lparr>cr_failures = 0, cr_pending = False\<rparr>
      in if \<not> newer then (again, [PResolve AvailableKey ''No update available''], ok, m)
         else
           let new = mg_announced m \<noteq> rl_Version rel;
               m = (if new then m\<lparr>mg_announced := rl_Version rel\<rparr> else m);
               n = available_onset m rel
           in (again @ (if new then [LAvailable (rl_Version rel)] else []),
               POnset n # (if raised then [] else [PUpdate AvailableKey (n_Title n) (n_Message n)]), ok, m))"

definition check_end ::
  "check_error + release \<Rightarrow> bool \<Rightarrow> instant \<Rightarrow> manager \<Rightarrow> check_line list \<times> pub_call list \<times> check_result \<times> manager" where
  "check_end fetched raised now m =
     (let off = (mg_cancelCheck m = Some True);
          res = (case fetched of
                   Inl err \<Rightarrow> Inl err
                 | Inr rel \<Rightarrow> (case Newer (rl_Version rel) (mg_running m) of
                     Inl e \<Rightarrow> Inl (KOther, mg_errText m e) | Inr newer \<Rightarrow> Inr (rel, newer)));
          m = m\<lparr>mg_cancelCheck := None\<rparr>
      in if \<not> mg_enabled m \<or> off then ([], [], \<lparr>cr_failures = mg_failures m, cr_pending = False\<rparr>, m)
         else
           let m = m\<lparr>mg_lastCheck := now\<rparr> in
           case res of
             Inr (rel, newer) \<Rightarrow> check_success rel newer raised m
           | Inl err \<Rightarrow>
               if fst err = KNoManifest \<or> fst err = KNoRelease then check_notice err m
               else (case check_failed err m of (lines, r, m) \<Rightarrow> (lines, [], r, m)))"

section \<open>The check loop\<close>

text \<open>
  The top of the loop of \<open>Run\<close>: the schedule starts over when checks were turned off since, and the
  timer is armed when they are on. The timer is its deadline, zero when there is none.
\<close>

definition setNextCheck :: "duration \<Rightarrow> instant \<Rightarrow> manager \<Rightarrow> manager" where
  "setNextCheck d now m = m\<lparr>mg_nextDeadline := (if d \<le> 0 then 0 else now + d)\<rparr>"

definition run_arm :: "(duration \<Rightarrow> duration) \<Rightarrow> instant \<Rightarrow> nat \<Rightarrow> manager \<Rightarrow> nat \<times> manager" where
  "run_arm jitter now seen m =
     (let (seen, m) = (if mg_offGen m \<noteq> seen then (mg_offGen m, setNextCheck 0 now m) else (seen, m))
      in (seen,
          if mg_enabled m \<and> mg_nextDeadline m = 0
          then setNextCheck (firstCheckDelay + jitter firstCheckJitter) now m
          else if \<not> mg_enabled m then setNextCheck 0 now m else m))"

section \<open>The one-button update\<close>

datatype manager_error = ErrNotReleaseBuild | ErrChecksDisabled | ErrNoUpdate | ErrCannotApply | ErrBusy | ErrEarlierAttempt

text \<open>
  What \<open>StartApply\<close> finds: whether the installation can update itself, whether an attempt is in
  flight on disk, whether the install journal beside the service binary exists.
\<close>

record found =
  fd_CanApply :: bool
  fd_InFlight :: bool
  fd_Journal :: bool

definition StartApply :: "found \<Rightarrow> manager \<Rightarrow> manager_error option \<times> manager" where
  "StartApply f m =
     (if \<not> fd_CanApply f then (Some ErrCannotApply, m)
      else if \<not> mg_enabled m then (Some ErrChecksDisabled, m)
      else if mg_phase m = PhaseDownloading \<or> mg_phase m = PhaseInstalling then (Some ErrBusy, m)
      else if fd_InFlight f then (Some ErrEarlierAttempt, m)
      else if fd_Journal f then (Some ErrBusy, m)
      else case mg_latest m of
        None \<Rightarrow> (Some ErrNoUpdate, m)
      | Some rel \<Rightarrow>
          if \<not> mg_available m then (Some ErrNoUpdate, m)
          else (None, m\<lparr>mg_phase := PhaseDownloading, mg_phaseMsg := ''Downloading '' @ rl_Version rel,
                        mg_cancelApply := Some False\<rparr>))"

definition setPhase :: "phase \<Rightarrow> string \<Rightarrow> manager \<Rightarrow> manager" where
  "setPhase p msg m = m\<lparr>mg_phase := p, mg_phaseMsg := msg\<rparr>"

definition failed_notification :: "string \<Rightarrow> string \<Rightarrow> notification" where
  "failed_notification v reason = zero_notification\<lparr>n_Severity := SeverityWarning, n_Category := CategorySystem,
     n_Kind := KindEvent, n_Source := notifySource, n_Title := ''Update failed'',
     n_Message := (if v = '''' then ''The update was not installed: '' @ reason
                   else ''The update to '' @ v @ '' was not installed: '' @ reason)\<rparr>"

definition manager_fail :: "string \<Rightarrow> string \<Rightarrow> manager \<Rightarrow> pub_call list \<times> manager" where
  "manager_fail v reason m = ([PPublish (failed_notification v reason)], setPhase PhaseFailed reason m)"

definition installing_notification :: "string \<Rightarrow> notification" where
  "installing_notification v = zero_notification\<lparr>n_Severity := SeverityInfo, n_Category := CategorySystem,
     n_Kind := KindEvent, n_Source := notifySource, n_Title := ''Installing '' @ v,
     n_Message := ''The update to '' @ v @ '' is being installed; the appliance restarts when it is done, which drops connected streams briefly''\<rparr>"

text \<open>
  \<open>apply\<close> once the staging of \<open>v\<close> has returned; \<open>True\<close> when the updater is awaited next.
  \<open>stopping\<close>: the appliance is shutting down.
\<close>

definition apply_staged :: "string \<Rightarrow> string option \<Rightarrow> bool \<Rightarrow> manager \<Rightarrow> bool \<times> pub_call list \<times> manager" where
  "apply_staged v err stopping m =
     (let off = (mg_cancelApply m = Some True); m = m\<lparr>mg_cancelApply := None\<rparr> in
      case err of
        Some e \<Rightarrow>
          if off \<or> stopping then (False, [], setPhase PhaseIdle '''' m)
          else (case manager_fail v e m of (calls, m) \<Rightarrow> (False, calls, m))
      | None \<Rightarrow>
          (True, [PPublish (installing_notification v)],
           setPhase PhaseInstalling (''Installing '' @ v @ ''; the appliance restarts when it is done'') m))"

text \<open>
  One poll of \<open>awaitUpdater\<close>, \<open>elapsed\<close> after it started: a result addressed to this version (\<open>Inl\<close> its
  reason when it failed, else its notification), and whether removing the request worked. Returns
  whether the wait goes on, whether the withdrawal was tried, and whether the request is removed.
\<close>

definition await_poll ::
  "string \<Rightarrow> string \<Rightarrow> (string + notification) option \<Rightarrow> bool \<Rightarrow> duration \<Rightarrow> bool \<Rightarrow> manager \<Rightarrow>
     (bool \<times> bool) \<times> pub_call list \<times> manager" where
  "await_poll v rerun res removed elapsed tried m =
     (case res of
        Some (Inl reason) \<Rightarrow> ((False, tried), manager_fail v reason m)
      | Some (Inr n) \<Rightarrow> ((False, tried), [PPublish n], setPhase PhaseIdle '''' m)
      | None \<Rightarrow>
          if \<not> tried \<and> elapsed > updaterStartTimeout
          then if removed
               then ((False, True), manager_fail v
                 (''the root updater did not start; '' @ rerun @ '', and restart the service (sudo systemctl restart remote-mic)'') m)
               else ((True, True), [], m)
          else if elapsed > updaterStartTimeout + awaitHealthTimeout + minute
          then ((False, tried), manager_fail v ''the root updater reported no result'' m)
          else ((True, tried), [], m))"

text \<open>\<open>CheckNow\<close> up to the check it makes.\<close>

definition CheckNow :: "instant \<Rightarrow> manager \<Rightarrow> manager_error option \<times> manager" where
  "CheckNow now m =
     (if \<not> mg_supported m then (Some ErrNotReleaseBuild, m)
      else if \<not> mg_enabled m then (Some ErrChecksDisabled, m)
      else (None, snd (check_begin True now m)))"

section \<open>Every interleaving\<close>

text \<open>
  A settings change (which the appliance makes one at a time), the locked part of turning checks
  off, the start and the end of a check (one at a time, under \<open>checkMu\<close>), and the steps of an
  attempt; the loop arms its timer at the top and after a check. Steps that nothing has started are
  ignored.
\<close>

datatype manager_op =
    MSwap bool
  | MOff
  | MCheckBegin bool instant
  | MCheckEnd "check_error + release" bool instant
  | MStart found
  | MStaged "string option" bool
  | MPoll "(string + notification) option" bool duration
  | MArm "duration \<Rightarrow> duration" instant
  | MRearm "duration \<Rightarrow> duration" check_result instant

text \<open>An attempt: the version, whether it was staged, and whether the withdrawal was tried.\<close>

record manager_sys =
  ms_mgr :: manager
  ms_turning :: bool
  ms_attempts :: "(string \<times> bool \<times> bool) list"
  ms_seen :: nat
  ms_calls :: "pub_call list"

definition emits :: "pub_call list \<times> manager \<Rightarrow> manager_sys \<Rightarrow> manager_sys" where
  "emits r y = y\<lparr>ms_mgr := snd r, ms_calls := ms_calls y @ fst r\<rparr>"

fun manager_step :: "manager_op \<Rightarrow> manager_sys \<Rightarrow> manager_sys" where
  "manager_step (MSwap on) y =
     (if ms_turning y then y
      else y\<lparr>ms_mgr := apply_swap on (ms_mgr y), ms_turning := mg_enabled (ms_mgr y) \<and> \<not> on\<rparr>)"
| "manager_step MOff y = (if ms_turning y then emits (apply_off (ms_mgr y)) (y\<lparr>ms_turning := False\<rparr>) else y)"
| "manager_step (MCheckBegin manual now) y =
     (if mg_cancelCheck (ms_mgr y) = None
      then y\<lparr>ms_mgr := (if manual then snd (CheckNow now (ms_mgr y)) else snd (check_begin False now (ms_mgr y)))\<rparr>
      else y)"
| "manager_step (MCheckEnd fetched raised now) y =
     (if mg_cancelCheck (ms_mgr y) = None then y
      else case check_end fetched raised now (ms_mgr y) of (lines, calls, r, m) \<Rightarrow> emits (calls, m) y)"
| "manager_step (MStart f) y =
     (case StartApply f (ms_mgr y) of
        (Some e, m) \<Rightarrow> y
      | (None, m) \<Rightarrow> y\<lparr>ms_mgr := m, ms_attempts := ms_attempts y @ [(rl_Version (the (mg_latest m)), False, False)]\<rparr>)"
| "manager_step (MStaged err stopping) y =
     (case ms_attempts y of
        (v, False, tried) # as \<Rightarrow>
          (case apply_staged v err stopping (ms_mgr y) of
             (goes_on, r) \<Rightarrow> emits r (y\<lparr>ms_attempts := (if goes_on then [(v, True, False)] else []) @ as\<rparr>))
      | _ \<Rightarrow> y)"
| "manager_step (MPoll res removed elapsed) y =
     (case ms_attempts y of
        (v, True, tried) # as \<Rightarrow>
          (case await_poll v '''' res removed elapsed tried (ms_mgr y) of
             ((goes_on, tried), r) \<Rightarrow> emits r (y\<lparr>ms_attempts := (if goes_on then [(v, True, tried)] else []) @ as\<rparr>))
      | _ \<Rightarrow> y)"
| "manager_step (MArm jitter now) y =
     (case run_arm jitter now (ms_seen y) (ms_mgr y) of (seen, m) \<Rightarrow> y\<lparr>ms_mgr := m, ms_seen := seen\<rparr>)"
| "manager_step (MRearm jitter r now) y = y\<lparr>ms_mgr := setNextCheck (nextCheck r jitter) now (ms_mgr y)\<rparr>"

definition manager_run :: "string \<Rightarrow> (update_error \<Rightarrow> string) \<Rightarrow> manager_op list \<Rightarrow> manager_sys" where
  "manager_run running errText ops = fold manager_step ops
     \<lparr>ms_mgr = NewManager running errText, ms_turning = False, ms_attempts = [], ms_seen = 0, ms_calls = []\<rparr>"

section \<open>The condition and the manager agree\<close>

definition offered :: "manager \<Rightarrow> bool" where
  "offered m \<longleftrightarrow> (\<exists>rel. mg_latest m = Some rel \<and> Newer (rl_Version rel) (mg_running m) = Inr True)"

definition key_inv :: "string set \<Rightarrow> manager_sys \<Rightarrow> bool" where [inv_defs]:
  "key_inv A y \<longleftrightarrow> (AvailableKey \<in> A \<longleftrightarrow> mg_available (ms_mgr y)) \<and> (mg_available (ms_mgr y) \<longrightarrow> offered (ms_mgr y)) \<and>
     (ms_turning y \<longrightarrow> \<not> mg_enabled (ms_mgr y)) \<and>
     (\<not> mg_enabled (ms_mgr y) \<and> \<not> ms_turning y \<longrightarrow> mg_latest (ms_mgr y) = None)"

text \<open>What the other operations leave alone.\<close>

definition same_offer :: "manager \<Rightarrow> manager \<Rightarrow> bool" where
  "same_offer m m' \<longleftrightarrow> mg_available m' = mg_available m \<and> mg_latest m' = mg_latest m \<and>
     mg_running m' = mg_running m \<and> mg_enabled m' = mg_enabled m"

lemma same_offer_inv:
  "key_inv A y \<Longrightarrow> same_offer (ms_mgr y) (ms_mgr y') \<Longrightarrow> ms_turning y' = ms_turning y \<Longrightarrow>
     (AvailableKey \<in> A' \<longleftrightarrow> AvailableKey \<in> A) \<Longrightarrow> key_inv A' y'"
  by (auto simp: key_inv_def same_offer_def offered_def)

lemma same_offer_ops:
  "same_offer m (snd (check_begin manual now m))" "same_offer m (snd (CheckNow now m))"
  "same_offer m (snd (StartApply f m))" "same_offer m (snd (snd (apply_staged v err stopping m)))"
  "same_offer m (snd (snd (await_poll v rerun res removed elapsed tried m)))"
  "same_offer m (snd (run_arm jitter now seen m))" "same_offer m (setNextCheck d now m)"
  by (auto simp: same_offer_def check_begin_def CheckNow_def StartApply_def apply_staged_def await_poll_def run_arm_def
      setNextCheck_def setPhase_def manager_fail_def Let_def split: option.split sum.split prod.split)

lemma publish_only:
  "call \<in> set (fst (snd (apply_staged v err stopping m))) \<Longrightarrow> call_keys call = {}"
  "call \<in> set (fst (snd (await_poll v rerun res removed elapsed tried m))) \<Longrightarrow> call_keys call = {}"
  by (auto simp: apply_staged_def await_poll_def manager_fail_def Let_def split: option.splits sum.splits if_splits)

lemma check_end_offer:
  assumes "check_end fetched raised now m = (lines, calls, r, m')" "mg_available m \<longrightarrow> offered m"
  shows "mg_enabled m' = mg_enabled m \<and> mg_running m' = mg_running m \<and> (\<not> mg_enabled m \<longrightarrow> mg_latest m' = mg_latest m) \<and>
    (mg_available m' \<longrightarrow> offered m') \<and>
    (\<forall>A. (AvailableKey \<in> A \<longleftrightarrow> mg_available m) \<longrightarrow> (AvailableKey \<in> calls_effect calls A \<longleftrightarrow> mg_available m')) \<and>
    (\<forall>call \<in> set calls. call_keys call \<subseteq> {AvailableKey})"
proof -
  have key: "AvailableKey \<noteq> ''''" "n_Key (available_onset x rel) = AvailableKey" for x rel
    by (simp_all add: AvailableKey_def available_onset_def)
  show ?thesis
  proof (cases "\<not> mg_enabled m \<or> mg_cancelCheck m = Some True")
    case True
    then have "calls = []" "m' = m\<lparr>mg_cancelCheck := None\<rparr>"
      using assms(1) by (auto simp: check_end_def Let_def)
    then show ?thesis using assms(2) by (auto simp: offered_def)
  next
    case on: False
    show ?thesis
    proof (cases fetched)
      case (Inl err)
      then show ?thesis using assms on
        by (auto simp: check_end_def Let_def check_notice_def check_failed_def offered_def split: if_splits)
    next
      case (Inr rel)
      show ?thesis
      proof (cases "Newer (rl_Version rel) (mg_running m)")
        case (Inl e)
        then show ?thesis using assms on Inr
          by (auto simp: check_end_def Let_def check_failed_def offered_def split: if_splits)
      next
        case new: (Inr newer)
        then show ?thesis using assms on Inr key
          by (cases newer; cases raised)
            (auto simp: check_end_def Let_def check_success_def offered_def split: if_splits)
      qed
    qed
  qed
qed

lemma key_inv_step:
  assumes "key_inv A y"
  shows "\<exists>calls. ms_calls (manager_step op y) = ms_calls y @ calls \<and> key_inv (calls_effect calls A) (manager_step op y) \<and>
    (\<forall>call \<in> set calls. call_keys call \<subseteq> {AvailableKey})"
proof -
  have quiet: ?thesis if "ms_calls (manager_step op y) = ms_calls y" "key_inv A (manager_step op y)"
    using that by (intro exI[of _ "[]"]) simp
  have loud: ?thesis if "ms_calls (manager_step op y) = ms_calls y @ calls"
      "\<forall>call \<in> set calls. call_keys call = {}" "same_offer (ms_mgr y) (ms_mgr (manager_step op y))"
      "ms_turning (manager_step op y) = ms_turning y" for calls
  proof -
    have "AvailableKey \<in> calls_effect calls A \<longleftrightarrow> AvailableKey \<in> A" using that(2) by (intro calls_effect_other) auto
    with same_offer_inv[OF assms that(3,4)] that(1,2) show ?thesis by (intro exI[of _ calls]) auto
  qed
  show ?thesis
  proof (cases op)
    case (MSwap on)
    then show ?thesis using assms
      by (intro quiet) (auto simp: key_inv_def apply_swap_def Let_def offered_def)
  next
    case MOff
    show ?thesis
    proof (cases "ms_turning y")
      case True
      then show ?thesis using assms MOff
        by (intro exI[of _ "[PResolve AvailableKey ''Update checks turned off'']"])
          (auto simp: emits_def apply_off_def key_inv_def)
    qed (use MOff assms in \<open>auto intro: quiet\<close>)
  next
    case (MCheckBegin manual now)
    then show ?thesis using assms by (intro quiet) (auto intro!: same_offer_inv[OF assms] same_offer_ops)
  next
    case (MCheckEnd fetched raised now)
    show ?thesis
    proof (cases "mg_cancelCheck (ms_mgr y) = None")
      case False
      obtain lines calls r m where e: "check_end fetched raised now (ms_mgr y) = (lines, calls, r, m)" by (metis prod_cases4)
      have "mg_available (ms_mgr y) \<longrightarrow> offered (ms_mgr y)" using assms by (simp add: key_inv_def)
      note fin = check_end_offer[OF e this]
      have y': "manager_step op y = y\<lparr>ms_mgr := m, ms_calls := ms_calls y @ calls\<rparr>"
        using False by (auto simp: MCheckEnd e emits_def)
      have "AvailableKey \<in> calls_effect calls A \<longleftrightarrow> mg_available m" using fin assms by (simp add: key_inv_def)
      then have "key_inv (calls_effect calls A) (manager_step op y)"
        using fin assms unfolding key_inv_def y' by simp
      then show ?thesis using fin y' by (intro exI[of _ calls]) simp
    qed (use MCheckEnd assms in \<open>auto intro: quiet\<close>)
  next
    case (MStart f)
    then show ?thesis using assms same_offer_ops(3)[of "ms_mgr y" f]
      by (intro quiet) (auto split: prod.split option.split intro!: same_offer_inv[OF assms])
  next
    case (MStaged err stopping)
    show ?thesis
    proof (cases "\<exists>v tried as. ms_attempts y = (v, False, tried) # as")
      case True
      then obtain v tried as where a: "ms_attempts y = (v, False, tried) # as" by blast
      then show ?thesis using same_offer_ops(4)[of "ms_mgr y" v err stopping] publish_only(1)[of _ v err stopping "ms_mgr y"]
        by (intro loud[of "fst (snd (apply_staged v err stopping (ms_mgr y)))"])
          (auto simp: MStaged emits_def case_prod_unfold)
    next
      case False
      then have "manager_step op y = y" using MStaged by (auto split: list.split prod.split bool.split)
      then show ?thesis using assms quiet by simp
    qed
  next
    case (MPoll res removed elapsed)
    show ?thesis
    proof (cases "\<exists>v tried as. ms_attempts y = (v, True, tried) # as")
      case True
      then obtain v tried as where a: "ms_attempts y = (v, True, tried) # as" by blast
      then show ?thesis using same_offer_ops(5)[of "ms_mgr y" v "''''" res removed elapsed tried]
          publish_only(2)[of _ v "''''" res removed elapsed tried "ms_mgr y"]
        by (intro loud[of "fst (snd (await_poll v '''' res removed elapsed tried (ms_mgr y)))"])
          (auto simp: MPoll emits_def case_prod_unfold)
    next
      case False
      then have "manager_step op y = y" using MPoll by (auto split: list.split prod.split bool.split)
      then show ?thesis using assms quiet by simp
    qed
  next
    case (MArm jitter now)
    then show ?thesis using assms same_offer_ops(6)[of "ms_mgr y" jitter now "ms_seen y"]
      by (intro quiet) (auto simp: case_prod_unfold intro!: same_offer_inv[OF assms])
  next
    case (MRearm jitter r now)
    then show ?thesis using assms by (intro quiet) (auto intro!: same_offer_inv[OF assms] same_offer_ops)
  qed
qed

lemma key_inv_run:
  assumes "AvailableKey \<notin> A0"
  shows "let y = manager_run running errText ops; A = calls_effect (ms_calls y) A0 in
    key_inv A y \<and> (\<forall>k. k \<noteq> AvailableKey \<longrightarrow> (k \<in> A) = (k \<in> A0))"
proof -
  have "\<exists>calls. ms_calls (fold manager_step ops y) = ms_calls y @ calls \<and>
      key_inv (calls_effect calls A) (fold manager_step ops y) \<and> (\<forall>call \<in> set calls. call_keys call \<subseteq> {AvailableKey})"
    if "key_inv A y" for y A
    using that
  proof (induction ops arbitrary: y A)
    case (Cons op ops)
    obtain c1 where 1: "ms_calls (manager_step op y) = ms_calls y @ c1" "key_inv (calls_effect c1 A) (manager_step op y)"
        "\<forall>call \<in> set c1. call_keys call \<subseteq> {AvailableKey}" using key_inv_step[OF Cons.prems] by blast
    from Cons.IH[OF 1(2)] obtain c2 where "ms_calls (fold manager_step ops (manager_step op y)) = ms_calls (manager_step op y) @ c2"
        "key_inv (calls_effect c2 (calls_effect c1 A)) (fold manager_step ops (manager_step op y))"
        "\<forall>call \<in> set c2. call_keys call \<subseteq> {AvailableKey}" by blast
    with 1 show ?case by (intro exI[of _ "c1 @ c2"]) auto
  qed (auto intro: exI[of _ "[]"])
  moreover have "key_inv A0 \<lparr>ms_mgr = NewManager running errText, ms_turning = False, ms_attempts = [], ms_seen = 0, ms_calls = []\<rparr>"
    using assms by (simp add: key_inv_def NewManager_def)
  ultimately obtain calls where c: "ms_calls (manager_run running errText ops) = calls"
      "key_inv (calls_effect calls A0) (manager_run running errText ops)" "\<forall>call \<in> set calls. call_keys call \<subseteq> {AvailableKey}"
    unfolding manager_run_def by fastforce
  have "k \<in> calls_effect calls A0 \<longleftrightarrow> k \<in> A0" if "k \<noteq> AvailableKey" for k
    using c(3) that by (intro calls_effect_other) blast
  with c show ?thesis by (simp add: Let_def)
qed

text \<open>
  C27. However checks, settings changes, manual checks and update attempts interleave, the
  condition "update available" is active in the notification center exactly while the manager
  offers an update, an update is only offered for a release newer than the running build, and
  none is once checks are off; no other condition is touched.
\<close>
theorem the_available_condition_mirrors_the_manager:
  assumes "AvailableKey \<notin> active_keys c" "y = manager_run running errText ops"
    "concat (map snd batches) = ms_calls y"
  shows "active_keys (center_pub.run enc batches c) =
      active_keys c \<union> (if mg_available (ms_mgr y) then {AvailableKey} else {}) \<and>
    (if mg_available (ms_mgr y) then offered (ms_mgr y) else True) \<and>
    (if mg_enabled (ms_mgr y) \<or> ms_turning y then True else \<not> mg_available (ms_mgr y))"
proof -
  let ?A = "calls_effect (ms_calls y) (active_keys c)"
  have inv: "key_inv ?A y" "\<And>k. k \<noteq> AvailableKey \<Longrightarrow> k \<in> ?A \<longleftrightarrow> k \<in> active_keys c"
    using key_inv_run[OF assms(1), of running errText ops] by (simp_all add: assms(2) Let_def)
  have "active_keys (center_pub.run enc batches c) = ?A"
    by (simp add: center_pub.active_run assms(3))
  also have "\<dots> = active_keys c \<union> (if mg_available (ms_mgr y) then {AvailableKey} else {})"
  proof (intro set_eqI)
    fix k show "k \<in> ?A \<longleftrightarrow> k \<in> active_keys c \<union> (if mg_available (ms_mgr y) then {AvailableKey} else {})"
      using inv assms(1) by (cases "k = AvailableKey") (simp_all add: key_inv_def)
  qed
  finally show ?thesis using inv(1) by (auto simp: key_inv_def offered_def)
qed

section \<open>A stopped check records nothing\<close>

lemma in_flight_step:
  assumes "mg_cancelCheck (ms_mgr y) \<noteq> None" "\<forall>f r now. op \<noteq> MCheckEnd f r now"
  shows "mg_cancelCheck (ms_mgr (manager_step op y)) \<noteq> None \<and>
    (mg_cancelCheck (ms_mgr y) = Some True \<longrightarrow> mg_cancelCheck (ms_mgr (manager_step op y)) = Some True)"
proof -
  have "mg_cancelCheck (snd (StartApply f m)) = mg_cancelCheck m"
    "mg_cancelCheck (snd (snd (apply_staged v err stopping m))) = mg_cancelCheck m"
    "mg_cancelCheck (snd (snd (await_poll v rerun res removed elapsed tried m))) = mg_cancelCheck m"
    "mg_cancelCheck (snd (run_arm jitter now seen m)) = mg_cancelCheck m" "mg_cancelCheck (setNextCheck d now m) = mg_cancelCheck m"
    for f m v err stopping rerun res removed elapsed tried jitter now seen d
    by (auto simp: StartApply_def apply_staged_def await_poll_def run_arm_def setNextCheck_def setPhase_def manager_fail_def
        Let_def split: option.split sum.split prod.split)
  note keep = this
  show ?thesis
  proof (cases op)
    case (MStart f)
    then show ?thesis using assms(1) keep(1)[of f "ms_mgr y"] by (auto split: prod.split option.split)
  next
    case (MStaged err stopping)
    then show ?thesis using assms(1) keep(2)
      by (auto simp: emits_def case_prod_unfold split: list.split bool.split)
  next
    case (MPoll res removed elapsed)
    then show ?thesis using assms(1) keep(3)
      by (auto simp: emits_def case_prod_unfold split: list.split bool.split)
  next
    case (MArm jitter now)
    then show ?thesis using assms(1) keep(4) by (simp add: case_prod_unfold)
  qed (use assms keep in \<open>auto simp: apply_swap_def Let_def emits_def apply_off_def cancel_def\<close>)
qed

text \<open>Once checks are being or have been turned off, the fetch in flight is dropped.\<close>

definition dropped :: "manager_sys \<Rightarrow> bool" where [inv_defs]:
  "dropped y \<longleftrightarrow> mg_cancelCheck (ms_mgr y) = Some True \<or>
     mg_cancelCheck (ms_mgr y) \<noteq> None \<and> \<not> mg_enabled (ms_mgr y) \<and> ms_turning y"

lemma turning_step:
  "\<not> mg_enabled (ms_mgr y) \<Longrightarrow> ms_turning y \<Longrightarrow>
     mg_cancelCheck (ms_mgr y) \<noteq> None \<Longrightarrow> \<forall>f r now. op \<noteq> MCheckEnd f r now \<Longrightarrow> dropped (manager_step op y)"
proof -
  assume y: "\<not> mg_enabled (ms_mgr y)" "ms_turning y" "mg_cancelCheck (ms_mgr y) \<noteq> None"
    and op: "\<forall>f r now. op \<noteq> MCheckEnd f r now"
  show ?thesis
  proof (cases "op = MOff")
    case True
    then show ?thesis using y by (auto simp: dropped_def emits_def apply_off_def cancel_def)
  next
    case False
    have "mg_enabled (ms_mgr (manager_step op y)) = mg_enabled (ms_mgr y) \<and> ms_turning (manager_step op y)"
    proof (cases op)
      case (MStart f)
      then show ?thesis using y same_offer_ops(3)[of "ms_mgr y" f]
        by (auto simp: same_offer_def split: prod.split option.split)
    next
      case (MStaged err stopping)
      then show ?thesis using y same_offer_ops(4)[of "ms_mgr y" _ err stopping]
        by (auto simp: same_offer_def emits_def case_prod_unfold split: list.split bool.split)
    next
      case (MPoll res removed elapsed)
      then show ?thesis using y same_offer_ops(5)[of "ms_mgr y" _ "''''" res removed elapsed]
        by (auto simp: same_offer_def emits_def case_prod_unfold split: list.split bool.split)
    next
      case (MArm jitter now)
      then show ?thesis using y same_offer_ops(6)[of "ms_mgr y" jitter now] by (simp add: same_offer_def case_prod_unfold)
    qed (use y op False in \<open>auto simp: setNextCheck_def\<close>)
    then show ?thesis using y in_flight_step[OF y(3) op] by (simp add: dropped_def)
  qed
qed

lemma dropped_step: "dropped y \<Longrightarrow> \<forall>f r now. op \<noteq> MCheckEnd f r now \<Longrightarrow> dropped (manager_step op y)"
  using in_flight_step[of y op] turning_step[of y op] unfolding dropped_def by fastforce

lemma not_ending: "(\<forall>f r now. op \<noteq> MCheckEnd f r now) \<longleftrightarrow> (case op of MCheckEnd f r now \<Rightarrow> False | _ \<Rightarrow> True)"
  by (cases op) auto

lemma enabled_step:
  assumes "mg_enabled (ms_mgr y)" "\<not> ms_turning y" "op \<noteq> MSwap False"
  shows "mg_enabled (ms_mgr (manager_step op y)) \<and> \<not> ms_turning (manager_step op y)"
proof (cases op)
  case (MStart f)
  then show ?thesis using assms same_offer_ops(3)[of "ms_mgr y" f]
    by (auto simp: same_offer_def split: prod.split option.split)
next
  case (MStaged err stopping)
  then show ?thesis using assms same_offer_ops(4)[of "ms_mgr y" _ err stopping]
    by (auto simp: same_offer_def emits_def case_prod_unfold split: list.split bool.split)
next
  case (MPoll res removed elapsed)
  then show ?thesis using assms same_offer_ops(5)[of "ms_mgr y" _ "''''" res removed elapsed]
    by (auto simp: same_offer_def emits_def case_prod_unfold split: list.split bool.split)
next
  case (MArm jitter now)
  then show ?thesis using assms same_offer_ops(6)[of "ms_mgr y" jitter now] by (simp add: same_offer_def case_prod_unfold)
next
  case (MCheckBegin manual now)
  then show ?thesis using assms same_offer_ops(1,2)[of "ms_mgr y"] by (simp add: same_offer_def)
next
  case (MCheckEnd f r now)
  obtain lines calls res m where e: "check_end f r now (ms_mgr y) = (lines, calls, res, m)" by (metis prod_cases4)
  have "mg_enabled m = mg_enabled (ms_mgr y)"
    using e by (auto simp: check_end_def check_failed_def check_notice_def check_success_def Let_def
        split: if_splits sum.splits prod.splits)
  then show ?thesis using assms by (simp add: MCheckEnd e emits_def)
qed (use assms in \<open>auto simp: apply_swap_def setNextCheck_def Let_def\<close>)

text \<open>
  A check that was in flight when checks were turned off records nothing: whatever happens
  until its fetch returns, checks being turned on again included, its outcome changes neither the
  manager (its cancel function is dropped) nor a notification.
\<close>
theorem a_stopped_check_records_nothing:
  assumes "mg_cancelCheck (ms_mgr y) \<noteq> None" "mg_enabled (ms_mgr y)" "\<not> ms_turning y"
    and "MSwap False \<in> set ops" "list_all (\<lambda>op. case op of MCheckEnd f r now \<Rightarrow> False | _ \<Rightarrow> True) ops"
    and y': "y' = fold manager_step ops y"
  shows "manager_step (MCheckEnd fetched raised now) y' = y'\<lparr>ms_mgr := (ms_mgr y')\<lparr>mg_cancelCheck := None\<rparr>\<rparr>"
proof -
  have "dropped (fold manager_step ops y)" if "dropped y" "list_all (\<lambda>op. case op of MCheckEnd f r now \<Rightarrow> False | _ \<Rightarrow> True) ops"
    for y ops
    using that by (induction ops arbitrary: y) (simp_all add: dropped_step not_ending)
  moreover obtain pre post where ops: "ops = pre @ MSwap False # post" "MSwap False \<notin> set pre"
    using split_list_first[OF assms(4)] by blast
  have "mg_enabled (ms_mgr (fold manager_step pre y)) \<and> \<not> ms_turning (fold manager_step pre y) \<and>
      mg_cancelCheck (ms_mgr (fold manager_step pre y)) \<noteq> None"
    using assms(1-3,5) ops(2) unfolding ops(1)
  proof (induction pre arbitrary: y)
    case (Cons op pre)
    from Cons.prems have "\<forall>f r now. op \<noteq> MCheckEnd f r now" by (simp add: not_ending)
    moreover have "op \<noteq> MSwap False" using Cons.prems by auto
    ultimately show ?case using Cons enabled_step[of y op] in_flight_step[of y op] by simp
  qed simp
  then have "dropped (manager_step (MSwap False) (fold manager_step pre y))"
    by (simp add: dropped_def apply_swap_def Let_def)
  ultimately have d: "dropped y'" using assms(5) by (simp add: y' ops(1))
  then obtain b where b: "mg_cancelCheck (ms_mgr y') = Some b" "b \<or> \<not> mg_enabled (ms_mgr y')"
    by (auto simp: dropped_def)
  then have "check_end fetched raised now (ms_mgr y') =
      ([], [], \<lparr>cr_failures = mg_failures (ms_mgr y'), cr_pending = False\<rparr>, (ms_mgr y')\<lparr>mg_cancelCheck := None\<rparr>)"
    by (auto simp: check_end_def Let_def)
  then show ?thesis by (simp add: b emits_def)
qed

section \<open>One attempt at a time\<close>

definition attempt_inv :: "manager_sys \<Rightarrow> bool" where [inv_defs]:
  "attempt_inv y \<longleftrightarrow>
     (case ms_attempts y of
        [] \<Rightarrow> mg_phase (ms_mgr y) \<in> {PhaseIdle, PhaseFailed} \<and> mg_cancelApply (ms_mgr y) = None
      | [(v, staged, tried)] \<Rightarrow>
          mg_phase (ms_mgr y) = (if staged then PhaseInstalling else PhaseDownloading) \<and>
          (mg_cancelApply (ms_mgr y) = None \<longleftrightarrow> staged)
      | _ \<Rightarrow> False)"

definition same_attempt :: "manager \<Rightarrow> manager \<Rightarrow> bool" where
  "same_attempt m m' \<longleftrightarrow> mg_phase m' = mg_phase m \<and> (mg_cancelApply m' = None \<longleftrightarrow> mg_cancelApply m = None)"

lemma attempt_frame:
  "attempt_inv y \<Longrightarrow> same_attempt (ms_mgr y) (ms_mgr y') \<Longrightarrow> ms_attempts y' = ms_attempts y \<Longrightarrow> attempt_inv y'"
  by (auto simp: attempt_inv_def same_attempt_def split: list.splits)

lemma same_attempt_ops:
  "same_attempt m (apply_swap on m)" "same_attempt m (snd (apply_off m))"
  "same_attempt m (snd (check_begin manual now m))" "same_attempt m (snd (CheckNow now m))"
  "same_attempt m (snd (run_arm jitter now seen m))" "same_attempt m (setNextCheck d now m)"
  by (auto simp: same_attempt_def apply_swap_def apply_off_def cancel_def check_begin_def CheckNow_def run_arm_def
      setNextCheck_def Let_def)

lemma check_end_attempt: "check_end fetched raised now m = (lines, calls, r, m') \<Longrightarrow> same_attempt m m'"
  by (auto simp: check_end_def check_failed_def check_notice_def check_success_def same_attempt_def Let_def
      split: if_splits sum.splits prod.splits)

lemma StartApply_cases:
  assumes "StartApply f m = (r, m')"
  obtains (no) e where "r = Some e" "m' = m"
  | (yes) rel where "r = None" "mg_latest m = Some rel" "m' = m\<lparr>mg_phase := PhaseDownloading,
        mg_phaseMsg := ''Downloading '' @ rl_Version rel, mg_cancelApply := Some False\<rparr>"
      "mg_phase m \<notin> {PhaseDownloading, PhaseInstalling}" "mg_available m" "mg_enabled m"
      "fd_CanApply f" "\<not> fd_InFlight f" "\<not> fd_Journal f"
proof (cases "\<not> fd_CanApply f \<or> \<not> mg_enabled m \<or> mg_phase m = PhaseDownloading \<or> mg_phase m = PhaseInstalling \<or>
    fd_InFlight f \<or> fd_Journal f")
  case True
  then show thesis using assms no by (auto simp: StartApply_def split: if_splits)
next
  case False
  then show thesis
  proof (cases "mg_latest m")
    case None
    with False assms have "r = Some ErrNoUpdate" "m' = m" by (simp_all add: StartApply_def)
    then show thesis by (rule no)
  next
    case (Some rel)
    show thesis
    proof (cases "mg_available m")
      case True
      with False assms Some show thesis by (intro yes[of rel]) (auto simp: StartApply_def)
    next
      case unavailable: False
      with False assms Some have "r = Some ErrNoUpdate" "m' = m" by (auto simp: StartApply_def)
      then show thesis by (rule no)
    qed
  qed
qed

lemma attempt_inv_step:
  assumes "attempt_inv y"
  shows "attempt_inv (manager_step op y)"
proof (cases op)
  case (MCheckEnd fetched raised now)
  obtain lines calls r m where e: "check_end fetched raised now (ms_mgr y) = (lines, calls, r, m)" by (metis prod_cases4)
  then show ?thesis using assms check_end_attempt[OF e]
    by (auto simp: MCheckEnd emits_def intro!: attempt_frame[OF assms])
next
  case (MStart f)
  obtain r m' where e: "StartApply f (ms_mgr y) = (r, m')" by (metis prod.exhaust)
  then show ?thesis
  proof (cases rule: StartApply_cases)
    case (yes rel)
    then have "ms_attempts y = []" using assms by (auto simp: attempt_inv_def split: list.splits if_splits)
    then show ?thesis using MStart yes e by (simp add: attempt_inv_def)
  qed (use assms MStart e in simp)
next
  case (MStaged err stopping)
  show ?thesis
  proof (cases "\<exists>v tried. ms_attempts y = [(v, False, tried)]")
    case True
    then obtain v tried where a: "ms_attempts y = [(v, False, tried)]" by blast
    then show ?thesis
      by (auto simp: MStaged emits_def attempt_inv_def apply_staged_def setPhase_def manager_fail_def Let_def
          split: option.split)
  next
    case False
    then have "manager_step op y = y" using MStaged assms by (auto simp: attempt_inv_def split: list.splits bool.splits)
    then show ?thesis using assms by simp
  qed
next
  case (MPoll res removed elapsed)
  show ?thesis
  proof (cases "\<exists>v tried. ms_attempts y = [(v, True, tried)]")
    case True
    then obtain v tried where a: "ms_attempts y = [(v, True, tried)]" by blast
    then show ?thesis using assms
      by (auto simp: MPoll emits_def attempt_inv_def await_poll_def setPhase_def manager_fail_def
          split: option.split sum.split)
  next
    case False
    then have "manager_step op y = y" using MPoll assms by (auto simp: attempt_inv_def split: list.splits bool.splits)
    then show ?thesis using assms by simp
  qed
qed (use assms in \<open>auto simp: emits_def case_prod_unfold intro!: attempt_frame[OF assms] same_attempt_ops\<close>)

text \<open>
  C28. At most one update attempt is under way, and the phase shown tells where it stands:
  downloading until it is staged, installing until the outcome is known, idle or failed with
  none; and an attempt starts only when checks are on, for the newer release on offer, with
  nothing in flight on disk and no install journal left by an updater.
\<close>
theorem one_attempt_at_a_time:
  assumes "y = manager_run running errText ops"
  shows "(case mg_phase (ms_mgr y) of
      PhaseDownloading \<Rightarrow> \<exists>v tried. ms_attempts y = [(v, False, tried)]
    | PhaseInstalling \<Rightarrow> \<exists>v tried. ms_attempts y = [(v, True, tried)]
    | _ \<Rightarrow> ms_attempts y = []) \<and>
    (case StartApply f (ms_mgr y) of
       (None, m) \<Rightarrow> ms_attempts y = [] \<and> mg_enabled (ms_mgr y) \<and> offered (ms_mgr y) \<and> fd_CanApply f \<and>
         \<not> fd_InFlight f \<and> \<not> fd_Journal f
     | (Some e, m) \<Rightarrow> m = ms_mgr y)"
proof -
  let ?y0 = "\<lparr>ms_mgr = NewManager running errText, ms_turning = False, ms_attempts = [], ms_seen = 0, ms_calls = []\<rparr>"
  have "attempt_inv (fold manager_step ops z)" if "attempt_inv z" for z
    using that by (induction ops arbitrary: z) (simp_all add: attempt_inv_step)
  moreover have "attempt_inv ?y0" by (simp add: attempt_inv_def NewManager_def)
  ultimately have inv: "attempt_inv y" by (simp add: assms manager_run_def)
  have avail: "mg_available (ms_mgr y) \<longrightarrow> offered (ms_mgr y)"
    using key_inv_run[of "{}" running errText ops] by (simp add: assms key_inv_def Let_def)
  have phase: "case mg_phase (ms_mgr y) of
      PhaseDownloading \<Rightarrow> \<exists>v tried. ms_attempts y = [(v, False, tried)]
    | PhaseInstalling \<Rightarrow> \<exists>v tried. ms_attempts y = [(v, True, tried)]
    | _ \<Rightarrow> ms_attempts y = []"
    using inv by (auto simp: attempt_inv_def split: list.splits phase.splits if_splits)
  obtain r m' where e: "StartApply f (ms_mgr y) = (r, m')" by (metis prod.exhaust)
  then have "case r of None \<Rightarrow> ms_attempts y = [] \<and> mg_enabled (ms_mgr y) \<and> offered (ms_mgr y) \<and> fd_CanApply f \<and>
         \<not> fd_InFlight f \<and> \<not> fd_Journal f | Some e \<Rightarrow> m' = ms_mgr y" using avail phase
    by (cases rule: StartApply_cases) (auto split: phase.splits)
  with phase show ?thesis by (simp only: e) (auto split: option.splits)
qed

section \<open>The schedule\<close>

lemma back_off_closed: "0 < d \<Longrightarrow> d \<le> checkInterval \<Longrightarrow> back_off n d = min checkInterval (2 ^ n * d)"
proof (induction n arbitrary: d)
  case (Suc n)
  show ?case
  proof (cases "2 * d \<ge> checkInterval")
    case True
    moreover have "1 * (2 * d) \<le> 2 ^ n * (2 * d)" using Suc.prems by (intro mult_right_mono) simp_all
    ultimately show ?thesis by (simp add: Let_def min_def)
  next
    case False
    then show ?thesis using Suc by (simp add: Let_def mult.assoc mult.left_commute)
  qed
qed simp

text \<open>
  C38. The delay before the next check is an hour while the newest release has no update
  information, within an hour of a day after a success, and after the k-th failure in a row it is
  2^(k-1) hours, capped at a day.
\<close>
theorem the_back_off_doubles_up_to_a_day:
  assumes "0 \<le> jitter (2 * checkJitter)" "jitter (2 * checkJitter) < 2 * checkJitter"
  shows "if cr_pending r then nextCheck r jitter = hour
    else if cr_failures r = 0 then 23 * hour \<le> nextCheck r jitter \<and> nextCheck r jitter < 25 * hour
    else nextCheck r jitter = min (24 * hour) (2 ^ (cr_failures r - 1) * hour)"
proof -
  have "0 < retryFirst" "retryFirst \<le> checkInterval"
    by (simp_all add: retryFirst_def checkInterval_def hour_def duration_defs)
  then show ?thesis using assms
    by (auto simp: nextCheck_def back_off_closed retryPending_def checkInterval_def checkJitter_def retryFirst_def)
qed

section \<open>Concrete runs\<close>

definition demo_fetch :: "check_error + release" where
  "demo_fetch = Inr \<lparr>rl_Version = ''v1.2.3'', rl_NotesURL = ''u''\<rparr>"

definition demo_checks_on :: "manager_op list" where
  "demo_checks_on = [MSwap True, MCheckBegin False second, MCheckEnd demo_fetch True (2 * second)]"

lemma demo_newer: "Newer ''v1.2.3'' ''v1.2.2'' = Inr True"
  by code_simp

lemma demo_offer: "mg_available (ms_mgr (manager_run ''v1.2.2'' e demo_checks_on)) \<and>
    mg_enabled (ms_mgr (manager_run ''v1.2.2'' e demo_checks_on)) \<and>
    mg_phase (ms_mgr (manager_run ''v1.2.2'' e demo_checks_on)) = PhaseIdle \<and>
    mg_latest (ms_mgr (manager_run ''v1.2.2'' e demo_checks_on)) = Some \<lparr>rl_Version = ''v1.2.3'', rl_NotesURL = ''u''\<rparr>"
  by (simp add: demo_checks_on_def demo_fetch_def manager_run_def NewManager_def apply_swap_def check_begin_def
      check_end_def check_success_def emits_def demo_newer available_onset_def Let_def)

theorem the_available_condition_mirrors_the_manager_witness:
  "\<exists>c batches. concat (map snd batches) = ms_calls (manager_run ''v1.2.2'' (\<lambda>_. '''') demo_checks_on) \<and>
     AvailableKey \<in> active_keys (center_pub.run (\<lambda>_. None) batches c)"
proof -
  let ?y = "manager_run ''v1.2.2'' (\<lambda>_. '''') demo_checks_on"
  have c: "AvailableKey \<notin> active_keys (NewCenter [] ''b'' 1)"
    by (simp add: active_keys_def NewCenter_def Let_def)
  have b: "concat (map snd [(1 :: instant, ms_calls ?y)]) = ms_calls ?y" by simp
  from the_available_condition_mirrors_the_manager[OF c refl b, of "\<lambda>_. None"] demo_offer[of "\<lambda>_. ''''"]
  have "AvailableKey \<in> active_keys (center_pub.run (\<lambda>_. None) [(1, ms_calls ?y)] (NewCenter [] ''b'' 1))"
    by simp
  with b show ?thesis by blast
qed

theorem a_stopped_check_records_nothing_witness:
  "\<exists>y y'. y' = fold manager_step [MSwap False, MOff, MSwap True] y \<and> mg_enabled (ms_mgr y') \<and>
     manager_step (MCheckEnd demo_fetch True 5) y' = y'\<lparr>ms_mgr := (ms_mgr y')\<lparr>mg_cancelCheck := None\<rparr>\<rparr>"
proof -
  let ?y = "manager_run ''v1.2.2'' (\<lambda>_. '''') [MSwap True, MCheckBegin False second]"
  let ?ops = "[MSwap False, MOff, MSwap True]"
  have y: "mg_cancelCheck (ms_mgr ?y) \<noteq> None" "mg_enabled (ms_mgr ?y)" "\<not> ms_turning ?y"
    by (simp_all add: manager_run_def NewManager_def apply_swap_def check_begin_def Let_def)
  have on: "mg_enabled (ms_mgr (fold manager_step ?ops ?y))"
    using y by (simp add: apply_swap_def emits_def apply_off_def Let_def)
  have "manager_step (MCheckEnd demo_fetch True 5) (fold manager_step ?ops ?y) =
      (fold manager_step ?ops ?y)\<lparr>ms_mgr := (ms_mgr (fold manager_step ?ops ?y))\<lparr>mg_cancelCheck := None\<rparr>\<rparr>"
    by (rule a_stopped_check_records_nothing[OF y _ _ refl]) simp_all
  with on show ?thesis by blast
qed

theorem one_attempt_at_a_time_witness:
  "case StartApply \<lparr>fd_CanApply = True, fd_InFlight = False, fd_Journal = False\<rparr>
      (ms_mgr (manager_run ''v1.2.2'' (\<lambda>_. '''') demo_checks_on)) of
     (None, m) \<Rightarrow> offered (ms_mgr (manager_run ''v1.2.2'' (\<lambda>_. '''') demo_checks_on))
   | (Some e, m) \<Rightarrow> False"
  using one_attempt_at_a_time[of "manager_run ''v1.2.2'' (\<lambda>_. '''') demo_checks_on" "''v1.2.2''" "\<lambda>_. ''''"
      demo_checks_on "\<lparr>fd_CanApply = True, fd_InFlight = False, fd_Journal = False\<rparr>", OF refl] demo_offer[of "\<lambda>_. ''''"]
  by (auto simp: StartApply_def split: option.splits prod.splits if_splits)

theorem the_back_off_doubles_up_to_a_day_witness:
  "nextCheck \<lparr>cr_failures = 3, cr_pending = False\<rparr> (\<lambda>_. 0) = 4 * hour"
proof -
  have j: "(0 :: duration) \<le> (\<lambda>_. 0) (2 * checkJitter)" "(\<lambda>_. 0) (2 * checkJitter) < 2 * checkJitter"
    by (simp_all add: checkJitter_def hour_def duration_defs)
  show ?thesis
    using the_back_off_doubles_up_to_a_day[OF j, of "\<lparr>cr_failures = 3, cr_pending = False\<rparr>"]
    by (simp add: hour_def duration_defs)
qed

end
