(* ===== verification/Mgmt_Config.thy ===== *)
theory Mgmt_Config
  imports Config_Validate Notify_Center
begin

text \<open>
  \<open>internal/mgmtserver/config.go\<close>: the configuration endpoints of the management API. The wire types
  (\<open>internal/mgmtapi\<close>), the mapping to and from the configuration, the merge of a partial update, the
  file-backed store, and the whole \<open>PATCH /config\<close> handler, which persists an accepted update,
  enforces the token and reports what the reload did. Whether a save and a reload succeed are inputs.
\<close>

section \<open>Wire types\<close>

text \<open>\<open>Opus\<close> is an optional object with an optional bitrate.\<close>

record streamConfig =
  ws_Path :: string
  ws_Mode :: string
  ws_Channels :: "int list"
  ws_Opus :: "int option option"

record deviceConfig =
  wd_Name :: string
  wd_Device :: string
  wd_Format :: string
  wd_Rate :: int
  wd_Path :: string
  wd_Mode :: string
  wd_Channels :: "int list"
  wd_Opus :: "int option option"
  wd_Streams :: "streamConfig list option"
  wd_Enabled :: "bool option"
  wd_QuietAlert :: "bool option"

record audioAlertSettings =
  wa_QuietDbfs :: "int option"
  wa_QuietSeconds :: "int option"
  wa_ZeroSeconds :: "int option"
  wa_ClipPercent :: "int option"
  wa_ClipWindowSeconds :: "int option"

record hostAlertSettings =
  wh_CpuPercent :: "int option"
  wh_CpuClearPercent :: "int option"
  wh_TempCelsius :: "int option"
  wh_TempClearCelsius :: "int option"
  wh_DiskPercent :: "int option"
  wh_DiskClearPercent :: "int option"
  wh_MemFreePercent :: "int option"
  wh_MemFreeMiB :: "int option"

record notificationSettings =
  wn_Enabled :: "bool option"
  wn_Audio :: "audioAlertSettings option"
  wn_Host :: "hostAlertSettings option"

text \<open>The discovery, auth and updates blocks have one optional field each.\<close>

record configPatch =
  cp_Discovery :: "bool option option"
  cp_Auth :: "string option option"
  cp_Notifications :: "notificationSettings option"
  cp_Updates :: "bool option option"
  cp_Devices :: "deviceConfig list option"

record wireConfig =
  wc_Listen :: string
  wc_Discovery :: "bool option"
  wc_ManagementEnabled :: "bool option"
  wc_ManagementListen :: "string option"
  wc_ManagementCertDir :: "string option"
  wc_Auth :: "string option"
  wc_Notifications :: notificationSettings
  wc_Updates :: "bool option"
  wc_Devices :: "deviceConfig list"

section \<open>To the wire\<close>

definition mapMode :: "string \<Rightarrow> string" where
  "mapMode m = (if m = ModeOpus then ''opus'' else ''pcm'')"

definition streamConfigToWire :: "stream \<Rightarrow> streamConfig" where
  "streamConfigToWire s = \<lparr>ws_Path = s_Path s, ws_Mode = mapMode (s_Mode s), ws_Channels = s_Channels s,
     ws_Opus = (if s_Mode s = ModeOpus then Some (Some (s_Bitrate s)) else None)\<rparr>"

definition firstStream :: "device \<Rightarrow> streamConfig option" where
  "firstStream d = (if length (d_Streams d) = 0 then None else Some (streamConfigToWire (d_Streams d ! 0)))"

definition deviceConfigToWire :: "device \<Rightarrow> deviceConfig" where
  "deviceConfigToWire d =
     (let out = \<lparr>wd_Name = d_Name d, wd_Device = d_Device d, wd_Format = d_Format d, wd_Rate = d_Rate d,
                 wd_Path = '''', wd_Mode = '''', wd_Channels = [], wd_Opus = None, wd_Streams = None,
                 wd_Enabled = None, wd_QuietAlert = None\<rparr>;
          out = (case firstStream d of
                   Some flat \<Rightarrow> out\<lparr>wd_Path := ws_Path flat, wd_Mode := ws_Mode flat,
                                  wd_Channels := ws_Channels flat, wd_Opus := ws_Opus flat\<rparr>
                 | None \<Rightarrow> out)
      in out\<lparr>wd_Streams := Some (map streamConfigToWire (d_Streams d)),
             wd_Enabled := Some (IsEnabled d), wd_QuietAlert := Some (QuietAlertEnabled d)\<rparr>)"

text \<open>The thresholds are read through their pointers; a nil one panics.\<close>

definition notificationsToWire :: "config \<Rightarrow> notificationSettings option" where
  "notificationsToWire c =
     (let a = nt_Audio (c_Notifications c); h = nt_Host (c_Notifications c) in
      if None \<in> {aa_QuietDbfs a, aa_QuietSeconds a, aa_ZeroSeconds a, aa_ClipPercent a, aa_ClipWindowSeconds a,
           ha_CPUPercent h, ha_CPUClearPercent h, ha_TempCelsius h, ha_TempClearCelsius h,
           ha_DiskPercent h, ha_DiskClearPercent h, ha_MemFreePercent h, ha_MemFreeMiB h}
      then None
      else Some
        \<lparr>wn_Enabled = Some (NotificationsEnabled c),
         wn_Audio = Some \<lparr>wa_QuietDbfs = aa_QuietDbfs a, wa_QuietSeconds = aa_QuietSeconds a,
            wa_ZeroSeconds = aa_ZeroSeconds a, wa_ClipPercent = aa_ClipPercent a,
            wa_ClipWindowSeconds = aa_ClipWindowSeconds a\<rparr>,
         wn_Host = Some \<lparr>wh_CpuPercent = ha_CPUPercent h, wh_CpuClearPercent = ha_CPUClearPercent h,
            wh_TempCelsius = ha_TempCelsius h, wh_TempClearCelsius = ha_TempClearCelsius h,
            wh_DiskPercent = ha_DiskPercent h, wh_DiskClearPercent = ha_DiskClearPercent h,
            wh_MemFreePercent = ha_MemFreePercent h, wh_MemFreeMiB = ha_MemFreeMiB h\<rparr>\<rparr>)"

definition configToWire :: "config \<Rightarrow> wireConfig option" where
  "configToWire c =
     (case notificationsToWire c of
        None \<Rightarrow> None
      | Some n \<Rightarrow> Some
          \<lparr>wc_Listen = c_Listen c, wc_Discovery = Some (DiscoveryEnabled c),
           wc_ManagementEnabled = Some (ManagementEnabled c),
           wc_ManagementListen = (let l = mg_Listen (c_Management c) in if l \<noteq> '''' then Some l else None),
           wc_ManagementCertDir = (let d = mg_CertDir (c_Management c) in if d \<noteq> '''' then Some d else None),
           wc_Auth = Some (c_Token c), wc_Notifications = n, wc_Updates = Some (UpdateCheckEnabled c),
           wc_Devices = map deviceConfigToWire (c_Devices c)\<rparr>)"

section \<open>From the wire\<close>

definition wireStreamToConfig :: "streamConfig \<Rightarrow> stream" where
  "wireStreamToConfig s = \<lparr>s_Path = ws_Path s, s_Mode = ws_Mode s, s_Channels = ws_Channels s,
     s_Bitrate = (case ws_Opus s of Some (Some b) \<Rightarrow> b | _ \<Rightarrow> 0)\<rparr>"

definition wireFlatToStream :: "deviceConfig \<Rightarrow> stream" where
  "wireFlatToStream d = \<lparr>s_Path = wd_Path d, s_Mode = wd_Mode d, s_Channels = wd_Channels d,
     s_Bitrate = (case wd_Opus d of Some (Some b) \<Rightarrow> b | _ \<Rightarrow> 0)\<rparr>"

definition wireDeviceToConfig :: "deviceConfig \<Rightarrow> device" where
  "wireDeviceToConfig d =
     \<lparr>d_Name = wd_Name d, d_Device = wd_Device d, d_Rate = wd_Rate d, d_Format = wd_Format d,
      d_Streams = (case wd_Streams d of
                     Some ss \<Rightarrow> map wireStreamToConfig ss | None \<Rightarrow> [wireFlatToStream d]),
      d_Enabled = wd_Enabled d, d_QuietAlert = wd_QuietAlert d\<rparr>"

definition deviceByName :: "device list \<Rightarrow> string \<Rightarrow> device option" where
  "deviceByName devs name = List.find (\<lambda>d. d_Name d = name) devs"

definition deviceByID :: "device list \<Rightarrow> string \<Rightarrow> device option" where
  "deviceByID devs devid = List.find (\<lambda>d. d_Device d = devid) devs"

definition wireHasName :: "deviceConfig list \<Rightarrow> string \<Rightarrow> bool" where
  "wireHasName wire name = list_ex (\<lambda>d. wd_Name d = name) wire"

text \<open>The multi-stream device a flat entry would collapse.\<close>

definition collapsed :: "device list \<Rightarrow> deviceConfig list \<Rightarrow> deviceConfig \<Rightarrow> device option" where
  "collapsed cur wire wd =
     (let byID = (case deviceByID cur (wd_Device wd) of
                    Some d \<Rightarrow> if length (d_Streams d) > 1 \<and> \<not> wireHasName wire (d_Name d) then Some d else None
                  | None \<Rightarrow> None)
      in if wd_Streams wd \<noteq> None then None
         else case deviceByName cur (wd_Name wd) of
                Some d \<Rightarrow> if length (d_Streams d) > 1 then Some d else byID
              | None \<Rightarrow> byID)"

fun patched_loop ::
  "device list \<Rightarrow> deviceConfig list \<Rightarrow> nat \<Rightarrow> deviceConfig list \<Rightarrow> validationError + device list" where
  "patched_loop cur wire i [] = Inr []"
| "patched_loop cur wire i (wd # wds) =
     (case collapsed cur wire wd of
        Some d \<Rightarrow> Inl \<lparr>ve_Field = ''devices['' @ nat_digits i @ ''].streams'',
          ve_Reason = ''device '' @ quote (d_Name d) @ '' has '' @ nat_digits (length (d_Streams d))
            @ '' streams; include streams to update it''\<rparr>
      | None \<Rightarrow>
          (case patched_loop cur wire (Suc i) wds of
             Inl e \<Rightarrow> Inl e
           | Inr devs \<Rightarrow> Inr (wireDeviceToConfig wd # devs)))"

definition patchedDevices :: "device list \<Rightarrow> deviceConfig list \<Rightarrow> validationError + device list" where
  "patchedDevices cur wire = patched_loop cur wire 0 wire"

section \<open>Merging a partial update\<close>

text \<open>A present field replaces the stored one.\<close>

definition overlay :: "'a option \<Rightarrow> 'a option \<Rightarrow> 'a option" where
  "overlay p cur = (case p of Some v \<Rightarrow> Some v | None \<Rightarrow> cur)"

definition mergeNotifications :: "notifications \<Rightarrow> notificationSettings \<Rightarrow> notifications" where
  "mergeNotifications dst p =
     (let dst = (case wn_Enabled p of Some v \<Rightarrow> dst\<lparr>nt_Enabled := Some v\<rparr> | None \<Rightarrow> dst);
          dst = (case wn_Audio p of
                   None \<Rightarrow> dst
                 | Some a \<Rightarrow> dst\<lparr>nt_Audio := (let d = nt_Audio dst in
                     \<lparr>aa_QuietDbfs = overlay (wa_QuietDbfs a) (aa_QuietDbfs d),
                      aa_QuietSeconds = overlay (wa_QuietSeconds a) (aa_QuietSeconds d),
                      aa_ZeroSeconds = overlay (wa_ZeroSeconds a) (aa_ZeroSeconds d),
                      aa_ClipPercent = overlay (wa_ClipPercent a) (aa_ClipPercent d),
                      aa_ClipWindowSeconds = overlay (wa_ClipWindowSeconds a) (aa_ClipWindowSeconds d)\<rparr>)\<rparr>)
      in case wn_Host p of
           None \<Rightarrow> dst
         | Some h \<Rightarrow> dst\<lparr>nt_Host := (let d = nt_Host dst in
             \<lparr>ha_CPUPercent = overlay (wh_CpuPercent h) (ha_CPUPercent d),
              ha_CPUClearPercent = overlay (wh_CpuClearPercent h) (ha_CPUClearPercent d),
              ha_TempCelsius = overlay (wh_TempCelsius h) (ha_TempCelsius d),
              ha_TempClearCelsius = overlay (wh_TempClearCelsius h) (ha_TempClearCelsius d),
              ha_DiskPercent = overlay (wh_DiskPercent h) (ha_DiskPercent d),
              ha_DiskClearPercent = overlay (wh_DiskClearPercent h) (ha_DiskClearPercent d),
              ha_MemFreePercent = overlay (wh_MemFreePercent h) (ha_MemFreePercent d),
              ha_MemFreeMiB = overlay (wh_MemFreeMiB h) (ha_MemFreeMiB d)\<rparr>)\<rparr>)"

definition mergeBlocks :: "config \<Rightarrow> configPatch \<Rightarrow> config" where
  "mergeBlocks dst p =
     (let dst = (case cp_Discovery p of Some (Some v) \<Rightarrow> dst\<lparr>c_Discovery := Some v\<rparr> | _ \<Rightarrow> dst);
          dst = (case cp_Auth p of Some (Some t) \<Rightarrow> dst\<lparr>c_Token := t\<rparr> | _ \<Rightarrow> dst);
          dst = (case cp_Notifications p of
                   Some n \<Rightarrow> dst\<lparr>c_Notifications := mergeNotifications (c_Notifications dst) n\<rparr>
                 | None \<Rightarrow> dst)
      in case cp_Updates p of Some (Some v) \<Rightarrow> dst\<lparr>c_UpdatesCheck := Some v\<rparr> | _ \<Rightarrow> dst)"

definition validateWrite :: "config \<Rightarrow> config \<Rightarrow> validationError option" where
  "validateWrite c prev = (case Validate c of Some e \<Rightarrow> Some e | None \<Rightarrow> ValidateLengths c (Some prev))"

section \<open>The store\<close>

text \<open>\<open>fs_disk\<close>: the configuration the file holds; a save that fails leaves it as it was.\<close>

record fileConfigStore =
  fs_cfg :: config
  fs_disk :: config

definition store_Update ::
  "(config \<Rightarrow> 'e + config) \<Rightarrow> (string \<Rightarrow> 'e) \<Rightarrow> string option \<Rightarrow> fileConfigStore \<Rightarrow> 'e option \<times> fileConfigStore" where
  "store_Update mutate persist save s =
     (case mutate (fs_cfg s) of
        Inl e \<Rightarrow> (Some e, s)
      | Inr next' \<Rightarrow>
          (case save of
             Some e \<Rightarrow> (Some (persist e), s)
           | None \<Rightarrow> (None, s\<lparr>fs_disk := next', fs_cfg := next'\<rparr>)))"

section \<open>The endpoints\<close>

text \<open>
  The server as these endpoints see it: without a store, a guard, a notifier or a reloader the
  corresponding step is skipped. A reload is indeterminate when the request was cancelled or timed
  out while it waited.
\<close>

record server =
  sv_store :: "fileConfigStore option"
  sv_guard :: "guard option"
  sv_notifier :: bool
  sv_reloader :: bool

datatype reload_result = Reloaded | Indeterminate string | NotReloaded string

datatype response =
    GotConfig wireConfig
  | Patched wireConfig bool
  | Invalid validationError
  | PersistFailed string
  | NotImplemented
  | Panicked

definition configRestartKey :: string where "configRestartKey = ''config:restart''"

definition GetConfig :: "server \<Rightarrow> response" where
  "GetConfig sv =
     (case sv_store sv of
        None \<Rightarrow> NotImplemented
      | Some s \<Rightarrow> (case configToWire (fs_cfg s) of None \<Rightarrow> Panicked | Some w \<Rightarrow> GotConfig w))"

definition AuthChangedNotification :: "bool \<Rightarrow> bool \<Rightarrow> notification" where
  "AuthChangedNotification wasEnabled nowEnabled =
     (let msg = (if \<not> wasEnabled \<and> nowEnabled
                 then ''Access token enabled; the RTSP stream and the management API now require it''
                 else if wasEnabled \<and> \<not> nowEnabled
                 then ''Access token disabled; the RTSP stream and the management API are now open on the network''
                 else ''Access token rotated; streaming clients must reconnect with the new token'')
      in zero_notification\<lparr>n_Severity := SeverityInfo, n_Category := CategoryConfig, n_Kind := KindEvent,
           n_Title := ''Access control changed'', n_Message := msg\<rparr>)"

definition ClearRestartRequired :: "pub_call list" where
  "ClearRestartRequired = [PClear configRestartKey (zero_notification\<lparr>n_Severity := SeverityInfo,
     n_Title := ''Restart no longer required'',
     n_Message := ''The configuration was applied live, so the pending restart is no longer needed.''\<rparr>)]"

definition reloadFailed :: "string \<Rightarrow> notification" where
  "reloadFailed err = zero_notification\<lparr>n_Severity := SeverityError, n_Category := CategoryConfig,
     n_Kind := KindEvent, n_Title := ''Config reload failed'',
     n_Message := ''Configuration was saved but could not be applied live: '' @ err
       @ ''; a restart is needed to apply it''\<rparr>"

definition restartRequired :: notification where
  "restartRequired = zero_notification\<lparr>n_Severity := SeverityWarning, n_Category := CategoryConfig,
     n_Key := configRestartKey, n_Title := ''Restart required'',
     n_Message := ''A configuration change was saved but needs a restart to take effect''\<rparr>"

text \<open>What an update may fail with.\<close>

datatype update_failure = UInvalid validationError | UPersist string

definition patch_mutate :: "configPatch \<Rightarrow> config \<Rightarrow> update_failure + config" where
  "patch_mutate p prev =
     (let cur = mergeBlocks prev p in
      case (case cp_Devices p of
              None \<Rightarrow> Inr (c_Devices cur)
            | Some wire \<Rightarrow> patchedDevices (c_Devices cur) wire) of
        Inl e \<Rightarrow> Inl (UInvalid e)
      | Inr devs \<Rightarrow>
          let cur = ApplyDefaults (cur\<lparr>c_Devices := devs\<rparr>) in
          case validateWrite cur prev of Some e \<Rightarrow> Inl (UInvalid e) | None \<Rightarrow> Inr cur)"

text \<open>After the update: the token is enforced, with a notification when it changed.\<close>

definition enforce_token :: "bool \<Rightarrow> string \<Rightarrow> guard option \<Rightarrow> pub_call list \<times> guard option" where
  "enforce_token notifier token g =
     (case g of
        None \<Rightarrow> ([], None)
      | Some g0 \<Rightarrow>
          (let (wasEnabled, genBefore) = guard_Snapshot (Some g0);
               g1 = guard_Set token g0;
               (nowEnabled, genAfter) = guard_Snapshot (Some g1)
           in (if genAfter \<noteq> genBefore \<and> notifier
               then [PPublish (AuthChangedNotification wasEnabled nowEnabled)] else [], Some g1)))"

text \<open>The reload, with what it publishes, and whether a restart is required.\<close>

definition reload_calls :: "server \<Rightarrow> reload_result \<Rightarrow> pub_call list \<times> bool" where
  "reload_calls sv r =
     (let restart = (\<lambda>calls. calls @ (if sv_notifier sv then [POnset restartRequired] else [])) in
      if \<not> sv_reloader sv then (restart [], True)
      else case r of
        Reloaded \<Rightarrow> (if sv_notifier sv then ClearRestartRequired else [], False)
      | Indeterminate err \<Rightarrow> ([], True)
      | NotReloaded err \<Rightarrow> (restart (if sv_notifier sv then [PPublish (reloadFailed err)] else []), True))"

definition PatchConfig ::
  "configPatch option \<Rightarrow> string option \<Rightarrow> reload_result \<Rightarrow> server \<Rightarrow> response \<times> pub_call list \<times> server" where
  "PatchConfig patch save r sv =
     (case sv_store sv of
        None \<Rightarrow> (NotImplemented, [], sv)
      | Some s \<Rightarrow>
          (case patch of
             None \<Rightarrow> (case configToWire (fs_cfg s) of None \<Rightarrow> Panicked | Some w \<Rightarrow> Patched w False, [], sv)
           | Some p \<Rightarrow>
               if cp_Discovery p = None \<and> cp_Auth p = None \<and> cp_Notifications p = None \<and> cp_Updates p = None \<and>
                  cp_Devices p = None
               then (case configToWire (fs_cfg s) of None \<Rightarrow> Panicked | Some w \<Rightarrow> Patched w False, [], sv)
               else (case store_Update (patch_mutate p) UPersist save s of
                 (Some (UInvalid e), s) \<Rightarrow> (Invalid e, [], sv)
               | (Some (UPersist e), s) \<Rightarrow> (PersistFailed e, [], sv)
               | (None, s) \<Rightarrow>
                   (case enforce_token (sv_notifier sv) (c_Token (fs_cfg s)) (sv_guard sv) of
                      (auth, g) \<Rightarrow>
                        (case reload_calls sv r of
                           (calls, restart) \<Rightarrow>
                             (case configToWire (fs_cfg s) of None \<Rightarrow> Panicked | Some w \<Rightarrow> Patched w restart,
                              auth @ calls, sv\<lparr>sv_store := Some s, sv_guard := g\<rparr>))))))"

section \<open>Streams a client cannot see\<close>

lemma find_by_key:
  assumes "distinct (map f xs)"
  shows "List.find (\<lambda>x. f x = k) xs = Some x \<longleftrightarrow> x \<in> set xs \<and> f x = k"
  using assms by (induction xs) (auto simp: image_iff)

lemma collapsed_None:
  assumes "distinct (map d_Name cur)" "distinct (map d_Device cur)"
  shows "collapsed cur wire wd = None \<longleftrightarrow>
    (wd_Streams wd = None \<longrightarrow> (\<forall>d \<in> set cur. length (d_Streams d) > 1 \<longrightarrow>
       wd_Name wd \<noteq> d_Name d \<and> (wd_Device wd = d_Device d \<longrightarrow> wireHasName wire (d_Name d))))"
proof -
  have name: "deviceByName cur n = Some d \<longleftrightarrow> d \<in> set cur \<and> d_Name d = n" for n d
    unfolding deviceByName_def by (rule find_by_key[OF assms(1)])
  have devid: "deviceByID cur i = Some d \<longleftrightarrow> d \<in> set cur \<and> d_Device d = i" for i d
    unfolding deviceByID_def by (rule find_by_key[OF assms(2)])
  have none: "deviceByName cur n = None \<longleftrightarrow> (\<forall>d \<in> set cur. d_Name d \<noteq> n)"
    "deviceByID cur i = None \<longleftrightarrow> (\<forall>d \<in> set cur. d_Device d \<noteq> i)" for n i
    by (auto simp: deviceByName_def deviceByID_def find_None_iff)
  let ?byID = "case deviceByID cur (wd_Device wd) of
      Some d \<Rightarrow> if length (d_Streams d) > 1 \<and> \<not> wireHasName wire (d_Name d) then Some d else None | None \<Rightarrow> None"
  have byID: "?byID = None \<longleftrightarrow> (\<forall>d \<in> set cur. length (d_Streams d) > 1 \<longrightarrow> wd_Device wd = d_Device d \<longrightarrow>
      wireHasName wire (d_Name d))"
  proof (cases "deviceByID cur (wd_Device wd)")
    case None
    then have "\<forall>d \<in> set cur. d_Device d \<noteq> wd_Device wd" using none(2) by blast
    with None show ?thesis by simp metis
  next
    case (Some a)
    have eq: "a = d \<longleftrightarrow> d \<in> set cur \<and> d_Device d = wd_Device wd" for d
      using devid[of "wd_Device wd" d] Some by simp
    have a: "a \<in> set cur" "d_Device a = wd_Device wd" using eq[of a] by simp_all
    have "(\<forall>d \<in> set cur. length (d_Streams d) > 1 \<longrightarrow> wd_Device wd = d_Device d \<longrightarrow> wireHasName wire (d_Name d)) \<longleftrightarrow>
        (length (d_Streams a) > 1 \<longrightarrow> wireHasName wire (d_Name a))"
      using a eq by metis
    then show ?thesis using Some by simp
  qed
  define B where "B = ?byID"
  have c: "collapsed cur wire wd = (if wd_Streams wd \<noteq> None then None else case deviceByName cur (wd_Name wd) of
      Some d \<Rightarrow> if length (d_Streams d) > 1 then Some d else B | None \<Rightarrow> B)"
    unfolding collapsed_def Let_def B_def by (rule refl)
  note byID = byID[folded B_def]
  show ?thesis
  proof (cases "deviceByName cur (wd_Name wd)")
    case None
    then have "\<forall>d \<in> set cur. wd_Name wd \<noteq> d_Name d" using none(1) by metis
    with None byID show ?thesis by (auto simp: c)
  next
    case (Some a)
    have eq: "a = d \<longleftrightarrow> d \<in> set cur \<and> d_Name d = wd_Name wd" for d
      using name[of "wd_Name wd" d] Some by simp
    have "(\<forall>d \<in> set cur. length (d_Streams d) > 1 \<longrightarrow> wd_Name wd \<noteq> d_Name d) \<longleftrightarrow> \<not> length (d_Streams a) > 1"
      using eq by metis
    with Some byID show ?thesis by (auto simp: c)
  qed
qed

lemma patched_loop_Inr:
  "patched_loop cur wire i wds = Inr devs \<longleftrightarrow>
     (\<forall>wd \<in> set wds. collapsed cur wire wd = None) \<and> devs = map wireDeviceToConfig wds"
proof (induction wds arbitrary: i devs)
  case (Cons wd wds)
  show ?case
    using Cons.IH[of "Suc i" "map wireDeviceToConfig wds"] Cons.IH[of "Suc i" "tl devs"]
    by (cases "collapsed cur wire wd"; cases "patched_loop cur wire (Suc i) wds") auto
qed auto

text \<open>
  C10. A device list in the form of a client that knows one stream per device never drops streams
  the client cannot see: a patch is accepted exactly when no entry without streams names a device
  that has several, nor takes its id while the patch lists that device with no streams of its
  own; and it then maps every entry, in order.
\<close>
theorem no_stream_is_dropped_unseen:
  assumes "distinct (map d_Name cur)" "distinct (map d_Device cur)"
  shows "patchedDevices cur wire = Inr devs \<longleftrightarrow>
    devs = map wireDeviceToConfig wire \<and>
    (\<forall>d \<in> set cur. \<forall>wd \<in> set wire. length (d_Streams d) > 1 \<and> wd_Streams wd = None \<longrightarrow>
       wd_Name wd \<noteq> d_Name d \<and>
       (wd_Device wd = d_Device d \<longrightarrow> (\<exists>w \<in> set wire. wd_Name w = d_Name d \<and> wd_Streams w \<noteq> None)))"
  unfolding patchedDevices_def patched_loop_Inr collapsed_None[OF assms] wireHasName_def list_ex_iff
  by blast

section \<open>Reading and writing back\<close>

text \<open>What a read materializes: the flags as concrete values; a PCM stream carries no Opus settings.\<close>

definition written_stream :: "stream \<Rightarrow> stream" where
  "written_stream s = (if s_Mode s = ModeOpus then s else s\<lparr>s_Bitrate := 0\<rparr>)"

definition written_device :: "device \<Rightarrow> device" where
  "written_device d = d\<lparr>d_Enabled := Some (IsEnabled d), d_QuietAlert := Some (QuietAlertEnabled d),
     d_Streams := map written_stream (d_Streams d)\<rparr>"

definition written_back :: "config \<Rightarrow> config" where
  "written_back c = c\<lparr>c_Discovery := Some (DiscoveryEnabled c), c_UpdatesCheck := Some (UpdateCheckEnabled c),
     c_Notifications := (c_Notifications c)\<lparr>nt_Enabled := Some (NotificationsEnabled c)\<rparr>,
     c_Devices := map written_device (c_Devices c)\<rparr>"

definition patch_of :: "wireConfig \<Rightarrow> configPatch" where
  "patch_of w = \<lparr>cp_Discovery = Some (wc_Discovery w), cp_Auth = Some (wc_Auth w),
     cp_Notifications = Some (wc_Notifications w), cp_Updates = Some (wc_Updates w),
     cp_Devices = Some (wc_Devices w)\<rparr>"

lemma mode_roundtrip: "s_Mode s \<in> {ModePCM, ModeOpus} \<Longrightarrow> mapMode (s_Mode s) = s_Mode s"
  by (auto simp: mapMode_def ModePCM_def ModeOpus_def)

lemma wire_stream_roundtrip:
  "s_Mode s \<in> {ModePCM, ModeOpus} \<Longrightarrow> wireStreamToConfig (streamConfigToWire s) = written_stream s"
  by (auto simp: wireStreamToConfig_def streamConfigToWire_def written_stream_def mode_roundtrip)

lemma device_roundtrip:
  assumes "\<forall>s \<in> set (d_Streams d). s_Mode s \<in> {ModePCM, ModeOpus}"
  shows "wireDeviceToConfig (deviceConfigToWire d) = written_device d"
  using assms wire_stream_roundtrip
  by (auto simp: wireDeviceToConfig_def deviceConfigToWire_def written_device_def Let_def split: option.split)

lemma written_flags [simp]:
  "DiscoveryEnabled (written_back c) = DiscoveryEnabled c" "UpdateCheckEnabled (written_back c) = UpdateCheckEnabled c"
  "NotificationsEnabled (written_back c) = NotificationsEnabled c" "ManagementEnabled (written_back c) = ManagementEnabled c"
  "IsEnabled (written_device d) = IsEnabled d" "QuietAlertEnabled (written_device d) = QuietAlertEnabled d"
  by (auto simp: written_back_def written_device_def DiscoveryEnabled_def UpdateCheckEnabled_def
      NotificationsEnabled_def ManagementEnabled_def IsEnabled_def QuietAlertEnabled_def)

lemma written_fields [simp]:
  "s_Path (written_stream s) = s_Path s" "s_Mode (written_stream s) = s_Mode s"
  "s_Channels (written_stream s) = s_Channels s"
  "streamConfigToWire (written_stream s) = streamConfigToWire s"
  "c_Listen (written_back c) = c_Listen c" "c_Management (written_back c) = c_Management c"
  "c_Token (written_back c) = c_Token c" "c_Devices (written_back c) = map written_device (c_Devices c)"
  "d_Name (written_device d) = d_Name d" "d_Device (written_device d) = d_Device d"
  "d_Streams (written_device d) = map written_stream (d_Streams d)"
  by (auto simp: written_stream_def streamConfigToWire_def written_device_def written_back_def)

lemma written_device_to_wire: "deviceConfigToWire (written_device d) = deviceConfigToWire d"
proof -
  have "firstStream (written_device d) = firstStream d" by (simp add: firstStream_def)
  moreover have "d_Format (written_device d) = d_Format d" "d_Rate (written_device d) = d_Rate d"
    by (simp_all add: written_device_def)
  ultimately show ?thesis by (simp add: deviceConfigToWire_def Let_def comp_def)
qed

lemma written_back_to_wire: "configToWire (written_back c) = configToWire c"
proof -
  have "notificationsToWire (written_back c) = notificationsToWire c"
    by (simp add: notificationsToWire_def Let_def) (simp add: written_back_def)
  then show ?thesis
    by (cases "notificationsToWire c") (simp_all add: configToWire_def written_device_to_wire comp_def)
qed

lemma written_lists [simp]:
  "config_names (written_back c) = config_names c" "config_ids (written_back c) = config_ids c"
  "config_paths (written_back c) = config_paths c"
  by (simp_all add: config_names_def config_ids_def config_paths_def written_back_def comp_def)

lemma written_device_ok: "device_ok d \<Longrightarrow> device_ok (written_device d)"
proof -
  have "stream_ok rate s \<Longrightarrow> stream_ok rate (written_stream s)" for rate s
    unfolding stream_ok_def written_stream_def by (cases "s_Mode s = ModeOpus") simp_all
  then show "device_ok d \<Longrightarrow> device_ok (written_device d)"
    by (auto simp: device_ok_def written_device_def)
qed

lemma written_back_ok: "config_ok c \<Longrightarrow> config_ok (written_back c)"
proof -
  assume c: "config_ok c"
  have "\<forall>d \<in> set (c_Devices (written_back c)). device_ok d"
    using c written_device_ok by (auto simp: config_ok_def written_back_def)
  moreover have "notifications_ok (c_Notifications (written_back c))"
    using c by (simp add: config_ok_def notifications_ok_def written_back_def)
  ultimately show ?thesis
    using c by (simp add: config_ok_def)
qed

text \<open>A configuration is defaulted when applying the defaults changes nothing.\<close>

lemma defaulted_iff:
  "ApplyDefaults c = c \<longleftrightarrow> c_Listen c \<noteq> '''' \<and> mg_Listen (c_Management c) \<noteq> '''' \<and>
     (\<forall>d \<in> set (c_Devices c). default_device d = d) \<and> default_notifications (c_Notifications c) = c_Notifications c"
  (is "?L \<longleftrightarrow> ?R")
proof
  assume l: ?L
  have "c_Listen (ApplyDefaults c) \<noteq> ''''" "mg_Listen (c_Management (ApplyDefaults c)) \<noteq> ''''"
    "map default_device (c_Devices c) = map id (c_Devices (ApplyDefaults c))"
    "default_notifications (c_Notifications c) = c_Notifications (ApplyDefaults c)"
    by (simp_all add: ApplyDefaults_fields)
  then show ?R unfolding l map_eq_conv by simp
next
  assume r: ?R
  then have "map default_device (c_Devices c) = c_Devices c" by (simp add: map_idI)
  with r show ?L by (simp add: ApplyDefaults_def Let_def)
qed

lemma default_stream_id:
  "stream_ok rate s \<Longrightarrow> default_stream b s = s"
  by (intro stream.equality)
    (auto simp: default_stream_fields stream_ok_def path_ok_def HasPrefix_def ModePCM_def ModeOpus_def NormalizeChannels_id)

lemma default_device_id:
  assumes "device_ok d"
  shows "default_device d = d"
proof -
  have "map (default_stream b) (d_Streams d) = d_Streams d" for b
    using assms default_stream_id by (intro map_idI) (auto simp: device_ok_def)
  then show ?thesis using assms by (simp add: default_device_def Let_def device_ok_def)
qed

lemma default_notifications_enabled:
  "default_notifications (n\<lparr>nt_Enabled := b\<rparr>) = (default_notifications n)\<lparr>nt_Enabled := b\<rparr>"
  by (simp add: default_notifications_def)

lemma written_back_defaulted:
  assumes "config_ok c" "ApplyDefaults c = c"
  shows "ApplyDefaults (written_back c) = written_back c"
proof -
  have "\<forall>d \<in> set (c_Devices (written_back c)). default_device d = d"
    using written_back_ok[OF assms(1)] default_device_id by (auto simp: config_ok_def)
  moreover have "default_notifications (c_Notifications (written_back c)) = c_Notifications (written_back c)"
    using assms(2) unfolding defaulted_iff by (simp add: written_back_def default_notifications_enabled)
  ultimately show ?thesis
    using assms(2) unfolding defaulted_iff by (simp add: written_back_def)
qed

lemma overlay_same: "overlay p p = p" "overlay p (Some v) = Some (case p of Some u \<Rightarrow> u | None \<Rightarrow> v)"
  by (auto simp: overlay_def split: option.split)

lemma merge_own_notifications:
  assumes "notificationsToWire c = Some n"
  shows "mergeNotifications (c_Notifications c) n = (c_Notifications c)\<lparr>nt_Enabled := Some (NotificationsEnabled c)\<rparr>"
  using assms
  by (auto simp: notificationsToWire_def mergeNotifications_def Let_def overlay_same split: if_splits)

lemma fill_Some: "fill p def = Some (case p of Some v \<Rightarrow> v | None \<Rightarrow> def)"
  by (simp add: fill_def split: option.split)

lemma defaulted_readable:
  "c_Notifications c = default_notifications n \<Longrightarrow> \<exists>w. notificationsToWire c = Some w"
  by (simp add: notificationsToWire_def Let_def default_notifications_def fill_Some)

lemma readable:
  assumes "ApplyDefaults c = c"
  shows "\<exists>w. configToWire c = Some w"
proof -
  have "c_Notifications c = default_notifications (c_Notifications c)" using assms by (simp add: defaulted_iff)
  then obtain n where "notificationsToWire c = Some n" by (blast dest: defaulted_readable)
  then show ?thesis by (simp add: configToWire_def)
qed

lemma write_lengths_ok: "validateWrite (written_back c) c = Validate (written_back c)"
proof -
  have "ValidateLengths (written_back c) (Some c) = None"
    using lengths_cap_only_what_a_write_introduces[of "written_back c" c] by simp
  then show ?thesis by (simp add: validateWrite_def split: option.split)
qed

text \<open>
  C20. Writing back what a read returned changes nothing a reader can see: for a stored
  configuration, the read does not panic, and a patch made of everything it returned is accepted
  and stores the same configuration with its flags made explicit and the unused bitrate of PCM
  streams reset; the next read returns the same.
\<close>
theorem a_read_written_back_reads_the_same:
  assumes "Validate c = None" "ApplyDefaults c = c"
  shows "\<exists>w. configToWire c = Some w \<and> patch_mutate (patch_of w) c = Inr (written_back c) \<and>
    configToWire (written_back c) = Some w"
proof -
  have ok: "config_ok c" using assms(1) by (simp add: validation_iff)
  obtain w where w: "configToWire c = Some w" using readable[OF assms(2)] ..
  then obtain n where n: "notificationsToWire c = Some n" by (auto simp: configToWire_def split: option.splits)
  have modes: "\<forall>d \<in> set (c_Devices c). \<forall>s \<in> set (d_Streams d). s_Mode s \<in> {ModePCM, ModeOpus}"
    using ok by (auto simp: config_ok_def device_ok_def stream_ok_def)
  have "wd_Streams (deviceConfigToWire d) \<noteq> None" for d by (simp add: deviceConfigToWire_def Let_def split: option.split)
  then have "collapsed cur wire (deviceConfigToWire d) = None" for cur wire d by (simp add: collapsed_def Let_def)
  then have devs: "patchedDevices (c_Devices c) (wc_Devices w) = Inr (map written_device (c_Devices c))"
    using w n modes device_roundtrip
    by (auto simp: patchedDevices_def patched_loop_Inr configToWire_def)
  have "(mergeBlocks c (patch_of w))\<lparr>c_Devices := map written_device (c_Devices c)\<rparr> = written_back c"
    using w n merge_own_notifications[OF n]
    by (auto simp: mergeBlocks_def patch_of_def configToWire_def written_back_def Let_def)
  moreover have "c_Devices (mergeBlocks c (patch_of w)) = c_Devices c"
    using w n by (auto simp: mergeBlocks_def patch_of_def configToWire_def Let_def)
  moreover have "Validate (written_back c) = None" using written_back_ok[OF ok] by (simp add: validation_iff)
  ultimately have "patch_mutate (patch_of w) c = Inr (written_back c)"
    using devs written_back_defaulted[OF ok assms(2)]
    by (simp add: patch_mutate_def patch_of_def Let_def write_lengths_ok)
  then show ?thesis using w written_back_to_wire[of c] by simp
qed

section \<open>The branches of a patch\<close>

lemma patch_mutate_ok:
  "patch_mutate p c = Inr c' \<Longrightarrow> Validate c' = None \<and> ApplyDefaults c' = c'"
  by (auto simp: patch_mutate_def Let_def validateWrite_def ApplyDefaults_idem split: sum.splits option.splits)

definition empty_patch :: "configPatch \<Rightarrow> bool" where
  "empty_patch p \<longleftrightarrow> cp_Discovery p = None \<and> cp_Auth p = None \<and> cp_Notifications p = None \<and> cp_Updates p = None \<and>
     cp_Devices p = None"

text \<open>A patch is stored when it changes something, is valid, and is saved; else the server stays as it was.\<close>

lemma PatchConfig_cases:
  assumes "PatchConfig patch save r sv = (resp, calls, sv')"
  obtains (kept) "calls = []" "sv' = sv"
      "\<And>s p c'. sv_store sv = Some s \<Longrightarrow> patch = Some p \<Longrightarrow> \<not> empty_patch p \<Longrightarrow>
        patch_mutate p (fs_cfg s) = Inr c' \<Longrightarrow> save \<noteq> None"
  | (stored) s p c' auth g where "sv_store sv = Some s" "patch = Some p" "\<not> empty_patch p"
      "patch_mutate p (fs_cfg s) = Inr c'" "save = None"
      "enforce_token (sv_notifier sv) (c_Token c') (sv_guard sv) = (auth, g)"
      "calls = auth @ fst (reload_calls sv r)"
      "sv' = sv\<lparr>sv_store := Some (s\<lparr>fs_disk := c', fs_cfg := c'\<rparr>), sv_guard := g\<rparr>"
proof (cases "sv_store sv")
  case None
  with assms kept show thesis by (simp add: PatchConfig_def)
next
  case (Some s)
  show thesis
  proof (cases "\<exists>p. patch = Some p \<and> \<not> empty_patch p")
    case False
    with assms Some have "calls = []" "sv' = sv"
      by (auto simp: PatchConfig_def empty_patch_def split: option.splits if_splits)
    with False Some show thesis by (intro kept) auto
  next
    case True
    then obtain p where p: "patch = Some p" "\<not> empty_patch p" by blast
    have step: "PatchConfig patch save r sv =
        (case store_Update (patch_mutate p) UPersist save s of
           (Some (UInvalid e), s) \<Rightarrow> (Invalid e, [], sv)
         | (Some (UPersist e), s) \<Rightarrow> (PersistFailed e, [], sv)
         | (None, s) \<Rightarrow>
             (case enforce_token (sv_notifier sv) (c_Token (fs_cfg s)) (sv_guard sv) of
                (auth, g) \<Rightarrow>
                  (case reload_calls sv r of
                     (calls, restart) \<Rightarrow>
                       (case configToWire (fs_cfg s) of None \<Rightarrow> Panicked | Some w \<Rightarrow> Patched w restart,
                        auth @ calls, sv\<lparr>sv_store := Some s, sv_guard := g\<rparr>))))"
      using p Some unfolding PatchConfig_def empty_patch_def by (simp only: option.case if_False)
    show thesis
    proof (cases "patch_mutate p (fs_cfg s)")
      case (Inl e)
      with assms step Some p have "calls = []" "sv' = sv"
        by (auto simp: store_Update_def split: update_failure.splits)
      with Inl Some p show thesis by (intro kept) auto
    next
      case (Inr c')
      show thesis
      proof (cases save)
        case None
        obtain auth g where "enforce_token (sv_notifier sv) (c_Token c') (sv_guard sv) = (auth, g)" by fastforce
        with assms step Some p Inr None show thesis
          by (intro stored[of s p c' auth g]) (auto simp: store_Update_def case_prod_unfold)
      next
        case save: (Some e)
        with assms step Inr have "calls = []" "sv' = sv" by (auto simp: store_Update_def)
        with save show thesis by (intro kept) auto
      qed
    qed
  qed
qed

lemma enforce_token_Some:
  "enforce_token notifier t (Some g) =
     (if t \<noteq> guard_current (Some g) \<and> notifier
      then [PPublish (AuthChangedNotification (guard_current (Some g) \<noteq> '''') (t \<noteq> ''''))] else [],
      Some (guard_Set t g))"
  by (auto simp: enforce_token_def Snapshot_pair Generation_Set guard_Enabled_def)

section \<open>Concrete patches\<close>

definition demo_stream :: "string \<Rightarrow> stream" where
  "demo_stream path = \<lparr>s_Path = path, s_Mode = ModePCM, s_Channels = [1], s_Bitrate = 0\<rparr>"

definition demo_pair :: device where
  "demo_pair = \<lparr>d_Name = ''a'', d_Device = ''x'', d_Rate = 48000, d_Format = ''s16'',
     d_Streams = [demo_stream ''/l'', demo_stream ''/r''], d_Enabled = None, d_QuietAlert = None\<rparr>"

text \<open>The pair in the form of a client that sees one stream, under another name.\<close>

theorem no_stream_is_dropped_unseen_witness:
  "\<not> (\<exists>devs. patchedDevices [demo_pair] [(deviceConfigToWire demo_pair)\<lparr>wd_Name := ''b'', wd_Streams := None\<rparr>] = Inr devs) \<and>
   (\<exists>devs. patchedDevices [demo_pair] [deviceConfigToWire demo_pair] = Inr devs)"
proof -
  have "distinct (map d_Name [demo_pair])" "distinct (map d_Device [demo_pair])" by simp_all
  note iff = no_stream_is_dropped_unseen[OF this]
  show ?thesis unfolding iff
    by (simp add: demo_pair_def deviceConfigToWire_def Let_def firstStream_def)
qed

theorem a_read_written_back_reads_the_same_witness:
  "\<exists>w. configToWire Default = Some w \<and> patch_mutate (patch_of w) Default = Inr (written_back Default)"
proof -
  have "ApplyDefaults Default = Default" by (simp add: Default_def ApplyDefaults_idem)
  from a_read_written_back_reads_the_same[OF Default_valid this] show ?thesis by blast
qed

end
