(* ===== verification/Mgmt_Devices.thy ===== *)
theory Mgmt_Devices
  imports Complex_Main Mgmt_Config
begin

text \<open>
  \<open>internal/mgmtserver/devices.go\<close>: setting up a detected capture device and removing a configured one,
  with the choices made for a new device (its channel from a level measurement, its stream parameters,
  its name, its RTSP path), and the provider's views of the host's devices (\<open>cmd/remotemic/management.go\<close>).
  Capability lists, level measurements and random bytes are inputs.
\<close>

section \<open>Views of the host\<close>

record availableDevice =
  av_ID :: string
  av_HWAddr :: string
  av_IDStable :: bool
  av_FriendlyName :: string
  av_SupportedRates :: "int list"
  av_SupportedChannels :: "int list"

text \<open>
  What the provider holds at a moment: the last enumeration, and the ids the configuration owns, which
  before the first reconcile are those of the running devices.
\<close>

record provider =
  pv_detected :: "availableDevice list option"
  pv_configured :: "string list option"
  pv_devices :: "device list"

definition detected_list :: "provider \<Rightarrow> availableDevice list" where
  "detected_list p = (case pv_detected p of None \<Rightarrow> [] | Some l \<Rightarrow> l)"

definition configuredIDs :: "provider \<Rightarrow> string list" where
  "configuredIDs p = (case pv_configured p of Some ids \<Rightarrow> ids | None \<Rightarrow> map d_Device (pv_devices p))"

definition DetectedDevice :: "provider \<Rightarrow> string \<Rightarrow> availableDevice option" where
  "DetectedDevice p devid = List.find (\<lambda>d. av_ID d = devid) (detected_list p)"

definition AvailableDevices :: "provider \<Rightarrow> availableDevice list" where
  "AvailableDevices p = filter (\<lambda>d. \<not> List.member (configuredIDs p) (av_ID d)) (detected_list p)"

section \<open>The channel of a new device\<close>

text \<open>A float64 level in dBFS; the finite ones are taken as reals.\<close>

datatype level = NaN | NegInf | Fin real | PosInf

fun level_le :: "level \<Rightarrow> level \<Rightarrow> bool" where
  "level_le NaN y = False"
| "level_le x NaN = False"
| "level_le NegInf y = True"
| "level_le x PosInf = True"
| "level_le (Fin x) (Fin y) = (x \<le> y)"
| "level_le x y = False"

fun level_lt :: "level \<Rightarrow> level \<Rightarrow> bool" where
  "level_lt x y = (x \<noteq> NaN \<and> y \<noteq> NaN \<and> \<not> level_le y x)"

fun level_minus :: "level \<Rightarrow> real \<Rightarrow> level" where
  "level_minus (Fin x) d = Fin (x - d)"
| "level_minus l d = l"

definition channelTieDb :: real where "channelTieDb = 1"
definition channelSilenceDbfs :: level where "channelSilenceDbfs = Fin (- 80)"
definition channelProbeWidth :: int where "channelProbeWidth = MaxChannels"

definition top_level :: "level list \<Rightarrow> level" where
  "top_level levels = fold (\<lambda>l top. if l \<noteq> NaN \<and> level_lt top l then l else top) levels NegInf"

definition loudestChannel :: "level list \<Rightarrow> int" where
  "loudestChannel levels =
     (let top = top_level levels in
      if level_le top channelSilenceDbfs then 1
      else case List.find (\<lambda>(i, l). l \<noteq> NaN \<and> level_le (level_minus top channelTieDb) l) (enumerate 0 levels) of
             Some (i, l) \<Rightarrow> int i + 1
           | None \<Rightarrow> 1)"

definition add_width :: "int \<Rightarrow> int list \<Rightarrow> int list" where
  "add_width c widths =
     (let w = min c channelProbeWidth in if w \<ge> 2 \<and> \<not> List.member widths w then widths @ [w] else widths)"

definition probeWidths :: "int list \<Rightarrow> int list" where
  "probeWidths supported =
     (if length supported = 0 then [channelProbeWidth] else sort_key uminus (fold add_width supported []))"

section \<open>The stream parameters of a new device\<close>

record provisionRequest =
  pr_Device :: string
  pr_Name :: "string option"
  pr_Mode :: "string option"
  pr_Rate :: "int option"
  pr_Channels :: "int list option"

definition canOpus :: "availableDevice \<Rightarrow> bool" where
  "canOpus d = List.member (av_SupportedRates d) 48000"

definition preferRate :: "int list \<Rightarrow> int" where
  "preferRate supported =
     (if length supported = 0 \<or> List.member supported 48000 then 48000
      else fold (\<lambda>r best. if r > best then r else best) (tl supported) (supported ! 0))"

definition chooseParams :: "availableDevice \<Rightarrow> provisionRequest \<Rightarrow> int \<Rightarrow> string \<times> int \<times> int list" where
  "chooseParams d req preferred =
     (let mode = (case pr_Mode req of Some m \<Rightarrow> m | None \<Rightarrow> '''');
          rate = (case pr_Rate req of Some r \<Rightarrow> r | None \<Rightarrow> 0);
          channels = (case pr_Channels req of Some cs \<Rightarrow> NormalizeChannels cs | None \<Rightarrow> []);
          channels = (if length channels = 0 then [max 1 preferred] else channels);
          pcm_rate = (if rate = 0 then preferRate (av_SupportedRates d) else rate)
      in if mode = ModeOpus then (ModeOpus, 48000, channels)
         else if mode = ModePCM then (ModePCM, pcm_rate, channels)
         else if canOpus d \<and> (pr_Rate req = None \<or> pr_Rate req = Some 48000) \<and> length channels = 1
         then (ModeOpus, 48000, channels)
         else (ModePCM, pcm_rate, channels))"

text \<open>
  One measurement at a width: the levels, or an error with whether the probe's time is over.
\<close>

type_synonym channelProbe = "string \<Rightarrow> int \<Rightarrow> int \<Rightarrow> (string \<times> bool) + level list"

fun probe_loop :: "channelProbe \<Rightarrow> string \<Rightarrow> int \<Rightarrow> int list \<Rightarrow> int" where
  "probe_loop probe devid rate [] = 1"
| "probe_loop probe devid rate (width # widths) =
     (case probe devid rate width of
        Inr levels \<Rightarrow> loudestChannel (take (min (length levels) (nat width)) levels)
      | Inl (err, over) \<Rightarrow> if over then 1 else probe_loop probe devid rate widths)"

definition preferredChannel :: "channelProbe option \<Rightarrow> availableDevice \<Rightarrow> provisionRequest \<Rightarrow> int" where
  "preferredChannel channelProbe d req =
     (let widths = probeWidths (av_SupportedChannels d) in
      case channelProbe of
        None \<Rightarrow> 1
      | Some probe \<Rightarrow>
          if length widths = 0 then 1
          else case chooseParams d req 1 of (mode, rate, channels) \<Rightarrow>
            if rate < 8000 \<or> rate > 384000 then 1 else probe_loop probe (av_ID d) rate widths)"

section \<open>The name of a new device\<close>

text \<open>
  \<open>strings.ToLower\<close> as far as \<open>slug\<close> can tell: the two runes beyond ASCII that Go lowers to an ASCII
  letter are the Kelvin sign and the dotted capital I; the bytes of every other one stay beyond ASCII.
\<close>

fun slug_lower :: "string \<Rightarrow> string" where
  "slug_lower [] = []"
| "slug_lower (c # cs) =
     (if c = CHR 0xE2 \<and> take 2 cs = [CHR 0x84, CHR 0xAA] then CHR ''k'' # slug_lower (drop 2 cs)
      else if c = CHR 0xC4 \<and> take 1 cs = [CHR 0xB0] then CHR ''i'' # slug_lower (drop 1 cs)
      else lower_char c # slug_lower cs)"

definition slug_char :: "char \<Rightarrow> bool" where
  "slug_char c \<longleftrightarrow> CHR ''a'' \<le> c \<and> c \<le> CHR ''z'' \<or> CHR ''0'' \<le> c \<and> c \<le> CHR ''9''"

text \<open>The loop: what is written so far, and whether it ends with a hyphen. A rune of several bytes gives one.\<close>

fun slug_loop :: "string \<Rightarrow> string \<Rightarrow> bool \<Rightarrow> string" where
  "slug_loop [] b prevDash = b"
| "slug_loop (c # cs) b prevDash =
     (if slug_char c then slug_loop cs (b @ [c]) False
      else if \<not> prevDash \<and> length b > 0 then slug_loop cs (b @ ''-'') True
      else slug_loop cs b prevDash)"

definition slug :: "string \<Rightarrow> string" where
  "slug s = Trim (slug_loop (slug_lower s) [] False) ''-''"

definition nameSuffixReserve :: nat where "nameSuffixReserve = 8"

text \<open>The collision suffixes, from 2 on.\<close>

definition numbered :: "string \<Rightarrow> nat \<Rightarrow> string" where
  "numbered base i = base @ ''-'' @ nat_digits i"

lemma numbered_inj: "numbered base i = numbered base j \<longleftrightarrow> i = j"
  using nat_digits_inj[of i j] by (auto simp: numbered_def)

definition clashes :: "string \<Rightarrow> string list \<Rightarrow> nat \<Rightarrow> nat set" where
  "clashes base taken i = {j. i \<le> j \<and> numbered base j \<in> set taken}"

lemma clashes_finite: "finite (clashes base taken i)"
proof (rule finite_imageD)
  show "finite (numbered base ` clashes base taken i)"
    by (rule finite_subset[of _ "set taken"]) (auto simp: clashes_def)
  show "inj_on (numbered base) (clashes base taken i)"
    by (rule inj_onI) (simp add: numbered_inj)
qed

lemma clashes_step:
  "clashes base taken i =
     (if numbered base i \<in> set taken then insert i (clashes base taken (Suc i)) else clashes base taken (Suc i))"
  by (auto simp: clashes_def Suc_le_eq) (metis le_neq_implies_less)+

function unique_name :: "string \<Rightarrow> string list \<Rightarrow> nat \<Rightarrow> string \<Rightarrow> string" where
  "unique_name base taken i name =
     (if List.member taken name then unique_name base taken (Suc i) (numbered base i) else name)"
  by pat_completeness auto
termination
proof (relation "measure (\<lambda>(base, taken, i, name). card (clashes base taken i) + of_bool (List.member taken name))")
  fix base name :: string and taken i
  assume "List.member taken name"
  moreover have "i \<notin> clashes base taken (Suc i)" by (simp add: clashes_def)
  ultimately show "((base, taken, Suc i, numbered base i), (base, taken, i, name)) \<in>
      measure (\<lambda>(base, taken, i, name). card (clashes base taken i) + of_bool (List.member taken name))"
    using clashes_step[of base taken i] clashes_finite[of base taken "Suc i"]
    by (auto split: if_splits)
qed simp

declare unique_name.simps [simp del]

definition deriveName :: "string \<Rightarrow> string \<Rightarrow> string list \<Rightarrow> string" where
  "deriveName friendly devid taken =
     (let base = slug friendly;
          base = (if base = '''' then slug devid else base);
          base = (if base = '''' then ''device'' else base);
          limit = MaxNameLen - nameSuffixReserve;
          base = (if length base > limit then TrimRight (take limit base) ''-'' else base)
      in unique_name base taken 2 base)"

section \<open>The path of a new device\<close>

text \<open>
  The draws of the random source, eight bytes each; \<open>None\<close> is a failed read, which panics. The loop
  has no bound: \<open>None\<close> when every draw is taken.
\<close>

partial_function (option) randomPath ::
  "string list \<Rightarrow> (nat \<Rightarrow> u8 list option) \<Rightarrow> nat \<Rightarrow> string option option" where
  "randomPath taken randRead i =
     (case randRead i of
        None \<Rightarrow> Some None
      | Some buf \<Rightarrow>
          (let p = ''/'' @ hex_encode buf in
           if \<not> List.member taken p then Some (Some p) else randomPath taken randRead (Suc i)))"

declare randomPath.simps [code]

definition buildProvisionedDevice ::
  "(nat \<Rightarrow> u8 list option) \<Rightarrow> config \<Rightarrow> availableDevice \<Rightarrow> provisionRequest \<Rightarrow> int \<Rightarrow> device option option" where
  "buildProvisionedDevice randRead cur d req preferred =
     (let names = config_names cur; paths = config_paths cur;
          name = (case pr_Name req of Some n \<Rightarrow> TrimSpace n | None \<Rightarrow> '''');
          name = (if name = '''' then deriveName (av_FriendlyName d) (av_ID d) names else name);
          (mode, rate, channels) = chooseParams d req preferred
      in map_option (map_option (\<lambda>path.
           \<lparr>d_Name = name, d_Device = av_ID d, d_Rate = rate, d_Format = ''s16'',
            d_Streams = [\<lparr>s_Path = path, s_Mode = mode, s_Channels = channels, s_Bitrate = 0\<rparr>],
            d_Enabled = None, d_QuietAlert = None\<rparr>)) (randomPath paths randRead 0))"

section \<open>Setting up a device\<close>

text \<open>A device as \<open>GET /devices\<close> reports it, before it has any live state.\<close>

record wireDevice =
  we_Name :: string
  we_Device :: string
  we_Format :: string
  we_Rate :: int
  we_State :: string
  we_IdStable :: "bool option"
  we_Path :: string
  we_Mode :: string
  we_Channels :: "int list"
  we_Opus :: "int option option"
  we_StreamedChannels :: "int list option"

definition projectFirstStream :: "wireDevice \<Rightarrow> device \<Rightarrow> wireDevice" where
  "projectFirstStream out cfg =
     (case firstStream cfg of
        None \<Rightarrow> out
      | Some flat \<Rightarrow> out\<lparr>we_Path := ws_Path flat, we_Mode := ws_Mode flat, we_Channels := ws_Channels flat,
          we_Opus := ws_Opus flat, we_StreamedChannels := Some (StreamChannelUnion cfg)\<rparr>)"

definition configDeviceToWireDevice :: "device \<Rightarrow> wireDevice" where
  "configDeviceToWireDevice d = projectFirstStream
     \<lparr>we_Name = d_Name d, we_Device = d_Device d, we_Format = d_Format d, we_Rate = d_Rate d,
      we_State = ''skipped'', we_IdStable = Some (\<not> IsCardIndexID (d_Device d)),
      we_Path = '''', we_Mode = '''', we_Channels = [], we_Opus = None, we_StreamedChannels = None\<rparr> d"

text \<open>
  \<open>Created\<close>: the live state when the provider has it, else the persisted configuration. \<open>Unfinished\<close>:
  no answer, the handler panicked (\<open>True\<close>) or never returned.
\<close>

datatype provision_response =
    PNotImplemented | DeviceRequired | DeviceGone | AlreadyConfigured | AliasConflict | Cancelled
  | PInvalid validationError | PPersistFailed string
  | Created "wireDevice option" wireDevice
  | Unfinished bool

definition unavailable :: "provider \<Rightarrow> string \<Rightarrow> provision_response option" where
  "unavailable p devid =
     (if list_ex (\<lambda>d. av_ID d = devid) (AvailableDevices p) then None
      else if DetectedDevice p devid = None then Some DeviceGone else Some AliasConflict)"

datatype provision_failure = VExists | VInvalid validationError | VPersist string | VUnfinished bool

definition provision_mutate ::
  "(nat \<Rightarrow> u8 list option) \<Rightarrow> availableDevice \<Rightarrow> provisionRequest \<Rightarrow> int \<Rightarrow> config \<Rightarrow> provision_failure + config" where
  "provision_mutate randRead detected req preferred prev =
     (if list_ex (\<lambda>d. d_Device d = pr_Device req) (c_Devices prev) then Inl VExists
      else case buildProvisionedDevice randRead prev detected req preferred of
        None \<Rightarrow> Inl (VUnfinished False)
      | Some None \<Rightarrow> Inl (VUnfinished True)
      | Some (Some dev) \<Rightarrow>
          (let cur = ApplyDefaults (prev\<lparr>c_Devices := c_Devices prev @ [dev]\<rparr>) in
           case validateWrite cur prev of Some e \<Rightarrow> Inl (VInvalid e) | None \<Rightarrow> Inr cur))"

text \<open>
  Before the lock: the request's checks and the measurement; \<open>cfg\<close> and \<open>p\<close> are the configuration and
  the host as they are then.
\<close>

definition provision_prepare ::
  "channelProbe option \<Rightarrow> config \<Rightarrow> provider \<Rightarrow> provisionRequest option \<Rightarrow>
     provision_response + availableDevice \<times> provisionRequest \<times> int" where
  "provision_prepare probe cfg p request =
     (case map_option (\<lambda>r. r\<lparr>pr_Device := TrimSpace (pr_Device r)\<rparr>) request of
        None \<Rightarrow> Inl DeviceRequired
      | Some req \<Rightarrow>
          if pr_Device req = '''' then Inl DeviceRequired
          else case DetectedDevice p (pr_Device req) of
            None \<Rightarrow> Inl DeviceGone
          | Some detected \<Rightarrow>
              if list_ex (\<lambda>d. d_Device d = pr_Device req) (c_Devices cfg) then Inl AlreadyConfigured
              else case unavailable p (pr_Device req) of
                Some resp \<Rightarrow> Inl resp
              | None \<Rightarrow> Inr (detected, req,
                  if (case pr_Channels req of None \<Rightarrow> True | Some cs \<Rightarrow> length cs = 0)
                  then preferredChannel probe detected req else 1))"

text \<open>
  Under the lock: \<open>p\<close> is the host as it is now, \<open>live\<close> what the provider reports for a name once the
  reload has returned. A failed reload is only logged.
\<close>

definition provision_locked ::
  "bool \<Rightarrow> provider \<Rightarrow> (nat \<Rightarrow> u8 list option) \<Rightarrow> string option \<Rightarrow> (string \<Rightarrow> wireDevice option) \<Rightarrow>
     availableDevice \<times> provisionRequest \<times> int \<Rightarrow> server \<Rightarrow> provision_response \<times> server" where
  "provision_locked cancelled p randRead save live args sv =
     (case (args, sv_store sv) of
        (_, None) \<Rightarrow> (PNotImplemented, sv)
      | ((detected, req, preferred), Some s) \<Rightarrow>
          if cancelled then (Cancelled, sv)
          else case unavailable p (pr_Device req) of
            Some resp \<Rightarrow> (resp, sv)
          | None \<Rightarrow>
              (case store_Update (provision_mutate randRead detected req preferred) VPersist save s of
                 (Some VExists, _) \<Rightarrow> (AlreadyConfigured, sv)
               | (Some (VInvalid e), _) \<Rightarrow> (PInvalid e, sv)
               | (Some (VPersist e), _) \<Rightarrow> (PPersistFailed e, sv)
               | (Some (VUnfinished panic), _) \<Rightarrow> (Unfinished panic, sv)
               | (None, s') \<Rightarrow>
                   (case buildProvisionedDevice randRead (fs_cfg s) detected req preferred of
                      Some (Some created) \<Rightarrow>
                        (Created (live (d_Name created)) (configDeviceToWireDevice created), sv\<lparr>sv_store := Some s'\<rparr>)
                    | _ \<Rightarrow> (Unfinished True, sv))))"

section \<open>Removing a device\<close>

datatype delete_response = DNotImplemented | DNotFound | DPersistFailed string | Deleted

definition delete_mutate :: "string \<Rightarrow> config \<Rightarrow> string option + config" where
  "delete_mutate name cur =
     (let kept = filter (\<lambda>d. d_Name d \<noteq> name) (c_Devices cur) in
      if length kept = length (c_Devices cur) then Inl None
      else let cur = ApplyDefaults (cur\<lparr>c_Devices := kept\<rparr>) in
           case Validate cur of Some e \<Rightarrow> Inl (Some (ValidationError_Error e)) | None \<Rightarrow> Inr cur)"

definition DeleteDevice :: "string \<Rightarrow> string option \<Rightarrow> server \<Rightarrow> delete_response \<times> server" where
  "DeleteDevice name save sv =
     (case sv_store sv of
        None \<Rightarrow> (DNotImplemented, sv)
      | Some s \<Rightarrow>
          (case store_Update (delete_mutate name) Some save s of
             (Some None, _) \<Rightarrow> (DNotFound, sv)
           | (Some (Some e), _) \<Rightarrow> (DPersistFailed e, sv)
           | (None, s) \<Rightarrow> (Deleted, sv\<lparr>sv_store := Some s\<rparr>)))"

section \<open>Derived names\<close>

lemma unique_name_facts:
  "unique_name base taken i name \<notin> set taken \<and>
   (unique_name base taken i name = name \<or>
    (\<exists>j \<ge> i. unique_name base taken i name = numbered base j \<and> (\<forall>k. i \<le> k \<and> k < j \<longrightarrow> numbered base k \<in> set taken)))"
proof (induction base taken i name rule: unique_name.induct)
  case (1 base taken i name)
  show ?case
  proof (cases "name \<in> set taken")
    case False
    then show ?thesis by (subst (1 2 3) unique_name.simps) simp
  next
    case True
    let ?r = "unique_name base taken (Suc i) (numbered base i)"
    have r: "unique_name base taken i name = ?r" using True by (subst unique_name.simps) simp
    have IH: "?r \<notin> set taken" "?r = numbered base i \<or>
        (\<exists>j \<ge> Suc i. ?r = numbered base j \<and> (\<forall>k. Suc i \<le> k \<and> k < j \<longrightarrow> numbered base k \<in> set taken))"
      using 1 True by simp_all
    have "\<exists>j \<ge> i. ?r = numbered base j \<and> (\<forall>k. i \<le> k \<and> k < j \<longrightarrow> numbered base k \<in> set taken)"
    proof (cases "?r = numbered base i")
      case False
      with IH(2) obtain j where j: "Suc i \<le> j" "?r = numbered base j"
          "\<forall>k. Suc i \<le> k \<and> k < j \<longrightarrow> numbered base k \<in> set taken" by blast
      \<comment> \<open>The first candidate was taken, since the search went on.\<close>
      have "numbered base i \<in> set taken"
      proof (rule ccontr)
        assume "numbered base i \<notin> set taken"
        then have "?r = numbered base i" by (subst unique_name.simps) simp
        with False show False ..
      qed
      then have "numbered base k \<in> set taken" if "i \<le> k" "k < j" for k
        using j(3) that by (cases "k = i") auto
      with j show ?thesis by (intro exI[of _ j]) auto
    qed auto
    with IH(1) r show ?thesis by simp
  qed
qed

lemma unique_name_length:
  assumes "length taken + i < 10 ^ 7" "length name \<le> n" "length base + 8 \<le> n"
  shows "length (unique_name base taken i name) \<le> n"
proof -
  let ?r = "unique_name base taken i name"
  consider "?r = name" | (numbered) j where "i \<le> j" "?r = numbered base j"
      "\<forall>k. i \<le> k \<and> k < j \<longrightarrow> numbered base k \<in> set taken"
    using unique_name_facts[of base taken i name] by blast
  then show ?thesis
  proof cases
    case numbered
    have "numbered base ` {i..<j} \<subseteq> set taken" using numbered by auto
    then have "card (numbered base ` {i..<j}) \<le> card (set taken)" by (intro card_mono) auto
    moreover have "card (numbered base ` {i..<j}) = j - i"
      by (subst card_image) (auto intro!: inj_onI simp: numbered_inj)
    ultimately have "j - i \<le> length taken" using card_length le_trans by metis
    then have "j < 10 ^ Suc 6" using assms(1) numbered(1) by simp
    then have "length (nat_digits j) \<le> 7" using nat_digits_length[of j 6] by simp
    then show ?thesis using assms(3) by (simp add: numbered(2) numbered_def)
  qed (use assms in simp)
qed

lemma slug_loop_chars: "set (slug_loop cs b p) \<subseteq> set b \<union> {c. slug_char c} \<union> {CHR ''-''}"
  by (induction cs b p rule: slug_loop.induct) auto

definition slug_like :: "string \<Rightarrow> bool" where
  "slug_like s \<longleftrightarrow> s \<noteq> [] \<and> slug_char (hd s) \<and> (\<forall>c \<in> set s. slug_char c \<or> c = CHR ''-'')"

lemma slug_char_hyphen: "\<not> slug_char (CHR ''-'')"
  by code_simp

lemma TrimLeft_hd: "TrimLeft s ''-'' \<noteq> [] \<Longrightarrow> hd (TrimLeft s ''-'') \<noteq> CHR ''-''"
  using hd_dropWhile[of "\<lambda>c. List.member ''-'' c" s] by (simp add: TrimLeft_def)

lemma TrimRight_prefix: "\<exists>t. s = TrimRight s cutset @ t"
  by (metis TrimRight_def rev_append rev_rev_ident takeWhile_dropWhile_id)

lemma TrimRight_like:
  assumes "slug_like s"
  shows "slug_like (TrimRight s ''-'')"
proof -
  obtain t where t: "s = TrimRight s ''-'' @ t" using TrimRight_prefix by blast
  have "hd s \<noteq> CHR ''-''" using assms slug_char_hyphen by (auto simp: slug_like_def)
  moreover have "hd s \<in> set s" using assms by (simp add: slug_like_def)
  ultimately have "TrimRight s ''-'' \<noteq> []" by (auto simp: TrimRight_def)
  then show ?thesis using assms t unfolding slug_like_def by (metis Un_iff hd_append2 set_append)
qed

lemma slug_shape: "slug s = '''' \<or> slug_like (slug s)"
proof -
  let ?b = "slug_loop (slug_lower s) [] False"
  have chars: "set (TrimLeft ?b ''-'') \<subseteq> {c. slug_char c} \<union> {CHR ''-''}"
    using slug_loop_chars[of "slug_lower s" "[]" False] set_dropWhileD by (fastforce simp: TrimLeft_def)
  show ?thesis
  proof (cases "TrimLeft ?b ''-'' = []")
    case True
    then show ?thesis by (simp add: slug_def Trim_def TrimRight_def)
  next
    case False
    then have "slug_like (TrimLeft ?b ''-'')"
      using chars TrimLeft_hd[OF False] subsetD[OF chars hd_in_set[OF False]] False
      by (auto simp: slug_like_def simp del: hd_in_set)
    then show ?thesis using TrimRight_like by (simp add: slug_def Trim_def)
  qed
qed

lemma take_like: "slug_like s \<Longrightarrow> 0 < n \<Longrightarrow> slug_like (take n s)"
  by (cases s; cases n) (auto simp: slug_like_def dest: in_set_takeD)

lemma digits_like: "c \<in> set (nat_digits n) \<Longrightarrow> slug_char c"
proof (induction n rule: nat_digits.induct)
  case (1 n)
  have "list_all (\<lambda>k. slug_char (digit_char k)) [0..<10]" by code_simp
  note d = all_digits[OF this]
  show ?case using 1 d[of n] d[of "n mod 10"] by (cases "n < 10") (auto simp: nat_digits.simps[of n])
qed

lemma numbered_like: "slug_like base \<Longrightarrow> slug_like (numbered base i)"
  using digits_like by (auto simp: slug_like_def numbered_def)

lemma strip_keeps:
  assumes "c \<notin> (\<Union>r \<in> set rs. set r)" "c \<in> set s"
  shows "c \<in> set (strip_blocks rs s)"
  using assms
proof (induction rs s rule: strip_blocks.induct)
  case (1 rs s)
  show ?case
  proof (cases "find (\<lambda>r. r \<noteq> [] \<and> HasPrefix s r) rs")
    case None
    then show ?thesis using 1(3) by (subst strip_blocks.simps) simp
  next
    case (Some r)
    then have r: "r \<in> set rs" "HasPrefix s r" by (auto simp: find_Some_iff)
    then obtain t where t: "s = r @ t" using HasPrefixD by blast
    have "c \<notin> set r" using 1(2) r(1) by blast
    then have "c \<in> set (drop (length r) s)" using 1(3) t by simp
    from 1(1)[OF Some 1(2) this] show ?thesis using Some by (subst strip_blocks.simps) simp
  qed
qed

lemma space_free: "slug_char c \<Longrightarrow> c \<notin> (\<Union>r \<in> set space_runes. set r)"
proof -
  have "list_all (\<lambda>r. list_all (\<lambda>c. \<not> slug_char c) r) space_runes" by code_simp
  then show "slug_char c \<Longrightarrow> c \<notin> (\<Union>r \<in> set space_runes. set r)" by (auto simp: list_all_iff)
qed

lemma like_nonspace: "slug_like s \<Longrightarrow> TrimSpace s \<noteq> ''''"
proof -
  assume s: "slug_like s"
  then have c: "hd s \<in> set s" "slug_char (hd s)" by (auto simp: slug_like_def)
  have "hd s \<in> set (strip_blocks space_runes s)" using strip_keeps[OF space_free[OF c(2)] c(1)] .
  then have "hd s \<in> set (strip_blocks (map rev space_runes) (rev (strip_blocks space_runes s)))"
    using space_free[OF c(2)] by (intro strip_keeps) auto
  then show ?thesis by (auto simp: TrimSpace_def)
qed

lemma like_no_newline: "slug_like s \<Longrightarrow> set s \<inter> {CHR 0x0D, CHR 0x0A} = {}"
proof -
  have "\<not> slug_char (CHR 0x0D)" "\<not> slug_char (CHR 0x0A)" by code_simp+
  then show "slug_like s \<Longrightarrow> set s \<inter> {CHR 0x0D, CHR 0x0A} = {}" by (auto simp: slug_like_def)
qed

lemma usable_name:
  assumes "length taken < 10 ^ 6"
  shows "deriveName friendly devid taken \<notin> set taken \<and>
    slug_like (deriveName friendly devid taken) \<and>
    TrimSpace (deriveName friendly devid taken) \<noteq> '''' \<and>
    set (deriveName friendly devid taken) \<inter> {CHR 0x0D, CHR 0x0A} = {} \<and>
    RuneCount (deriveName friendly devid taken) \<le> MaxNameLen"
proof -
  have "slug_like ''device''" by code_simp
  then have "\<exists>b. slug_like b \<and> deriveName friendly devid taken =
      (let base = (if length b > 120 then TrimRight (take 120 b) ''-'' else b) in unique_name base taken 2 base)"
    using slug_shape[of friendly] slug_shape[of devid]
    by (auto simp: deriveName_def Let_def MaxNameLen_def nameSuffixReserve_def)
  then obtain b base where b: "slug_like b" "base = (if length b > 120 then TrimRight (take 120 b) ''-'' else b)"
    "deriveName friendly devid taken = unique_name base taken 2 base" by (auto simp: Let_def)
  have like: "slug_like base" using b(1,2) TrimRight_like take_like[of b 120] by simp
  obtain t where "take 120 b = TrimRight (take 120 b) ''-'' @ t" using TrimRight_prefix by blast
  then have "length (TrimRight (take 120 b) ''-'') \<le> length (take 120 b)" by (metis le_add1 length_append)
  then have short: "length base \<le> 120" using b(2) by simp
  let ?r = "unique_name base taken 2 base"
  have "slug_like ?r" using unique_name_facts[of base taken 2 base] like numbered_like by auto
  moreover have "length ?r \<le> 128" using assms short by (intro unique_name_length) simp_all
  moreover have "?r \<notin> set taken" using unique_name_facts by blast
  ultimately show ?thesis
    unfolding b(3) using like_nonspace like_no_newline RuneCount_le[of ?r] by (auto simp: MaxNameLen_def)
qed

text \<open>
  C40. The search for a free name ends, and a derived name is always usable: no existing device
  has it, it is made of lower-case letters, digits and hyphens and starts with a letter or digit,
  so that it is neither blank nor broken over lines, and it has at most 128 characters, while
  fewer than a million names are taken.
\<close>
theorem derived_names_are_free_and_usable:
  assumes "length taken < 10 ^ 6"
  shows "deriveName friendly devid taken \<notin> set taken \<and>
    slug_like (deriveName friendly devid taken) \<and>
    TrimSpace (deriveName friendly devid taken) \<noteq> '''' \<and>
    set (deriveName friendly devid taken) \<inter> {CHR 0x0D, CHR 0x0A} = {} \<and>
    RuneCount (deriveName friendly devid taken) \<le> MaxNameLen"
  using assms by (rule usable_name)

theorem derived_names_are_free_and_usable_witness:
  "deriveName ''mic'' ''hw:1'' [''mic'', ''mic-2''] = ''mic-3'' \<and>
   RuneCount (deriveName ''mic'' ''hw:1'' [''mic'', ''mic-2'']) \<le> MaxNameLen"
proof -
  let ?t = "[''mic'', ''mic-2'']"
  have "length ?t < 10 ^ 6" by simp
  from derived_names_are_free_and_usable[OF this, of "''mic''" "''hw:1''"]
  have "RuneCount (deriveName ''mic'' ''hw:1'' ?t) \<le> MaxNameLen" by simp
  moreover have "slug ''mic'' = ''mic''"
    by (simp add: slug_def slug_char_def lower_char_def less_eq_char_def Trim_def TrimLeft_def TrimRight_def)
  moreover have "nat_digits 2 = ''2''" "nat_digits 3 = ''3''"
    by code_simp+
  ultimately show ?thesis
    by (simp add: deriveName_def MaxNameLen_def nameSuffixReserve_def unique_name.simps[of "''mic''"] numbered_def)
qed

section \<open>The loudest channel\<close>

lemma level_total: "x \<noteq> NaN \<Longrightarrow> y \<noteq> NaN \<Longrightarrow> level_le x y \<or> level_le y x"
  by (cases x; cases y) auto

lemma level_trans: "level_le x y \<Longrightarrow> level_le y z \<Longrightarrow> level_le x z"
  by (cases x; cases y; cases z) auto

lemma level_refl: "x \<noteq> NaN \<Longrightarrow> level_le x x"
  by (cases x) auto

lemma NaN_level: "level_le x y \<Longrightarrow> x \<noteq> NaN \<and> y \<noteq> NaN"
  by (cases x; cases y) auto

lemma top_level_facts:
  "top_level ls \<noteq> NaN \<and> (\<forall>l \<in> set ls. l \<noteq> NaN \<longrightarrow> level_le l (top_level ls)) \<and>
   (top_level ls = NegInf \<or> top_level ls \<in> set ls)"
proof -
  let ?f = "\<lambda>l top. if l \<noteq> NaN \<and> level_lt top l then l else top"
  have "t \<noteq> NaN \<Longrightarrow> fold ?f ls t \<noteq> NaN \<and> level_le t (fold ?f ls t) \<and>
      (\<forall>l \<in> set ls. l \<noteq> NaN \<longrightarrow> level_le l (fold ?f ls t)) \<and> (fold ?f ls t = t \<or> fold ?f ls t \<in> set ls)" for t
  proof (induction ls arbitrary: t)
    case (Cons l ls)
    define u where "u = ?f l t"
    have u: "u \<noteq> NaN" "level_le t u" "l \<noteq> NaN \<Longrightarrow> level_le l u" "u = t \<or> u = l"
      using Cons.prems level_total[of t l] level_refl[of t] level_refl[of l] by (auto simp: u_def)
    define F where "F = fold ?f ls u"
    have F: "F \<noteq> NaN" "level_le u F" "\<forall>l \<in> set ls. l \<noteq> NaN \<longrightarrow> level_le l F" "F = u \<or> F \<in> set ls"
      using Cons.IH[OF u(1)] unfolding F_def by blast+
    have "fold ?f (l # ls) t = F" by (simp add: F_def u_def)
    moreover have "level_le t F" "l \<noteq> NaN \<longrightarrow> level_le l F" using u F(2) level_trans by blast+
    moreover have "F = t \<or> F \<in> set (l # ls)" using u(4) F(4) by auto
    ultimately show ?case using F by simp
  qed (simp add: level_refl)
  from this[of NegInf] show ?thesis by (auto simp: top_level_def)
qed

lemma find_enumerate_first:
  "List.find (\<lambda>(i, l). P l) (enumerate n ls) = Some (i, l) \<longleftrightarrow>
     n \<le> i \<and> i < n + length ls \<and> l = ls ! (i - n) \<and> P l \<and> (\<forall>j < i - n. \<not> P (ls ! j))"
proof (induction ls arbitrary: n)
  case (Cons x ls)
  show ?case
  proof (cases "P x")
    case True
    then show ?thesis by (cases "i - n") auto
  next
    case False
    have "List.find (\<lambda>(i, l). P l) (enumerate n (x # ls)) = List.find (\<lambda>(i, l). P l) (enumerate (Suc n) ls)"
      using False by simp
    then show ?thesis using False Cons.IH[of "Suc n"]
      by (cases "i - n") (auto simp: less_Suc_eq_0_disj Suc_le_eq diff_Suc split: nat.splits)
  qed
qed simp

lemma level_minus_le: "x \<noteq> NaN \<Longrightarrow> 0 \<le> d \<Longrightarrow> level_le (level_minus x d) x"
  by (cases x) auto

text \<open>
  A new device gets its loudest channel: among the levels measured, readings that are not a number
  left out, if the loudest is above silence then the chosen channel is the first whose level is within
  1 dB of it, and otherwise it is channel 1; it is always a channel that was measured, when any was.
\<close>
theorem the_loudest_channel_is_chosen:
  "(if \<exists>l \<in> set levels. level_lt channelSilenceDbfs l
    then \<exists>i < length levels. loudestChannel levels = int i + 1 \<and>
      level_le (level_minus (top_level levels) channelTieDb) (levels ! i) \<and>
      (\<forall>j < i. \<not> level_le (level_minus (top_level levels) channelTieDb) (levels ! j))
    else loudestChannel levels = 1) \<and>
   (top_level levels = NegInf \<or> top_level levels \<in> set levels) \<and>
   (\<forall>l \<in> set levels. l \<noteq> NaN \<longrightarrow> level_le l (top_level levels)) \<and>
   1 \<le> loudestChannel levels \<and> loudestChannel levels \<le> max 1 (int (length levels))"
proof -
  let ?top = "top_level levels"
  let ?P = "\<lambda>l. l \<noteq> NaN \<and> level_le (level_minus ?top channelTieDb) l"
  note top = top_level_facts[of levels]
  have loud: "(\<exists>l \<in> set levels. level_lt channelSilenceDbfs l) \<longleftrightarrow> \<not> level_le ?top channelSilenceDbfs"
  proof
    assume "\<exists>l \<in> set levels. level_lt channelSilenceDbfs l"
    then obtain l where "l \<in> set levels" "level_lt channelSilenceDbfs l" by blast
    then show "\<not> level_le ?top channelSilenceDbfs" using top level_trans by auto
  next
    assume "\<not> level_le ?top channelSilenceDbfs"
    moreover from this have "?top \<noteq> NegInf" by (auto simp: channelSilenceDbfs_def)
    ultimately show "\<exists>l \<in> set levels. level_lt channelSilenceDbfs l"
      using top by (auto simp: channelSilenceDbfs_def)
  qed
  show ?thesis
  proof (cases "level_le ?top channelSilenceDbfs")
    case True
    then have "loudestChannel levels = 1" by (simp add: loudestChannel_def)
    with True loud top show ?thesis by auto
  next
    case False
    then have "?top \<in> set levels" using top by (auto simp: channelSilenceDbfs_def)
    moreover have "level_le (level_minus ?top channelTieDb) ?top"
      using top by (simp add: level_minus_le channelTieDb_def)
    ultimately have "List.find (\<lambda>(i, l). ?P l) (enumerate 0 levels) \<noteq> None"
      unfolding find_None_enumerate using top by blast
    then obtain i l where "List.find (\<lambda>(i, l). ?P l) (enumerate 0 levels) = Some (i, l)" by auto
    moreover from this[unfolded find_enumerate_first]
    have "i < length levels" "?P (levels ! i)" "\<forall>j < i. \<not> ?P (levels ! j)" by auto
    moreover have "loudestChannel levels = int i + 1"
      using calculation(1) False by (simp add: loudestChannel_def)
    ultimately show ?thesis using loud False top NaN_level by auto
  qed
qed

theorem the_loudest_channel_is_chosen_witness:
  "loudestChannel [NaN, Fin (- 50), Fin (- 20), Fin (- 39 / 2)] = 3"
proof -
  let ?ls = "[NaN, Fin (- 50), Fin (- 20), Fin (- 39 / 2)]"
  have top: "top_level ?ls = Fin (- 39 / 2)" by (simp add: top_level_def)
  have "\<exists>l \<in> set ?ls. level_lt channelSilenceDbfs l" by (simp add: channelSilenceDbfs_def)
  then obtain i where i: "i < 4" "loudestChannel ?ls = int i + 1"
    "level_le (level_minus (top_level ?ls) channelTieDb) (?ls ! i)"
    "\<forall>j < i. \<not> level_le (level_minus (top_level ?ls) channelTieDb) (?ls ! j)"
    using the_loudest_channel_is_chosen[of ?ls] by auto
  from i(1) consider "i = 0" | "i = 1" | "i = 2" | "i = 3" by linarith
  then show ?thesis
    using i(2,3) i(4)[rule_format, of 2] unfolding top by cases (auto simp: channelTieDb_def)
qed

lemma loudest_range: "1 \<le> loudestChannel levels \<and> loudestChannel levels \<le> max 1 (int (length levels))"
proof -
  let ?P = "\<lambda>l. l \<noteq> NaN \<and> level_le (level_minus (top_level levels) channelTieDb) l"
  let ?found = "List.find (\<lambda>(i, l). ?P l) (enumerate 0 levels)"
  have c: "loudestChannel levels = (if level_le (top_level levels) channelSilenceDbfs then 1
      else case ?found of Some (i, l) \<Rightarrow> int i + 1 | None \<Rightarrow> 1)"
    by (simp add: loudestChannel_def Let_def)
  show ?thesis
  proof (cases ?found)
    case None
    then show ?thesis unfolding c by simp
  next
    case (Some r)
    obtain i l where r: "r = (i, l)" by (cases r)
    have "i < length levels" using Some[unfolded r find_enumerate_first] by simp
    then show ?thesis unfolding c Some r by simp
  qed
qed

lemma probeWidths_range: "w \<in> set (probeWidths supported) \<Longrightarrow> 2 \<le> w \<and> w \<le> 8"
proof -
  have "\<forall>w \<in> set ws. 2 \<le> w \<and> w \<le> 8 \<Longrightarrow> \<forall>w \<in> set (fold add_width cs ws). 2 \<le> w \<and> w \<le> 8" for cs ws
  proof (induction cs arbitrary: ws)
    case (Cons c cs)
    have "\<forall>w \<in> set (add_width c ws). 2 \<le> w \<and> w \<le> 8"
      using Cons.prems by (auto simp: add_width_def Let_def channelProbeWidth_def MaxChannels_def)
    from Cons.IH[OF this] show ?case by simp
  qed simp
  from this[of "[]" supported] show "w \<in> set (probeWidths supported) \<Longrightarrow> 2 \<le> w \<and> w \<le> 8"
    by (auto simp: probeWidths_def channelProbeWidth_def MaxChannels_def split: if_splits)
qed

lemma preferred_range: "1 \<le> preferredChannel probe d req \<and> preferredChannel probe d req \<le> 8"
proof -
  have "\<forall>w \<in> set widths. w \<le> 8 \<Longrightarrow> 1 \<le> probe_loop p devid rate widths \<and> probe_loop p devid rate widths \<le> 8"
    for p devid rate widths
  proof (induction p devid rate widths rule: probe_loop.induct)
    case (2 p devid rate width widths)
    show ?case
    proof (cases "p devid rate width")
      case (Inl e)
      then show ?thesis using 2 by (cases e) auto
    next
      case (Inr levels)
      have "int (length (take (min (length levels) (nat width)) levels)) \<le> 8" using 2 by auto
      then have "max 1 (int (length (take (min (length levels) (nat width)) levels))) \<le> 8" by simp
      then show ?thesis using Inr loudest_range[of "take (min (length levels) (nat width)) levels"]
        by (auto intro: order_trans)
    qed
  qed simp
  then show ?thesis using probeWidths_range
    by (auto simp: preferredChannel_def Let_def split: option.split prod.split)
qed

section \<open>Paths\<close>

definition drawn_path :: "u8 list \<Rightarrow> string" where
  "drawn_path buf = ''/'' @ hex_encode buf"

lemma randomPath_result:
  assumes "randomPath taken randRead i = Some r"
  shows "case r of None \<Rightarrow> \<exists>j. randRead j = None
    | Some p \<Rightarrow> p \<notin> set taken \<and> (\<exists>j buf. randRead j = Some buf \<and> p = drawn_path buf)"
proof (rule randomPath.raw_induct[where P = "\<lambda>taken randRead i r. case r of None \<Rightarrow> \<exists>j. randRead j = None
    | Some p \<Rightarrow> p \<notin> set taken \<and> (\<exists>j buf. randRead j = Some buf \<and> p = drawn_path buf)", OF _ assms])
  fix rp taken i r and randRead :: "nat \<Rightarrow> u8 list option"
  assume IH: "\<And>taken (randRead :: nat \<Rightarrow> u8 list option) i r. rp taken randRead i = Some r \<Longrightarrow> case r of
      None \<Rightarrow> \<exists>j. randRead j = None
    | Some p \<Rightarrow> p \<notin> set taken \<and> (\<exists>j buf. randRead j = Some buf \<and> p = drawn_path buf)"
    and step: "(case randRead i of None \<Rightarrow> Some None
      | Some buf \<Rightarrow> let p = ''/'' @ hex_encode buf in
          if \<not> List.member taken p then Some (Some p) else rp taken randRead (Suc i)) = Some r"
  show "case r of None \<Rightarrow> \<exists>j. randRead j = None
    | Some p \<Rightarrow> p \<notin> set taken \<and> (\<exists>j buf. randRead j = Some buf \<and> p = drawn_path buf)"
  proof (cases "randRead i")
    case None
    with step show ?thesis by auto
  next
    case (Some buf)
    then show ?thesis
    proof (cases "drawn_path buf \<in> set taken")
      case True
      with step Some have "rp taken randRead (Suc i) = Some r" by (simp add: drawn_path_def Let_def)
      then show ?thesis by (rule IH)
    next
      case False
      with step Some have "r = Some (drawn_path buf)" by (simp add: drawn_path_def Let_def)
      with False Some show ?thesis by auto
    qed
  qed
qed

lemma randomPath_returns:
  assumes "randRead j = None \<or> (\<exists>buf. randRead j = Some buf \<and> drawn_path buf \<notin> set taken)" "i \<le> j"
  shows "randomPath taken randRead i \<noteq> None"
  using assms(2)
proof (induction "j - i" arbitrary: i)
  case 0
  then have "i = j" by simp
  with assms(1) show ?case by (subst randomPath.simps) (auto simp: drawn_path_def Let_def)
next
  case (Suc n)
  then have "randomPath taken randRead (Suc i) \<noteq> None" by simp
  then show ?case by (subst randomPath.simps) (auto simp: Let_def split: option.split)
qed

section \<open>Stream parameters\<close>

lemma chooseParams_facts:
  assumes "chooseParams d req preferred = (mode, rate, channels)"
  shows "mode \<in> {ModePCM, ModeOpus}" "channels \<noteq> []" "NormalizeChannels channels = channels"
    "mode = ModeOpus \<Longrightarrow> rate = 48000"
proof -
  let ?given = "case pr_Channels req of Some cs \<Rightarrow> NormalizeChannels cs | None \<Rightarrow> []"
  have one: "NormalizeChannels [x] = [x]" for x by (simp add: NormalizeChannels_def)
  have ch: "channels = (if ?given = [] then [max 1 preferred] else ?given)"
    using assms by (auto simp: chooseParams_def Let_def split: if_splits)
  show "channels \<noteq> []" unfolding ch by simp
  show "NormalizeChannels channels = channels"
    unfolding ch by (auto simp: one split: option.split)
  have ne: "ModePCM \<noteq> ModeOpus" by (simp add: ModePCM_def ModeOpus_def)
  show "mode \<in> {ModePCM, ModeOpus}" "mode = ModeOpus \<Longrightarrow> rate = 48000"
    using assms ne by (auto simp: chooseParams_def Let_def split: if_splits)
qed

lemma built_facts:
  assumes "buildProvisionedDevice randRead cur d req preferred = Some (Some dev)"
    "chooseParams d req preferred = (mode, rate, channels)"
  obtains path j buf where "path \<notin> set (config_paths cur)" "randRead j = Some buf" "path = drawn_path buf"
    "d_Streams dev = [\<lparr>s_Path = path, s_Mode = mode, s_Channels = channels, s_Bitrate = 0\<rparr>]"
    "d_Device dev = av_ID d" "d_Rate dev = rate" "d_Format dev = ''s16''" "d_Enabled dev = None" "d_QuietAlert dev = None"
    "d_Name dev = (let name = (case pr_Name req of Some n \<Rightarrow> TrimSpace n | None \<Rightarrow> '''') in
       if name = '''' then deriveName (av_FriendlyName d) (av_ID d) (config_names cur) else name)"
proof -
  from assms obtain path where "randomPath (config_paths cur) randRead 0 = Some (Some path)"
    by (auto simp: buildProvisionedDevice_def Let_def)
  with randomPath_result[OF this] that assms show thesis
    by (auto simp: buildProvisionedDevice_def Let_def)
qed

lemma built_default:
  assumes "buildProvisionedDevice randRead cur d req preferred = Some (Some dev)"
  shows "default_device dev = dev"
proof -
  obtain mode rate channels where c: "chooseParams d req preferred = (mode, rate, channels)" by (metis prod_cases3)
  note facts = chooseParams_facts[OF c]
  obtain path buf where s: "path = drawn_path buf" "d_Format dev = ''s16''"
    "d_Streams dev = [\<lparr>s_Path = path, s_Mode = mode, s_Channels = channels, s_Bitrate = 0\<rparr>]"
    using built_facts[OF assms c] by metis
  have "mode \<noteq> ''''" using facts(1) by (auto simp: ModePCM_def ModeOpus_def)
  then have "default_stream b (hd (d_Streams dev)) = hd (d_Streams dev)" for b
    using facts s by (simp add: default_stream_def drawn_path_def)
  then show ?thesis using s by (simp add: default_device_def Let_def)
qed

section \<open>What provisioning changes\<close>

text \<open>The whole handler: what it reads before the lock, then the part under the lock.\<close>

definition ProvisionDevice ::
  "channelProbe option \<Rightarrow> config \<Rightarrow> provider \<Rightarrow> provisionRequest option \<Rightarrow> bool \<Rightarrow> provider \<Rightarrow>
     (nat \<Rightarrow> u8 list option) \<Rightarrow> string option \<Rightarrow> (string \<Rightarrow> wireDevice option) \<Rightarrow> server \<Rightarrow> provision_response \<times> server" where
  "ProvisionDevice probe cfg0 p0 request cancelled p randRead save live sv =
     (case sv_store sv of
        None \<Rightarrow> (PNotImplemented, sv)
      | Some s \<Rightarrow>
          (case provision_prepare probe cfg0 p0 request of
             Inl resp \<Rightarrow> (resp, sv)
           | Inr args \<Rightarrow> provision_locked cancelled p randRead save live args sv))"

lemma provision_locked_cases:
  assumes "provision_locked cancelled p randRead save live (detected, req, preferred) sv = (resp, sv')"
  obtains (kept) "sv' = sv" "\<And>l w. resp \<noteq> Created l w"
  | (created) s dev c' where "sv_store sv = Some s" "\<not> cancelled" "save = None" "unavailable p (pr_Device req) = None"
      "\<not> list_ex (\<lambda>d. d_Device d = pr_Device req) (c_Devices (fs_cfg s))"
      "buildProvisionedDevice randRead (fs_cfg s) detected req preferred = Some (Some dev)"
      "c' = ApplyDefaults ((fs_cfg s)\<lparr>c_Devices := c_Devices (fs_cfg s) @ [dev]\<rparr>)"
      "validateWrite c' (fs_cfg s) = None"
      "resp = Created (live (d_Name dev)) (configDeviceToWireDevice dev)"
      "sv' = sv\<lparr>sv_store := Some (s\<lparr>fs_disk := c', fs_cfg := c'\<rparr>)\<rparr>"
proof (cases "sv_store sv")
  case None
  with assms show thesis by (intro kept) (auto simp: provision_locked_def)
next
  case (Some s)
  show thesis
  proof (cases "cancelled \<or> unavailable p (pr_Device req) \<noteq> None")
    case True
    with assms Some show thesis
      by (intro kept) (auto simp: provision_locked_def unavailable_def split: if_splits)
  next
    case go: False
    show thesis
    proof (cases "provision_mutate randRead detected req preferred (fs_cfg s)")
      case (Inl e)
      with assms Some go show thesis
        by (intro kept) (auto simp: provision_locked_def store_Update_def split: provision_failure.splits)
    next
      case (Inr c')
      then obtain dev where dev: "\<not> list_ex (\<lambda>d. d_Device d = pr_Device req) (c_Devices (fs_cfg s))"
        "buildProvisionedDevice randRead (fs_cfg s) detected req preferred = Some (Some dev)"
        "c' = ApplyDefaults ((fs_cfg s)\<lparr>c_Devices := c_Devices (fs_cfg s) @ [dev]\<rparr>)" "validateWrite c' (fs_cfg s) = None"
        by (auto simp: provision_mutate_def Let_def split: if_splits option.splits)
      show thesis
      proof (cases save)
        case None
        with assms Some go Inr dev show thesis
          by (intro created[of s dev c']) (auto simp: provision_locked_def store_Update_def)
      next
        case (Some e)
        with assms \<open>sv_store sv = Some s\<close> go Inr show thesis
          by (intro kept) (auto simp: provision_locked_def store_Update_def)
      qed
    qed
  qed
qed

lemma prepare_facts:
  assumes "provision_prepare probe cfg0 p0 request = Inr (detected, req, preferred)"
  shows "av_ID detected = pr_Device req" "1 \<le> preferred" "preferred \<le> 8"
    "\<exists>r. request = Some r \<and> req = r\<lparr>pr_Device := TrimSpace (pr_Device r)\<rparr>" "pr_Device req \<noteq> ''''"
proof -
  have "DetectedDevice p0 (pr_Device req) = Some detected"
    using assms by (auto simp: provision_prepare_def split: option.splits if_splits)
  then show "av_ID detected = pr_Device req" by (auto simp: DetectedDevice_def find_Some_iff)
  show "1 \<le> preferred" "preferred \<le> 8"
    using assms preferred_range[of probe detected req]
    by (auto simp: provision_prepare_def split: option.splits if_splits)
  show "\<exists>r. request = Some r \<and> req = r\<lparr>pr_Device := TrimSpace (pr_Device r)\<rparr>" "pr_Device req \<noteq> ''''"
    using assms by (auto simp: provision_prepare_def split: option.splits if_splits)
qed

lemma available_facts:
  assumes "unavailable p devid = None"
  shows "devid \<notin> set (configuredIDs p)" "devid \<in> av_ID ` set (detected_list p)"
  using assms by (auto simp: unavailable_def AvailableDevices_def list_ex_iff split: if_splits)

lemma append_defaulted:
  assumes "ApplyDefaults c = c" "default_device dev = dev"
  shows "ApplyDefaults (c\<lparr>c_Devices := c_Devices c @ [dev]\<rparr>) = c\<lparr>c_Devices := c_Devices c @ [dev]\<rparr>"
  using assms unfolding defaulted_iff by auto

lemma validateWrite_valid: "validateWrite c prev = None \<Longrightarrow> config_ok c"
  by (auto simp: validateWrite_def validation_iff[symmetric] split: option.splits)


section \<open>A plain request succeeds\<close>

lemma hex_length: "length (hex_encode bs) = 2 * length bs"
  by (induction bs) (simp_all add: hex_encode_def)

lemma hex_chars: "c \<in> set (hex_encode buf) \<Longrightarrow> c \<notin> {CHR '' '', CHR 0x09, CHR 0x0D, CHR 0x0A, CHR ''/''}"
proof -
  assume "c \<in> set (hex_encode buf)"
  then have "\<exists>b \<in> set buf. c = hex_digit (unat b div 16) \<or> c = hex_digit (unat b mod 16)"
    by (auto simp: hex_encode_def)
  then obtain b :: u8 where "c = hex_digit (unat b div 16) \<or> c = hex_digit (unat b mod 16)" by blast
  then obtain d where d: "d < 16" "c = hex_digit d" using nibbles[of b] by blast
  have "list_all (\<lambda>d. hex_digit d \<notin> {CHR '' '', CHR 0x09, CHR 0x0D, CHR 0x0A, CHR ''/''}) [0..<16]" by code_simp
  then show ?thesis using d unfolding list_all_iff set_upt by auto
qed

lemma drawn_path_length: "length buf = 8 \<Longrightarrow> length (drawn_path buf) = 17"
  by (simp add: drawn_path_def hex_length)

lemma drawn_path_ok:
  assumes "length buf = 8"
  shows "path_ok (drawn_path buf)"
proof -
  have suf: "\<not> HasSuffix (drawn_path buf) (CHR ''/'' # u)" if "length u < 16" for u
  proof
    assume "HasSuffix (drawn_path buf) (CHR ''/'' # u)"
    then obtain r where "CHR ''/'' # hex_encode buf = r @ CHR ''/'' # u"
      using HasSuffixD by (auto simp: drawn_path_def)
    then have "CHR ''/'' \<in> set (hex_encode buf) \<or> hex_encode buf = u" by (cases r) auto
    then show False using hex_chars[of "CHR ''/''" buf] hex_length[of buf] that assms by auto
  qed
  have "set (drawn_path buf) \<inter> {CHR '' '', CHR 0x09, CHR 0x0D, CHR 0x0A} = {}"
    using hex_chars by (auto simp: drawn_path_def)
  moreover have "drawn_path buf \<noteq> ''/''" using drawn_path_length[OF assms] by auto
  ultimately show ?thesis
    using suf[of "[]"] suf[of "''trackID=0''"] by (simp add: path_ok_def drawn_path_def HasPrefix_def)
qed

lemma preferRate_in: "rs \<noteq> [] \<Longrightarrow> preferRate rs \<in> set rs"
proof -
  have fold: "fold (\<lambda>r best. if r > best then r else best) xs x \<in> insert x (set xs)" for xs :: "int list" and x
  proof (induction xs arbitrary: x)
    case (Cons a xs)
    show ?case using Cons.IH[of "if a > x then a else x"] by (auto split: if_splits)
  qed simp
  show "rs \<noteq> [] \<Longrightarrow> preferRate rs \<in> set rs"
    using fold[of "tl rs" "rs ! 0"] by (cases rs) (auto simp: preferRate_def)
qed

text \<open>A request for a device that leaves every choice to the appliance.\<close>

definition plain_request :: "string \<Rightarrow> provisionRequest" where
  "plain_request devid = \<lparr>pr_Device = devid, pr_Name = None, pr_Mode = None, pr_Rate = None, pr_Channels = None\<rparr>"

lemma plain_params:
  assumes "chooseParams d (plain_request devid) preferred = (mode, rate, channels)"
    "\<forall>r \<in> set (av_SupportedRates d). 8000 \<le> r \<and> r \<le> 384000" "1 \<le> preferred" "preferred \<le> 8" "path_ok path"
  shows "8000 \<le> rate \<and> rate \<le> 384000 \<and>
    stream_ok rate \<lparr>s_Path = path, s_Mode = mode, s_Channels = channels, s_Bitrate = 0\<rparr>"
proof -
  have "preferRate (av_SupportedRates d) = 48000 \<or> preferRate (av_SupportedRates d) \<in> set (av_SupportedRates d)"
    using preferRate_in by (cases "av_SupportedRates d = []") (auto simp: preferRate_def)
  then have "8000 \<le> preferRate (av_SupportedRates d) \<and> preferRate (av_SupportedRates d) \<le> 384000"
    using assms(2) by auto
  moreover have "channels = [preferred]" "mode = ModeOpus \<and> rate = 48000 \<or> mode = ModePCM \<and> rate = preferRate (av_SupportedRates d)"
    using assms(1,3) by (simp_all add: chooseParams_def plain_request_def ModePCM_def ModeOpus_def Let_def max_def split: if_splits)
  moreover have "ModePCM \<noteq> ModeOpus" by (simp add: ModePCM_def ModeOpus_def)
  ultimately show ?thesis using assms(3-5) by (auto simp: stream_ok_def)
qed

lemma appended_ok:
  assumes "config_ok c" "length (c_Devices c) < 32" "device_ok dev"
    "d_Name dev \<notin> set (config_names c)" "d_Device dev \<notin> set (config_ids c)"
    "distinct (map s_Path (d_Streams dev))" "set (map s_Path (d_Streams dev)) \<inter> set (config_paths c) = {}"
  shows "config_ok (c\<lparr>c_Devices := c_Devices c @ [dev]\<rparr>)"
proof -
  let ?c = "c\<lparr>c_Devices := c_Devices c @ [dev]\<rparr>"
  have "config_names ?c = config_names c @ [d_Name dev]" "config_ids ?c = config_ids c @ [d_Device dev]"
    "config_paths ?c = config_paths c @ map s_Path (d_Streams dev)" "ManagementEnabled ?c = ManagementEnabled c"
    by (simp_all add: config_names_def config_ids_def config_paths_def ManagementEnabled_def)
  moreover have "distinct (config_paths c @ map s_Path (d_Streams dev))"
    using assms(1,6,7) unfolding distinct_append config_ok_def by blast
  ultimately show ?thesis using assms(1-5) by (simp add: config_ok_def)
qed

lemma appended_lengths:
  assumes "RuneCount (d_Name dev) \<le> 128" "RuneCount (d_Device dev) \<le> 2048"
    "\<forall>s \<in> set (d_Streams dev). RuneCount (s_Path s) \<le> 128"
  shows "ValidateLengths (c\<lparr>c_Devices := c_Devices c @ [dev]\<rparr>) (Some c) = None"
  using assms lengths_cap_only_what_a_write_introduces[of "c\<lparr>c_Devices := c_Devices c @ [dev]\<rparr>" c]
  by (auto simp: config_names_def config_ids_def config_paths_def)

lemma plain_built:
  assumes "chooseParams d (plain_request devid) preferred = (mode, rate, channels)"
    "buildProvisionedDevice randRead c d (plain_request devid) preferred = Some (Some dev)"
    "config_ok c" "length (c_Devices c) < 32" "av_ID d \<noteq> ''''" "av_ID d \<notin> set (config_ids c)" "RuneCount (av_ID d) \<le> 2048"
    "\<forall>r \<in> set (av_SupportedRates d). 8000 \<le> r \<and> r \<le> 384000" "1 \<le> preferred" "preferred \<le> 8"
    "\<forall>j buf. randRead j = Some buf \<longrightarrow> length buf = 8"
  shows "validateWrite (c\<lparr>c_Devices := c_Devices c @ [dev]\<rparr>) c = None"
proof -
  obtain path j buf where b: "path \<notin> set (config_paths c)" "randRead j = Some buf" "path = drawn_path buf"
    "d_Streams dev = [\<lparr>s_Path = path, s_Mode = mode, s_Channels = channels, s_Bitrate = 0\<rparr>]"
    "d_Device dev = av_ID d" "d_Rate dev = rate" "d_Format dev = ''s16''"
    "d_Name dev = deriveName (av_FriendlyName d) (av_ID d) (config_names c)"
    using built_facts[OF assms(2,1)] by (simp add: plain_request_def) metis
  have buf: "length buf = 8" using assms(11) b(2) by blast
  have few: "length (config_names c) < 10 ^ 6" using assms(4) by (simp add: config_names_def)
  note name = usable_name[OF few, of "av_FriendlyName d" "av_ID d"]
  have "8000 \<le> rate \<and> rate \<le> 384000 \<and>
      stream_ok rate \<lparr>s_Path = path, s_Mode = mode, s_Channels = channels, s_Bitrate = 0\<rparr>"
    using plain_params[OF assms(1,8,9,10) drawn_path_ok[OF buf]] b(3) by simp
  then have "device_ok dev" using b name assms(5) by (auto simp: device_ok_def)
  then have "config_ok (c\<lparr>c_Devices := c_Devices c @ [dev]\<rparr>)"
    using b name assms(3,4,6) by (intro appended_ok) auto
  moreover have "RuneCount path \<le> 128"
    using RuneCount_le[of path] drawn_path_length[OF buf] b(3) by simp
  then have "ValidateLengths (c\<lparr>c_Devices := c_Devices c @ [dev]\<rparr>) (Some c) = None"
    using b name assms(7) by (intro appended_lengths) (auto simp: MaxNameLen_def)
  ultimately show ?thesis by (simp add: validateWrite_def validation_iff[symmetric])
qed

lemma plain_request_created:
  assumes "sv_store sv = Some s" "Validate (fs_cfg s) = None" "ApplyDefaults (fs_cfg s) = fs_cfg s"
    "length (c_Devices (fs_cfg s)) < 32"
    "TrimSpace devid = devid" "devid \<noteq> ''''" "RuneCount devid \<le> 2048"
    "DetectedDevice p devid = Some d" "devid \<notin> set (configuredIDs p)" "devid \<notin> set (config_ids (fs_cfg s))"
    "\<forall>r \<in> set (av_SupportedRates d). 8000 \<le> r \<and> r \<le> 384000"
    "\<forall>j. \<exists>buf. randRead j = Some buf \<and> length buf = 8" "\<exists>j. drawn_path (the (randRead j)) \<notin> set (config_paths (fs_cfg s))"
  shows "\<exists>dev. ProvisionDevice probe (fs_cfg s) p (Some (plain_request devid)) False p randRead None live sv =
    (Created (live (d_Name dev)) (configDeviceToWireDevice dev),
     sv\<lparr>sv_store := Some (s\<lparr>fs_disk := (fs_cfg s)\<lparr>c_Devices := c_Devices (fs_cfg s) @ [dev]\<rparr>,
                              fs_cfg := (fs_cfg s)\<lparr>c_Devices := c_Devices (fs_cfg s) @ [dev]\<rparr>\<rparr>)\<rparr>)"
proof -
  let ?c = "fs_cfg s" and ?req = "plain_request devid"
  let ?pref = "preferredChannel probe d ?req"
  have d: "d \<in> set (detected_list p)" "av_ID d = devid" using assms(8) by (auto simp: DetectedDevice_def find_Some_iff)
  have "\<not> list_ex (\<lambda>d. d_Device d = devid) (c_Devices ?c)"
    using assms(10) by (auto simp: config_ids_def list_ex_iff)
  moreover have "unavailable p devid = None"
    using assms(9) d by (auto simp: list_ex_iff unavailable_def AvailableDevices_def)
  ultimately have free: "\<not> list_ex (\<lambda>d. d_Device d = devid) (c_Devices ?c)" "unavailable p devid = None" .
  have prep: "provision_prepare probe ?c p (Some ?req) = Inr (d, ?req, ?pref)"
    using assms(5,6,8) free by (simp add: provision_prepare_def plain_request_def)
  obtain j where j: "drawn_path (the (randRead j)) \<notin> set (config_paths ?c)" using assms(13) by blast
  have "randomPath (config_paths ?c) randRead 0 \<noteq> None"
    using j assms(12) by (intro randomPath_returns[of _ j]) (metis option.sel, simp)
  then obtain r where r: "randomPath (config_paths ?c) randRead 0 = Some r" by blast
  have draw: "randRead j \<noteq> None" for j using assms(12)[rule_format, of j] by auto
  have "r \<noteq> None"
  proof
    assume "r = None"
    with randomPath_result[OF r] obtain j where "randRead j = None" by auto
    with draw show False by blast
  qed
  obtain mode rate channels where c: "chooseParams d ?req ?pref = (mode, rate, channels)" by (metis prod_cases3)
  have "\<exists>dev. buildProvisionedDevice randRead ?c d ?req ?pref = Some (Some dev)"
    using r c \<open>r \<noteq> None\<close> by (auto simp: buildProvisionedDevice_def Let_def)
  then obtain dev where dev: "buildProvisionedDevice randRead ?c d ?req ?pref = Some (Some dev)" by blast
  have draws: "\<forall>j buf. randRead j = Some buf \<longrightarrow> length buf = 8" using assms(12) by (metis option.inject)
  have "validateWrite (?c\<lparr>c_Devices := c_Devices ?c @ [dev]\<rparr>) ?c = None"
    using plain_built[OF c dev _ assms(4) _ _ _ assms(11) _ _ draws] assms(2,6,7,10) d preferred_range[of probe d ?req]
    by (simp add: validation_iff)
  then have "provision_mutate randRead d ?req ?pref ?c = Inr (?c\<lparr>c_Devices := c_Devices ?c @ [dev]\<rparr>)"
    using dev free append_defaulted[OF assms(3) built_default[OF dev]]
    by (simp add: provision_mutate_def plain_request_def)
  then show ?thesis
    using assms(1) prep free dev
    by (intro exI[of _ dev]) (simp add: ProvisionDevice_def provision_locked_def store_Update_def plain_request_def)
qed

text \<open>
  C21. Setting up a detected device with one click always works: a request that names only the
  device is answered with the created device whenever the stored configuration is valid and has
  fewer than 32 devices, the host offers the device and no entry owns it, its probed rates are
  within the supported band, some draw of the random source is a fresh path, and the file can be
  written; whatever the level measurement gives, the name, the path and the stream parameters the
  appliance derives pass validation.
\<close>
theorem a_plain_request_is_provisioned:
  assumes "sv_store sv = Some s" "Validate (fs_cfg s) = None" "ApplyDefaults (fs_cfg s) = fs_cfg s"
    "length (c_Devices (fs_cfg s)) < 32"
    "TrimSpace devid = devid" "devid \<noteq> ''''" "RuneCount devid \<le> 2048"
    "DetectedDevice p devid = Some d" "devid \<notin> set (configuredIDs p)" "devid \<notin> set (config_ids (fs_cfg s))"
    "\<forall>r \<in> set (av_SupportedRates d). 8000 \<le> r \<and> r \<le> 384000"
    "\<forall>j. \<exists>buf. randRead j = Some buf \<and> length buf = 8" "\<exists>j. drawn_path (the (randRead j)) \<notin> set (config_paths (fs_cfg s))"
  shows "\<exists>dev. ProvisionDevice probe (fs_cfg s) p (Some (plain_request devid)) False p randRead None live sv =
    (Created (live (d_Name dev)) (configDeviceToWireDevice dev),
     sv\<lparr>sv_store := Some (s\<lparr>fs_disk := (fs_cfg s)\<lparr>c_Devices := c_Devices (fs_cfg s) @ [dev]\<rparr>,
                              fs_cfg := (fs_cfg s)\<lparr>c_Devices := c_Devices (fs_cfg s) @ [dev]\<rparr>\<rparr>)\<rparr>)"
  using assms by (rule plain_request_created)

definition demo_device :: availableDevice where
  "demo_device = \<lparr>av_ID = ''hw:1'', av_HWAddr = '''', av_IDStable = True, av_FriendlyName = ''mic'',
     av_SupportedRates = [48000], av_SupportedChannels = []\<rparr>"

definition demo_host :: provider where
  "demo_host = \<lparr>pv_detected = Some [demo_device], pv_configured = Some [], pv_devices = []\<rparr>"

definition demo_server :: "bool \<Rightarrow> server" where
  "demo_server reloader = \<lparr>sv_store = Some \<lparr>fs_cfg = Default, fs_disk = Default\<rparr>, sv_guard = Some (NewGuard ''''),
     sv_notifier = True, sv_reloader = reloader\<rparr>"

lemma demo_facts:
  "sv_store (demo_server b) = Some \<lparr>fs_cfg = Default, fs_disk = Default\<rparr>"
  "ApplyDefaults Default = Default" "c_Devices Default = []"
  "TrimSpace ''hw:1'' = ''hw:1''" "RuneCount ''hw:1'' \<le> 2048"
  "DetectedDevice demo_host ''hw:1'' = Some demo_device" "configuredIDs demo_host = []"
  by (simp add: demo_server_def, simp add: Default_def ApplyDefaults_idem, simp add: Default_def ApplyDefaults_fields zero_config_def,
      code_simp, code_simp, simp_all add: demo_host_def DetectedDevice_def detected_list_def demo_device_def configuredIDs_def)

lemma demo_lists [simp]: "config_ids Default = []" "config_names Default = []" "config_paths Default = []"
  by (simp_all add: config_ids_def config_names_def config_paths_def demo_facts)

abbreviation demo_draws :: "nat \<Rightarrow> u8 list option" where
  "demo_draws \<equiv> \<lambda>j. Some (replicate 8 0)"

theorem a_plain_request_is_provisioned_witness:
  "\<exists>(w :: wireDevice) sv'. ProvisionDevice None Default demo_host (Some (plain_request ''hw:1'')) False demo_host demo_draws None
     (\<lambda>_. None) (demo_server True) = (Created None w, sv')"
proof -
  let ?s = "\<lparr>fs_cfg = Default, fs_disk = Default\<rparr>"
  have "Validate (fs_cfg ?s) = None" "ApplyDefaults (fs_cfg ?s) = fs_cfg ?s" "length (c_Devices (fs_cfg ?s)) < 32"
    by (simp_all add: Default_valid demo_facts)
  from a_plain_request_is_provisioned[OF demo_facts(1)[of True] this demo_facts(4) _ demo_facts(5,6), of demo_draws None "\<lambda>_. None"]
  show ?thesis by (auto simp: demo_facts demo_device_def)
qed


end
