(* ===== verification/Mgmt_Api.thy ===== *)
theory Mgmt_Api
  imports Mgmt_Devices
begin

text \<open>
  The management API's writes together: configuration patches, devices set up and devices removed, in
  any order (the handlers hold \<open>patchMu\<close> from the write to the end of the reload, so one finishes before
  the next begins), with any outcome of the saves and the reloads. What the store, the file, the token
  guard and the notification center hold afterwards.
\<close>

section \<open>Runs\<close>

datatype api_op =
    APatch "configPatch option" "string option" reload_result
  | AProvision "channelProbe option" config provider "provisionRequest option" bool provider
      "nat \<Rightarrow> u8 list option" "string option" "string \<Rightarrow> wireDevice option"
  | ADelete string "string option"

fun api_step :: "api_op \<Rightarrow> server \<Rightarrow> pub_call list \<times> server" where
  "api_step (APatch patch save r) sv = snd (PatchConfig patch save r sv)"
| "api_step (AProvision probe cfg0 p0 request cancelled p randRead save live) sv =
     ([], snd (ProvisionDevice probe cfg0 p0 request cancelled p randRead save live sv))"
| "api_step (ADelete name save) sv = ([], snd (DeleteDevice name save sv))"

fun api_run :: "api_op list \<Rightarrow> server \<Rightarrow> pub_call list \<times> server" where
  "api_run [] sv = ([], sv)"
| "api_run (op # ops) sv =
     (case api_step op sv of (calls, sv') \<Rightarrow> apfst (append calls) (api_run ops sv'))"

text \<open>
  The only ways a step changes the server: a patch, which may change every part of the configuration,
  and a device set up or removed, which keeps everything but the device list.
\<close>

definition stores :: "server \<Rightarrow> config \<Rightarrow> guard option \<Rightarrow> server \<Rightarrow> bool" where
  "stores sv c' g sv' \<longleftrightarrow> (\<exists>s. sv_store sv = Some s \<and>
     sv' = sv\<lparr>sv_store := Some (s\<lparr>fs_disk := c', fs_cfg := c'\<rparr>), sv_guard := g\<rparr> \<and>
     Validate c' = None \<and> ApplyDefaults c' = c')"

lemma DeleteDevice_step:
  assumes "DeleteDevice name save sv = (resp, sv')"
  obtains (kept) "sv' = sv"
  | (stored) c' s where "sv_store sv = Some s" "c_Token c' = c_Token (fs_cfg s)" "stores sv c' (sv_guard sv) sv'"
proof (cases "sv_store sv")
  case None
  with assms kept show thesis by (simp add: DeleteDevice_def)
next
  case (Some s)
  show thesis
  proof (cases "delete_mutate name (fs_cfg s)")
    case (Inl e)
    with assms Some kept show thesis by (auto simp: DeleteDevice_def store_Update_def split: option.splits)
  next
    case (Inr c')
    then have c': "Validate c' = None" "ApplyDefaults c' = c'" "c_Token c' = c_Token (fs_cfg s)"
      by (auto simp: delete_mutate_def Let_def ApplyDefaults_idem ApplyDefaults_fields split: if_splits option.splits)
    show thesis
    proof (cases save)
      case None
      with assms Some Inr c' show thesis
        by (intro stored[of s c']) (auto simp: DeleteDevice_def store_Update_def stores_def)
    next
      case save: (Some e)
      with assms Some Inr kept show thesis by (auto simp: DeleteDevice_def store_Update_def)
    qed
  qed
qed

lemma ProvisionDevice_step:
  assumes "ProvisionDevice probe cfg0 p0 request cancelled p randRead save live sv = (resp, sv')"
  obtains (kept) "sv' = sv"
  | (stored) c' s where "sv_store sv = Some s" "c_Token c' = c_Token (fs_cfg s)" "stores sv c' (sv_guard sv) sv'"
proof (cases "sv' = sv")
  case False
  then obtain detected req preferred where
    "provision_locked cancelled p randRead save live (detected, req, preferred) sv = (resp, sv')"
    using assms by (auto simp: ProvisionDevice_def split: option.splits sum.splits)
  then show thesis
  proof (cases rule: provision_locked_cases)
    case (created s dev c')
    then have "Validate c' = None" "ApplyDefaults c' = c'" "c_Token c' = c_Token (fs_cfg s)"
      by (auto simp: validateWrite_def ApplyDefaults_idem ApplyDefaults_fields split: option.splits)
    with created show thesis by (intro stored[of s c']) (auto simp: stores_def)
  qed (use False in simp)
qed (rule kept)

lemma api_step_cases:
  assumes "api_step op sv = (calls, sv')"
  obtains (kept) "calls = []" "sv' = sv"
      "\<And>p save r s c'. op = APatch (Some p) save r \<Longrightarrow> sv_store sv = Some s \<Longrightarrow> \<not> empty_patch p \<Longrightarrow>
        patch_mutate p (fs_cfg s) = Inr c' \<Longrightarrow> save \<noteq> None"
  | (patched) p c' s save r auth g where "op = APatch (Some p) save r" "sv_store sv = Some s"
      "\<not> empty_patch p" "patch_mutate p (fs_cfg s) = Inr c'" "save = None"
      "enforce_token (sv_notifier sv) (c_Token c') (sv_guard sv) = (auth, g)"
      "calls = auth @ fst (reload_calls sv r)" "stores sv c' g sv'"
  | (devices) c' s where "\<And>patch save r. op \<noteq> APatch patch save r" "calls = []"
      "sv_store sv = Some s" "c_Token c' = c_Token (fs_cfg s)" "stores sv c' (sv_guard sv) sv'"
proof (cases op)
  case (APatch patch save r)
  obtain resp where "PatchConfig patch save r sv = (resp, calls, sv')"
    using assms APatch by (cases "PatchConfig patch save r sv") auto
  then show thesis
  proof (cases rule: PatchConfig_cases)
    case (stored s p c' auth g)
    with APatch patch_mutate_ok[OF stored(4)] show thesis
      by (intro patched[of p save r s c' auth g]) (auto simp: stores_def)
  next
    case kept': kept
    show thesis by (rule kept) (use kept' APatch in auto)
  qed
next
  case (AProvision probe cfg0 p0 request cancelled p randRead save live)
  obtain resp where "ProvisionDevice probe cfg0 p0 request cancelled p randRead save live sv = (resp, sv')" "calls = []"
    using assms AProvision by (cases "ProvisionDevice probe cfg0 p0 request cancelled p randRead save live sv") auto
  then show thesis using AProvision kept devices
    by (elim ProvisionDevice_step) auto
next
  case (ADelete name save)
  obtain resp where "DeleteDevice name save sv = (resp, sv')" "calls = []"
    using assms ADelete by (cases "DeleteDevice name save sv") auto
  then show thesis using ADelete kept devices by (elim DeleteDevice_step) auto
qed

section \<open>What is stored is what is enforced and shown\<close>

definition server_sound :: "server \<Rightarrow> bool" where [inv_defs]:
  "server_sound sv \<longleftrightarrow>
     (case sv_store sv of
        None \<Rightarrow> True
      | Some s \<Rightarrow> fs_disk s = fs_cfg s \<and> Validate (fs_cfg s) = None \<and> ApplyDefaults (fs_cfg s) = fs_cfg s \<and>
          (case sv_guard sv of None \<Rightarrow> True | Some g \<Rightarrow> guard_current (Some g) = c_Token (fs_cfg s)))"

lemma enforced: "enforce_token b t go = (auth, g') \<Longrightarrow>
    (case g' of None \<Rightarrow> go = None | Some g \<Rightarrow> go \<noteq> None \<and> guard_current (Some g) = t)"
    (is "_ \<Longrightarrow> ?thesis")
proof (cases go)
  case (Some g)
  then show "enforce_token b t go = (auth, g') \<Longrightarrow> ?thesis" by (auto simp: enforce_token_Some)
qed (auto simp: enforce_token_def)

lemma server_sound_step:
  assumes "server_sound sv" "api_step op sv = (calls, sv')"
  shows "server_sound sv'"
  using assms(2)
proof (cases rule: api_step_cases)
  case (patched p c' s save r auth g)
  then show ?thesis using enforced[OF patched(6)]
    by (auto simp: server_sound_def stores_def split: option.splits)
qed (use assms(1) in \<open>auto simp: server_sound_def stores_def split: option.splits\<close>)

lemma server_sound_run: "server_sound sv \<Longrightarrow> server_sound (snd (api_run ops sv))"
proof (induction ops arbitrary: sv)
  case (Cons op ops)
  obtain calls sv' where "api_step op sv = (calls, sv')" by (cases "api_step op sv")
  with Cons server_sound_step show ?case by simp
qed simp

text \<open>
  C9. Whatever the API is asked to write, in any order and with any saves and reloads failing,
  the configuration in memory is the one in the file, it is valid with every default applied, a
  read of it does not panic, and the token the read shows is the one the guard enforces.
\<close>
theorem what_is_stored_is_enforced_and_shown:
  assumes "sv_store sv = Some s" "server_sound sv" "sv' = snd (api_run ops sv)"
  shows "\<exists>s' w. sv_store sv' = Some s' \<and> fs_disk s' = fs_cfg s' \<and> Validate (fs_cfg s') = None \<and>
    ApplyDefaults (fs_cfg s') = fs_cfg s' \<and> GetConfig sv' = GotConfig w \<and> wc_Auth w = Some (c_Token (fs_cfg s')) \<and>
    (case sv_guard sv' of None \<Rightarrow> True | Some g \<Rightarrow> wc_Auth w = Some (guard_current (Some g)))"
proof -
  have keeps: "sv_store (snd (api_run ops sv)) \<noteq> None" if "sv_store sv \<noteq> None" for sv
    using that
  proof (induction ops arbitrary: sv)
    case (Cons op ops)
    obtain calls sv' where st: "api_step op sv = (calls, sv')" by (cases "api_step op sv")
    then have "sv_store sv' \<noteq> None" using Cons.prems
      by (cases rule: api_step_cases) (auto simp: stores_def)
    with Cons.IH st show ?case by simp
  qed simp
  then obtain s' where s': "sv_store sv' = Some s'" using assms(1,3) by blast
  have sound: "server_sound sv'" using server_sound_run[OF assms(2)] assms(3) by simp
  with s' have c: "fs_disk s' = fs_cfg s'" "Validate (fs_cfg s') = None" "ApplyDefaults (fs_cfg s') = fs_cfg s'"
    by (simp_all add: server_sound_def)
  obtain w where w: "configToWire (fs_cfg s') = Some w"
    using readable[OF c(3)] by blast
  then have "wc_Auth w = Some (c_Token (fs_cfg s'))" by (auto simp: configToWire_def split: option.splits)
  with c s' w sound show ?thesis by (auto simp: GetConfig_def server_sound_def split: option.splits)
qed

section \<open>What is announced\<close>

text \<open>The tokens stored after each operation, and the announcements a sequence of tokens calls for.\<close>

definition token_of :: "server \<Rightarrow> string" where
  "token_of sv = (case sv_store sv of None \<Rightarrow> '''' | Some s \<Rightarrow> c_Token (fs_cfg s))"

fun stored_tokens :: "api_op list \<Rightarrow> server \<Rightarrow> string list" where
  "stored_tokens [] sv = []"
| "stored_tokens (op # ops) sv = (case api_step op sv of (calls, sv') \<Rightarrow> token_of sv' # stored_tokens ops sv')"

fun announcements :: "string \<Rightarrow> string list \<Rightarrow> notification list" where
  "announcements t [] = []"
| "announcements t (u # us) =
     (if u = t then [] else [AuthChangedNotification (t \<noteq> '''') (u \<noteq> '''')]) @ announcements u us"

definition is_auth_change :: "pub_call \<Rightarrow> bool" where
  "is_auth_change call = (case call of PPublish n \<Rightarrow> n_Title n = ''Access control changed'' | _ \<Rightarrow> False)"

text \<open>
  The condition "restart required" as the operations leave it: a stored patch that the reload could not
  apply, or that no reloader applied, needs a restart; one that was applied live needs none; a reload cut
  off by its client says nothing.
\<close>

fun restart_pending :: "bool \<Rightarrow> api_op list \<Rightarrow> server \<Rightarrow> bool" where
  "restart_pending pending [] sv = pending"
| "restart_pending pending (op # ops) sv =
     restart_pending
       (case op of
          APatch patch save r \<Rightarrow>
            (if (case (sv_store sv, patch, save) of
                   (Some s, Some p, None) \<Rightarrow> \<not> empty_patch p \<and> (case patch_mutate p (fs_cfg s) of Inl e \<Rightarrow> False | Inr c \<Rightarrow> True)
                 | _ \<Rightarrow> False)
             then (if \<not> sv_reloader sv then True
                   else case r of Reloaded \<Rightarrow> False | NotReloaded e \<Rightarrow> True | Indeterminate e \<Rightarrow> pending)
             else pending)
        | _ \<Rightarrow> pending)
       ops (snd (api_step op sv))"

lemma reload_call_facts:
  "filter is_auth_change (fst (reload_calls sv r)) = []"
  "sv_notifier sv \<Longrightarrow> configRestartKey \<in> calls_effect (fst (reload_calls sv r)) A \<longleftrightarrow>
     (if \<not> sv_reloader sv then True
      else case r of Reloaded \<Rightarrow> False | NotReloaded e \<Rightarrow> True | Indeterminate e \<Rightarrow> configRestartKey \<in> A)"
  by (auto simp: reload_calls_def Let_def is_auth_change_def reloadFailed_def restartRequired_def
      ClearRestartRequired_def configRestartKey_def split: reload_result.split)

lemma auth_call_facts:
  assumes "enforce_token True t (Some g) = (auth, g')"
  shows "filter is_auth_change auth = map PPublish (announcements (guard_current (Some g)) [t])"
    "calls_effect auth A = A"
  using assms by (auto simp: enforce_token_Some is_auth_change_def AuthChangedNotification_def Let_def split: if_splits)

lemma stores_fields:
  "stores sv c' g sv' \<Longrightarrow> sv_notifier sv' = sv_notifier sv \<and> sv_reloader sv' = sv_reloader sv \<and> sv_guard sv' = g \<and>
     token_of sv' = c_Token c' \<and> sv_store sv' \<noteq> None"
  by (auto simp: stores_def token_of_def)

text \<open>What one step publishes, on a server with a guard in step with the store and a notifier.\<close>

lemma step_announces:
  assumes "sv_guard sv = Some g" "guard_current (Some g) = token_of sv" "sv_notifier sv" "api_step op sv = (calls, sv')"
  shows "filter is_auth_change calls = map PPublish (announcements (token_of sv) [token_of sv'])"
    "\<exists>g'. sv_guard sv' = Some g' \<and> guard_current (Some g') = token_of sv'" "sv_notifier sv'"
    "(configRestartKey \<in> calls_effect calls A \<longleftrightarrow> restart_pending (configRestartKey \<in> A) [op] sv)"
proof -
  have "filter is_auth_change calls = map PPublish (announcements (token_of sv) [token_of sv']) \<and>
      (\<exists>g'. sv_guard sv' = Some g' \<and> guard_current (Some g') = token_of sv') \<and> sv_notifier sv' \<and>
      (configRestartKey \<in> calls_effect calls A \<longleftrightarrow> restart_pending (configRestartKey \<in> A) [op] sv)"
    using assms(4)
  proof (cases rule: api_step_cases)
    case kept
    have "restart_pending b [op] sv = b" for b
    proof (cases op)
      case (APatch patch save r)
      have "\<not> (case (sv_store sv, patch, save) of
          (Some s, Some p, None) \<Rightarrow> \<not> empty_patch p \<and> (case patch_mutate p (fs_cfg s) of Inl e \<Rightarrow> False | Inr c \<Rightarrow> True)
        | _ \<Rightarrow> False)"
        using kept(3) APatch
        by (cases "sv_store sv"; cases patch; cases save) (auto split: sum.splits)
      then show ?thesis using APatch by simp
    qed simp_all
    then show ?thesis using kept(1,2) assms(1-3) by simp
  next
    case (patched p c' s save r auth g0)
    note st = stores_fields[OF patched(8)]
    have auth: "enforce_token True (c_Token c') (Some g) = (auth, g0)" using patched(6) assms(1,3) by simp
    obtain g' where g': "g0 = Some g'" "guard_current (Some g') = c_Token c'"
      using enforced[OF auth] by (cases g0) auto
    have "configRestartKey \<in> calls_effect calls A \<longleftrightarrow> configRestartKey \<in> calls_effect (fst (reload_calls sv r)) A"
      by (simp add: patched(7) auth_call_facts(2)[OF auth])
    then show ?thesis
      using patched(1-5,7) st g' assms(2,3) auth_call_facts(1)[OF auth] reload_call_facts(1)[of sv r]
        reload_call_facts(2)[OF assms(3), of r A]
      by simp
  next
    case (devices c' s)
    note st = stores_fields[OF devices(5)]
    have "token_of sv = c_Token c'" using devices(3,4) by (simp add: token_of_def)
    then show ?thesis using devices(1,2) st assms(1-3) by (auto split: api_op.split)
  qed
  then show "filter is_auth_change calls = map PPublish (announcements (token_of sv) [token_of sv'])"
    "\<exists>g'. sv_guard sv' = Some g' \<and> guard_current (Some g') = token_of sv'" "sv_notifier sv'"
    "(configRestartKey \<in> calls_effect calls A \<longleftrightarrow> restart_pending (configRestartKey \<in> A) [op] sv)" by blast+
qed

lemma announcements_append: "announcements t (us @ vs) = announcements t us @ announcements (last (t # us)) vs"
  by (induction us arbitrary: t) auto

lemma restart_pending_Cons:
  "restart_pending b (op # ops) sv = restart_pending (restart_pending b [op] sv) ops (snd (api_step op sv))"
  by simp

lemma api_run_announces:
  assumes "sv_guard sv = Some g" "guard_current (Some g) = token_of sv" "sv_notifier sv" "api_run ops sv = (calls, sv')"
  shows "filter is_auth_change calls = map PPublish (announcements (token_of sv) (stored_tokens ops sv)) \<and>
    (configRestartKey \<in> calls_effect calls A \<longleftrightarrow> restart_pending (configRestartKey \<in> A) ops sv)"
  using assms
proof (induction ops arbitrary: sv g calls A)
  case (Cons op ops)
  obtain c1 sv1 where st: "api_step op sv = (c1, sv1)" by (cases "api_step op sv")
  obtain c2 sv2 where run: "api_run ops sv1 = (c2, sv2)" by (cases "api_run ops sv1")
  have calls: "calls = c1 @ c2" "sv' = sv2" using Cons.prems(4) st run by simp_all
  note ann = step_announces[OF Cons.prems(1-3) st]
  obtain g' where g': "sv_guard sv1 = Some g'" "guard_current (Some g') = token_of sv1" using ann(2) by blast
  have IH: "filter is_auth_change c2 = map PPublish (announcements (token_of sv1) (stored_tokens ops sv1))"
    "(configRestartKey \<in> calls_effect c2 (calls_effect c1 A) \<longleftrightarrow>
        restart_pending (configRestartKey \<in> calls_effect c1 A) ops sv1)"
    using Cons.IH[OF g' ann(3), of c2 "calls_effect c1 A"] run calls(2) by blast+
  have "restart_pending (configRestartKey \<in> A) (op # ops) sv =
      restart_pending (configRestartKey \<in> calls_effect c1 A) ops sv1"
    using restart_pending_Cons[of "configRestartKey \<in> A" op ops sv]
    by (simp only: ann(4)[of A, symmetric] st snd_conv)
  then show ?case using IH ann(1) st by (simp add: calls del: restart_pending.simps)
qed simp

lemma api_run_keys: "\<forall>call \<in> set (fst (api_run ops sv)). call_keys call \<subseteq> {configRestartKey}"
proof (induction ops arbitrary: sv)
  case (Cons op ops)
  obtain calls sv' where st: "api_step op sv = (calls, sv')" by (cases "api_step op sv")
  have auth: "enforce_token b t go = (auth, g') \<Longrightarrow> \<forall>call \<in> set auth. call_keys call = {}" for b t go auth g'
    by (cases go) (auto simp: enforce_token_Some split: if_splits, simp add: enforce_token_def)
  have "\<forall>call \<in> set (fst (reload_calls sv r)). call_keys call \<subseteq> {configRestartKey}" for r
    by (auto simp: reload_calls_def restartRequired_def ClearRestartRequired_def split: reload_result.split)
  note reload = this
  have "\<forall>call \<in> set calls. call_keys call \<subseteq> {configRestartKey}"
    using st
  proof (cases rule: api_step_cases)
    case (patched p c' s save r auth g)
    then show ?thesis using auth[OF patched(6)] reload[of r] by auto
  qed simp_all
  with Cons.IH[of sv'] st show ?case by (cases "api_run ops sv'") auto
qed simp


section \<open>Concrete runs\<close>

definition demo_patch :: configPatch where
  "demo_patch = \<lparr>cp_Discovery = None, cp_Auth = Some (Some ''abcdefghijkl''), cp_Notifications = None, cp_Updates = None,
     cp_Devices = None\<rparr>"

lemma demo_token_stored: "patch_mutate demo_patch Default = Inr (Default\<lparr>c_Token := ''abcdefghijkl''\<rparr>)"
proof -
  let ?c = "Default\<lparr>c_Token := ''abcdefghijkl''\<rparr>"
  have "list_all unreserved ''abcdefghijkl''" by code_simp
  moreover have "config_ok Default" using Default_valid by (simp add: validation_iff)
  ultimately have "config_ok ?c"
    by (simp add: config_ok_def config_names_def config_ids_def config_paths_def ManagementEnabled_def)
  moreover have "ValidateLengths ?c (Some Default) = None"
    using lengths_cap_only_what_a_write_introduces[of ?c Default]
    by (simp add: config_names_def config_ids_def config_paths_def)
  moreover have "ApplyDefaults ?c = ?c" using demo_facts(2) unfolding defaulted_iff by simp
  ultimately show ?thesis
    by (simp add: patch_mutate_def mergeBlocks_def demo_patch_def validateWrite_def validation_iff[symmetric])
qed

abbreviation demo_run :: "api_op list" where
  "demo_run \<equiv> [APatch (Some demo_patch) None (NotReloaded ''down''), ADelete ''mic'' None]"

lemma demo_server_sound: "server_sound (demo_server b)"
  by (simp add: server_sound_def demo_server_def Default_valid demo_facts(2) NewGuard_def)
    (simp add: Default_def ApplyDefaults_fields zero_config_def)

lemma demo_guard:
  "sv_guard (demo_server b) = Some (NewGuard '''')" "guard_current (Some (NewGuard '''')) = token_of (demo_server b)"
  "sv_notifier (demo_server b)" "token_of (demo_server b) = ''''"
  by (simp_all add: demo_server_def NewGuard_def token_of_def Default_def ApplyDefaults_fields zero_config_def)

lemma demo_tokens: "\<exists>us. stored_tokens demo_run (demo_server b) = ''abcdefghijkl'' # us"
  by (simp add: PatchConfig_def demo_server_def demo_token_stored store_Update_def token_of_def case_prod_unfold)
    (simp add: demo_patch_def)

theorem what_is_stored_is_enforced_and_shown_witness:
  "\<exists>s' w. sv_store (snd (api_run demo_run (demo_server True))) = Some s' \<and> Validate (fs_cfg s') = None \<and>
     GetConfig (snd (api_run demo_run (demo_server True))) = GotConfig w \<and> wc_Auth w = Some (c_Token (fs_cfg s'))"
  using what_is_stored_is_enforced_and_shown[OF demo_facts(1)[of True] demo_server_sound refl, of demo_run] by blast


end
