(* ===== verification/Spec2Isabelle.thy ===== *)
theory Spec2Isabelle
  imports Notify_Center Sse Update_Version Release_Manifest Config_Validate Reload_Plan Audio_Capture Audio_Fanout Pipeline_Frames Rtsp_Server Rtsp_Writer Levels Monitor_Signal Appliance_Unattended Monitor_Host Update_Safety Update_Manager Mgmt_Api
begin

text \<open>
  BirdNET-Go Remote Mic captures audio from the sound cards of a small Linux host, encodes it (Opus or
  uncompressed L16) and serves it as RTSP/RTP streams, advertised by mDNS, with a management API, a
  notification center, condition monitors and a self-update. This development translates the
  program's own logic (the Go code under \<open>internal/\<close> and \<open>cmd/remotemic/\<close>) into functions and proves
  what the parts promise, alone and together.

  \<^bold>\<open>How the parts interact.\<close> The run loop of \<open>cmd/remotemic\<close> owns the devices: it opens captures,
  retries what fails, applies new configurations by a reload plan, reacts to hardware changes, and
  tells the RTSP server, the level hub, the mDNS announcer and the notification center. A capture
  feeds a fan-out; each stream's pipeline turns the periods into RTP frames and pushes them to the
  feed of its RTSP track; an RTSP connection that plays has a subscriber of the feed and a writer.
  The management API changes the stored configuration, hands the access token to the guard that the
  RTSP connections read, and asks for a reload. The signal, host and update monitors raise and clear
  conditions in the notification center, which broadcasts to SSE subscribers. The updater that runs
  as root installs a release that the update manager has staged.

  \<^bold>\<open>Conventions.\<close> A method that changes state is a function from the state to the state, with what it
  returns and what it tells other components. The clock, system calls, random bytes and the answers of
  libraries are arguments: a world, an environment or a list of inputs, over which theorems quantify.
  Errors are values of a sum type or an enumeration, in place of the English text. A goroutine's
  locked sections are the steps of a relation or the elements of a sequence, in any order. Machine
  integers whose width matters are words (\<open>Prelude\<close>: RTP positions, timestamps, counters, samples).
  Log lines are left out unless they are the only record of an event.

  \<^bold>\<open>Theories.\<close>
  \<^item> \<open>Prelude\<close>, \<open>Go_Strings\<close>, \<open>Media\<close>: shared types, Go's time, string and UTF-8 functions, and the
    period and frame types of \<open>internal/audio/source.go\<close> and \<open>internal/pipeline/pipeline.go\<close>.
  \<^item> \<open>Notify_Ring\<close>, \<open>Notify_Detect\<close>, \<open>Notify_Center\<close> (\<open>internal/notify\<close>): the bounded history, the
    hysteresis and edge detectors and the center with its pinned conditions. The locales
    \<open>bounded_history\<close> and \<open>publisher\<close> are the contracts of the ring towards the center and of the
    center towards the monitors. Shown: the history is the latest entries in order, a detector fires exactly when
    its history of readings says so, and a snapshot is complete and ordered. \<open>Sse\<close> (\<open>internal/sse\<close>):
    the broadcaster and the event stream of one client.
  \<^item> \<open>Auth_Guard\<close> (\<open>internal/auth\<close>): the token, its generation, HTTP basic and digest checks, the
    locale \<open>versioned\<close> and the step relation \<open>set_step\<close> of concurrent changes.
  \<^item> \<open>Config\<close>, \<open>Config_Validate\<close> (\<open>internal/config/config.go\<close>): the configuration, the migration of
    older files, defaults, and validation in the order of the code, compared with a declarative
    specification of what is valid.
  \<^item> \<open>Reload_Plan\<close> (\<open>internal/reload/plan.go\<close>): the actions that take the running devices to a new
    configuration, and that they do.
  \<^item> \<open>Audio_Capture\<close>, \<open>Audio_Fanout\<close> (\<open>internal/audio\<close>), \<open>Pipeline\<close>, \<open>Pipeline_Spec\<close>,
    \<open>Pipeline_Frames\<close> (\<open>internal/pipeline\<close>), \<open>Levels\<close> (\<open>internal/levels\<close>): sample reductions, opening a
    capture, distribution with drop counting, the packetizing stages and their gates, and metering.
    The Opus stage is compared with a reference that regroups the samples declaratively.
  \<^item> \<open>Rtsp_Feed\<close>, \<open>Rtsp_Session\<close>, \<open>Rtsp_Server\<close>, \<open>Rtsp_Writer\<close> (\<open>internal/rtspserver\<close>): the feed with
    its locale \<open>frame_feed\<close> and step relation \<open>feed_step\<close>, one connection's handlers, any number of
    connections together (\<open>srv_step\<close>), and the RTP packets on the wire (\<open>wire_ok\<close>).
  \<^item> \<open>Monitor_Conditions\<close>, \<open>Monitor_Signal\<close>, \<open>Monitor_Host\<close> (\<open>internal/monitor\<close>): the audio and host
    monitors; the locale \<open>subject_conditions\<close> holds what both share about conditions of a subject.
  \<^item> \<open>Announce\<close> (\<open>internal/announce\<close> and the records of \<open>main.go\<close>): advertised names and records.
  \<^item> \<open>Appliance_State\<close>, \<open>Appliance\<close> (\<open>appliance.go\<close>, \<open>retry.go\<close>, \<open>geometry.go\<close> of \<open>cmd/remotemic\<close>):
    the state and every handler of the run loop. \<open>Appliance_Inv\<close> and \<open>Appliance_Loop\<close> carry the
    invariant, one device at a time, through all handlers and all sequences of events;
    \<open>Appliance_Props\<close>, \<open>Appliance_Cards\<close> and \<open>Appliance_Unattended\<close> draw the consequences.
  \<^item> \<open>Release_Version\<close>, \<open>Release_Manifest\<close> (\<open>internal/releasemanifest\<close>), \<open>Update_Version\<close>,
    \<open>Update_Apply\<close>, \<open>Update_Safety\<close>, \<open>Update_Manager\<close> (\<open>internal/update\<close>): version order (an
    \<open>instantiation\<close> of \<open>linorder\<close>), the signed manifest, the root updater with every point where it can
    be cut, and the manager's checks and attempts.
  \<^item> \<open>Mgmt_Config\<close>, \<open>Mgmt_Devices\<close>, \<open>Mgmt_Api\<close> (\<open>internal/mgmtserver\<close>): configuration patches, the
    setup and removal of devices, and any sequence of these writes.

  \<^bold>\<open>What the properties say.\<close> C1 to C40 stand in the theories of the components they are about.
  Access: only the active token opens the RTSP server, and the token shown, stored and enforced is
  one. Media: feeds serve exactly the playing connections, every client gets its own session's frames
  in order, an Opus frame is 960 consecutive instants, and packets on the wire are numbered and
  timed without a gap. Operation: conditions mirror the devices, every outage has a pending retry,
  two devices never share a card, and no unattended event opens a card by index. Configuration: what is
  accepted is valid, a plan reaches it, and a read written back changes nothing. Updates: only verified
  binaries are installed, a cut never leaves an unconfirmed one, and the reported version is the
  installed one.

  \<^bold>\<open>Termination.\<close> Most loops are structural recursion; the others have a measure (the decreasing
  text in \<open>strip_blocks\<close> and \<open>RuneCount\<close>, the taken names in \<open>unique_name\<close>, the unread input in
  \<open>serve_buf\<close>). Three loops that the code does not bound are \<open>partial_function\<close>s into \<open>option\<close>:
  \<open>free_name\<close> of \<open>Announce\<close>, \<open>opus_fill\<close> of \<open>Pipeline\<close> and \<open>randomPath\<close> of \<open>Mgmt_Devices\<close>; that they
  return is proved for the first two and stated as a hypothesis on the random bytes for the third. No
  definition takes fuel.

  \<^bold>\<open>Not modelled.\<close> Libraries are parameters: the capture library, the Opus encoder, the RTSP message
  parser, the hash functions, Ed25519, YAML and JSON, mDNS. Code that is wiring or I/O is left out:
  the command line, the HTTP server's routing, static files, compression and certificates, service
  installation, reading of host facts from \<open>/proc\<close> and \<open>/sys\<close>, run locks and atomic file writes
  (assumed to replace a file wholly or not at all), and the generated API glue. Go's memory model, the sharing
  of slices and maps after a copy, and the rounding of \<open>float64\<close> are not represented.
\<close>

end
